(* ===== verification/Go_Prelude.thy ===== *)
theory Go_Prelude
  imports Main "HOL-Library.Word"
begin

text \<open>
  Shared vocabulary of the development: the Go integers and times the programs compute
  with, formatting of integers, and generic lemmas on lists and maps.

  \<^item> \<open>int64\<close>, \<open>time.Duration\<close> and \<open>int\<close> are HOL integers; an operation that can
    overflow is followed by \<open>wrap64\<close>, which reduces to the signed 64-bit range.
  \<^item> A \<open>time.Time\<close> is the number of nanoseconds since the zero \<open>time.Time\<close>
    (January 1, year 1, UTC). \<open>Time.Add\<close> is addition; \<open>Time.Sub\<close> saturates at the
    extreme durations, as its documentation says.
  \<^item> Integer division truncates towards zero (\<open>go_quot\<close>).
\<close>

section \<open>Named collections\<close>

named_theorems dur_simps \<open>evaluation of duration and time arithmetic that stays in range\<close>

section \<open>Integers of width 64\<close>

type_synonym duration = int
type_synonym gotime = int

definition max64 :: int where
  "max64 = 9223372036854775807"

definition min64 :: int where
  "min64 = - 9223372036854775808"

definition wrap64 :: "int \<Rightarrow> int" where
  "wrap64 x = (x + 9223372036854775808) mod 18446744073709551616 - 9223372036854775808"

definition sat64 :: "int \<Rightarrow> int" where
  "sat64 x = max min64 (min max64 x)"

definition in64 :: "int \<Rightarrow> bool" where
  "in64 x \<longleftrightarrow> min64 \<le> x \<and> x \<le> max64"

text \<open>The sizes for which \<open>make\<close> gives a slice or a channel; it panics on all others. The largest one depends on
  the platform and on the size of an element, so it is a parameter (\<open>limit\<close>) wherever \<open>make\<close> is modelled.\<close>

definition makeable :: "int \<Rightarrow> int \<Rightarrow> bool" where
  "makeable limit n \<longleftrightarrow> 0 \<le> n \<and> n \<le> limit"

lemma in64_iff: "in64 x \<longleftrightarrow> - 9223372036854775808 \<le> x \<and> x \<le> 9223372036854775807"
  by (simp add: in64_def min64_def max64_def)

lemma wrap64_id [dur_simps]: "in64 x \<Longrightarrow> wrap64 x = x"
  by (simp add: in64_iff wrap64_def)

lemma wrap64_in64: "in64 (wrap64 x)"
proof -
  have "0 \<le> (x + 9223372036854775808) mod 18446744073709551616"
    "(x + 9223372036854775808) mod 18446744073709551616 < 18446744073709551616"
    by simp_all
  then show ?thesis unfolding in64_iff wrap64_def by linarith
qed

lemma wrap64_wrap64: "wrap64 (wrap64 x + y) = wrap64 (x + y)"
  unfolding wrap64_def by (simp add: mod_simps algebra_simps)

lemma sat64_id [dur_simps]: "in64 x \<Longrightarrow> sat64 x = x"
  by (simp add: in64_iff sat64_def min64_def max64_def)

lemma sat64_mono: "x \<le> y \<Longrightarrow> sat64 x \<le> sat64 y"
  by (simp add: sat64_def)

lemma sat64_ge_iff: "min64 < y \<Longrightarrow> y \<le> max64 \<Longrightarrow> y \<le> sat64 x \<longleftrightarrow> y \<le> x"
  by (auto simp: sat64_def min64_def max64_def)

lemma sat64_le_self: "0 \<le> x \<Longrightarrow> sat64 x \<le> x"
  by (simp add: sat64_def min64_def max64_def)

lemma sat64_nonneg_iff: "0 \<le> sat64 x \<longleftrightarrow> 0 \<le> x"
  by (auto simp: sat64_def min64_def max64_def)

text \<open>Truncated division and the time operations of the standard library.\<close>

definition go_quot :: "int \<Rightarrow> int \<Rightarrow> int" where
  "go_quot a b = sgn a * sgn b * (\<bar>a\<bar> div \<bar>b\<bar>)"

definition time_Sub :: "gotime \<Rightarrow> gotime \<Rightarrow> duration" where
  "time_Sub t u = sat64 (t - u)"

definition time_Add :: "gotime \<Rightarrow> duration \<Rightarrow> gotime" where
  "time_Add t d = t + d"

text \<open>\<open>Truncate\<close> rounds down to a multiple of \<open>d\<close> since the zero time.\<close>

definition time_Truncate :: "gotime \<Rightarrow> duration \<Rightarrow> gotime" where
  "time_Truncate t d = (if d \<le> 0 then t else t - t mod d)"

lemma go_quot_nonneg: "0 \<le> a \<Longrightarrow> 0 < b \<Longrightarrow> go_quot a b = a div b"
  by (cases "a = 0") (simp_all add: go_quot_def)

lemma go_quot_bounds:
  assumes "0 \<le> a" and "0 < b"
  shows "go_quot a b * b \<le> a" and "a < (go_quot a b + 1) * b"
proof -
  have "a div b * b + a mod b = a" "0 \<le> a mod b" "a mod b < b" using assms(2) by simp_all
  then show "go_quot a b * b \<le> a" "a < (go_quot a b + 1) * b"
    unfolding go_quot_nonneg[OF assms] distrib_right by linarith+
qed

lemma go_quot_nonpos: "a \<le> 0 \<Longrightarrow> 0 < b \<Longrightarrow> go_quot a b \<le> 0"
  by (cases "a = 0") (simp_all add: go_quot_def pos_imp_zdiv_nonneg_iff)

lemma go_quot_abs_le: "0 < b \<Longrightarrow> \<bar>go_quot a b\<bar> \<le> \<bar>a\<bar>"
proof -
  assume "0 < b"
  then have "\<bar>a\<bar> div \<bar>b\<bar> \<le> \<bar>a\<bar> div 1" "0 \<le> \<bar>a\<bar> div \<bar>b\<bar>"
    by (intro zdiv_mono2, simp_all add: pos_imp_zdiv_nonneg_iff)
  then show ?thesis by (simp add: go_quot_def abs_mult)
qed

lemma pow2_le_div_iff: "0 < (b::int) \<Longrightarrow> (a \<le> m div b) = (a * b \<le> m)"
proof
  assume b: "0 < b" and "a \<le> m div b"
  then have "a * b \<le> m div b * b" by simp
  moreover have "m div b * b + m mod b = m" "0 \<le> m mod b" using b by simp_all
  ultimately show "a * b \<le> m" by linarith
next
  assume b: "0 < b" and "a * b \<le> m"
  then show "a \<le> m div b" using zdiv_mono1[of "a * b" m b] by simp
qed

text \<open>The ceiling of an exponential backoff: the shifts compute the capped product exactly.\<close>

lemma shift_ceiling:
  assumes "0 < base" and "in64 cap" and "0 \<le> (n::int)"
  shows "(if n < 63 \<and> base \<le> cap div 2 ^ nat n then wrap64 (base * 2 ^ nat n) else cap) = min cap (base * 2 ^ nat n)"
proof -
  let ?b = "base * 2 ^ nat n"
  have pos: "(0::int) < 2 ^ nat n" by simp
  have fits: "base \<le> cap div 2 ^ nat n \<longleftrightarrow> ?b \<le> cap" by (rule pow2_le_div_iff[OF pos])
  have big: "cap < ?b" if "63 \<le> n"
  proof -
    have "(2::int) ^ 63 \<le> 2 ^ nat n" by (rule power_increasing) (use that in auto)
    moreover have "1 * 2 ^ nat n \<le> ?b" by (rule mult_right_mono) (use assms(1) in auto)
    moreover have "cap < 2 ^ 63" using assms(2) by (simp add: in64_iff)
    ultimately show ?thesis by linarith
  qed
  have "0 < ?b" using assms(1) pos by (rule mult_pos_pos)
  then have wr: "wrap64 ?b = ?b" if "?b \<le> cap"
    using that assms(2) by (intro wrap64_id) (simp add: in64_iff)
  show ?thesis using fits big wr by (cases "?b \<le> cap") auto
qed

section \<open>Contexts\<close>

text \<open>The error of a context that is done.\<close>

datatype ctx_error = Canceled | DeadlineExceeded

section \<open>Formatting integers\<close>

fun digits :: "nat \<Rightarrow> string" where
  "digits n = (if n < 10 then [char_of (n + 48)] else digits (n div 10) @ [char_of (n mod 10 + 48)])"

declare digits.simps [simp del]

text \<open>\<open>strconv.Itoa\<close> and \<open>strconv.FormatInt\<close> in base ten.\<close>

definition itoa :: "int \<Rightarrow> string" where
  "itoa i = (if i < 0 then CHR ''-'' # digits (nat (- i)) else digits (nat i))"

text \<open>\<open>strconv.Atoi\<close>: an optional sign, one or more decimal digits, in the range of \<open>int\<close>.\<close>

definition is_digit :: "char \<Rightarrow> bool" where
  "is_digit c \<longleftrightarrow> 48 \<le> (of_char c :: nat) \<and> (of_char c :: nat) \<le> 57"

definition digits_value :: "string \<Rightarrow> nat" where
  "digits_value s = foldl (\<lambda>n c. 10 * n + (of_char c - 48)) 0 s"

definition atoi :: "string \<Rightarrow> int option" where
  "atoi s =
     (let (neg, ds) = (case s of c # cs \<Rightarrow> if c = CHR ''-'' then (True, cs) else if c = CHR ''+'' then (False, cs) else (False, s)
                       | [] \<Rightarrow> (False, []));
          v = (if neg then - int (digits_value ds) else int (digits_value ds))
      in if ds \<noteq> [] \<and> list_all is_digit ds \<and> in64 v then Some v else None)"

lemma digits_props:
  "list_all is_digit (digits n)" "digits_value (digits n) = n" "digits n \<noteq> []"
proof (induction n rule: digits.induct)
  case (1 n)
  have d: "is_digit (char_of (k + 48))" "of_char (char_of (k + 48) :: char) - (48::nat) = k" if "k < 10" for k :: nat
    using that by (simp_all add: is_digit_def of_char_of)
  { case 1 show ?case using "1.IH" d[of n] d[of "n mod 10"] by (cases "n < 10") (simp_all add: digits.simps[of n]) }
  { case 2 show ?case using "1.IH" d[of n] d[of "n mod 10"]
      by (cases "n < 10") (simp_all add: digits.simps[of n] digits_value_def) }
  { case 3 show ?case by (simp add: digits.simps[of n]) }
qed

lemma atoi_itoa: "in64 i \<Longrightarrow> atoi (itoa i) = Some i"
proof -
  assume i: "in64 i"
  have hd: "case digits n of c # cs \<Rightarrow> c \<noteq> CHR ''-'' \<and> c \<noteq> CHR ''+'' | [] \<Rightarrow> True" for n
    using digits_props(1)[of n] by (auto simp: is_digit_def split: list.splits)
  show ?thesis
  proof (cases "i < 0")
    case True
    then show ?thesis using i digits_props[of "nat (- i)"] by (simp add: atoi_def itoa_def)
  next
    case False
    then show ?thesis using i digits_props[of "nat i"] hd[of "nat i"]
      by (auto simp: atoi_def itoa_def split: list.splits)
  qed
qed

section \<open>Lists and maps\<close>

lemma length_remove1_last: "xs \<noteq> [] \<Longrightarrow> length (remove1 (last xs) xs) < length xs"
  by (simp add: length_remove1)

lemma distinct_last_notin_butlast: "distinct xs \<Longrightarrow> xs \<noteq> [] \<Longrightarrow> last xs \<notin> set (butlast xs)"
  by (metis append_butlast_last_id distinct_append disjoint_iff list.set_intros(1))

lemma remove1_last_distinct: "distinct xs \<Longrightarrow> xs \<noteq> [] \<Longrightarrow> remove1 (last xs) xs = butlast xs"
  by (metis append_butlast_last_id distinct_last_notin_butlast remove1.simps(2) remove1_append
      append_Nil2)

lemma filter_remove1_distinct:
  "distinct xs \<Longrightarrow> filter P (remove1 x xs) = remove1 x (filter P xs)"
  by (simp add: distinct_remove1_removeAll removeAll_filter_not_eq conj_commute)

end
