(* ===== verification/Float64.thy ===== *)
theory Float64
  imports Go_Prelude Complex_Main "HOL-Library.Log_Nat"
begin

text \<open>
  The \<open>float64\<close> arithmetic of the rate limiter and of the statistics. A finite value is the
  rational number it denotes. Go computes an operation or a conversion exactly and rounds the
  result to the nearest number with a 53-bit significand, ties to even (\<open>rnd64\<close>). The numbers in
  these programs are counts, durations and their ratios, far from the exponent limits, so
  overflow to infinity and subnormals do not arise. A division by zero would leave the finite
  numbers: \<open>f64_div\<close> is then \<open>None\<close>.
\<close>

section \<open>Rounding\<close>

text \<open>The exponent of a positive number: \<open>2 powi e \<le> x < 2 powi (e + 1)\<close>.\<close>

definition bexp :: "rat \<Rightarrow> int" where
  "bexp x = (let (n, d) = quotient_of x; k = bitlen n - bitlen d
             in if 2 powi k \<le> x then k else k - 1)"

text \<open>Round to the nearest integer, ties to even.\<close>

definition rhe :: "rat \<Rightarrow> int" where
  "rhe y = (let f = \<lfloor>y\<rfloor>; r = y - of_int f
            in if r < 1 / 2 then f else if 1 / 2 < r then f + 1 else if even f then f else f + 1)"

definition rnd_pos :: "rat \<Rightarrow> rat" where
  "rnd_pos x = (let e = bexp x - 52 in of_int (rhe (x / 2 powi e)) * 2 powi e)"

definition rnd64 :: "rat \<Rightarrow> rat" where
  "rnd64 x = (if x = 0 then 0 else if 0 < x then rnd_pos x else - rnd_pos (- x))"

section \<open>Operations\<close>

definition f64_of_int :: "int \<Rightarrow> rat" where
  "f64_of_int i = rnd64 (of_int i)"

definition f64_add :: "rat \<Rightarrow> rat \<Rightarrow> rat" where
  "f64_add x y = rnd64 (x + y)"

definition f64_sub :: "rat \<Rightarrow> rat \<Rightarrow> rat" where
  "f64_sub x y = rnd64 (x - y)"

definition f64_mul :: "rat \<Rightarrow> rat \<Rightarrow> rat" where
  "f64_mul x y = rnd64 (x * y)"

definition f64_div :: "rat \<Rightarrow> rat \<Rightarrow> rat option" where
  "f64_div x y = (if y = 0 then None else Some (rnd64 (x / y)))"

text \<open>Conversion to an integer truncates towards zero.\<close>

definition f64_to_int :: "rat \<Rightarrow> int" where
  "f64_to_int x = (if 0 \<le> x then \<lfloor>x\<rfloor> else \<lceil>x\<rceil>)"

section \<open>Facts\<close>

lemma rhe_bounds: "\<lfloor>y\<rfloor> \<le> rhe y" "rhe y \<le> \<lfloor>y\<rfloor> + 1"
  by (simp_all add: rhe_def Let_def)

lemma rhe_mono: assumes "y \<le> z" shows "rhe y \<le> rhe z"
proof (cases "\<lfloor>y\<rfloor> = \<lfloor>z\<rfloor>")
  case True
  with assms show ?thesis by (simp add: rhe_def Let_def)
next
  case False
  with floor_mono[OF assms] have "\<lfloor>y\<rfloor> + 1 \<le> \<lfloor>z\<rfloor>" by simp
  then show ?thesis using rhe_bounds[of y] rhe_bounds[of z] by linarith
qed

lemma rhe_of_int [simp]: "rhe (of_int i) = i"
  by (simp add: rhe_def Let_def)

lemma bexp_bounds:
  assumes "0 < x"
  shows "2 powi bexp x \<le> x" and "x < 2 powi (bexp x + 1)"
proof -
  obtain n d where q: "quotient_of x = (n, d)" by fastforce
  have d: "0 < d" and x: "x = of_int n / of_int d"
    using quotient_of_denom_pos[OF q] quotient_of_div[OF q] by simp_all
  have n: "0 < n" using assms d by (simp add: x zero_less_divide_iff)
  have up: "of_int m < (2::rat) powi bitlen m" and lo: "(2::rat) powi (bitlen m - 1) \<le> of_int m" if "0 < m" for m
  proof -
    have "0 < bitlen m" using that bitlen_eq_zero_iff[of m] bitlen_nonneg[of m] by linarith
    moreover have "(of_int m :: rat) < of_int (2 ^ nat (bitlen m))" "(of_int (2 ^ nat (bitlen m - 1)) :: rat) \<le> of_int m"
      using bitlen_bounds[OF that] by (simp_all only: of_int_less_iff of_int_le_iff)
    ultimately show "of_int m < (2::rat) powi bitlen m" "(2::rat) powi (bitlen m - 1) \<le> of_int m"
      by (simp_all add: power_int_def)
  qed
  let ?k = "bitlen n - bitlen d"
  have dpos: "(0::rat) < of_int d" using d by simp
  have "x < 2 powi (?k + 1)"
  proof -
    have "2 powi (?k + 1) * 2 powi (bitlen d - 1) = (2::rat) powi bitlen n"
      by (simp flip: power_int_add)
    moreover have "2 powi (?k + 1) * (2::rat) powi (bitlen d - 1) \<le> 2 powi (?k + 1) * of_int d"
      using lo[OF d] by (intro mult_left_mono) simp_all
    ultimately have "of_int n < 2 powi (?k + 1) * (of_int d :: rat)" using up[OF n] by linarith
    then show ?thesis using dpos by (simp add: x divide_less_eq)
  qed
  moreover have "2 powi (?k - 1) \<le> x"
  proof -
    have "2 powi (?k - 1) * 2 powi bitlen d = (2::rat) powi (bitlen n - 1)"
      by (simp flip: power_int_add)
    moreover have "2 powi (?k - 1) * (of_int d::rat) \<le> 2 powi (?k - 1) * 2 powi bitlen d"
      using up[OF d] by (intro mult_left_mono) simp_all
    ultimately have "2 powi (?k - 1) * (of_int d::rat) \<le> of_int n" using lo[OF n] by linarith
    then show ?thesis using dpos by (simp add: x le_divide_eq)
  qed
  ultimately show "2 powi bexp x \<le> x" "x < 2 powi (bexp x + 1)"
    by (auto simp: bexp_def q Let_def)
qed

lemma powi2_mono: "a \<le> b \<Longrightarrow> (2::rat) powi a \<le> 2 powi b"
  by (rule power_int_increasing) simp_all

lemma bexp_mono: assumes "0 < x" "x \<le> y" shows "bexp x \<le> bexp y"
proof (rule ccontr)
  assume "\<not> ?thesis"
  then have "(2::rat) powi (bexp y + 1) \<le> 2 powi bexp x" by (intro powi2_mono) simp
  with bexp_bounds[of x] bexp_bounds[of y] assms show False by linarith
qed

text \<open>The rounded value stays between the powers of two around the number.\<close>

lemma rnd_pos_bounds:
  assumes "0 < x"
  shows "2 powi bexp x \<le> rnd_pos x" and "rnd_pos x \<le> 2 powi (bexp x + 1)"
proof -
  let ?e = "bexp x - 52"
  have e0: "(0::rat) < 2 powi ?e" by simp
  have p: "(2::rat) powi bexp x = of_int (2 ^ 52) * 2 powi ?e" "(2::rat) powi (bexp x + 1) = of_int (2 ^ 53) * 2 powi ?e"
    by (simp_all add: power_int_diff power_int_add)
  have "of_int (2 ^ 52) \<le> x / 2 powi ?e" using bexp_bounds(1)[OF assms] e0 p(1) by (simp add: le_divide_eq)
  from rhe_mono[OF this] have "2 ^ 52 \<le> rhe (x / 2 powi ?e)" by (simp only: rhe_of_int)
  then have "of_int (2 ^ 52) \<le> (of_int (rhe (x / 2 powi ?e)) :: rat)" by (simp only: of_int_le_iff)
  then show "2 powi bexp x \<le> rnd_pos x"
    unfolding p(1) rnd_pos_def Let_def using e0 by (intro mult_right_mono) simp_all
  have "x / 2 powi ?e \<le> of_int (2 ^ 53)" using bexp_bounds(2)[OF assms] e0 p(2) by (simp add: divide_le_eq)
  from rhe_mono[OF this] have "rhe (x / 2 powi ?e) \<le> 2 ^ 53" by (simp only: rhe_of_int)
  then have "(of_int (rhe (x / 2 powi ?e)) :: rat) \<le> of_int (2 ^ 53)" by (simp only: of_int_le_iff)
  then show "rnd_pos x \<le> 2 powi (bexp x + 1)"
    unfolding p(2) rnd_pos_def Let_def using e0 by (intro mult_right_mono) simp_all
qed

lemma rnd_pos_mono: assumes "0 < x" "x \<le> y" shows "rnd_pos x \<le> rnd_pos y"
proof (cases "bexp x = bexp y")
  case True
  have "rhe (x / 2 powi (bexp y - 52)) \<le> rhe (y / 2 powi (bexp y - 52))"
    using assms by (intro rhe_mono divide_right_mono) simp_all
  then show ?thesis unfolding rnd_pos_def Let_def True by (intro mult_right_mono) simp_all
next
  case False
  with bexp_mono[OF assms] have "(2::rat) powi (bexp x + 1) \<le> 2 powi bexp y" by (intro powi2_mono) simp
  then show ?thesis using rnd_pos_bounds[of x] rnd_pos_bounds[of y] assms by linarith
qed

lemma rnd_pos_pos: "0 < x \<Longrightarrow> 0 < rnd_pos x"
  using rnd_pos_bounds(1)[of x] zero_less_power_int[of "2::rat" "bexp x"] by linarith

lemma rnd64_0 [simp]: "rnd64 0 = 0"
  by (simp add: rnd64_def)

lemma rnd64_mono: assumes "x \<le> y" shows "rnd64 x \<le> rnd64 y"
proof -
  consider "0 < x" | "x \<le> 0" "0 \<le> y" | "y < 0" using assms by linarith
  then show ?thesis
  proof cases
    case 1
    then show ?thesis using assms rnd_pos_mono[of x y] by (simp add: rnd64_def)
  next
    case 2
    have "rnd64 x \<le> 0" using 2 rnd_pos_pos[of "- x"] by (auto simp: rnd64_def)
    moreover have "0 \<le> rnd64 y" using 2 rnd_pos_pos[of y] by (auto simp: rnd64_def)
    ultimately show ?thesis by linarith
  next
    case 3
    then show ?thesis using assms rnd_pos_mono[of "- y" "- x"] by (simp add: rnd64_def)
  qed
qed

lemma rnd_pos_of_int: assumes "0 < i" "i \<le> 2 ^ 53" shows "rnd_pos (of_int i) = of_int i"
proof -
  let ?x = "of_int i :: rat" and ?e = "bexp (of_int i) - 52"
  have x0: "0 < ?x" using assms by simp
  show ?thesis
  proof (cases "?e \<le> 0")
    case True
    have "?x / 2 powi ?e = of_int (i * 2 ^ nat (- ?e))"
      using True by (simp add: power_int_def field_simps power_inverse)
    then show ?thesis unfolding rnd_pos_def Let_def by (simp only: rhe_of_int) (metis nonzero_eq_divide_eq power_int_not_zero zero_neq_numeral)
  next
    case False
    have "(2::rat) powi 53 \<le> 2 powi bexp ?x" using False by (intro powi2_mono) simp
    with bexp_bounds(1)[OF x0] have "of_int (2 ^ 53) \<le> ?x" by (simp add: power_int_def)
    then have "i = 2 ^ 53" using assms(2) by (simp only: of_int_le_iff)
    have "bexp ?x \<le> 53"
    proof (rule ccontr)
      assume "\<not> ?thesis"
      then have "(2::rat) powi 54 \<le> 2 powi bexp ?x" by (intro powi2_mono) simp
      then have "(2::rat) powi 54 \<le> ?x" using bexp_bounds(1)[OF x0] by linarith
      then show False using \<open>i = 2 ^ 53\<close> by (simp add: power_int_def)
    qed
    then have "?e = 1" using False by simp
    moreover have "?x / 2 powi 1 = of_int (2 ^ 52)" using \<open>i = 2 ^ 53\<close> by simp
    ultimately show ?thesis unfolding rnd_pos_def Let_def using \<open>i = 2 ^ 53\<close> by (simp only: rhe_of_int) simp
  qed
qed

lemma rnd64_of_int: "\<bar>i\<bar> \<le> 2 ^ 53 \<Longrightarrow> rnd64 (of_int i) = of_int i"
  using rnd_pos_of_int[of i] rnd_pos_of_int[of "- i"] by (auto simp: rnd64_def)

lemma f64_of_int_exact: "\<bar>i\<bar> \<le> 2 ^ 53 \<Longrightarrow> f64_of_int i = of_int i"
  by (simp add: f64_of_int_def rnd64_of_int)

lemma rnd64_nonneg: "0 \<le> x \<Longrightarrow> 0 \<le> rnd64 x"
  using rnd64_mono[of 0 x] by simp

lemma rnd64_le_int: "x \<le> of_int i \<Longrightarrow> \<bar>i\<bar> \<le> 2 ^ 53 \<Longrightarrow> rnd64 x \<le> of_int i"
  using rnd64_mono[of x "of_int i"] by (simp add: rnd64_of_int)

lemma rnd64_ge_int: "of_int i \<le> x \<Longrightarrow> \<bar>i\<bar> \<le> 2 ^ 53 \<Longrightarrow> of_int i \<le> rnd64 x"
  using rnd64_mono[of "of_int i" x] by (simp add: rnd64_of_int)

lemma f64_of_int_mono: "i \<le> j \<Longrightarrow> f64_of_int i \<le> f64_of_int j"
  by (simp add: f64_of_int_def rnd64_mono)

lemma f64_of_int_nonneg: "0 \<le> i \<Longrightarrow> 0 \<le> f64_of_int i"
  by (simp add: f64_of_int_def rnd64_nonneg)

lemma f64_of_int_ge_1: "0 < i \<Longrightarrow> 1 \<le> f64_of_int i"
  using f64_of_int_mono[of 1 i] f64_of_int_exact[of 1] by simp

lemma rnd64_numeral: "(numeral n :: int) \<le> 2 ^ 53 \<Longrightarrow> rnd64 (numeral n) = numeral n"
  using rnd64_of_int[of "numeral n"] by simp

lemma rnd64_1: "rnd64 1 = 1"
  using rnd64_of_int[of 1] by simp

lemma f64_of_int_numeral: "(numeral n :: int) \<le> 2 ^ 53 \<Longrightarrow> f64_of_int (numeral n) = numeral n"
  using f64_of_int_exact[of "numeral n"] by simp

lemma f64_of_int_0: "f64_of_int 0 = 0" and f64_of_int_1: "f64_of_int 1 = 1"
  using f64_of_int_exact[of 0] f64_of_int_exact[of 1] by simp_all

text \<open>Evaluation where every intermediate result is an integer.\<close>

lemmas f64_eval = f64_add_def f64_sub_def f64_mul_def f64_div_def f64_to_int_def
  rnd64_numeral rnd64_1 f64_of_int_numeral f64_of_int_0 f64_of_int_1

text \<open>A rounded value is at most twice the exact one.\<close>

lemma rnd64_le_double: assumes "0 \<le> x" shows "rnd64 x \<le> 2 * x"
proof (cases "x = 0")
  case False
  with assms have "0 < x" by simp
  then have "rnd_pos x \<le> 2 * 2 powi bexp x" using rnd_pos_bounds(2)[of x] by (simp add: power_int_add)
  also have "\<dots> \<le> 2 * x" using bexp_bounds(1)[OF \<open>0 < x\<close>] by simp
  finally show ?thesis using \<open>0 < x\<close> by (simp add: rnd64_def)
qed simp

lemma rnd64_minus: "rnd64 (- x) = - rnd64 x"
  by (simp add: rnd64_def)

text \<open>The rounding error, and the quotient of integers: below \<open>2 ^ 53\<close>, truncating the rounded quotient
  gives the integer quotient.\<close>

lemma rhe_error: "\<bar>of_int (rhe y) - y\<bar> \<le> 1 / 2"
proof -
  have "of_int \<lfloor>y\<rfloor> \<le> y" "y < of_int \<lfloor>y\<rfloor> + 1" by linarith+
  then show ?thesis by (auto simp: rhe_def Let_def)
qed

lemma rnd64_error: assumes "0 < x" shows "\<bar>rnd64 x - x\<bar> * 2 ^ 53 \<le> x"
proof -
  define u where "u = (2::rat) powi (bexp x - 52)"
  have u: "0 < u" by (simp add: u_def)
  have "rnd64 x - x = (of_int (rhe (x / u)) - x / u) * u"
    using assms u by (simp add: rnd64_def rnd_pos_def Let_def u_def left_diff_distrib)
  then have "\<bar>rnd64 x - x\<bar> = \<bar>of_int (rhe (x / u)) - x / u\<bar> * u" using u by (simp add: abs_mult)
  also have "\<dots> \<le> 1 / 2 * u" using rhe_error[of "x / u"] u by (intro mult_right_mono) simp_all
  finally have "\<bar>rnd64 x - x\<bar> * 2 ^ 53 \<le> 1 / 2 * u * 2 ^ 53" by simp
  also have "\<dots> = 2 powi bexp x" by (simp add: u_def power_int_diff)
  also have "\<dots> \<le> x" by (rule bexp_bounds(1)[OF assms])
  finally show ?thesis .
qed

lemma rnd64_div_floor:
  assumes "0 \<le> a" "a < 2 ^ 53" "0 < c"
  shows "f64_to_int (rnd64 (of_int a / of_int c)) = a div c"
proof (cases "a = 0")
  case True
  then show ?thesis by (simp add: f64_to_int_def)
next
  case False
  let ?x = "of_int a / of_int c :: rat" and ?m = "a div c"
  have c: "(0::rat) < of_int c" and x: "0 < ?x" using assms False by simp_all
  have m: "0 \<le> ?m" "?m \<le> a" using assms zdiv_mono2[of a 1 c] by (simp_all add: pos_imp_zdiv_nonneg_iff)
  have "?m * c \<le> a" "a + 1 \<le> (?m + 1) * c"
    using assms go_quot_bounds[of a c] by (simp_all add: go_quot_nonneg)
  then have "of_int (?m * c) \<le> (of_int a :: rat)" "of_int (a + 1) \<le> (of_int ((?m + 1) * c) :: rat)"
    by (simp_all only: of_int_le_iff)
  then have lo: "of_int ?m \<le> ?x" and hi: "?x + 1 / of_int c \<le> of_int ?m + 1"
    using c by (simp_all add: field_simps)
  have "of_int ?m \<le> rnd64 ?x" using lo m assms by (intro rnd64_ge_int) simp_all
  moreover have "rnd64 ?x < of_int ?m + 1"
  proof (rule ccontr)
    assume "\<not> ?thesis"
    then have "1 / of_int c \<le> \<bar>rnd64 ?x - ?x\<bar>" using hi by linarith
    then have "1 / of_int c * 2 ^ 53 \<le> ?x" using rnd64_error[OF x] by (meson mult_right_mono order_trans zero_le_numeral zero_le_power)
    then have "2 ^ 53 \<le> (of_int a :: rat)" using c by (simp add: field_simps)
    then have "of_int (2 ^ 53) \<le> (of_int a :: rat)" by simp
    then show False using assms(2) by (simp only: of_int_le_iff)
  qed
  ultimately show ?thesis using m by (simp add: f64_to_int_def floor_eq_iff rnd64_nonneg x order_less_imp_le)
qed

end
