(* ===== verification/Lru.thy ===== *)
theory Lru
  imports Go_Prelude Float64
begin

text \<open>
  The generic LRU cache of app 05 (\<^verbatim>\<open>apps/05-lru-cache/lru/lru.go\<close>).

  The cache keeps a doubly linked list of elements, most recently used first, and a map from
  keys to list elements. The model keeps that indirection: an element is an address into the
  heap \<open>elems\<close>, \<open>order\<close> is the list of addresses, \<open>items\<close> maps keys to addresses. Every
  operation runs under the cache mutex, so it is one function on the state. A reading of the
  clock is an argument; \<open>Set\<close> may read it twice. The callbacks that \<open>notify\<close> makes
  after the lock is released are the list of evictions an operation returns.

  The second half relates this pointer structure to its specification, a plain list of entries
  in recency order.
\<close>

section \<open>Types\<close>

text \<open>\<open>EvictReason\<close> is an open integer type: any value other than the three constants is
  \<open>ReasonOther\<close>.\<close>

datatype EvictReason = ReasonCapacity | ReasonExpired | ReasonRemoved | ReasonOther int

fun EvictReason_String :: "EvictReason \<Rightarrow> string" where
  "EvictReason_String ReasonCapacity = ''capacity''"
| "EvictReason_String ReasonExpired = ''expired''"
| "EvictReason_String ReasonRemoved = ''removed''"
| "EvictReason_String (ReasonOther r) = ''EvictReason('' @ itoa r @ '')''"

record Stats =
  Hits :: "64 word"
  Misses :: "64 word"
  Evictions :: "64 word"
  Expirations :: "64 word"

text \<open>\<open>None\<close> would be a division by zero.\<close>

definition HitRatio :: "Stats \<Rightarrow> rat option" where
  "HitRatio s =
     (let total = Hits s + Misses s
      in if total = 0 then Some 0 else f64_div (f64_of_int (uint (Hits s))) (f64_of_int (uint total)))"

record ('k, 'v) entry =
  e_key :: 'k
  e_value :: 'v
  e_expiresAt :: gotime

record ('k, 'v) eviction =
  ev_key :: 'k
  ev_value :: 'v
  ev_reason :: EvictReason

record ('k, 'v) Cache =
  capacity :: int
  ttl :: duration
  onEvict :: bool
  order :: "nat list"
  elems :: "nat \<Rightarrow> ('k, 'v) entry"
  nextElem :: nat
  items :: "'k \<rightharpoonup> nat"
  stats :: Stats

datatype lru_error = ErrInvalidCapacity

section \<open>Construction\<close>

type_synonym ('k, 'v) cache_option = "('k, 'v) Cache \<Rightarrow> ('k, 'v) Cache"

definition WithTTL :: "duration \<Rightarrow> ('k, 'v) cache_option" where
  "WithTTL d c = c\<lparr>ttl := d\<rparr>"

definition WithOnEvict :: "bool \<Rightarrow> ('k, 'v) cache_option" where
  "WithOnEvict fn c = c\<lparr>onEvict := fn\<rparr>"

definition New :: "int \<Rightarrow> ('k, 'v) cache_option list \<Rightarrow> lru_error + ('k, 'v) Cache" where
  "New cap opts =
     (if cap \<le> 0 then Inl ErrInvalidCapacity
      else Inr (fold (\<lambda>opt c. opt c) opts
        \<lparr>capacity = cap, ttl = 0, onEvict = False, order = [], elems = (\<lambda>_. undefined),
         nextElem = 0, items = Map.empty,
         stats = \<lparr>Hits = 0, Misses = 0, Evictions = 0, Expirations = 0\<rparr>\<rparr>))"

section \<open>Operations\<close>

definition expiredAt :: "('k, 'v) entry \<Rightarrow> gotime \<Rightarrow> bool" where
  "expiredAt e now = (\<not> now < e_expiresAt e)"

definition expiredLocked :: "('k, 'v) Cache \<Rightarrow> ('k, 'v) entry \<Rightarrow> gotime \<Rightarrow> bool" where
  "expiredLocked c e now = (0 < ttl c \<and> expiredAt e now)"

text \<open>\<open>container/list\<close>: moving an element to the front of the list that holds it.\<close>

definition MoveToFront :: "nat \<Rightarrow> nat list \<Rightarrow> nat list" where
  "MoveToFront el xs = (if el \<in> set xs then el # remove1 el xs else xs)"

definition evictLocked ::
  "('k, 'v) Cache \<Rightarrow> nat \<Rightarrow> EvictReason \<Rightarrow> ('k, 'v) eviction list \<Rightarrow> ('k, 'v) Cache \<times> ('k, 'v) eviction list"
where
  "evictLocked c el reason evicted =
     (let e = elems c el;
          c1 = c\<lparr>order := remove1 el (order c), items := (items c)(e_key e := None)\<rparr>;
          c2 = (case reason of
                  ReasonCapacity \<Rightarrow> c1\<lparr>stats := (stats c1)\<lparr>Evictions := Evictions (stats c1) + 1\<rparr>\<rparr>
                | ReasonExpired \<Rightarrow> c1\<lparr>stats := (stats c1)\<lparr>Expirations := Expirations (stats c1) + 1\<rparr>\<rparr>
                | _ \<Rightarrow> c1)
      in (c2, if onEvict c then evicted @ [\<lparr>ev_key = e_key e, ev_value = e_value e, ev_reason = reason\<rparr>]
              else evicted))"

definition getLocked ::
  "('k, 'v) Cache \<Rightarrow> 'k \<Rightarrow> gotime \<Rightarrow> ('k, 'v) Cache \<times> 'v option \<times> ('k, 'v) eviction list"
where
  "getLocked c key now =
     (case items c key of
        None \<Rightarrow> (c\<lparr>stats := (stats c)\<lparr>Misses := Misses (stats c) + 1\<rparr>\<rparr>, None, [])
      | Some el \<Rightarrow>
          (let e = elems c el in
           if expiredLocked c e now then
             (let c1 = c\<lparr>stats := (stats c)\<lparr>Misses := Misses (stats c) + 1\<rparr>\<rparr>;
                  (c2, evicted) = evictLocked c1 el ReasonExpired []
              in (c2, None, evicted))
           else (c\<lparr>order := MoveToFront el (order c), stats := (stats c)\<lparr>Hits := Hits (stats c) + 1\<rparr>\<rparr>,
                 Some (e_value e), [])))"

definition setLocked ::
  "('k, 'v) Cache \<Rightarrow> 'k \<Rightarrow> 'v \<Rightarrow> gotime \<Rightarrow> gotime \<Rightarrow> ('k, 'v) Cache \<times> ('k, 'v) eviction list"
where
  "setLocked c key value now now2 =
     (let expiresAt = (if 0 < ttl c then time_Add now (ttl c) else 0) in
      case items c key of
        Some el \<Rightarrow>
          (c\<lparr>elems := (elems c)(el := (elems c el)\<lparr>e_value := value, e_expiresAt := expiresAt\<rparr>),
             order := MoveToFront el (order c)\<rparr>, [])
      | None \<Rightarrow>
          (let el = nextElem c;
               c1 = c\<lparr>elems := (elems c)(el := \<lparr>e_key = key, e_value = value, e_expiresAt = expiresAt\<rparr>),
                      nextElem := Suc el, order := el # order c, items := (items c)(key \<mapsto> el)\<rparr>
           in if int (length (order c1)) \<le> capacity c1 then (c1, [])
              else let oldest = last (order c1);
                       reason = (if expiredLocked c1 (elems c1 oldest) now2 then ReasonExpired else ReasonCapacity)
                   in evictLocked c1 oldest reason []))"

text \<open>The callbacks made for a list of evictions, in order; the list is empty when no callback
  is registered.\<close>

definition notify :: "('k, 'v) Cache \<Rightarrow> ('k, 'v) eviction list \<Rightarrow> ('k \<times> 'v \<times> EvictReason) list" where
  "notify c evicted = map (\<lambda>ev. (ev_key ev, ev_value ev, ev_reason ev)) evicted"

definition Get ::
  "('k, 'v) Cache \<Rightarrow> 'k \<Rightarrow> gotime \<Rightarrow> ('k, 'v) Cache \<times> 'v option \<times> ('k \<times> 'v \<times> EvictReason) list"
where
  "Get c key now = (case getLocked c key now of (c', v, evicted) \<Rightarrow> (c', v, notify c' evicted))"

definition Peek :: "('k, 'v) Cache \<Rightarrow> 'k \<Rightarrow> gotime \<Rightarrow> 'v option" where
  "Peek c key now =
     (case items c key of
        None \<Rightarrow> None
      | Some el \<Rightarrow> if \<not> expiredLocked c (elems c el) now then Some (e_value (elems c el)) else None)"

definition Set ::
  "('k, 'v) Cache \<Rightarrow> 'k \<Rightarrow> 'v \<Rightarrow> gotime \<Rightarrow> gotime \<Rightarrow> ('k, 'v) Cache \<times> ('k \<times> 'v \<times> EvictReason) list"
where
  "Set c key value now now2 =
     (case setLocked c key value now now2 of (c', evicted) \<Rightarrow> (c', notify c' evicted))"

definition Remove ::
  "('k, 'v) Cache \<Rightarrow> 'k \<Rightarrow> ('k, 'v) Cache \<times> bool \<times> ('k \<times> 'v \<times> EvictReason) list"
where
  "Remove c key =
     (case items c key of
        None \<Rightarrow> (c, False, [])
      | Some el \<Rightarrow> (case evictLocked c el ReasonRemoved [] of (c', evicted) \<Rightarrow> (c', True, notify c' evicted)))"

lemma evictLocked_order [simp]: "order (fst (evictLocked c el r ev)) = remove1 el (order c)"
  by (simp add: evictLocked_def Let_def split: EvictReason.splits)

function purgeLoop ::
  "('k, 'v) Cache \<Rightarrow> ('k, 'v) eviction list \<Rightarrow> ('k, 'v) Cache \<times> ('k, 'v) eviction list"
where
  "purgeLoop c evicted =
     (if order c = [] then (c, evicted)
      else let r = evictLocked c (last (order c)) ReasonRemoved evicted in purgeLoop (fst r) (snd r))"
  by pat_completeness auto
termination
  by (relation "measure (\<lambda>(c, ev). length (order c))") (auto simp: split_beta length_remove1_last)

declare purgeLoop.simps [simp del]

definition Purge :: "('k, 'v) Cache \<Rightarrow> ('k, 'v) Cache \<times> ('k \<times> 'v \<times> EvictReason) list" where
  "Purge c = (case purgeLoop c [] of (c', evicted) \<Rightarrow> (c', notify c' evicted))"

text \<open>\<open>DeleteExpired\<close> walks from the back of the list and reads the predecessor of an element
  before it removes the element, so it visits the elements of the list as it was at the start.\<close>

fun deleteExpiredLoop ::
  "gotime \<Rightarrow> nat list \<Rightarrow> ('k, 'v) Cache \<Rightarrow> ('k, 'v) eviction list \<Rightarrow> int
    \<Rightarrow> ('k, 'v) Cache \<times> ('k, 'v) eviction list \<times> int"
where
  "deleteExpiredLoop now [] c evicted removed = (c, evicted, removed)"
| "deleteExpiredLoop now (el # els) c evicted removed =
     (if expiredAt (elems c el) now
      then let r = evictLocked c el ReasonExpired evicted in deleteExpiredLoop now els (fst r) (snd r) (removed + 1)
      else deleteExpiredLoop now els c evicted removed)"

definition DeleteExpired ::
  "('k, 'v) Cache \<Rightarrow> gotime \<Rightarrow> ('k, 'v) Cache \<times> int \<times> ('k \<times> 'v \<times> EvictReason) list"
where
  "DeleteExpired c now =
     (if ttl c \<le> 0 then (c, 0, [])
      else case deleteExpiredLoop now (rev (order c)) c [] 0 of
        (c', evicted, removed) \<Rightarrow> (c', removed, notify c' evicted))"

definition Len :: "('k, 'v) Cache \<Rightarrow> int" where
  "Len c = int (length (order c))"

section \<open>The hit ratio\<close>

text \<open>As long as the counters have not wrapped around, the ratio is a number between 0 and 1.\<close>

lemma HitRatio_bounds:
  assumes "uint (Hits s) + uint (Misses s) < 2 ^ 64"
  shows "\<exists>r. HitRatio s = Some r \<and> 0 \<le> r \<and> r \<le> 1"
proof (cases "Hits s + Misses s = 0")
  case True
  then show ?thesis by (simp add: HitRatio_def)
next
  case False
  have tot: "uint (Hits s + Misses s) = uint (Hits s) + uint (Misses s)"
    using assms by (simp add: uint_word_ariths take_bit_int_eq_self)
  let ?h = "f64_of_int (uint (Hits s))" and ?t = "f64_of_int (uint (Hits s + Misses s))"
  have "0 < uint (Hits s + Misses s)" using False by (simp add: word_neq_0_conv flip: uint_0_iff) (simp add: order_less_le)
  then have "1 \<le> ?t" by (rule f64_of_int_ge_1)
  moreover have "?h \<le> ?t" using tot by (intro f64_of_int_mono) simp
  moreover have "0 \<le> ?h" by (rule f64_of_int_nonneg) simp
  ultimately have "0 \<le> ?h / ?t" "?h / ?t \<le> of_int 1" "?t \<noteq> 0" by simp_all
  then show ?thesis
    using False rnd64_nonneg[of "?h / ?t"] rnd64_le_int[of "?h / ?t" 1] by (simp add: HitRatio_def f64_div_def)
qed

section \<open>Representation invariant\<close>

definition cache_inv :: "('k, 'v) Cache \<Rightarrow> bool" where
  "cache_inv c \<longleftrightarrow> 0 < capacity c \<and> distinct (order c) \<and> (\<forall>i\<in>set (order c). i < nextElem c) \<and>
     (\<forall>k i. items c k = Some i \<longleftrightarrow> i \<in> set (order c) \<and> e_key (elems c i) = k) \<and>
     int (length (order c)) \<le> capacity c"

text \<open>The entries of a cache, most recently used first: its abstraction.\<close>

definition entries :: "('k, 'v) Cache \<Rightarrow> ('k, 'v) entry list" where
  "entries c = map (elems c) (order c)"

definition find_key :: "'k \<Rightarrow> ('k, 'v) entry list \<Rightarrow> ('k, 'v) entry option" where
  "find_key k es = List.find (\<lambda>e. e_key e = k) es"

definition del_key :: "'k \<Rightarrow> ('k, 'v) entry list \<Rightarrow> ('k, 'v) entry list" where
  "del_key k es = filter (\<lambda>e. e_key e \<noteq> k) es"

lemma inv_items: "cache_inv c \<Longrightarrow> items c k = Some i \<longleftrightarrow> i \<in> set (order c) \<and> e_key (elems c i) = k"
  by (simp add: cache_inv_def)

lemma inv_key_inj:
  "cache_inv c \<Longrightarrow> items c k = Some el \<Longrightarrow> i \<in> set (order c) \<Longrightarrow> e_key (elems c i) = k \<longleftrightarrow> i = el"
  using inv_items[of c k i] inv_items[of c k el] by auto

lemma items_entries:
  assumes "cache_inv c"
  shows "find_key k (entries c) = map_option (elems c) (items c k)"
proof (cases "items c k")
  case None
  with assms have "\<forall>i\<in>set (order c). e_key (elems c i) \<noteq> k"
    using inv_items[of c k] by fastforce
  then show ?thesis using None by (simp add: find_key_def entries_def find_None_iff)
next
  case (Some el)
  have "List.find (\<lambda>e. e_key e = k) (map (elems c) xs) = Some (elems c el)"
    if "el \<in> set xs" "set xs \<subseteq> set (order c)" for xs
    using that
  proof (induction xs)
    case (Cons x xs)
    then show ?case using inv_key_inj[OF assms Some, of x] by auto
  qed simp
  moreover have "el \<in> set (order c)" using inv_items[OF assms, of k el] Some by simp
  ultimately show ?thesis using Some by (simp add: find_key_def entries_def)
qed

lemma entries_remove1:
  assumes "cache_inv c" and "items c k = Some el"
  shows "map (elems c) (remove1 el (order c)) = del_key k (entries c)"
proof -
  have "filter (\<lambda>i. e_key (elems c i) \<noteq> k) (order c) = filter (\<lambda>i. i \<noteq> el) (order c)"
    using inv_key_inj[OF assms] by (intro filter_cong) auto
  with assms(1) show ?thesis
    by (simp add: del_key_def entries_def filter_map o_def cache_inv_def
        distinct_remove1_removeAll removeAll_filter_not_eq eq_commute[of el])
qed

lemma inv_el:
  assumes "cache_inv c" and "items c k = Some el"
  shows "el \<in> set (order c)" and "e_key (elems c el) = k"
  using assms by (auto simp: cache_inv_def)

lemma inv_distinct: "cache_inv c \<Longrightarrow> distinct (order c)"
  by (simp add: cache_inv_def)

lemma inv_last:
  assumes "cache_inv c" and "order c \<noteq> []"
  shows "items c (e_key (elems c (last (order c)))) = Some (last (order c))"
  using assms last_in_set by (auto simp: cache_inv_def)

text \<open>Two states that agree on everything the invariant and the abstraction read.\<close>

lemma inv_stats [simp]: "cache_inv (c\<lparr>stats := s\<rparr>) = cache_inv c"
  by (simp add: cache_inv_def)

lemma entries_stats [simp]: "entries (c\<lparr>stats := s\<rparr>) = entries c"
  by (simp add: entries_def)

lemma inv_MoveToFront:
  assumes "cache_inv c" and "items c k = Some el"
  shows "cache_inv (c\<lparr>order := MoveToFront el (order c)\<rparr>)"
    and "entries (c\<lparr>order := MoveToFront el (order c)\<rparr>) = elems c el # del_key k (entries c)"
proof -
  have "set (el # remove1 el (order c)) = set (order c)" "length (el # remove1 el (order c)) = length (order c)"
    using inv_el[OF assms] inv_distinct[OF assms(1)] length_pos_if_in_set[of el "order c"]
    by (auto simp: length_remove1)
  then show "cache_inv (c\<lparr>order := MoveToFront el (order c)\<rparr>)"
    using assms inv_el[OF assms] by (auto simp: cache_inv_def MoveToFront_def)
  show "entries (c\<lparr>order := MoveToFront el (order c)\<rparr>) = elems c el # del_key k (entries c)"
    using inv_el[OF assms] entries_remove1[OF assms] by (simp add: entries_def MoveToFront_def)
qed

lemma evictLocked_frame [simp]:
  "capacity (fst (evictLocked c el r ev)) = capacity c"
  "ttl (fst (evictLocked c el r ev)) = ttl c"
  "onEvict (fst (evictLocked c el r ev)) = onEvict c"
  "elems (fst (evictLocked c el r ev)) = elems c"
  "nextElem (fst (evictLocked c el r ev)) = nextElem c"
  "items (fst (evictLocked c el r ev)) = (items c)(e_key (elems c el) := None)"
  by (simp_all add: evictLocked_def Let_def split: EvictReason.splits)

lemma evictLocked_evicted:
  "snd (evictLocked c el r ev) =
     (if onEvict c then ev @ [\<lparr>ev_key = e_key (elems c el), ev_value = e_value (elems c el), ev_reason = r\<rparr>] else ev)"
  by (simp add: evictLocked_def Let_def)

lemma evictLocked_inv:
  assumes "cache_inv c" and "items c k = Some el"
  shows "cache_inv (fst (evictLocked c el r ev))"
    and "entries (fst (evictLocked c el r ev)) = del_key k (entries c)"
proof -
  have "int (length (remove1 el (order c))) \<le> capacity c"
    using assms(1) by (auto simp: cache_inv_def length_remove1)
  then show "cache_inv (fst (evictLocked c el r ev))"
    using assms(1) inv_el[OF assms] inv_key_inj[OF assms]
    unfolding cache_inv_def by (simp add: set_remove1_eq) blast
  show "entries (fst (evictLocked c el r ev)) = del_key k (entries c)"
    using entries_remove1[OF assms] by (simp add: entries_def)
qed

section \<open>The specification: a list of entries in recency order\<close>

datatype ('k, 'v) lru_op =
    OpGet 'k gotime
  | OpPeek 'k gotime
  | OpSet 'k 'v gotime gotime
  | OpRemove 'k
  | OpPurge
  | OpDeleteExpired gotime
  | OpLen

datatype 'v lru_out = OutVal "'v option" | OutBool bool | OutInt int | OutUnit

record lru_params =
  p_capacity :: int
  p_ttl :: duration
  p_onEvict :: bool

definition params :: "('k, 'v) Cache \<Rightarrow> lru_params" where
  "params c = \<lparr>p_capacity = capacity c, p_ttl = ttl c, p_onEvict = onEvict c\<rparr>"

lemma params_sel [simp]:
  "p_capacity (params c) = capacity c" "p_ttl (params c) = ttl c" "p_onEvict (params c) = onEvict c"
  by (simp_all add: params_def)

definition spec_expired :: "lru_params \<Rightarrow> gotime \<Rightarrow> ('k, 'v) entry \<Rightarrow> bool" where
  "spec_expired p now e \<longleftrightarrow> 0 < p_ttl p \<and> e_expiresAt e \<le> now"

definition spec_call ::
  "lru_params \<Rightarrow> EvictReason \<Rightarrow> ('k, 'v) entry list \<Rightarrow> ('k \<times> 'v \<times> EvictReason) list"
where
  "spec_call p r es = (if p_onEvict p then map (\<lambda>e. (e_key e, e_value e, r)) es else [])"

fun spec_step ::
  "lru_params \<Rightarrow> ('k, 'v) lru_op \<Rightarrow> ('k, 'v) entry list
    \<Rightarrow> ('k, 'v) entry list \<times> 'v lru_out \<times> ('k \<times> 'v \<times> EvictReason) list"
where
  "spec_step p (OpGet k now) es =
     (case find_key k es of
        None \<Rightarrow> (es, OutVal None, [])
      | Some e \<Rightarrow> if spec_expired p now e then (del_key k es, OutVal None, spec_call p ReasonExpired [e])
                  else (e # del_key k es, OutVal (Some (e_value e)), []))"
| "spec_step p (OpPeek k now) es =
     (es, OutVal (case find_key k es of None \<Rightarrow> None
        | Some e \<Rightarrow> if spec_expired p now e then None else Some (e_value e)), [])"
| "spec_step p (OpSet k v now now2) es =
     (let es' = \<lparr>e_key = k, e_value = v, e_expiresAt = (if 0 < p_ttl p then now + p_ttl p else 0)\<rparr> # del_key k es
      in if int (length es') \<le> p_capacity p then (es', OutUnit, [])
         else (butlast es', OutUnit,
               spec_call p (if spec_expired p now2 (last es') then ReasonExpired else ReasonCapacity) [last es']))"
| "spec_step p (OpRemove k) es =
     (case find_key k es of None \<Rightarrow> (es, OutBool False, [])
      | Some e \<Rightarrow> (del_key k es, OutBool True, spec_call p ReasonRemoved [e]))"
| "spec_step p OpPurge es = ([], OutUnit, spec_call p ReasonRemoved (rev es))"
| "spec_step p (OpDeleteExpired now) es =
     (let gone = filter (spec_expired p now) es
      in (filter (\<lambda>e. \<not> spec_expired p now e) es, OutInt (int (length gone)), spec_call p ReasonExpired (rev gone)))"
| "spec_step p OpLen es = (es, OutInt (int (length es)), [])"

text \<open>The same operations of the cache.\<close>

fun lru_step ::
  "('k, 'v) lru_op \<Rightarrow> ('k, 'v) Cache \<Rightarrow> ('k, 'v) Cache \<times> 'v lru_out \<times> ('k \<times> 'v \<times> EvictReason) list"
where
  "lru_step (OpGet k now) c = (case Get c k now of (c', v, n) \<Rightarrow> (c', OutVal v, n))"
| "lru_step (OpPeek k now) c = (c, OutVal (Peek c k now), [])"
| "lru_step (OpSet k v now now2) c = (case Set c k v now now2 of (c', n) \<Rightarrow> (c', OutUnit, n))"
| "lru_step (OpRemove k) c = (case Remove c k of (c', ok, n) \<Rightarrow> (c', OutBool ok, n))"
| "lru_step OpPurge c = (case Purge c of (c', n) \<Rightarrow> (c', OutUnit, n))"
| "lru_step (OpDeleteExpired now) c = (case DeleteExpired c now of (c', r, n) \<Rightarrow> (c', OutInt r, n))"
| "lru_step OpLen c = (c, OutInt (Len c), [])"

section \<open>Simulation\<close>

definition simulates ::
  "('k, 'v) Cache \<Rightarrow> ('k, 'v) lru_op \<Rightarrow> bool"
where
  "simulates c x \<longleftrightarrow>
     (let (c', out, n) = lru_step x c
      in cache_inv c' \<and> params c' = params c \<and> spec_step (params c) x (entries c) = (entries c', out, n))"

lemma spec_expired_conc: "spec_expired (params c) now e = expiredLocked c e now"
  by (auto simp: spec_expired_def params_def expiredLocked_def expiredAt_def)

lemma params_stats [simp]: "params (c\<lparr>stats := s\<rparr>) = params c"
  by (simp add: params_def)

lemma params_evictLocked [simp]: "params (fst (evictLocked c el r ev)) = params c"
  by (simp add: params_def)

lemma notify_Nil [simp]: "notify c [] = []"
  by (simp add: notify_def)

lemma notify_evictLocked:
  "notify c' (snd (evictLocked c el r [])) = spec_call (params c) r [elems c el]"
  by (simp add: notify_def evictLocked_evicted spec_call_def params_def)

lemmas simulation_simps = simulates_def Let_def split_beta spec_expired_conc notify_evictLocked

lemma simulates_Get: assumes "cache_inv c" shows "simulates c (OpGet k now)"
proof (cases "items c k")
  case None
  then show ?thesis using assms by (simp add: simulation_simps Get_def getLocked_def items_entries notify_def)
next
  case (Some el)
  let ?s = "\<lambda>f. c\<lparr>stats := f\<rparr>"
  have ev: "cache_inv (fst (evictLocked (?s f) el ReasonExpired []))"
    "entries (fst (evictLocked (?s f) el ReasonExpired [])) = del_key k (entries c)" for f
    using evictLocked_inv[of "?s f" k el] assms Some by simp_all
  show ?thesis using assms Some
    by (simp add: simulation_simps Get_def getLocked_def items_entries ev)
       (simp add: inv_MoveToFront[OF assms Some] params_def notify_def)
qed

lemma simulates_Peek: "cache_inv c \<Longrightarrow> simulates c (OpPeek k now)"
  by (simp add: simulation_simps Peek_def items_entries split: option.splits)

lemma simulates_Remove: assumes "cache_inv c" shows "simulates c (OpRemove k)"
proof (cases "items c k")
  case None
  then show ?thesis using assms by (simp add: simulation_simps Remove_def items_entries)
next
  case (Some el)
  then show ?thesis using assms evictLocked_inv[OF assms Some, of ReasonRemoved "[]"]
    by (simp add: simulation_simps Remove_def items_entries)
qed

lemma simulates_Len: "cache_inv c \<Longrightarrow> simulates c OpLen"
  by (simp add: simulation_simps Len_def entries_def)

text \<open>\<open>Set\<close>: overwriting an entry, adding one, and evicting the oldest.\<close>

lemma del_key_absent: "find_key k es = None \<Longrightarrow> del_key k es = es"
  by (auto simp: find_key_def del_key_def find_None_iff filter_id_conv)

lemma setLocked_overwrite:
  fixes c :: "('k, 'v) Cache" and v :: 'v and x :: gotime
  assumes "cache_inv c" and "items c k = Some el"
  defines "c1 \<equiv> c\<lparr>elems := (elems c)(el := (elems c el)\<lparr>e_value := v, e_expiresAt := x\<rparr>),
                order := MoveToFront el (order c)\<rparr>"
  shows "cache_inv c1" and "params c1 = params c"
    and "entries c1 = \<lparr>e_key = k, e_value = v, e_expiresAt = x\<rparr> # del_key k (entries c)"
    and "length (entries c1) = length (entries c)"
proof -
  let ?c = "c\<lparr>order := MoveToFront el (order c)\<rparr>"
  have mv: "cache_inv ?c" "entries ?c = elems c el # del_key k (entries c)"
    using inv_MoveToFront[OF assms(1,2)] .
  have ord: "order c1 = el # remove1 el (order c)" "el \<notin> set (remove1 el (order c))"
    using inv_el[OF assms(1,2)] inv_distinct[OF assms(1)] by (simp_all add: c1_def MoveToFront_def)
  have "e_key (elems c1 i) = e_key (elems ?c i)" for i
    by (simp add: c1_def)
  then show "cache_inv c1" using mv(1) by (simp add: cache_inv_def) (simp add: c1_def)
  show "params c1 = params c" by (simp add: c1_def params_def)
  have "map (elems c1) (remove1 el (order c)) = map (elems c) (remove1 el (order c))"
    using ord(2) by (auto simp: c1_def)
  then show eq: "entries c1 = \<lparr>e_key = k, e_value = v, e_expiresAt = x\<rparr> # del_key k (entries c)"
    using ord(1) entries_remove1[OF assms(1,2)] inv_el(2)[OF assms(1,2)]
    by (simp add: entries_def) (simp add: c1_def)
  show "length (entries c1) = length (entries c)"
    using ord(1) inv_el(1)[OF assms(1,2)] length_pos_if_in_set[of el "order c"]
    by (simp add: entries_def length_remove1)
qed

text \<open>The state right after the new element is pushed may hold one entry too many; all other
  parts of the invariant hold.\<close>

lemma setLocked_push:
  fixes c :: "('k, 'v) Cache" and v :: 'v and x :: gotime
  assumes "cache_inv c" and "items c k = None"
  defines "c1 \<equiv> c\<lparr>elems := (elems c)(nextElem c := \<lparr>e_key = k, e_value = v, e_expiresAt = x\<rparr>),
                nextElem := Suc (nextElem c), order := nextElem c # order c, items := (items c)(k \<mapsto> nextElem c)\<rparr>"
  shows "cache_inv (c1\<lparr>capacity := capacity c + 1\<rparr>)" and "params c1 = params c"
    and "entries c1 = \<lparr>e_key = k, e_value = v, e_expiresAt = x\<rparr> # entries c"
proof -
  have fresh: "nextElem c \<notin> set (order c)" and old: "\<forall>i\<in>set (order c). i < nextElem c"
    using assms(1) by (auto simp: cache_inv_def)
  have nk: "\<forall>i\<in>set (order c). e_key (elems c i) \<noteq> k"
    using inv_items[OF assms(1), of k] assms(2) by fastforce
  have "items c1 k' = Some i \<longleftrightarrow> i \<in> set (order c1) \<and> e_key (elems c1 i) = k'" for k' i
    using inv_items[OF assms(1), of k' i] fresh nk by (auto simp: c1_def)
  moreover have "\<forall>i\<in>set (order c1). i < nextElem c1" using old by (auto simp: c1_def)
  moreover have "distinct (order c1)" "length (order c1) = Suc (length (order c))"
    using fresh inv_distinct[OF assms(1)] by (simp_all add: c1_def)
  ultimately show "cache_inv (c1\<lparr>capacity := capacity c + 1\<rparr>)"
    using assms(1) by (simp add: cache_inv_def)
  show "params c1 = params c" by (simp add: c1_def params_def)
  have "map (elems c1) (order c) = map (elems c) (order c)" using fresh by (auto simp: c1_def)
  then show "entries c1 = \<lparr>e_key = k, e_value = v, e_expiresAt = x\<rparr> # entries c"
    by (simp add: entries_def) (simp add: c1_def)
qed

lemma evictLocked_capacity:
  "fst (evictLocked (c\<lparr>capacity := n\<rparr>) el r ev) = (fst (evictLocked c el r ev))\<lparr>capacity := n\<rparr>"
  by (simp add: evictLocked_def Let_def split: EvictReason.splits)

lemma del_key_oldest:
  assumes "cache_inv c" and "order c \<noteq> []"
  shows "del_key (e_key (elems c (last (order c)))) (entries c) = butlast (entries c)"
  using entries_remove1[OF assms(1) inv_last[OF assms]] remove1_last_distinct[OF inv_distinct[OF assms(1)] assms(2)]
  by (simp add: entries_def map_butlast)

lemma simulates_Set: assumes inv: "cache_inv c" shows "simulates c (OpSet k v now now2)"
proof -
  define x where "x = (if 0 < ttl c then now + ttl c else 0)"
  define e :: "('a, 'b) entry" where "e = \<lparr>e_key = k, e_value = v, e_expiresAt = x\<rparr>"
  have spec: "spec_step (params c) (OpSet k v now now2) (entries c) =
      (let es' = e # del_key k (entries c)
       in if int (length es') \<le> capacity c then (es', OutUnit, [])
          else (butlast es', OutUnit, spec_call (params c)
                 (if expiredLocked c (last es') now2 then ReasonExpired else ReasonCapacity) [last es']))"
    by (simp only: spec_step.simps spec_expired_conc) (simp add: params_def e_def x_def)
  show ?thesis
  proof (cases "items c k")
    case (Some el)
    define c1 where "c1 = c\<lparr>elems := (elems c)(el := (elems c el)\<lparr>e_value := v, e_expiresAt := x\<rparr>),
                order := MoveToFront el (order c)\<rparr>"
    note ow = setLocked_overwrite[OF inv Some, where v = v and x = x, folded c1_def e_def]
    have "lru_step (OpSet k v now now2) c = (c1, OutUnit, [])"
      using Some by (simp add: Set_def setLocked_def time_Add_def notify_def x_def c1_def)
    moreover have "int (length (entries c)) \<le> capacity c" using inv by (simp add: cache_inv_def entries_def)
    ultimately show ?thesis using ow spec by (simp add: simulates_def)
  next
    case None
    define c1 where "c1 = c\<lparr>elems := (elems c)(nextElem c := e),
      nextElem := Suc (nextElem c), order := nextElem c # order c, items := (items c)(k \<mapsto> nextElem c)\<rparr>"
    note push = setLocked_push[OF inv None, where v = v and x = x, folded e_def, folded c1_def]
    have ne: "order c1 \<noteq> []" and cap: "capacity c1 = capacity c" by (simp_all add: c1_def)
    have dk: "del_key k (entries c) = entries c"
      using None by (intro del_key_absent) (simp add: items_entries[OF inv])
    have last: "elems c1 (last (order c1)) = last (entries c1)" using ne by (simp add: entries_def last_map)
    define r where "r = (if expiredLocked c (last (entries c1)) now2 then ReasonExpired else ReasonCapacity)"
    let ?ev = "evictLocked c1 (last (order c1)) r []"
    have exp: "expiredLocked c1 = expiredLocked c" by (intro ext) (simp add: expiredLocked_def c1_def)
    have step: "lru_step (OpSet k v now now2) c =
        (if int (length (order c1)) \<le> capacity c then (c1, OutUnit, [])
         else (fst ?ev, OutUnit, spec_call (params c) r [last (entries c1)]))"
    proof -
      have "setLocked c k v now now2 = (if int (length (order c1)) \<le> capacity c1 then (c1, []) else ?ev)"
        using None unfolding r_def last[symmetric] exp[symmetric]
        by (simp add: setLocked_def time_Add_def Let_def x_def e_def c1_def)
      then show ?thesis using push(2) cap by (simp add: Set_def notify_evictLocked split_beta last)
    qed
    show ?thesis
    proof (cases "int (length (order c1)) \<le> capacity c")
      case True
      then have "cache_inv c1" using push(1) cap inv by (simp add: cache_inv_def)
      then show ?thesis using True step push spec dk by (simp add: simulates_def entries_def c1_def)
    next
      case False
      have inv1: "cache_inv (c1\<lparr>capacity := capacity c + 1\<rparr>)" by (rule push(1))
      have el: "items (c1\<lparr>capacity := capacity c + 1\<rparr>) (e_key (last (entries c1))) = Some (last (order c1))"
        using inv_last[OF inv1] ne last by simp
      have "cache_inv ((fst ?ev)\<lparr>capacity := capacity c + 1\<rparr>)"
        using evictLocked_inv(1)[OF inv1 el, of r "[]"] by (simp add: evictLocked_capacity)
      moreover have "int (length (order (fst ?ev))) \<le> capacity c"
        using inv ne by (simp add: length_remove1) (simp add: c1_def cache_inv_def)
      ultimately have "cache_inv (fst ?ev)" using inv cap by (simp add: cache_inv_def)
      moreover have "entries (fst ?ev) = butlast (entries c1)"
        using del_key_oldest[OF inv1] evictLocked_inv(2)[OF inv1 el, of r "[]"] ne last
        by (simp add: entries_def evictLocked_capacity)
      moreover have "length (order c1) = length (e # del_key k (entries c))"
        using push(3) dk by (simp add: entries_def flip: length_map[of "elems c1" "order c1"])
      ultimately show ?thesis using False step push spec dk by (simp add: simulates_def r_def)
    qed
  qed
qed

text \<open>\<open>Purge\<close> and \<open>DeleteExpired\<close>: the loops over the list.\<close>

lemma purgeLoop_spec:
  assumes "cache_inv c"
  shows "cache_inv (fst (purgeLoop c ev)) \<and> entries (fst (purgeLoop c ev)) = []
    \<and> params (fst (purgeLoop c ev)) = params c
    \<and> notify c' (snd (purgeLoop c ev)) = notify c' ev @ spec_call (params c) ReasonRemoved (rev (entries c))"
  using assms
proof (induction c ev rule: purgeLoop.induct)
  case (1 c ev)
  show ?case
  proof (cases "order c = []")
    case True
    then show ?thesis using 1(2) by (simp add: purgeLoop.simps[of c ev] entries_def spec_call_def)
  next
    case False
    let ?e = "evictLocked c (last (order c)) ReasonRemoved ev"
    note el = inv_last[OF 1(2) False]
    have inv: "cache_inv (fst ?e)" and ent: "entries (fst ?e) = butlast (entries c)"
      using evictLocked_inv[OF 1(2) el, of ReasonRemoved ev] del_key_oldest[OF 1(2) False] by simp_all
    have "entries c = butlast (entries c) @ [elems c (last (order c))]"
      using False append_butlast_last_id[of "entries c"] by (simp add: entries_def last_map)
    then have rev: "rev (entries c) = elems c (last (order c)) # rev (entries (fst ?e))"
      using ent by (metis rev_eq_Cons_iff rev_rev_ident)
    show ?thesis
      using 1(1)[OF False refl inv] False
      by (simp add: purgeLoop.simps[of c ev] Let_def rev notify_def evictLocked_evicted spec_call_def params_def)
  qed
qed

lemma simulates_Purge: "cache_inv c \<Longrightarrow> simulates c OpPurge"
  using purgeLoop_spec[where c = c and ev = "[]"]
  by (simp add: simulation_simps Purge_def)

lemma deleteExpiredLoop_spec:
  fixes now :: gotime and c :: "('k, 'v) Cache"
  assumes "cache_inv c" and "set els \<subseteq> set (order c)" and "distinct els" and "0 < ttl c"
  defines "gone \<equiv> filter (\<lambda>i. spec_expired (params c) now (elems c i)) els"
  shows "case deleteExpiredLoop now els c ev n of (c1, ev1, n1) \<Rightarrow>
    cache_inv c1 \<and> params c1 = params c \<and> elems c1 = elems c
    \<and> order c1 = filter (\<lambda>i. i \<notin> set gone) (order c)
    \<and> n1 = n + int (length gone)
    \<and> notify c' ev1 = notify c' ev @ spec_call (params c) ReasonExpired (map (elems c) gone)"
  using assms(1-4) unfolding gone_def
proof (induction els arbitrary: c ev n)
  case Nil
  then show ?case by (simp add: spec_call_def)
next
  case (Cons el els)
  have exp: "expiredAt (elems c el) now = spec_expired (params c) now (elems c el)"
    using Cons.prems(4) by (simp add: spec_expired_conc expiredLocked_def)
  show ?case
  proof (cases "spec_expired (params c) now (elems c el)")
    case False
    then show ?thesis using Cons.IH[OF Cons.prems(1), where ev = ev and n = n] Cons.prems exp by simp
  next
    case True
    let ?e = "evictLocked c el ReasonExpired ev"
    have it: "items c (e_key (elems c el)) = Some el"
      using Cons.prems(1,2) by (simp add: inv_items)
    have "notify c' (snd ?e) = notify c' ev @ spec_call (params c) ReasonExpired [elems c el]"
      by (simp add: notify_def evictLocked_evicted spec_call_def params_def)
    moreover have "remove1 el (order c) = filter (\<lambda>i. i \<noteq> el) (order c)"
      using inv_distinct[OF Cons.prems(1)] by (simp add: distinct_remove1_removeAll removeAll_filter_not_eq eq_commute)
    moreover have "set els \<subseteq> set (order (fst ?e))"
      using Cons.prems(2,3) inv_distinct[OF Cons.prems(1)] by auto
    ultimately show ?thesis
      using Cons.IH[where c = "fst ?e" and ev = "snd ?e" and n = "n + 1"] Cons.prems True exp evictLocked_inv(1)[OF Cons.prems(1) it]
      by (auto simp: Let_def set_remove1_eq inv_distinct spec_call_def split: prod.splits)
  qed
qed

lemma simulates_DeleteExpired: assumes inv: "cache_inv c" shows "simulates c (OpDeleteExpired now)"
proof (cases "0 < ttl c")
  case False
  then show ?thesis using inv
    by (simp add: simulation_simps DeleteExpired_def expiredLocked_def filter_empty_conv filter_id_conv spec_call_def)
next
  case True
  let ?exp = "\<lambda>i. spec_expired (params c) now (elems c i)"
  let ?r = "deleteExpiredLoop now (rev (order c)) c [] 0"
  have loop: "cache_inv (fst ?r)" "params (fst ?r) = params c" "elems (fst ?r) = elems c"
    "order (fst ?r) = filter (\<lambda>i. i \<notin> set (filter ?exp (rev (order c)))) (order c)"
    "snd (snd ?r) = int (length (filter ?exp (rev (order c))))"
    "notify (fst ?r) (fst (snd ?r)) = spec_call (params c) ReasonExpired (map (elems c) (filter ?exp (rev (order c))))"
    using deleteExpiredLoop_spec[OF inv _ _ True, where els = "rev (order c)" and now = now and ev = "[]" and n = 0 and c' = "fst ?r"] inv_distinct[OF inv]
    by (auto simp: split_beta)
  have "filter (\<lambda>i. i \<notin> set (filter ?exp (rev (order c)))) (order c) = filter (\<lambda>i. \<not> ?exp i) (order c)"
    by (intro filter_cong) auto
  then have "entries (fst ?r) = filter (\<lambda>e. \<not> spec_expired (params c) now e) (entries c)"
    using loop by (simp add: entries_def filter_map o_def)
  moreover have "length (filter ?exp (rev (order c))) = length (filter ?exp (order c))"
    by (metis length_rev rev_filter)
  ultimately show ?thesis using loop True
    by (simp add: simulates_def DeleteExpired_def split_beta Let_def)
       (simp add: entries_def filter_map o_def rev_filter rev_map)
qed

lemma lru_step_simulates: "cache_inv c \<Longrightarrow> simulates c x"
  by (cases x) (simp_all add: simulates_Get simulates_Peek simulates_Set simulates_Remove
      simulates_Purge simulates_DeleteExpired simulates_Len)

section \<open>Runs of the cache\<close>

fun lru_run ::
  "('k, 'v) lru_op list \<Rightarrow> ('k, 'v) Cache \<Rightarrow> ('k, 'v) Cache \<times> ('v lru_out \<times> ('k \<times> 'v \<times> EvictReason) list) list"
where
  "lru_run [] c = (c, [])"
| "lru_run (x # xs) c =
     (let (c1, o1) = lru_step x c; (c2, os) = lru_run xs c1 in (c2, o1 # os))"

fun spec_run ::
  "lru_params \<Rightarrow> ('k, 'v) lru_op list \<Rightarrow> ('k, 'v) entry list
    \<Rightarrow> ('k, 'v) entry list \<times> ('v lru_out \<times> ('k \<times> 'v \<times> EvictReason) list) list"
where
  "spec_run p [] es = (es, [])"
| "spec_run p (x # xs) es =
     (let (es1, o1) = spec_step p x es; (es2, os) = spec_run p xs es1 in (es2, o1 # os))"

lemma lru_step_cases:
  assumes "cache_inv c"
  obtains c' out n where "lru_step x c = (c', out, n)" and "cache_inv c'" and "params c' = params c"
    and "spec_step (params c) x (entries c) = (entries c', out, n)"
  using lru_step_simulates[OF assms, of x] by (auto simp: simulates_def split: prod.splits)

lemma lru_run_simulates:
  assumes "cache_inv c"
  shows "cache_inv (fst (lru_run xs c)) \<and> params (fst (lru_run xs c)) = params c
    \<and> spec_run (params c) xs (entries c) = (entries (fst (lru_run xs c)), snd (lru_run xs c))"
  using assms
proof (induction xs arbitrary: c)
  case (Cons x xs)
  obtain c' out n where st: "lru_step x c = (c', out, n)" "cache_inv c'" "params c' = params c"
    "spec_step (params c) x (entries c) = (entries c', out, n)"
    by (rule lru_step_cases[OF Cons.prems])
  show ?case using Cons.IH[OF st(2)] st by (simp add: Let_def split_beta)
qed simp

text \<open>A constructed cache, whatever its expiry and callback options.\<close>

definition is_option :: "('k, 'v) cache_option \<Rightarrow> bool" where
  "is_option f \<longleftrightarrow> (\<exists>d. f = WithTTL d) \<or> (\<exists>b. f = WithOnEvict b)"

lemma is_option_keeps:
  "is_option f \<Longrightarrow> cache_inv c \<Longrightarrow> cache_inv (f c) \<and> order (f c) = order c \<and> capacity (f c) = capacity c"
  by (auto simp: is_option_def WithTTL_def WithOnEvict_def cache_inv_def)

lemma New_inv:
  assumes "New cap opts = Inr c" and "\<forall>f\<in>set opts. is_option f"
  shows "cache_inv c" and "entries c = []" and "capacity c = cap"
proof -
  have "cache_inv (fold (\<lambda>f c. f c) opts c0) \<and> order (fold (\<lambda>f c. f c) opts c0) = order c0
      \<and> capacity (fold (\<lambda>f c. f c) opts c0) = capacity c0"
    if "cache_inv c0" "\<forall>f\<in>set opts. is_option f" for c0 :: "('a, 'b) Cache"
    using that by (induction opts arbitrary: c0) (auto dest: is_option_keeps)
  note keeps = this[OF _ assms(2)]
  define c0 :: "('a, 'b) Cache" where "c0 = \<lparr>capacity = cap, ttl = 0, onEvict = False, order = [],
    elems = (\<lambda>_. undefined), nextElem = 0, items = Map.empty,
    stats = \<lparr>Hits = 0, Misses = 0, Evictions = 0, Expirations = 0\<rparr>\<rparr>"
  have "0 < cap" and c: "c = fold (\<lambda>f c. f c) opts c0"
    using assms(1) by (auto simp: New_def c0_def split: if_splits)
  then have "cache_inv c0" "order c0 = []" "capacity c0 = cap" by (simp_all add: c0_def cache_inv_def)
  then show "cache_inv c" "entries c = []" "capacity c = cap"
    using keeps[of c0] c by (simp_all add: entries_def)
qed

section \<open>The cache as seen by its clients\<close>

text \<open>What a client of a cache with expiry may rely on: \<open>peek\<close> observes the live entries, and the
  other operations are described by what they do to that observation.\<close>

locale ttl_cache =
  fixes inv :: "'c \<Rightarrow> bool"
    and fresh :: "'c \<Rightarrow> gotime \<Rightarrow> gotime \<Rightarrow> bool"
    and peek :: "'c \<Rightarrow> 'k \<Rightarrow> gotime \<Rightarrow> 'v option"
    and cget :: "'c \<Rightarrow> 'k \<Rightarrow> gotime \<Rightarrow> 'c \<times> 'v option \<times> 'n"
    and cset :: "'c \<Rightarrow> 'k \<Rightarrow> 'v \<Rightarrow> gotime \<Rightarrow> gotime \<Rightarrow> 'c \<times> 'n"
    and cremove :: "'c \<Rightarrow> 'k \<Rightarrow> 'c \<times> bool \<times> 'n"
  assumes get_inv: "inv c \<Longrightarrow> inv (fst (cget c k t))"
    and set_inv: "inv c \<Longrightarrow> inv (fst (cset c k v t t2))"
    and remove_inv: "inv c \<Longrightarrow> inv (fst (cremove c k))"
    and get_result: "inv c \<Longrightarrow> fst (snd (cget c k t)) = peek c k t"
    and get_keeps: "inv c \<Longrightarrow> t \<le> t' \<Longrightarrow> peek (fst (cget c k t)) k' t' = peek c k' t'"
    and get_only: "inv c \<Longrightarrow> peek (fst (cget c k t)) k' t' = Some w \<Longrightarrow> peek c k' t' = Some w"
    and set_same: "inv c \<Longrightarrow> fresh c t t' \<Longrightarrow> peek (fst (cset c k v t t2)) k t' = Some v"
    and set_same_only: "inv c \<Longrightarrow> peek (fst (cset c k v t t2)) k t' = Some w \<Longrightarrow> w = v"
    and set_other: "inv c \<Longrightarrow> k' \<noteq> k \<Longrightarrow> peek (fst (cset c k v t t2)) k' t' = Some w \<Longrightarrow> peek c k' t' = Some w"
    and remove_peek: "inv c \<Longrightarrow> peek (fst (cremove c k)) k' t = (if k' = k then None else peek c k' t)"
begin

text \<open>\<open>coherent c m\<close>: every live entry of the cache is the one \<open>m\<close> records as last written. The
  cache may forget, it never shows anything else.\<close>

definition coherent :: "'c \<Rightarrow> ('k \<rightharpoonup> 'v) \<Rightarrow> bool" where
  "coherent c m \<longleftrightarrow> inv c \<and> (\<forall>k t v. peek c k t = Some v \<longrightarrow> m k = Some v)"

lemma coherent_get: "coherent c m \<Longrightarrow> coherent (fst (cget c k t)) m"
  using get_inv get_only unfolding coherent_def by blast

lemma coherent_get_result: "coherent c m \<Longrightarrow> fst (snd (cget c k t)) = Some v \<Longrightarrow> m k = Some v"
  using get_result unfolding coherent_def by metis

lemma coherent_set: "coherent c m \<Longrightarrow> coherent (fst (cset c k v t t2)) (m(k \<mapsto> v))"
  using set_inv[of c k v t t2] set_same_only[of c k v t t2] set_other[of c _ k v t t2]
  unfolding coherent_def fun_upd_def by metis

lemma coherent_remove: "coherent c m \<Longrightarrow> coherent (fst (cremove c k)) (m(k := None))"
  using remove_inv remove_peek unfolding coherent_def by auto

lemma get_after_set: "inv c \<Longrightarrow> fresh c t t' \<Longrightarrow> fst (snd (cget (fst (cset c k v t t2)) k t')) = Some v"
  by (simp add: get_result set_inv set_same)

end

lemma Peek_entries:
  "cache_inv c \<Longrightarrow> Peek c k t = (case find_key k (entries c) of None \<Rightarrow> None
     | Some e \<Rightarrow> if spec_expired (params c) t e then None else Some (e_value e))"
  by (simp add: Peek_def items_entries spec_expired_conc split: option.splits)

lemma find_del_key: "find_key k' (del_key k es) = (if k' = k then None else find_key k' es)"
  by (induction es) (auto simp: find_key_def del_key_def)

lemma find_Cons: "find_key k (e # es) = (if e_key e = k then Some e else find_key k es)"
  by (simp add: find_key_def)

lemma find_butlast: "find_key k (butlast es) = Some e \<Longrightarrow> find_key k es = Some e"
  by (induction es) (auto simp: find_key_def split: if_splits)

lemma find_key_key: "find_key k es = Some e \<Longrightarrow> e_key e = k"
  by (auto simp: find_key_def find_Some_iff)

lemmas find_simps = find_del_key find_Cons find_key_key

lemma Get_entries:
  assumes "cache_inv c"
  shows "cache_inv (fst (Get c k t))" and "params (fst (Get c k t)) = params c"
    and "fst (snd (Get c k t)) = Peek c k t"
    and "entries (fst (Get c k t)) = fst (spec_step (params c) (OpGet k t) (entries c))"
  using lru_step_simulates[OF assms, of "OpGet k t"] lru_step_simulates[OF assms, of "OpPeek k t"]
  by (auto simp: simulates_def split_beta Let_def simp del: spec_step.simps)
     (auto split: option.splits if_splits)

lemma Set_entries:
  assumes "cache_inv c"
  shows "cache_inv (fst (Set c k v t t2))" and "params (fst (Set c k v t t2)) = params c"
    and "entries (fst (Set c k v t t2)) = fst (spec_step (params c) (OpSet k v t t2) (entries c))"
  using lru_step_simulates[OF assms, of "OpSet k v t t2"]
  by (auto simp: simulates_def split_beta Let_def simp del: spec_step.simps)

lemma Remove_entries:
  assumes "cache_inv c"
  shows "cache_inv (fst (Remove c k))" and "params (fst (Remove c k)) = params c"
    and "entries (fst (Remove c k)) = fst (spec_step (params c) (OpRemove k) (entries c))"
  using lru_step_simulates[OF assms, of "OpRemove k"]
  by (auto simp: simulates_def split_beta Let_def simp del: spec_step.simps)

lemma spec_expired_mono: "spec_expired p t e \<Longrightarrow> t \<le> t' \<Longrightarrow> spec_expired p t' e"
  by (simp add: spec_expired_def)

text \<open>An entry written at \<open>t\<close> is live at \<open>t'\<close>.\<close>

definition fresh_for :: "('k, 'v) Cache \<Rightarrow> gotime \<Rightarrow> gotime \<Rightarrow> bool" where
  "fresh_for c t t' \<longleftrightarrow> (0 < ttl c \<longrightarrow> t' < t + ttl c)"

lemma set_head:
  assumes "cache_inv c"
  shows "\<exists>es. fst (spec_step (params c) (OpSet k v t t2) (entries c)) =
     \<lparr>e_key = k, e_value = v, e_expiresAt = (if 0 < ttl c then t + ttl c else 0)\<rparr> # es
     \<and> (\<forall>k' e. find_key k' es = Some e \<longrightarrow> k' \<noteq> k \<and> find_key k' (entries c) = Some e)"
proof -
  have "0 < capacity c" using assms by (simp add: cache_inv_def)
  moreover have "find_key k' (butlast (del_key k (entries c))) = Some e \<Longrightarrow> k' \<noteq> k \<and> find_key k' (entries c) = Some e"
    for k' e by (drule find_butlast) (simp add: find_del_key split: if_splits)
  ultimately show ?thesis
    by (cases "del_key k (entries c) = []")
       (auto simp: Let_def params_def find_del_key find_key_def[of _ "[]"] split: if_splits)
qed

interpretation lru: ttl_cache cache_inv fresh_for Peek Get Set Remove
proof unfold_locales
  fix c :: "('k, 'v) Cache" and k k' :: 'k and v w :: 'v and t t' t2 :: gotime
  assume inv: "cache_inv c"
  note gs = Get_entries[OF inv] and ss = Set_entries[OF inv] and rs = Remove_entries[OF inv]
  show "cache_inv (fst (Get c k t))" "cache_inv (fst (Set c k v t t2))" "cache_inv (fst (Remove c k))"
    "fst (snd (Get c k t)) = Peek c k t" by (rule gs ss rs)+
  show "t \<le> t' \<Longrightarrow> Peek (fst (Get c k t)) k' t' = Peek c k' t'"
    by (auto simp: Peek_entries inv gs find_simps dest: spec_expired_mono split: option.splits if_splits)
  show "Peek (fst (Get c k t)) k' t' = Some w \<Longrightarrow> Peek c k' t' = Some w"
    by (auto simp: Peek_entries inv gs find_simps split: option.splits if_splits)
  show "Peek (fst (Remove c k)) k' t = (if k' = k then None else Peek c k' t)"
    by (auto simp: Peek_entries inv rs find_simps split: option.splits if_splits)
  obtain es where es: "entries (fst (Set c k v t t2)) =
      \<lparr>e_key = k, e_value = v, e_expiresAt = (if 0 < ttl c then t + ttl c else 0)\<rparr> # es"
    "\<And>k' e. find_key k' es = Some e \<Longrightarrow> k' \<noteq> k \<and> find_key k' (entries c) = Some e"
    using set_head[OF inv, of k v t t2] ss(3) by auto
  show "fresh_for c t t' \<Longrightarrow> Peek (fst (Set c k v t t2)) k t' = Some v"
    by (simp add: Peek_entries ss(1,2) es(1) find_Cons spec_expired_def fresh_for_def) (auto simp: params_def)
  show "Peek (fst (Set c k v t t2)) k t' = Some w \<Longrightarrow> w = v"
    by (simp add: Peek_entries ss(1) es(1) find_Cons split: if_splits)
  show "k' \<noteq> k \<Longrightarrow> Peek (fst (Set c k v t t2)) k' t' = Some w \<Longrightarrow> Peek c k' t' = Some w"
    using es(2)[of k'] by (auto simp: Peek_entries inv ss(1,2) es(1) find_Cons split: if_splits option.splits)
qed

text \<open>The value last written under each key by a sequence of operations.\<close>

fun last_written :: "('k, 'v) lru_op list \<Rightarrow> ('k \<rightharpoonup> 'v) \<Rightarrow> ('k \<rightharpoonup> 'v)" where
  "last_written [] m = m"
| "last_written (OpSet k v t t2 # xs) m = last_written xs (m(k \<mapsto> v))"
| "last_written (OpRemove k # xs) m = last_written xs (m(k := None))"
| "last_written (OpPurge # xs) m = last_written xs Map.empty"
| "last_written (_ # xs) m = last_written xs m"

lemma entries_distinct_keys:
  assumes "cache_inv c"
  shows "distinct (map e_key (entries c))"
proof -
  have "inj_on (\<lambda>i. e_key (elems c i)) (set (order c))"
  proof (rule inj_onI)
    fix i j
    assume "i \<in> set (order c)" "j \<in> set (order c)" "e_key (elems c i) = e_key (elems c j)"
    then have "items c (e_key (elems c j)) = Some i" "items c (e_key (elems c j)) = Some j"
      using inv_items[OF assms] by simp_all
    then show "i = j" by simp
  qed
  then show ?thesis using inv_distinct[OF assms] by (simp add: entries_def distinct_map o_def)
qed

lemma find_key_Some: "distinct (map e_key es) \<Longrightarrow> find_key k es = Some e \<longleftrightarrow> e \<in> set es \<and> e_key e = k"
  by (induction es) (auto simp: find_key_def)

lemma find_key_filter:
  "distinct (map e_key es) \<Longrightarrow> find_key k (filter P es) = Some e \<Longrightarrow> find_key k es = Some e"
  using find_key_Some[of es k e] find_key_Some[of "filter P es" k e] by (simp add: distinct_map_filter)

lemma coherent_bulk:
  assumes "lru.coherent c m"
  shows "lru.coherent (fst (Purge c)) Map.empty" and "lru.coherent (fst (DeleteExpired c t)) m"
proof -
  have inv: "cache_inv c" using assms by (simp add: lru.coherent_def)
  have "cache_inv (fst (Purge c)) \<and> entries (fst (Purge c)) = []"
    using lru_step_simulates[OF inv, of OpPurge] by (auto simp: simulates_def split_beta Let_def)
  then show "lru.coherent (fst (Purge c)) Map.empty"
    by (simp add: lru.coherent_def Peek_entries find_key_def)
  have dl: "cache_inv (fst (DeleteExpired c t)) \<and> params (fst (DeleteExpired c t)) = params c
      \<and> entries (fst (DeleteExpired c t)) = filter (\<lambda>e. \<not> spec_expired (params c) t e) (entries c)"
    using lru_step_simulates[OF inv, of "OpDeleteExpired t"] by (auto simp: simulates_def split_beta Let_def)
  have "Peek c k t' = Some v" if "Peek (fst (DeleteExpired c t)) k t' = Some v" for k t' v
    using that dl inv find_key_filter[OF entries_distinct_keys[OF inv], of k]
    by (auto simp: Peek_entries split: option.splits if_splits)
  then show "lru.coherent (fst (DeleteExpired c t)) m"
    using assms dl unfolding lru.coherent_def by blast
qed

lemma lru_step_coherent: "lru.coherent c m \<Longrightarrow> lru.coherent (fst (lru_step x c)) (last_written [x] m)"
  by (cases x) (simp_all add: split_beta lru.coherent_get lru.coherent_set lru.coherent_remove coherent_bulk)

lemma last_written_Cons: "last_written (x # xs) m = last_written xs (last_written [x] m)"
  by (cases x) simp_all

lemma lru_run_coherent:
  "lru.coherent c m \<Longrightarrow> lru.coherent (fst (lru_run xs c)) (last_written xs m)"
proof (induction xs arbitrary: c m)
  case (Cons x xs)
  have "lru.coherent (fst (lru_run xs (fst (lru_step x c)))) (last_written xs (last_written [x] m))"
    by (rule Cons.IH[OF lru_step_coherent[OF Cons.prems]])
  then show ?case by (simp add: split_beta Let_def last_written_Cons[of x xs] del: last_written.simps)
qed simp

section \<open>Properties\<close>

text \<open>(C1) The cache implements an LRU list with expiry. For a cache made by \<open>New\<close> with any options
  and any sequence of operations, the results returned and the eviction callbacks made are exactly
  those of the specification that keeps a list of entries in recency order, the key index and the
  linked list agree throughout, and the number of entries never exceeds the capacity.\<close>

theorem lru_refines_recency_list:
  assumes "New cap opts = Inr c" and "\<forall>f\<in>set opts. is_option f"
  shows "snd (lru_run xs c) = snd (spec_run (params c) xs [])
    \<and> entries (fst (lru_run xs c)) = fst (spec_run (params c) xs [])
    \<and> cache_inv (fst (lru_run xs c)) \<and> Len (fst (lru_run xs c)) \<le> cap"
proof -
  note new = New_inv[OF assms]
  have sim: "cache_inv (fst (lru_run xs c))" "params (fst (lru_run xs c)) = params c"
    "spec_run (params c) xs [] = (entries (fst (lru_run xs c)), snd (lru_run xs c))"
    using lru_run_simulates[OF new(1), of xs] new(2) by simp_all
  then have "Len (fst (lru_run xs c)) \<le> cap"
    using new(3) by (simp add: cache_inv_def Len_def params_def)
  with sim show ?thesis by simp
qed

text \<open>Two entries fit; the third evicts the one used least recently, and an expired one is reported.\<close>

definition demo_ops :: "(int, string) lru_op list" where
  "demo_ops = [OpSet 1 ''a'' 0 0, OpSet 2 ''b'' 1 1, OpGet 1 2, OpSet 3 ''c'' 3 3, OpGet 2 4, OpGet 3 20]"

theorem lru_refines_recency_list_witness:
  "\<exists>c. New 2 [WithTTL 10, WithOnEvict True] = Inr c
    \<and> snd (lru_run demo_ops c) =
      [(OutUnit, []), (OutUnit, []), (OutVal (Some ''a''), []), (OutUnit, [(2, ''b'', ReasonCapacity)]),
       (OutVal None, []), (OutVal None, [(3, ''c'', ReasonExpired)])]"
proof -
  obtain c :: "(int, string) Cache" where c: "New 2 [WithTTL 10, WithOnEvict True] = Inr c"
    by (simp add: New_def)
  have "\<forall>f\<in>set [WithTTL 10, WithOnEvict True :: (int, string) cache_option]. is_option f"
    by (auto simp: is_option_def)
  note ref = lru_refines_recency_list[OF c this, of demo_ops]
  have "params c = \<lparr>p_capacity = 2, p_ttl = 10, p_onEvict = True\<rparr>"
    using c by (auto simp: New_def WithTTL_def WithOnEvict_def params_def)
  with ref c show ?thesis
    by (simp add: demo_ops_def find_key_def del_key_def spec_expired_def spec_call_def)
qed

text \<open>When a new key is stored in a full cache, exactly the least recently used entry leaves:
  the remaining entries keep their values and their order, the new entry is first, and the
  callback, if one is registered, is made once, for the entry that left, with the reason
  \<open>expired\<close> if its time to live has passed and \<open>capacity\<close> otherwise.\<close>

theorem lru_set_evicts_oldest:
  assumes "cache_inv c" and "Len c = capacity c" and "k \<notin> e_key ` set (entries c)"
  shows "entries (fst (Set c k v now now2)) =
      \<lparr>e_key = k, e_value = v, e_expiresAt = (if 0 < ttl c then now + ttl c else 0)\<rparr> # butlast (entries c)
    \<and> snd (Set c k v now now2) =
      (if onEvict c then [(e_key (last (entries c)), e_value (last (entries c)),
         if expiredLocked c (last (entries c)) now2 then ReasonExpired else ReasonCapacity)] else [])"
proof -
  have "del_key k (entries c) = entries c"
    using assms(3) by (auto simp: del_key_def filter_id_conv)
  moreover have "entries c \<noteq> []" "int (length (entries c)) = capacity c"
    using assms(1,2) by (auto simp: cache_inv_def Len_def entries_def)
  ultimately show ?thesis
    using lru_step_simulates[OF assms(1), of "OpSet k v now now2"]
    by (simp add: simulates_def split_beta Let_def spec_expired_conc)
       (auto simp: spec_call_def)
qed

theorem lru_set_evicts_oldest_witness:
  "snd (Set (fst (Set (\<lparr>capacity = 1, ttl = 0, onEvict = True, order = [], elems = (\<lambda>_. undefined),
      nextElem = 0, items = Map.empty, stats = \<lparr>Hits = 0, Misses = 0, Evictions = 0, Expirations = 0\<rparr>\<rparr>)
      (7::nat) True 0 0)) 8 False 1 1) = [(7, True, ReasonCapacity)]"
proof -
  let ?c0 = "\<lparr>capacity = 1, ttl = 0, onEvict = True, order = [], elems = (\<lambda>_. undefined),
      nextElem = 0, items = Map.empty, stats = \<lparr>Hits = 0, Misses = 0, Evictions = 0, Expirations = 0\<rparr>\<rparr>
      :: (nat, bool) Cache"
  have "cache_inv ?c0" by (simp add: cache_inv_def)
  then have "cache_inv (fst (Set ?c0 7 True 0 0))" by (rule Set_entries(1))
  from lru_set_evicts_oldest[OF this, of 8 False 1 1] show ?thesis
    by (simp add: Set_def setLocked_def Len_def entries_def expiredLocked_def)
qed

text \<open>The cache never returns a stale or foreign value: after any sequence of operations on a
  new cache, a value found under a key is the one written by the last \<open>Set\<close> of that key, and no
  \<open>Remove\<close> of the key and no \<open>Purge\<close> came after it.\<close>

theorem lru_hit_is_last_written:
  assumes "New cap opts = Inr c" and "\<forall>f\<in>set opts. is_option f"
    and "fst (snd (Get (fst (lru_run xs c)) k t)) = Some v"
  shows "last_written xs Map.empty k = Some v"
proof -
  have "lru.coherent c Map.empty"
    using New_inv(1,2)[OF assms(1,2)] by (simp add: lru.coherent_def Peek_entries find_key_def)
  then have "lru.coherent (fst (lru_run xs c)) (last_written xs Map.empty)"
    by (rule lru_run_coherent)
  then show ?thesis using assms(3) by (rule lru.coherent_get_result)
qed

theorem lru_hit_is_last_written_witness:
  "\<exists>c. New 2 [] = Inr c \<and> last_written [OpSet (1::nat) True 0 0, OpSet 1 False 0 0] Map.empty 1 = Some False
    \<and> fst (snd (Get (fst (lru_run [OpSet (1::nat) True 0 0, OpSet 1 False 0 0] c)) 1 5)) = Some False"
proof -
  obtain c :: "(nat, bool) Cache" where c: "New 2 [] = Inr c" by (simp add: New_def)
  have "fst (snd (Get (fst (lru_run [OpSet (1::nat) True 0 0, OpSet 1 False 0 0] c)) 1 5)) = Some False"
    using c by (auto simp: New_def Get_def getLocked_def Set_def setLocked_def expiredLocked_def MoveToFront_def)
  moreover from lru_hit_is_last_written[OF c _ this]
  have "last_written [OpSet (1::nat) True 0 0, OpSet 1 False 0 0] Map.empty 1 = Some False" by simp
  ultimately show ?thesis using c by blast
qed

end
