(* ===== verification/Lru_Proxy.thy ===== *)
theory Lru_Proxy
  imports Lru
begin

text \<open>
  The read-through proxy of app 05 (\<^verbatim>\<open>internal/proxy/proxy.go\<close>) on top of the LRU cache.

  The upstream server is a parameter: \<open>upstream\<close> describes what \<open>http.Client\<close> and the body it
  returns did for one request. \<open>load\<close> runs the function that \<open>singleflight\<close> runs for a key; the
  requests that join a flight get the same result. A request whose context ends first leaves
  with the context's error while the flight goes on, so the cache is updated all the same.
  What the proxy relies on in the cache comes from the interpretation of \<open>ttl_cache\<close>.
\<close>

section \<open>Responses and upstream\<close>

record Response =
  r_status :: int
  r_header :: "(string \<times> string) list"
  r_body :: string

datatype fetch_stage = BuildRequest | UpstreamRequest | ReadBody | ErrBodyTooLarge | WaitForUpstream

text \<open>An error, with what \<open>errors.Is(err, context.Canceled)\<close> and \<open>net.Error.Timeout\<close> say of it.\<close>

record fetch_error =
  fe_stage :: fetch_stage
  fe_canceled :: bool
  fe_timeout :: bool

datatype upstream =
    BadRequest
  | DoError bool bool
  | Answer int "(string \<times> string) list" string "(bool \<times> bool) option"

text \<open>\<open>io.ReadAll\<close> of a limited reader: at most \<open>n\<close> bytes, then the end; an error of the body only if the
  limit is not reached before it.\<close>

definition readLimited :: "int \<Rightarrow> string \<Rightarrow> (bool \<times> bool) option \<Rightarrow> (bool \<times> bool) + string" where
  "readLimited n body err =
     (if n \<le> int (length body) then Inr (take (nat n) body)
      else case err of None \<Rightarrow> Inr body | Some e \<Rightarrow> Inl e)"

definition header_Get :: "(string \<times> string) list \<Rightarrow> string \<Rightarrow> string" where
  "header_Get h name = (case map_of h name of None \<Rightarrow> [] | Some v \<Rightarrow> v)"

definition fetch :: "int \<Rightarrow> upstream \<Rightarrow> fetch_error + Response" where
  "fetch maxBody up =
     (case up of
        BadRequest \<Rightarrow> Inl \<lparr>fe_stage = BuildRequest, fe_canceled = False, fe_timeout = False\<rparr>
      | DoError c t \<Rightarrow> Inl \<lparr>fe_stage = UpstreamRequest, fe_canceled = c, fe_timeout = t\<rparr>
      | Answer status hdr body err \<Rightarrow>
          (case readLimited (wrap64 (maxBody + 1)) body err of
             Inl (c, t) \<Rightarrow> Inl \<lparr>fe_stage = ReadBody, fe_canceled = c, fe_timeout = t\<rparr>
           | Inr bytes \<Rightarrow>
               if maxBody < int (length bytes)
               then Inl \<lparr>fe_stage = ErrBodyTooLarge, fe_canceled = False, fe_timeout = False\<rparr>
               else Inr \<lparr>r_status = status,
                         r_header = map (\<lambda>name. (name, header_Get hdr name))
                           (filter (\<lambda>name. header_Get hdr name \<noteq> []) [''Content-Type'', ''ETag'', ''Last-Modified'']),
                         r_body = bytes\<rparr>))"

section \<open>The proxy\<close>

type_synonym proxy_cache = "(string, Response) Cache"

record url =
  u_Scheme :: string
  u_Host :: string
  u_EscapedPath :: string
  u_RawQuery :: string
  u_Fragment :: string

text \<open>The check of \<open>New\<close>: an absolute http or https URL without a query or fragment.\<close>

definition validUpstream :: "url \<Rightarrow> bool" where
  "validUpstream u \<longleftrightarrow> \<not> (u_Scheme u \<noteq> ''http'' \<and> u_Scheme u \<noteq> ''https'' \<or> u_Host u = [] \<or> u_RawQuery u \<noteq> [] \<or> u_Fragment u \<noteq> [])"

definition requestKey :: "url \<Rightarrow> string" where
  "requestKey u = (if u_RawQuery u = [] then u_EscapedPath u else u_EscapedPath u @ ''?'' @ u_RawQuery u)"

text \<open>The function a flight runs: the clock is read by \<open>Peek\<close> and by \<open>Set\<close>.\<close>

definition flight :: "int \<Rightarrow> proxy_cache \<Rightarrow> string \<Rightarrow> gotime \<Rightarrow> gotime \<Rightarrow> upstream
    \<Rightarrow> (fetch_error + Response) \<times> proxy_cache" where
  "flight maxBody c key t1 t2 up =
     (case Peek c key t1 of
        Some resp \<Rightarrow> (Inr resp, c)
      | None \<Rightarrow>
          (case fetch maxBody up of
             Inl err \<Rightarrow> (Inl err, c)
           | Inr resp \<Rightarrow> (Inr resp, if r_status resp = 200 then fst (Set c key resp t2 t2) else c)))"

text \<open>\<open>left = Some b\<close>: the request's context ended before the flight; \<open>b\<close> tells a cancellation from a
  deadline, which is also a timeout in the sense of \<open>net.Error\<close>.\<close>

definition load :: "int \<Rightarrow> bool option \<Rightarrow> proxy_cache \<Rightarrow> string \<Rightarrow> gotime \<Rightarrow> gotime \<Rightarrow> upstream
    \<Rightarrow> (fetch_error + Response) \<times> proxy_cache" where
  "load maxBody left c key t1 t2 up =
     (let (res, c') = flight maxBody c key t1 t2 up
      in case left of
           Some canceled \<Rightarrow>
             (Inl \<lparr>fe_stage = WaitForUpstream, fe_canceled = canceled, fe_timeout = \<not> canceled\<rparr>, c')
         | None \<Rightarrow> (res, c'))"

datatype proxy_reply =
    Served int "(string \<times> string) list" string
  | HttpError int
  | NoReply

definition serve :: "Response \<Rightarrow> bool \<Rightarrow> proxy_reply" where
  "serve resp hit =
     Served (r_status resp)
       (r_header resp @ [(''X-Cache'', if hit then ''HIT'' else ''MISS''),
                         (''Content-Length'', itoa (int (length (r_body resp)))),
                         (''X-Content-Type-Options'', ''nosniff'')])
       (r_body resp)"

definition proxy_writeError :: "fetch_error \<Rightarrow> proxy_reply" where
  "proxy_writeError err =
     (if fe_canceled err then NoReply else HttpError (if fe_timeout err then 504 else 502))"

definition handleGet :: "int \<Rightarrow> bool option \<Rightarrow> proxy_cache \<Rightarrow> url \<Rightarrow> gotime \<Rightarrow> gotime \<Rightarrow> gotime \<Rightarrow> upstream
    \<Rightarrow> proxy_reply \<times> proxy_cache" where
  "handleGet maxBody left c u t0 t1 t2 up =
     (let key = requestKey u; (c1, hit, _) = Get c key t0
      in case hit of
           Some resp \<Rightarrow> (serve resp True, c1)
         | None \<Rightarrow>
             (case load maxBody left c1 key t1 t2 up of
                (Inl err, c2) \<Rightarrow> (proxy_writeError err, c2)
              | (Inr resp, c2) \<Rightarrow> (serve resp False, c2)))"

definition handlePurge :: "proxy_cache \<Rightarrow> url \<Rightarrow> proxy_reply \<times> proxy_cache" where
  "handlePurge c u =
     (case Remove c (requestKey u) of
        (c', ok, _) \<Rightarrow> (if \<not> ok then HttpError 404 else Served 204 [] [], c'))"

record statsResponse =
  sr_entries :: int
  sr_stats :: Stats
  sr_hitRatio :: "rat option"

definition handleStats :: "proxy_cache \<Rightarrow> statsResponse" where
  "handleStats c = \<lparr>sr_entries = Len c, sr_stats = stats c, sr_hitRatio = HitRatio (stats c)\<rparr>"

section \<open>What the cache holds\<close>

text \<open>A history of requests: reads with what the upstream would answer, and purges.\<close>

datatype proxy_req = ReqGet "bool option" url gotime gotime gotime upstream | ReqPurge url

fun proxy_run :: "int \<Rightarrow> proxy_cache \<Rightarrow> proxy_req list \<Rightarrow> proxy_cache" where
  "proxy_run maxBody c [] = c"
| "proxy_run maxBody c (ReqGet left u t0 t1 t2 up # rs) = proxy_run maxBody (snd (handleGet maxBody left c u t0 t1 t2 up)) rs"
| "proxy_run maxBody c (ReqPurge u # rs) = proxy_run maxBody (snd (handlePurge c u)) rs"

text \<open>The responses a history may serve for a key: successful answers of the upstream to a request for
  that key, of at most the permitted size.\<close>

fun fetched :: "int \<Rightarrow> proxy_req list \<Rightarrow> (string \<times> Response) set" where
  "fetched maxBody [] = {}"
| "fetched maxBody (ReqGet left u t0 t1 t2 up # rs) =
     (case fetch maxBody up of
        Inr resp \<Rightarrow> if r_status resp = 200 then {(requestKey u, resp)} else {}
      | Inl err \<Rightarrow> {}) \<union> fetched maxBody rs"
| "fetched maxBody (ReqPurge u # rs) = fetched maxBody rs"

context ttl_cache
begin

text \<open>\<open>holds c S\<close>: whatever the cache can show is in \<open>S\<close>.\<close>

definition holds :: "'c \<Rightarrow> ('k \<times> 'v) set \<Rightarrow> bool" where
  "holds c S \<longleftrightarrow> inv c \<and> (\<forall>k t v. peek c k t = Some v \<longrightarrow> (k, v) \<in> S)"

lemma holds_mono: "holds c S \<Longrightarrow> S \<subseteq> S' \<Longrightarrow> holds c S'"
  unfolding holds_def by blast

lemma holds_get: "holds c S \<Longrightarrow> holds (fst (cget c k t)) S"
  using get_inv get_only unfolding holds_def by blast

lemma holds_set: "holds c S \<Longrightarrow> holds (fst (cset c k v t t2)) (insert (k, v) S)"
  using set_inv[of c k v t t2] set_same_only[of c k v t t2] set_other[of c _ k v t t2]
  unfolding holds_def by (metis insert_iff)

lemma holds_remove: "holds c S \<Longrightarrow> holds (fst (cremove c k)) S"
  using remove_inv remove_peek unfolding holds_def by auto

end

lemma flight_holds:
  assumes "lru.holds c S"
  shows "lru.holds (snd (flight maxBody c key t1 t2 up))
    (S \<union> (case fetch maxBody up of Inr resp \<Rightarrow> if r_status resp = 200 then {(key, resp)} else {} | Inl err \<Rightarrow> {}))"
  using assms lru.holds_set[OF assms] lru.holds_mono[OF assms]
  by (auto simp: flight_def split: option.splits sum.splits)

lemma handleGet_holds:
  assumes "lru.holds c S"
  shows "lru.holds (snd (handleGet maxBody left c u t0 t1 t2 up))
    (S \<union> (case fetch maxBody up of Inr resp \<Rightarrow> if r_status resp = 200 then {(requestKey u, resp)} else {} | Inl err \<Rightarrow> {}))"
proof -
  have g: "lru.holds (fst (Get c (requestKey u) t0)) S" by (rule lru.holds_get[OF assms])
  have "snd (handleGet maxBody left c u t0 t1 t2 up) = fst (Get c (requestKey u) t0)
      \<or> snd (handleGet maxBody left c u t0 t1 t2 up) = snd (flight maxBody (fst (Get c (requestKey u) t0)) (requestKey u) t1 t2 up)"
    by (auto simp: handleGet_def load_def Let_def split_beta split: option.splits sum.splits)
  then show ?thesis using flight_holds[OF g] lru.holds_mono[OF g] by auto
qed

lemma proxy_run_holds: "lru.holds c S \<Longrightarrow> lru.holds (proxy_run maxBody c rs) (S \<union> fetched maxBody rs)"
proof (induction rs arbitrary: c S)
  case (Cons r rs)
  show ?case
  proof (cases r)
    case (ReqGet left u t0 t1 t2 up)
    then show ?thesis using Cons.IH[OF handleGet_holds[OF Cons.prems, of maxBody left u t0 t1 t2 up]]
      by (simp add: Un_assoc)
  next
    case (ReqPurge u)
    then show ?thesis using Cons.IH[OF lru.holds_remove[OF Cons.prems, of "requestKey u"]]
      by (simp add: handlePurge_def split_beta)
  qed
qed simp

lemma fetch_Inr:
  assumes "fetch maxBody up = Inr resp"
  shows "int (length (r_body resp)) \<le> maxBody"
  using assms by (auto simp: fetch_def split: upstream.splits sum.splits if_splits prod.splits)

lemma fetched_size: "(k, resp) \<in> fetched maxBody rs \<Longrightarrow> r_status resp = 200 \<and> int (length (r_body resp)) \<le> maxBody"
  by (induction maxBody rs rule: fetched.induct) (auto split: sum.splits if_splits dest: fetch_Inr)

lemma handleGet_Served:
  assumes "cache_inv c" and "fst (handleGet maxBody left c u t0 t1 t2 up) = Served st hdr body"
  shows "\<exists>resp t. r_status resp = st \<and> r_body resp = body
    \<and> (Peek c (requestKey u) t = Some resp \<or> fetch maxBody up = Inr resp)"
proof -
  have g: "fst (snd (Get c (requestKey u) t0)) = Peek c (requestKey u) t0" by (rule lru.get_result[OF assms(1)])
  show ?thesis
  proof (cases "Peek c (requestKey u) t0")
    case (Some resp)
    then show ?thesis using assms(2) g by (auto simp: handleGet_def Let_def split_beta serve_def)
  next
    case None
    have sub: "Peek (fst (Get c (requestKey u) t0)) (requestKey u) t1 = Some r \<Longrightarrow> Peek c (requestKey u) t1 = Some r" for r
      by (rule lru.get_only[OF assms(1)])
    show ?thesis using assms(2) g None sub
      by (auto simp: handleGet_def load_def flight_def Let_def split_beta serve_def proxy_writeError_def
          split: option.splits sum.splits if_splits)
  qed
qed

section \<open>Properties\<close>

text \<open>The proxy only serves what the upstream sent for the same path and query. After any history of reads
  and purges on a new cache, a served reply is either the upstream's answer to this request or an
  earlier answer to a request with the same key whose status was 200; its body never exceeds the
  configured limit.\<close>

theorem proxy_serves_upstream_answers:
  assumes "New cap opts = Inr c" and "\<forall>f\<in>set opts. is_option f"
    and "fst (handleGet maxBody left (proxy_run maxBody c rs) u t0 t1 t2 up) = Served st hdr body"
  shows "\<exists>resp. r_status resp = st \<and> r_body resp = body \<and> int (length body) \<le> maxBody
    \<and> (fetch maxBody up = Inr resp \<or> (requestKey u, resp) \<in> fetched maxBody rs \<and> st = 200)"
proof -
  have "lru.holds c {}"
    using New_inv(1,2)[OF assms(1,2)] by (simp add: lru.holds_def Peek_entries find_key_def)
  then have h: "lru.holds (proxy_run maxBody c rs) (fetched maxBody rs)"
    using proxy_run_holds[of c "{}"] by simp
  then have "cache_inv (proxy_run maxBody c rs)" by (simp add: lru.holds_def)
  from handleGet_Served[OF this assms(3)] obtain resp t
    where r: "r_status resp = st" "r_body resp = body"
      and src: "Peek (proxy_run maxBody c rs) (requestKey u) t = Some resp \<or> fetch maxBody up = Inr resp"
    by blast
  from src show ?thesis
  proof
    assume "Peek (proxy_run maxBody c rs) (requestKey u) t = Some resp"
    then have "(requestKey u, resp) \<in> fetched maxBody rs" using h by (simp add: lru.holds_def)
    then show ?thesis using r fetched_size[of "requestKey u" resp maxBody rs] by (intro exI[of _ resp]) simp
  next
    assume "fetch maxBody up = Inr resp"
    then show ?thesis using r fetch_Inr[of maxBody up resp] by (intro exI[of _ resp]) simp
  qed
qed

definition demo_url :: url where
  "demo_url = \<lparr>u_Scheme = ''http'', u_Host = ''h'', u_EscapedPath = ''/a'', u_RawQuery = ''q=1'', u_Fragment = []\<rparr>"

theorem proxy_serves_upstream_answers_witness:
  "\<exists>c. New 1 [] = Inr c
    \<and> (\<exists>hdr. fst (handleGet 10 None c demo_url 0 0 0 (Answer 200 [] ''hello'' None)) = Served 200 hdr ''hello'')
    \<and> (\<exists>resp. r_status resp = 200 \<and> r_body resp = ''hello'' \<and> fetch 10 (Answer 200 [] ''hello'' None) = Inr resp)"
proof -
  obtain c :: proxy_cache where c: "New 1 [] = Inr c" by (simp add: New_def)
  have "\<exists>hdr. fst (handleGet 10 None c demo_url 0 0 0 (Answer 200 [] ''hello'' None)) = Served 200 hdr ''hello''"
    using c by (auto simp: New_def handleGet_def load_def flight_def Get_def getLocked_def Peek_def fetch_def
        readLimited_def wrap64_def serve_def header_Get_def)
  then obtain hdr where h: "fst (handleGet 10 None (proxy_run 10 c []) demo_url 0 0 0 (Answer 200 [] ''hello'' None))
      = Served 200 hdr ''hello''" by auto
  from proxy_serves_upstream_answers[OF c _ h] h c show ?thesis by auto
qed

text \<open>A successful answer is reused: after a miss that fetched a response with status 200, a read of the same
  path and query within the time to live is answered from the cache with the same status and
  body, whatever the upstream would say, and is marked as a hit.\<close>

theorem proxy_second_read_hits:
  assumes "cache_inv c" and "Peek c (requestKey u) t0 = None" and "Peek c (requestKey u) t1 = None" and "t0 \<le> t1"
    and "fetch maxBody up = Inr resp" and "r_status resp = 200" and "fresh_for c t2 t3"
  shows "fst (handleGet maxBody left2 (snd (handleGet maxBody left c u t0 t1 t2 up)) u t3 t4 t5 up2) = serve resp True"
proof -
  let ?k = "requestKey u" and ?c1 = "fst (Get c (requestKey u) t0)"
  have g: "fst (snd (Get c ?k t0)) = None" using lru.get_result[OF assms(1)] assms(2) by simp
  have inv1: "cache_inv ?c1" by (rule lru.get_inv[OF assms(1)])
  have p1: "Peek ?c1 ?k t1 = None" using lru.get_keeps[OF assms(1,4)] assms(3) by simp
  have "snd (handleGet maxBody left c u t0 t1 t2 up) = fst (Set ?c1 ?k resp t2 t2)"
    using g p1 assms(5,6)
    by (simp add: handleGet_def load_def flight_def Let_def split_beta split: option.splits sum.splits)
  moreover have "fresh_for ?c1 t2 t3"
    using assms(7) Get_entries(2)[OF assms(1), of ?k t0] params_sel(2)[of ?c1] params_sel(2)[of c]
    unfolding fresh_for_def by metis
  ultimately have "fst (snd (Get (snd (handleGet maxBody left c u t0 t1 t2 up)) ?k t3)) = Some resp"
    using lru.get_after_set[OF inv1] by simp
  then show ?thesis by (simp add: handleGet_def Let_def split_beta)
qed

theorem proxy_second_read_hits_witness:
  "\<exists>c resp. New 1 [WithTTL 5] = Inr c \<and> fetch 10 (Answer 200 [] ''hi'' None) = Inr resp
    \<and> fst (handleGet 10 None (snd (handleGet 10 (Some True) c demo_url 0 1 2 (Answer 200 [] ''hi'' None))) demo_url 6 6 6 BadRequest)
      = serve resp True"
proof -
  obtain c :: proxy_cache where c: "New 1 [WithTTL 5] = Inr c" by (simp add: New_def)
  have o: "\<forall>f\<in>set [WithTTL 5 :: (string, Response) cache_option]. is_option f" by (auto simp: is_option_def)
  have e: "Peek c (requestKey demo_url) t = None" for t
    using New_inv(1,2)[OF c o] by (simp add: Peek_entries find_key_def)
  have f: "fresh_for c 2 6" using c by (auto simp: New_def WithTTL_def fresh_for_def)
  obtain resp where r: "fetch 10 (Answer 200 [] ''hi'' None) = Inr resp" "r_status resp = 200"
    by (simp add: fetch_def readLimited_def wrap64_def)
  have "fst (handleGet 10 None (snd (handleGet 10 (Some True) c demo_url 0 1 2 (Answer 200 [] ''hi'' None))) demo_url 6 6 6 BadRequest)
      = serve resp True"
    by (rule proxy_second_read_hits[OF New_inv(1)[OF c o] e e _ r f]) simp
  then show ?thesis using c r by blast
qed

end
