(* ===== verification/Ratelimit_Store.thy ===== *)
theory Ratelimit_Store
  imports Go_Prelude
begin

text \<open>
  The limiter package of app 03: decisions, rates, options and the per-key store with its
  eviction of idle keys (\<^verbatim>\<open>ratelimit/ratelimit.go\<close>, \<^verbatim>\<open>ratelimit/store.go\<close>).

  A store holds one state per key. \<open>do\<close>, \<open>evictIdle\<close> and \<open>close\<close> run under the store mutex and
  are functions on the store; an execution of the limiter is a list of such events with the
  clock reading each of them makes. The locale \<open>limiter_state\<close> states what the store relies on
  in the state function of a limiter; it is interpreted for the token bucket and for the
  sliding window in their theories.
\<close>

section \<open>Decisions, rates, options\<close>

datatype rl_error = ErrInvalidConfig | ErrClosed | ErrNoClientIP

record Decision =
  Allowed :: bool
  Limit :: int
  Remaining :: int
  ResetAfter :: duration
  RetryAfter :: duration

record Rate =
  rate_Limit :: int
  rate_Period :: duration

definition validate :: "Rate \<Rightarrow> rl_error option" where
  "validate r =
     (if rate_Limit r \<le> 0 then Some ErrInvalidConfig
      else if rate_Period r \<le> 0 then Some ErrInvalidConfig
      else None)"

text \<open>The options of a limiter; \<open>clock\<close> says whether the clock is set (not nil).\<close>

record rl_options =
  clock :: bool
  cleanupInterval :: duration

definition WithClock :: "bool \<Rightarrow> rl_options \<Rightarrow> rl_options" where
  "WithClock c opts = opts\<lparr>clock := c\<rparr>"

definition WithCleanupInterval :: "duration \<Rightarrow> rl_options \<Rightarrow> rl_options" where
  "WithCleanupInterval d opts = opts\<lparr>cleanupInterval := d\<rparr>"

section \<open>The store\<close>

record 's rl_entry =
  state :: 's
  lastSeen :: gotime

record 's store =
  st_ttl :: duration
  st_entries :: "string \<rightharpoonup> 's rl_entry"
  st_closed :: bool

definition newStore :: "duration \<Rightarrow> (rl_options \<Rightarrow> rl_options) list \<Rightarrow> rl_error + 's store" where
  "newStore ttl opts =
     (let opt = fold (\<lambda>f x. f x) opts \<lparr>clock = True, cleanupInterval = 60000000000\<rparr>
      in if \<not> clock opt then Inl ErrInvalidConfig
         else if cleanupInterval opt \<le> 0 then Inl ErrInvalidConfig
         else Inr \<lparr>st_ttl = ttl, st_entries = Map.empty, st_closed = False\<rparr>)"

definition store_do ::
  "(gotime \<Rightarrow> 's) \<Rightarrow> ('s \<Rightarrow> gotime \<Rightarrow> Decision \<times> 's) \<Rightarrow> 's store \<Rightarrow> string \<Rightarrow> gotime
    \<Rightarrow> (rl_error + Decision) \<times> 's store"
where
  "store_do newState fn s key now =
     (if st_closed s then (Inl ErrClosed, s)
      else let st = (case st_entries s key of Some e \<Rightarrow> state e | None \<Rightarrow> newState now);
               (d, st') = fn st now
           in (Inr d, s\<lparr>st_entries := (st_entries s)(key \<mapsto> \<lparr>state = st', lastSeen = now\<rparr>)\<rparr>))"

definition evictIdle :: "'s store \<Rightarrow> gotime \<Rightarrow> 's store" where
  "evictIdle s now =
     s\<lparr>st_entries := (\<lambda>key. case st_entries s key of
          Some e \<Rightarrow> if st_ttl s \<le> time_Sub now (lastSeen e) then None else Some e
        | None \<Rightarrow> None)\<rparr>"

definition store_close :: "'s store \<Rightarrow> 's store" where
  "store_close s = (if st_closed s then s else s\<lparr>st_closed := True, st_entries := Map.empty\<rparr>)"

text \<open>An execution: requests and ticks of the eviction loop, each with its clock reading, and
  \<open>Close\<close>, which stops the loop first.\<close>

datatype rl_event = Allow string gotime | EvictTick gotime | Close

fun ev_time :: "rl_event \<Rightarrow> gotime option" where
  "ev_time (Allow k t) = Some t"
| "ev_time (EvictTick t) = Some t"
| "ev_time Close = None"

fun rl_run ::
  "(gotime \<Rightarrow> 's) \<Rightarrow> ('s \<Rightarrow> gotime \<Rightarrow> Decision \<times> 's) \<Rightarrow> 's store \<Rightarrow> rl_event list \<Rightarrow> (rl_error + Decision) list"
where
  "rl_run new fn s [] = []"
| "rl_run new fn s (Allow k t # es) = (case store_do new fn s k t of (r, s') \<Rightarrow> r # rl_run new fn s' es)"
| "rl_run new fn s (EvictTick t # es) = rl_run new fn (if st_closed s then s else evictIdle s t) es"
| "rl_run new fn s (Close # es) = rl_run new fn (store_close s) es"

text \<open>The same execution without the eviction loop.\<close>

definition without_ticks :: "rl_event list \<Rightarrow> rl_event list" where
  "without_ticks = filter (\<lambda>e. case e of EvictTick t \<Rightarrow> False | _ \<Rightarrow> True)"

text \<open>The clock does not go back: every reading is at least the ones before it.\<close>

fun monotone_from :: "gotime \<Rightarrow> rl_event list \<Rightarrow> bool" where
  "monotone_from t0 [] = True"
| "monotone_from t0 (e # es) =
     (case ev_time e of None \<Rightarrow> monotone_from t0 es | Some t \<Rightarrow> t0 \<le> t \<and> monotone_from t es)"

section \<open>The contract of a limiter's state function\<close>

text \<open>\<open>inv t s\<close>: \<open>s\<close> is a state left by a call at time \<open>t\<close>. The last law is what makes dropping idle
  keys sound: a state idle for \<open>ttl\<close> answers as a new one does.\<close>

locale limiter_state =
  fixes valid :: bool
    and limit :: int
    and idle :: duration
    and inv :: "gotime \<Rightarrow> 's \<Rightarrow> bool"
    and new :: "gotime \<Rightarrow> 's"
    and step :: "'s \<Rightarrow> gotime \<Rightarrow> Decision \<times> 's"
  assumes step_inv: "valid \<Longrightarrow> inv t s \<Longrightarrow> t \<le> now \<Longrightarrow> inv now (snd (step s now))"
    and new_inv: "valid \<Longrightarrow> inv now (new now)"
    and idle_range: "valid \<Longrightarrow> 0 < idle \<and> idle \<le> max64"
    and step_limit: "valid \<Longrightarrow> Limit (fst (step s now)) = limit"
    and step_remaining: "valid \<Longrightarrow> inv t s \<Longrightarrow> t \<le> now \<Longrightarrow>
      0 \<le> Remaining (fst (step s now)) \<and> Remaining (fst (step s now)) \<le> limit"
    and allowed_retry: "valid \<Longrightarrow> Allowed (fst (step s now)) \<Longrightarrow> RetryAfter (fst (step s now)) = 0"
    and idle_reset: "valid \<Longrightarrow> inv t s \<Longrightarrow> t + idle \<le> now \<Longrightarrow> step s now = step (new now) now"
begin

text \<open>\<open>s\<close> is \<open>r\<close> with some keys missing, each idle for at least \<open>idle\<close> at time \<open>t\<close>.\<close>

definition evicted_from :: "gotime \<Rightarrow> 's store \<Rightarrow> 's store \<Rightarrow> bool" where
  "evicted_from t s r \<longleftrightarrow> st_closed s = st_closed r \<and> st_ttl s = idle \<and>
     (\<forall>k e. st_entries r k = Some e \<longrightarrow> lastSeen e \<le> t \<and> inv (lastSeen e) (state e)) \<and>
     (\<forall>k. st_entries s k = st_entries r k \<or>
          st_entries s k = None \<and> (\<exists>e. st_entries r k = Some e \<and> lastSeen e + idle \<le> t))"

lemma evicted_from_later: "evicted_from t s r \<Longrightarrow> t \<le> t' \<Longrightarrow> evicted_from t' s r"
  unfolding evicted_from_def by (meson order_trans)

lemma do_same:
  assumes "valid" and ev: "evicted_from t s r" and "t \<le> now"
  shows "fst (store_do new step s k now) = fst (store_do new step r k now)"
    and "evicted_from now (snd (store_do new step s k now)) (snd (store_do new step r k now))"
proof -
  define st where "st x = (case st_entries x k of Some e \<Rightarrow> state e | None \<Rightarrow> new now)" for x :: "'s store"
  have step_eq: "step (st s) now = step (st r) now"
  proof (cases "st_entries s k = st_entries r k")
    case True
    then show ?thesis by (simp add: st_def)
  next
    case False
    then obtain e where e: "st_entries s k = None" "st_entries r k = Some e" "lastSeen e + idle \<le> t"
      using ev unfolding evicted_from_def by blast
    then have "inv (lastSeen e) (state e)" using ev unfolding evicted_from_def by blast
    then have "step (state e) now = step (new now) now"
      using e(3) assms by (intro idle_reset[of "lastSeen e"]) simp_all
    then show ?thesis using e by (simp add: st_def)
  qed
  have inv: "inv now (snd (step (st r) now))"
  proof (cases "st_entries r k")
    case None
    then show ?thesis using step_inv[OF assms(1) new_inv[OF assms(1)] order_refl] by (simp add: st_def)
  next
    case (Some e)
    then have "lastSeen e \<le> now" "inv (lastSeen e) (state e)"
      using ev assms(3) unfolding evicted_from_def by (blast intro: order_trans)+
    then show ?thesis using Some step_inv assms(1) by (simp add: st_def)
  qed
  have do_eq: "store_do new step x k now = (if st_closed x then (Inl ErrClosed, x)
      else (Inr (fst (step (st x) now)),
            x\<lparr>st_entries := (st_entries x)(k \<mapsto> \<lparr>state = snd (step (st x) now), lastSeen = now\<rparr>)\<rparr>))" for x
    by (simp add: store_do_def st_def split_beta Let_def)
  have cl: "st_closed s = st_closed r" using ev by (simp add: evicted_from_def)
  show "fst (store_do new step s k now) = fst (store_do new step r k now)"
    using step_eq cl by (simp add: do_eq)
  show "evicted_from now (snd (store_do new step s k now)) (snd (store_do new step r k now))"
    using evicted_from_later[OF ev assms(3)] step_eq inv cl by (auto simp: do_eq evicted_from_def)
qed

lemma evict_same:
  assumes "valid" and "evicted_from t s r" and "t \<le> now"
  shows "evicted_from now (evictIdle s now) r"
proof -
  have sub: "idle \<le> time_Sub now u \<longleftrightarrow> u + idle \<le> now" for u
    using idle_range[OF assms(1)] by (auto simp: time_Sub_def sat64_ge_iff min64_def max64_def)
  have ev: "evicted_from now s r" by (rule evicted_from_later[OF assms(2,3)])
  have "st_entries (evictIdle s now) k = st_entries r k \<or> st_entries (evictIdle s now) k = None \<and>
      (\<exists>e. st_entries r k = Some e \<and> lastSeen e + idle \<le> now)" for k
  proof (cases "st_entries s k = None")
    case True
    then show ?thesis using ev unfolding evicted_from_def by (simp add: evictIdle_def) metis
  next
    case False
    then have "st_entries s k = st_entries r k" using ev unfolding evicted_from_def by metis
    moreover have "st_ttl s = idle" using ev by (simp add: evicted_from_def)
    ultimately show ?thesis using False sub[of "lastSeen (the (st_entries s k))"]
      by (auto simp: evictIdle_def split: if_splits)
  qed
  then show ?thesis using ev unfolding evicted_from_def by (simp add: evictIdle_def)
qed

lemma close_same: "evicted_from t s r \<Longrightarrow> evicted_from t (store_close s) (store_close r)"
  unfolding evicted_from_def by (auto simp: store_close_def)

text \<open>Evicting idle keys in the background is invisible: every request gets the decision it
  would get from a store that never forgets a key.\<close>

lemma ticks_invisible:
  assumes "valid" and "evicted_from t s r" and "monotone_from t es"
  shows "rl_run new step s es = rl_run new step r (without_ticks es)"
  using assms(2,3)
proof (induction es arbitrary: t s r)
  case (Cons e es)
  show ?case
  proof (cases e)
    case (Allow k now)
    then show ?thesis
      using do_same[OF assms(1) Cons.prems(1), of now k] Cons.prems(2)
        Cons.IH[of now "snd (store_do new step s k now)" "snd (store_do new step r k now)"]
      by (simp add: without_ticks_def split_beta)
  next
    case (EvictTick now)
    then have "evicted_from now (if st_closed s then s else evictIdle s now) r"
      using Cons.prems evict_same[OF assms(1) Cons.prems(1), of now] evicted_from_later by simp
    then show ?thesis using Cons.IH EvictTick Cons.prems(2) by (simp add: without_ticks_def)
  next
    case Close
    then show ?thesis using Cons.IH[OF close_same[OF Cons.prems(1)]] Cons.prems(2) by (simp add: without_ticks_def)
  qed
qed (simp add: without_ticks_def)

lemma fresh_store_evicted_from:
  "evicted_from t \<lparr>st_ttl = idle, st_entries = Map.empty, st_closed = False\<rparr>
     \<lparr>st_ttl = idle, st_entries = Map.empty, st_closed = False\<rparr>"
  by (simp add: evicted_from_def)

end

end
