(* ===== verification/Token_Bucket.thy ===== *)
theory Token_Bucket
  imports Ratelimit_Store
begin

text \<open>
  The token bucket limiter of app 03 (\<^verbatim>\<open>ratelimit/tokenbucket.go\<close>): construction, \<open>refill\<close> and
  \<open>take\<close>, the interpretation of the limiter contract, and the bounds on what it admits.
  Products of a count and a duration are reduced to 64 bits where the code computes them.
\<close>

section \<open>The limiter\<close>

record TokenBucket =
  burst :: int
  interval :: duration

record bucket =
  tokens :: int
  refilledAt :: gotime

definition newBucket :: "TokenBucket \<Rightarrow> gotime \<Rightarrow> bucket" where
  "newBucket tb now = \<lparr>tokens = burst tb, refilledAt = now\<rparr>"

definition refill :: "TokenBucket \<Rightarrow> bucket \<Rightarrow> gotime \<Rightarrow> bucket" where
  "refill tb b now =
     (let earned = go_quot (time_Sub now (refilledAt b)) (interval tb)
      in if earned \<ge> burst tb - tokens b then b\<lparr>tokens := burst tb, refilledAt := now\<rparr>
         else if earned > 0 then
           b\<lparr>tokens := tokens b + earned,
             refilledAt := time_Add (refilledAt b) (wrap64 (earned * interval tb))\<rparr>
         else b)"

definition tb_take :: "TokenBucket \<Rightarrow> bucket \<Rightarrow> gotime \<Rightarrow> Decision \<times> bucket" where
  "tb_take tb b0 now =
     (let b = refill tb b0 now;
          d = \<lparr>Allowed = False, Limit = burst tb, Remaining = 0, ResetAfter = 0, RetryAfter = 0\<rparr>;
          (d1, b1) = (if tokens b > 0 then (d\<lparr>Allowed := True\<rparr>, b\<lparr>tokens := tokens b - 1\<rparr>)
                      else (d\<lparr>RetryAfter := time_Sub (time_Add (refilledAt b) (interval tb)) now\<rparr>, b));
          d2 = d1\<lparr>Remaining := tokens b1\<rparr>;
          d3 = d2\<lparr>ResetAfter :=
                 time_Sub (time_Add (refilledAt b1) (wrap64 ((burst tb - tokens b1) * interval tb))) now\<rparr>
      in (d3, b1))"

definition NewTokenBucket ::
  "Rate \<Rightarrow> int \<Rightarrow> (rl_options \<Rightarrow> rl_options) list \<Rightarrow> rl_error + TokenBucket \<times> bucket store"
where
  "NewTokenBucket rate bst opts =
     (case validate rate of
        Some err \<Rightarrow> Inl err
      | None \<Rightarrow>
          if bst \<le> 0 then Inl ErrInvalidConfig
          else let iv = go_quot (rate_Period rate) (rate_Limit rate)
               in if iv \<le> 0 then Inl ErrInvalidConfig
                  else case newStore (wrap64 (bst * iv)) opts of
                         Inl err \<Rightarrow> Inl err
                       | Inr s \<Rightarrow> Inr (\<lparr>burst = bst, interval = iv\<rparr>, s))"

definition tb_Allow :: "TokenBucket \<Rightarrow> bucket store \<Rightarrow> string \<Rightarrow> gotime \<Rightarrow> (rl_error + Decision) \<times> bucket store" where
  "tb_Allow tb s key now = store_do (newBucket tb) (tb_take tb) s key now"

section \<open>Invariant\<close>

text \<open>The parameters are usable when the time to fill a bucket is a duration.\<close>

definition tb_valid :: "TokenBucket \<Rightarrow> bool" where
  "tb_valid tb \<longleftrightarrow> 0 < burst tb \<and> 0 < interval tb \<and> burst tb * interval tb \<le> max64"

definition tb_inv :: "TokenBucket \<Rightarrow> gotime \<Rightarrow> bucket \<Rightarrow> bool" where
  "tb_inv tb t b \<longleftrightarrow> 0 \<le> tokens b \<and> tokens b \<le> burst tb \<and> refilledAt b \<le> t"

text \<open>A bucket refilled at \<open>now\<close>: less than one interval of credit is left over unless it is full.\<close>

lemma earned_bounds:
  assumes "0 < interval tb" and "refilledAt b \<le> now"
  defines "earned \<equiv> go_quot (time_Sub now (refilledAt b)) (interval tb)"
  shows "0 \<le> earned" and "earned * interval tb \<le> now - refilledAt b" and "earned * interval tb \<le> max64"
proof -
  let ?d = "time_Sub now (refilledAt b)"
  have d: "0 \<le> ?d" "?d \<le> now - refilledAt b" "?d \<le> max64"
    using assms(2) by (simp_all add: time_Sub_def sat64_nonneg_iff sat64_le_self) (simp add: sat64_def min64_def max64_def)
  show "0 \<le> earned" using d(1) assms(1) by (simp add: earned_def go_quot_nonneg pos_imp_zdiv_nonneg_iff)
  have "earned * interval tb \<le> ?d" unfolding earned_def by (rule go_quot_bounds(1)[OF d(1) assms(1)])
  then show "earned * interval tb \<le> now - refilledAt b" "earned * interval tb \<le> max64"
    using d by linarith+
qed

lemma refill_props:
  assumes "0 < burst tb" "0 < interval tb" and "tb_inv tb t b" and "t \<le> now"
  shows "tb_inv tb now (refill tb b now)"
    and "tokens (refill tb b now) * interval tb - refilledAt (refill tb b now)
      \<le> tokens b * interval tb - refilledAt b"
proof -
  let ?e = "go_quot (time_Sub now (refilledAt b)) (interval tb)"
  have r: "refilledAt b \<le> now" "0 \<le> tokens b" "tokens b \<le> burst tb" using assms(3,4) by (simp_all add: tb_inv_def)
  note eb = earned_bounds[OF assms(2) r(1)]
  have w: "wrap64 (?e * interval tb) = ?e * interval tb"
    using eb assms(2) by (intro wrap64_id) (simp add: in64_def min64_def order_trans[OF _ mult_nonneg_nonneg])
  show "tb_inv tb now (refill tb b now)"
    using r eb w by (auto simp: refill_def Let_def tb_inv_def time_Add_def)
  have "(burst tb - tokens b) * interval tb \<le> now - refilledAt b" if "burst tb - tokens b \<le> ?e"
    using mult_right_mono[OF that, of "interval tb"] assms(2) eb(2) by linarith
  then show "tokens (refill tb b now) * interval tb - refilledAt (refill tb b now)
      \<le> tokens b * interval tb - refilledAt b"
    using w by (auto simp: refill_def Let_def time_Add_def algebra_simps)
qed

lemma refill_leftover:
  assumes "tb_valid tb" and "tb_inv tb t b" and "t \<le> now" and "tokens (refill tb b now) < burst tb"
  shows "now - refilledAt (refill tb b now) < interval tb"
proof -
  let ?d = "now - refilledAt b" and ?s = "time_Sub now (refilledAt b)"
  let ?e = "go_quot ?s (interval tb)"
  have v: "0 < burst tb" "0 < interval tb" "burst tb * interval tb \<le> max64" using assms(1) by (simp_all add: tb_valid_def)
  have r: "refilledAt b \<le> now" "0 \<le> tokens b" using assms(2,3) by (simp_all add: tb_inv_def)
  have lt: "?e < burst tb - tokens b" using assms(4) by (auto simp: refill_def Let_def split: if_splits)
  have s0: "0 \<le> ?s" using r by (simp add: time_Sub_def sat64_nonneg_iff)
  have "?s < (?e + 1) * interval tb"
    by (rule go_quot_bounds(2)[OF s0 v(2)])
  moreover have "(?e + 1) * interval tb \<le> burst tb * interval tb"
    using lt r v by (intro mult_right_mono) simp_all
  ultimately have "?s < max64" using v by linarith
  then have sd: "?s = ?d" using r by (auto simp: time_Sub_def sat64_def min64_def max64_def)
  have w: "wrap64 (?e * interval tb) = ?e * interval tb"
    using earned_bounds[OF v(2) r(1)] v(2) by (intro wrap64_id) (simp add: in64_def min64_def order_trans[OF _ mult_nonneg_nonneg])
  have "?e \<le> 0 \<longrightarrow> ?e = 0" using earned_bounds(1)[OF v(2) r(1)] by simp
  moreover have "refill tb b now = (if ?e > 0 then b\<lparr>tokens := tokens b + ?e, refilledAt := refilledAt b + ?e * interval tb\<rparr> else b)"
    using lt w by (simp add: refill_def Let_def time_Add_def)
  moreover have "?d < ?e * interval tb + interval tb"
    using \<open>?s < (?e + 1) * interval tb\<close> sd by (simp add: distrib_right)
  ultimately show ?thesis by auto
qed

lemma tb_take_eq:
  "tb_take tb b now =
     (let b' = refill tb b now; ok = 0 < tokens b'; b1 = (if ok then b'\<lparr>tokens := tokens b' - 1\<rparr> else b')
      in (\<lparr>Allowed = ok, Limit = burst tb, Remaining = tokens b1,
           ResetAfter = time_Sub (time_Add (refilledAt b1) (wrap64 ((burst tb - tokens b1) * interval tb))) now,
           RetryAfter = (if ok then 0 else time_Sub (time_Add (refilledAt b') (interval tb)) now)\<rparr>, b1))"
  by (simp add: tb_take_def Let_def)

lemma tb_take_props:
  assumes "0 < burst tb" "0 < interval tb" and "tb_inv tb t b" and "t \<le> now"
  shows "tb_inv tb now (snd (tb_take tb b now))"
    and "(tokens (snd (tb_take tb b now)) + (if Allowed (fst (tb_take tb b now)) then 1 else 0)) * interval tb
        - refilledAt (snd (tb_take tb b now)) \<le> tokens b * interval tb - refilledAt b"
  using refill_props[OF assms] by (auto simp: tb_take_eq Let_def tb_inv_def algebra_simps)

text \<open>A full bucket, and one idle for the time it takes to fill, refill to the same state.\<close>

lemma refill_new: "0 < burst tb \<Longrightarrow> refill tb (newBucket tb now) now = newBucket tb now"
  by (simp add: refill_def newBucket_def time_Sub_def go_quot_def sat64_def min64_def max64_def)

lemma refill_idle:
  assumes "tb_valid tb" and "tb_inv tb t b" and "t + burst tb * interval tb \<le> now"
  shows "refill tb b now = newBucket tb now"
proof -
  have v: "0 < burst tb" "0 < interval tb" "burst tb * interval tb \<le> max64" using assms(1) by (simp_all add: tb_valid_def)
  have r: "refilledAt b \<le> t" "0 \<le> tokens b" using assms(2) by (simp_all add: tb_inv_def)
  have "0 < burst tb * interval tb" using v by simp
  then have s: "burst tb * interval tb \<le> time_Sub now (refilledAt b)"
    using v(3) assms(3) r by (simp add: time_Sub_def sat64_ge_iff min64_def)
  then have "0 \<le> time_Sub now (refilledAt b)" using \<open>0 < burst tb * interval tb\<close> by linarith
  then have "burst tb \<le> go_quot (time_Sub now (refilledAt b)) (interval tb)"
    using v zdiv_mono1[OF s, of "interval tb"] by (simp add: go_quot_nonneg)
  then show ?thesis using r by (simp add: refill_def Let_def newBucket_def)
qed

interpretation tb: limiter_state "tb_valid tb" "burst tb" "burst tb * interval tb" "tb_inv tb"
  "newBucket tb" "tb_take tb" for tb
proof unfold_locales
  fix t now :: gotime and s :: bucket
  assume v: "tb_valid tb"
  then have pos: "0 < burst tb" "0 < interval tb" "burst tb * interval tb \<le> max64" by (simp_all add: tb_valid_def)
  show "tb_inv tb now (newBucket tb now)" using pos by (simp add: tb_inv_def newBucket_def)
  show "0 < burst tb * interval tb \<and> burst tb * interval tb \<le> max64" using pos by simp
  show "Limit (fst (tb_take tb s now)) = burst tb" by (simp add: tb_take_eq Let_def)
  show "Allowed (fst (tb_take tb s now)) \<Longrightarrow> RetryAfter (fst (tb_take tb s now)) = 0"
    by (simp add: tb_take_eq Let_def)
  {
    assume inv: "tb_inv tb t s" and "t \<le> now"
    note props = tb_take_props[OF pos(1,2) inv \<open>t \<le> now\<close>]
    show "tb_inv tb now (snd (tb_take tb s now))" by (rule props(1))
    have "Remaining (fst (tb_take tb s now)) = tokens (snd (tb_take tb s now))" by (simp add: tb_take_eq Let_def)
    then show "0 \<le> Remaining (fst (tb_take tb s now)) \<and> Remaining (fst (tb_take tb s now)) \<le> burst tb"
      using props(1) by (simp add: tb_inv_def)
  }
  assume "tb_inv tb t s" "t + burst tb * interval tb \<le> now"
  then show "tb_take tb s now = tb_take tb (newBucket tb now) now"
    using refill_idle[OF v] refill_new[OF pos(1)] by (simp add: tb_take_eq)
qed

text \<open>After a denial the bucket is empty and less than one interval from its next token.\<close>

lemma tb_retry:
  assumes "tb_valid tb" and "tb_inv tb t b" and "t \<le> now" and "\<not> Allowed (fst (tb_take tb b now))" and "now \<le> u"
  shows "0 < RetryAfter (fst (tb_take tb b now)) \<and> RetryAfter (fst (tb_take tb b now)) \<le> interval tb
    \<and> (Allowed (fst (tb_take tb (snd (tb_take tb b now)) u)) \<longleftrightarrow> now + RetryAfter (fst (tb_take tb b now)) \<le> u)"
proof -
  define d where "d = fst (tb_take tb b now)"
  define b' where "b' = snd (tb_take tb b now)"
  have v: "0 < burst tb" "0 < interval tb" "burst tb * interval tb \<le> max64" using assms(1) by (simp_all add: tb_valid_def)
  have "1 * interval tb \<le> burst tb * interval tb" using v by (intro mult_right_mono) simp_all
  with v(3) have iv: "interval tb \<le> max64" by linarith
  define r where "r = refill tb b now"
  have inv: "tb_inv tb now r" unfolding r_def by (rule refill_props(1)[OF v(1,2) assms(2,3)])
  have tok: "tokens r = 0" using assms(4) inv by (simp add: tb_take_eq Let_def r_def tb_inv_def)
  then have left: "now - refilledAt r < interval tb"
    using refill_leftover[OF assms(1,2,3)] v(1) by (simp add: r_def)
  have b': "b' = r" and retry: "RetryAfter d = refilledAt r + interval tb - now"
    using tok left iv inv
    by (simp_all add: b'_def d_def tb_take_eq Let_def r_def time_Sub_def time_Add_def sat64_def min64_def max64_def tb_inv_def)
  let ?s = "time_Sub u (refilledAt r)"
  have s: "0 \<le> ?s" "interval tb \<le> ?s \<longleftrightarrow> refilledAt r + interval tb \<le> u"
    using assms(5) inv v iv by (auto simp: time_Sub_def sat64_nonneg_iff sat64_ge_iff min64_def tb_inv_def)
  have "0 < go_quot ?s (interval tb) \<longleftrightarrow> interval tb \<le> ?s"
    using s(1) v(2) by (simp add: go_quot_nonneg pos_imp_zdiv_pos_iff)
  then have "Allowed (fst (tb_take tb r u)) \<longleftrightarrow> refilledAt r + interval tb \<le> u"
    using s tok v by (auto simp: tb_take_eq Let_def refill_def)
  then show ?thesis using retry left inv b' unfolding d_def b'_def by (simp add: tb_inv_def)
qed

section \<open>Properties\<close>

text \<open>The outcomes of a sequence of calls on one bucket.\<close>

fun tb_run :: "TokenBucket \<Rightarrow> bucket \<Rightarrow> gotime list \<Rightarrow> bool list" where
  "tb_run tb b [] = []"
| "tb_run tb b (t # ts) = (case tb_take tb b t of (d, b') \<Rightarrow> Allowed d # tb_run tb b' ts)"

lemma tb_run_credit:
  assumes "0 < burst tb" "0 < interval tb" and "tb_inv tb t b" and "sorted (t # ts)"
  shows "int (length (filter id (tb_run tb b ts))) * interval tb
    \<le> tokens b * interval tb - refilledAt b + last (t # ts)"
  using assms(3,4)
proof (induction ts arbitrary: t b)
  case Nil
  then have "0 \<le> tokens b * interval tb" "refilledAt b \<le> t" using assms(2) by (simp_all add: tb_inv_def)
  then show ?case unfolding tb_run.simps by (simp only: filter.simps list.size last.simps) simp
next
  case (Cons u ts)
  note props = tb_take_props[OF assms(1,2) Cons.prems(1), of u]
  have "int (length (filter id (tb_run tb (snd (tb_take tb b u)) ts))) * interval tb
      \<le> tokens (snd (tb_take tb b u)) * interval tb - refilledAt (snd (tb_take tb b u)) + last (u # ts)"
    using props(1) Cons.prems(2) by (intro Cons.IH) auto
  moreover have "t \<le> u" using Cons.prems(2) by simp
  ultimately show ?case using props(2) by (auto simp: split_beta algebra_simps id_def split: if_splits)
qed

text \<open>(C2) The token bucket never exceeds its rate: whenever requests for a key arrive, in any window that
  starts with a new bucket at most \<open>burst\<close> plus one per elapsed \<open>interval\<close> of them are allowed.\<close>

theorem token_bucket_rate_bound:
  assumes "0 < burst tb" and "0 < interval tb" and "sorted (t0 # ts)"
  shows "int (length (filter id (tb_run tb (newBucket tb t0) ts))) * interval tb
    \<le> burst tb * interval tb + (last (t0 # ts) - t0)"
  using tb_run_credit[OF assms(1,2) _ assms(3), of "newBucket tb t0"] assms(1)
  by (simp add: tb_inv_def newBucket_def)

theorem token_bucket_rate_bound_witness:
  "tb_run \<lparr>burst = 2, interval = 10\<rparr> (newBucket \<lparr>burst = 2, interval = 10\<rparr> 0) [0, 1, 2, 9, 10, 11] =
     [True, True, False, False, True, False]
   \<and> int (length (filter id (tb_run \<lparr>burst = 2, interval = 10\<rparr> (newBucket \<lparr>burst = 2, interval = 10\<rparr> 0)
       [0, 1, 2, 9, 10, 11]))) * 10 \<le> 2 * 10 + 11"
proof -
  have "tb_run \<lparr>burst = 2, interval = 10\<rparr> (newBucket \<lparr>burst = 2, interval = 10\<rparr> 0) [0, 1, 2, 9, 10, 11] =
     [True, True, False, False, True, False]"
    by code_simp
  then show ?thesis
    using token_bucket_rate_bound[of "\<lparr>burst = 2, interval = 10\<rparr>" 0 "[0, 1, 2, 9, 10, 11]"] by simp
qed

text \<open>(C18) \<open>RetryAfter\<close> is exact. A denied request learns the time after which one is allowed: with no
  call in between, a request is allowed if and only if it comes no earlier than that.\<close>

theorem token_bucket_retry_exact:
  assumes "tb_valid tb" and "tb_inv tb t b" and "t \<le> now" and "\<not> Allowed (fst (tb_take tb b now))" and "now \<le> u"
  shows "0 < RetryAfter (fst (tb_take tb b now))
    \<and> (Allowed (fst (tb_take tb (snd (tb_take tb b now)) u)) \<longleftrightarrow> now + RetryAfter (fst (tb_take tb b now)) \<le> u)"
  using tb_retry[OF assms] by blast

theorem token_bucket_retry_exact_witness:
  "RetryAfter (fst (tb_take \<lparr>burst = 1, interval = 10\<rparr> \<lparr>tokens = 0, refilledAt = 3\<rparr> 7)) = 6
   \<and> Allowed (fst (tb_take \<lparr>burst = 1, interval = 10\<rparr> \<lparr>tokens = 0, refilledAt = 3\<rparr> 13))"
  using token_bucket_retry_exact[of "\<lparr>burst = 1, interval = 10\<rparr>" 5 "\<lparr>tokens = 0, refilledAt = 3\<rparr>" 7 13]
  by (simp add: tb_valid_def tb_inv_def tb_take_eq refill_def time_Sub_def time_Add_def go_quot_def
      sat64_def min64_def max64_def Let_def)

text \<open>(C19) Evicting idle keys is invisible to clients of a token bucket: in every execution whose clock does not
  go back, every request gets the decision it would get from a store that never evicts, provided
  the time to fill a bucket is a representable duration.\<close>

theorem token_bucket_eviction_invisible:
  assumes "NewTokenBucket rate bst opts = Inr (tb, s)" and "bst * interval tb \<le> max64"
    and "monotone_from t0 es"
  shows "rl_run (newBucket tb) (tb_take tb) s es = rl_run (newBucket tb) (tb_take tb) s (without_ticks es)"
proof -
  have tb: "tb = \<lparr>burst = bst, interval = interval tb\<rparr>" "0 < bst" "0 < interval tb"
    and s: "s = \<lparr>st_ttl = wrap64 (bst * interval tb), st_entries = Map.empty, st_closed = False\<rparr>"
    using assms(1) by (auto simp: NewTokenBucket_def newStore_def Let_def split: option.splits if_splits sum.splits)
  have b: "burst tb = bst" by (subst tb(1)) simp
  then have v: "tb_valid tb" using tb assms(2) by (simp add: tb_valid_def)
  have "0 < bst * interval tb" using tb by simp
  then have "wrap64 (bst * interval tb) = bst * interval tb"
    using assms(2) by (intro wrap64_id) (simp add: in64_def min64_def)
  then have "tb.evicted_from tb t0 s s"
    using tb.fresh_store_evicted_from[of tb t0] s b by simp
  then show ?thesis by (rule tb.ticks_invisible[OF v _ assms(3)])
qed

definition day_rate :: Rate where
  "day_rate = \<lparr>rate_Limit = 24, rate_Period = 86400000000000\<rparr>"

theorem token_bucket_eviction_invisible_witness:
  "\<exists>tb s. NewTokenBucket day_rate 2 [] = Inr (tb, s)
    \<and> rl_run (newBucket tb) (tb_take tb) s [Allow ''a'' 5, EvictTick 8000000000000, Allow ''a'' 8000000000001]
      = rl_run (newBucket tb) (tb_take tb) s [Allow ''a'' 5, Allow ''a'' 8000000000001]"
proof -
  obtain s :: "bucket store" where new: "NewTokenBucket day_rate 2 [] = Inr (\<lparr>burst = 2, interval = 3600000000000\<rparr>, s)"
    by (simp add: NewTokenBucket_def day_rate_def validate_def newStore_def go_quot_def Let_def)
  from token_bucket_eviction_invisible[OF new, of 0 "[Allow ''a'' 5, EvictTick 8000000000000, Allow ''a'' 8000000000001]"]
  show ?thesis using new by (auto simp: without_ticks_def max64_def)
qed

text \<open>Without that proviso the time to live can wrap around: one request per day with a burst of
  110000 is accepted, the time to live is negative, and an eviction tick drops keys seen that
  very moment, which gives their clients a full bucket again.\<close>

lemma token_bucket_ttl_overflow:
  assumes "NewTokenBucket \<lparr>rate_Limit = 1, rate_Period = 86400000000000\<rparr> 110000 [] = Inr (tb, s)"
  shows "st_ttl s < 0 \<and> st_entries (evictIdle (s\<lparr>st_entries := [k \<mapsto> \<lparr>state = b, lastSeen = now\<rparr>]\<rparr>) now) k = None"
  using assms
  by (auto simp: NewTokenBucket_def validate_def newStore_def go_quot_def Let_def wrap64_def evictIdle_def
      time_Sub_def sat64_def min64_def max64_def)

end
