(* ===== verification/Sliding_Window.thy ===== *)
theory Sliding_Window
  imports Ratelimit_Store Float64
begin

text \<open>
  The sliding window limiter of app 03 (\<^verbatim>\<open>ratelimit/slidingwindow.go\<close>): two counters per key, an
  estimate computed in \<open>float64\<close>, and the waiting times derived from it.

  Converting a \<open>float64\<close> that is not finite or out of range to an integer gives a value that Go
  leaves to the implementation; it is the parameter \<open>conv\<close>. The theorems show that no result
  depends on it.
\<close>

section \<open>The limiter\<close>

record SlidingWindow =
  sw_limit :: int
  sw_period :: duration

record window =
  w_start :: gotime
  w_current :: int
  w_previous :: int

definition zero_window :: window where
  "zero_window = \<lparr>w_start = 0, w_current = 0, w_previous = 0\<rparr>"

definition f64_to_int64 :: "int \<Rightarrow> rat option \<Rightarrow> int" where
  "f64_to_int64 conv q =
     (case q of None \<Rightarrow> conv | Some x \<Rightarrow> if in64 (f64_to_int x) then f64_to_int x else conv)"

definition sw_advance :: "SlidingWindow \<Rightarrow> window \<Rightarrow> gotime \<Rightarrow> window" where
  "sw_advance sw w now =
     (let start = time_Truncate now (sw_period sw);
          diff = time_Sub start (w_start w)
      in if diff = 0 then w
         else if diff = sw_period sw then \<lparr>w_start = start, w_current = 0, w_previous = w_current w\<rparr>
         else \<lparr>w_start = start, w_current = 0, w_previous = 0\<rparr>)"

text \<open>The divisor is the period, which the constructor requires to be positive.\<close>

definition estimate :: "SlidingWindow \<Rightarrow> window \<Rightarrow> gotime \<Rightarrow> rat" where
  "estimate sw w now =
     (let overlap = time_Sub (time_Add (w_start w) (sw_period sw)) now
      in f64_add (rnd64 (f64_mul (f64_of_int (w_previous w)) (f64_of_int overlap) / f64_of_int (sw_period sw)))
           (f64_of_int (w_current w)))"

definition maxOverlap :: "SlidingWindow \<Rightarrow> int \<Rightarrow> int \<Rightarrow> int \<Rightarrow> duration" where
  "maxOverlap sw conv budget cnt =
     f64_to_int64 conv
       (f64_div (f64_mul (f64_of_int (sw_period sw)) (f64_of_int budget)) (f64_of_int cnt))"

definition retryAfter :: "SlidingWindow \<Rightarrow> int \<Rightarrow> window \<Rightarrow> gotime \<Rightarrow> duration" where
  "retryAfter sw conv w now =
     (let fin = time_Add (w_start w) (sw_period sw)
      in if w_current w < sw_limit sw
         then time_Sub (time_Add fin (- maxOverlap sw conv (sw_limit sw - w_current w - 1) (w_previous w))) now
         else time_Sub (time_Add fin (wrap64 (sw_period sw - maxOverlap sw conv (sw_limit sw - 1) (w_current w)))) now)"

definition resetAfter :: "SlidingWindow \<Rightarrow> window \<Rightarrow> gotime \<Rightarrow> duration" where
  "resetAfter sw w now =
     (let fin = time_Add (w_start w) (sw_period sw)
      in if 0 < w_current w then time_Sub (time_Add fin (sw_period sw)) now
         else if 0 < w_previous w then time_Sub fin now
         else 0)"

definition sw_hit :: "SlidingWindow \<Rightarrow> int \<Rightarrow> window \<Rightarrow> gotime \<Rightarrow> Decision \<times> window" where
  "sw_hit sw conv w0 now =
     (let w = sw_advance sw w0 now;
          d = \<lparr>Allowed = False, Limit = sw_limit sw, Remaining = 0, ResetAfter = 0, RetryAfter = 0\<rparr>;
          (d1, w1) = (if f64_add (estimate sw w now) 1 \<le> f64_of_int (sw_limit sw)
                      then (d\<lparr>Allowed := True\<rparr>, w\<lparr>w_current := w_current w + 1\<rparr>)
                      else (d\<lparr>RetryAfter := retryAfter sw conv w now\<rparr>, w));
          d2 = d1\<lparr>Remaining := max 0 (f64_to_int64 conv (Some (f64_sub (f64_of_int (sw_limit sw)) (estimate sw w1 now))))\<rparr>
      in (d2\<lparr>ResetAfter := resetAfter sw w1 now\<rparr>, w1))"

definition NewSlidingWindow ::
  "Rate \<Rightarrow> (rl_options \<Rightarrow> rl_options) list \<Rightarrow> rl_error + SlidingWindow \<times> window store"
where
  "NewSlidingWindow rate opts =
     (case validate rate of
        Some err \<Rightarrow> Inl err
      | None \<Rightarrow>
          case newStore (wrap64 (2 * rate_Period rate)) opts of
            Inl err \<Rightarrow> Inl err
          | Inr s \<Rightarrow> Inr (\<lparr>sw_limit = rate_Limit rate, sw_period = rate_Period rate\<rparr>, s))"

definition sw_Allow ::
  "SlidingWindow \<Rightarrow> int \<Rightarrow> window store \<Rightarrow> string \<Rightarrow> gotime \<Rightarrow> (rl_error + Decision) \<times> window store"
where
  "sw_Allow sw conv s key now = store_do (\<lambda>_. zero_window) (sw_hit sw conv) s key now"

text \<open>The outcomes of a sequence of calls on one window.\<close>

fun sw_run :: "SlidingWindow \<Rightarrow> int \<Rightarrow> window \<Rightarrow> gotime list \<Rightarrow> (gotime \<times> bool) list" where
  "sw_run sw conv w [] = []"
| "sw_run sw conv w (t # ts) = (case sw_hit sw conv w t of (d, w') \<Rightarrow> (t, Allowed d) # sw_run sw conv w' ts)"

lemma sw_hit_eq:
  "Allowed (fst (sw_hit sw conv w now)) =
     (f64_add (estimate sw (sw_advance sw w now) now) 1 \<le> f64_of_int (sw_limit sw))"
  "snd (sw_hit sw conv w now) =
     (if f64_add (estimate sw (sw_advance sw w now) now) 1 \<le> f64_of_int (sw_limit sw)
      then (sw_advance sw w now)\<lparr>w_current := w_current (sw_advance sw w now) + 1\<rparr> else sw_advance sw w now)"
  "Limit (fst (sw_hit sw conv w now)) = sw_limit sw"
  "Remaining (fst (sw_hit sw conv w now)) =
     max 0 (f64_to_int64 conv (Some (f64_sub (f64_of_int (sw_limit sw)) (estimate sw (snd (sw_hit sw conv w now)) now))))"
  "RetryAfter (fst (sw_hit sw conv w now)) =
     (if f64_add (estimate sw (sw_advance sw w now) now) 1 \<le> f64_of_int (sw_limit sw) then 0
      else retryAfter sw conv (sw_advance sw w now) now)"
  by (simp_all add: sw_hit_def Let_def)

lemma sw_run_Cons:
  "sw_run sw conv w (t # ts) = (t, Allowed (fst (sw_hit sw conv w t))) # sw_run sw conv (snd (sw_hit sw conv w t)) ts"
  by (simp add: split_beta)

declare sw_run.simps(2) [simp del]

section \<open>Invariant\<close>

definition sw_valid :: "SlidingWindow \<Rightarrow> bool" where
  "sw_valid sw \<longleftrightarrow> 0 < sw_limit sw \<and> sw_limit sw < 2 ^ 53 \<and> 0 < sw_period sw \<and> 2 * sw_period sw \<le> max64"

definition counts_ok :: "SlidingWindow \<Rightarrow> window \<Rightarrow> bool" where
  "counts_ok sw w \<longleftrightarrow> 0 \<le> w_current w \<and> w_current w \<le> sw_limit sw \<and> 0 \<le> w_previous w \<and> w_previous w \<le> sw_limit sw"

definition sw_inv :: "SlidingWindow \<Rightarrow> gotime \<Rightarrow> window \<Rightarrow> bool" where
  "sw_inv sw t w \<longleftrightarrow> counts_ok sw w \<and>
     (w_start w = time_Truncate t (sw_period sw) \<or> w_current w = 0 \<and> w_previous w = 0)"

lemma time_Truncate_bounds:
  assumes "0 < p"
  shows "time_Truncate t p \<le> t" and "t < time_Truncate t p + p"
proof -
  have "0 \<le> t mod p" "t mod p < p" using assms by simp_all
  then show "time_Truncate t p \<le> t" "t < time_Truncate t p + p" using assms by (simp_all add: time_Truncate_def)
qed

lemma time_Truncate_mono: assumes "0 < p" "t \<le> u" shows "time_Truncate t p \<le> time_Truncate u p"
proof -
  have "t - t mod p = p * (t div p)" "u - u mod p = p * (u div p)"
    by (metis minus_mod_eq_mult_div)+
  moreover have "p * (t div p) \<le> p * (u div p)" using assms by (simp add: zdiv_mono1)
  ultimately show ?thesis using assms(1) by (simp add: time_Truncate_def)
qed

lemma sw_advance_props:
  assumes "0 < sw_period sw" and "counts_ok sw w"
  shows "w_start (sw_advance sw w now) = time_Truncate now (sw_period sw)" and "counts_ok sw (sw_advance sw w now)"
  using assms
  by (auto simp: sw_advance_def Let_def time_Sub_def sat64_def min64_def max64_def counts_ok_def)

text \<open>In the window of \<open>now\<close>, what is left of the window is a positive duration of at most the period.\<close>

lemma overlap_bounds:
  assumes "sw_valid sw" and "w_start w = time_Truncate now (sw_period sw)"
  shows "time_Sub (time_Add (w_start w) (sw_period sw)) now = w_start w + sw_period sw - now"
    and "0 < w_start w + sw_period sw - now" and "w_start w + sw_period sw - now \<le> sw_period sw"
  using assms time_Truncate_bounds[of "sw_period sw" now]
  by (auto simp: sw_valid_def time_Sub_def time_Add_def sat64_def min64_def max64_def)

text \<open>Bounds on the estimate, whatever the rounding does.\<close>

lemma weight_nonneg:
  assumes "0 \<le> w_previous w" "0 \<le> ov" "0 < sw_period sw"
  shows "0 \<le> rnd64 (f64_mul (f64_of_int (w_previous w)) (f64_of_int ov) / f64_of_int (sw_period sw))"
  using assms f64_of_int_nonneg[of "w_previous w"] f64_of_int_nonneg[of ov] f64_of_int_nonneg[of "sw_period sw"]
  by (simp add: f64_mul_def rnd64_nonneg)

lemma weight_upper:
  assumes "0 \<le> n" "0 \<le> ov" "ov \<le> p" "0 < p" "n \<le> 2 ^ 53"
  shows "rnd64 (f64_mul (f64_of_int n) (f64_of_int ov) / f64_of_int p) \<le> 4 * of_int n"
proof -
  let ?n = "f64_of_int n" and ?o = "f64_of_int ov" and ?p = "f64_of_int p"
  have p: "1 \<le> ?p" by (rule f64_of_int_ge_1[OF assms(4)])
  have o: "0 \<le> ?o" "?o \<le> ?p" using assms by (simp_all add: f64_of_int_nonneg f64_of_int_mono)
  have n: "?n = of_int n" using assms by (intro f64_of_int_exact) simp
  have "f64_mul ?n ?o \<le> 2 * (?n * ?o)" unfolding f64_mul_def using o n assms by (intro rnd64_le_double) simp
  also have "\<dots> \<le> 2 * (?n * ?p)" using o n assms by (intro mult_left_mono) simp_all
  finally have "f64_mul ?n ?o / ?p \<le> 2 * of_int n" using p n by (simp add: divide_le_eq)
  moreover have "0 \<le> f64_mul ?n ?o / ?p" using o n p assms by (simp add: f64_mul_def rnd64_nonneg)
  ultimately show ?thesis using rnd64_le_double[of "f64_mul ?n ?o / ?p"] by linarith
qed

lemma estimate_bounds:
  assumes "sw_valid sw" and "counts_ok sw w" and "w_start w = time_Truncate now (sw_period sw)"
  shows "of_int (w_current w) \<le> estimate sw w now" and "estimate sw w now \<le> 10 * of_int (sw_limit sw)"
proof -
  let ?ov = "w_start w + sw_period sw - now"
  note ov = overlap_bounds[OF assms(1,3)]
  have v: "0 < sw_period sw" "sw_limit sw \<le> 2 ^ 53" using assms(1) by (simp_all add: sw_valid_def)
  have c: "0 \<le> w_current w" "w_current w \<le> sw_limit sw" "0 \<le> w_previous w" "w_previous w \<le> sw_limit sw"
    using assms(2) by (simp_all add: counts_ok_def)
  define q where "q = rnd64 (f64_mul (f64_of_int (w_previous w)) (f64_of_int ?ov) / f64_of_int (sw_period sw))"
  have est: "estimate sw w now = rnd64 (q + of_int (w_current w))"
    using ov(1) c v by (simp add: estimate_def Let_def f64_add_def f64_of_int_exact q_def)
  have q0: "0 \<le> q" using weight_nonneg[of w ?ov sw] ov c v by (simp add: q_def)
  then show "of_int (w_current w) \<le> estimate sw w now"
    unfolding est using c v by (intro rnd64_ge_int) simp_all
  have "q \<le> 4 * of_int (w_previous w)" using weight_upper[of "w_previous w" ?ov "sw_period sw"] ov c v by (simp add: q_def)
  moreover have "rnd64 (q + of_int (w_current w)) \<le> 2 * (q + of_int (w_current w))"
    using q0 c by (intro rnd64_le_double) simp
  moreover have "(of_int (w_previous w) :: rat) \<le> of_int (sw_limit sw)" "(of_int (w_current w) :: rat) \<le> of_int (sw_limit sw)"
    using c by simp_all
  ultimately show "estimate sw w now \<le> 10 * of_int (sw_limit sw)" unfolding est distrib_left by linarith
qed

lemma estimate_no_previous:
  assumes "sw_valid sw" and "counts_ok sw w" and "w_previous w = 0"
  shows "estimate sw w now = of_int (w_current w)"
  using assms by (simp add: estimate_def Let_def f64_mul_def f64_add_def f64_of_int_0 f64_of_int_exact rnd64_of_int
      counts_ok_def sw_valid_def)

text \<open>An allowed request fits into the limit of its window.\<close>

lemma allowed_fits:
  assumes "sw_valid sw" and "counts_ok sw w" and "w_start w = time_Truncate now (sw_period sw)"
    and "f64_add (estimate sw w now) 1 \<le> f64_of_int (sw_limit sw)"
  shows "w_current w + 1 \<le> sw_limit sw"
proof -
  have v: "0 < sw_limit sw" "sw_limit sw < 2 ^ 53" "0 \<le> w_current w" "w_current w \<le> sw_limit sw"
    using assms(1,2) by (simp_all add: sw_valid_def counts_ok_def)
  have "of_int (w_current w + 1) \<le> estimate sw w now + 1" using estimate_bounds(1)[OF assms(1-3)] by simp
  then have "of_int (w_current w + 1) \<le> f64_add (estimate sw w now) 1"
    unfolding f64_add_def using v by (intro rnd64_ge_int) simp_all
  also have "\<dots> \<le> of_int (sw_limit sw)" using assms(4) v by (simp add: f64_of_int_exact)
  finally show ?thesis by (simp only: of_int_le_iff)
qed

lemma sw_hit_inv:
  assumes "sw_valid sw" and "counts_ok sw w"
  shows "counts_ok sw (snd (sw_hit sw conv w now))"
    and "w_start (snd (sw_hit sw conv w now)) = time_Truncate now (sw_period sw)"
proof -
  have p: "0 < sw_period sw" using assms(1) by (simp add: sw_valid_def)
  note adv = sw_advance_props[OF p assms(2), of now]
  show "w_start (snd (sw_hit sw conv w now)) = time_Truncate now (sw_period sw)"
    using adv(1) by (simp add: sw_hit_eq)
  show "counts_ok sw (snd (sw_hit sw conv w now))"
    using adv(2) allowed_fits[OF assms(1) adv(2,1)] by (auto simp: sw_hit_eq counts_ok_def)
qed

lemma sw_remaining:
  assumes "sw_valid sw" and "counts_ok sw w"
  shows "0 \<le> Remaining (fst (sw_hit sw conv w now))" and "Remaining (fst (sw_hit sw conv w now)) \<le> sw_limit sw"
proof -
  define w1 where "w1 = snd (sw_hit sw conv w now)"
  define x where "x = f64_sub (f64_of_int (sw_limit sw)) (estimate sw w1 now)"
  have v: "0 < sw_limit sw" "sw_limit sw < 2 ^ 53" using assms(1) by (simp_all add: sw_valid_def)
  have ok: "counts_ok sw w1" "w_start w1 = time_Truncate now (sw_period sw)"
    unfolding w1_def by (rule sw_hit_inv[OF assms])+
  note est = estimate_bounds[OF assms(1) ok]
  have e0: "0 \<le> estimate sw w1 now" using est(1) ok(1) of_int_0_le_iff[of "w_current w1"] by (simp add: counts_ok_def)
  have x: "x = rnd64 (of_int (sw_limit sw) - estimate sw w1 now)" using v by (simp add: x_def f64_sub_def f64_of_int_exact)
  have up: "x \<le> of_int (sw_limit sw)" unfolding x using e0 v by (intro rnd64_le_int) simp_all
  have "- (of_int (sw_limit sw) - estimate sw w1 now) \<le> 10 * of_int (sw_limit sw)" using est(2) v by simp
  then have "rnd64 (- (of_int (sw_limit sw) - estimate sw w1 now)) \<le> rnd64 (of_int (10 * sw_limit sw))"
    by (intro rnd64_mono) simp
  also have "\<dots> \<le> 20 * of_int (sw_limit sw)" using rnd64_le_double[of "of_int (10 * sw_limit sw)"] v by simp
  finally have lo: "- (20 * of_int (sw_limit sw)) \<le> x" unfolding x rnd64_minus by linarith
  have "f64_to_int x \<le> sw_limit sw"
  proof (cases "0 \<le> x")
    case True
    then show ?thesis using up by (simp add: f64_to_int_def floor_le_iff)
  next
    case False
    then show ?thesis using v by (simp add: f64_to_int_def) (simp add: ceiling_le_iff order_trans[of x 0])
  qed
  moreover have "- (20 * sw_limit sw) \<le> f64_to_int x"
  proof (cases "0 \<le> x")
    case True
    then show ?thesis using v by (simp add: f64_to_int_def le_floor_iff order_trans[of _ 0])
  next
    case False
    have "of_int (- (20 * sw_limit sw)) \<le> (of_int \<lceil>x\<rceil> :: rat)" using lo le_of_int_ceiling[of x] by (simp, linarith)
    then show ?thesis using False by (simp only: f64_to_int_def of_int_le_iff) simp
  qed
  ultimately have "in64 (f64_to_int x)" "f64_to_int x \<le> sw_limit sw" using v by (simp_all add: in64_iff)
  then have "Remaining (fst (sw_hit sw conv w now)) = max 0 (f64_to_int x)"
    by (simp add: sw_hit_eq(4) f64_to_int64_def flip: w1_def x_def)
  then show "0 \<le> Remaining (fst (sw_hit sw conv w now))" "Remaining (fst (sw_hit sw conv w now)) \<le> sw_limit sw"
    using \<open>f64_to_int x \<le> sw_limit sw\<close> v by simp_all
qed

section \<open>The limiter contract\<close>

lemma sw_advance_idle:
  assumes "sw_valid sw" and "sw_inv sw t w" and "t + 2 * sw_period sw \<le> now"
  shows "sw_advance sw w now = \<lparr>w_start = time_Truncate now (sw_period sw), w_current = 0, w_previous = 0\<rparr>"
proof (cases "w_current w = 0 \<and> w_previous w = 0")
  case True
  then show ?thesis
    by (auto simp: sw_advance_def Let_def time_Sub_def sat64_def min64_def max64_def)
next
  case False
  let ?p = "sw_period sw" and ?s = "time_Truncate now (sw_period sw)"
  have v: "0 < ?p" "2 * ?p \<le> max64" using assms(1) by (simp_all add: sw_valid_def)
  have "w_start w = time_Truncate t ?p" using False assms(2) by (auto simp: sw_inv_def)
  then have "w_start w \<le> t" "now < ?s + ?p" using time_Truncate_bounds[OF v(1)] by simp_all
  then have "?p < ?s - w_start w" using assms(3) by linarith
  then have "time_Sub ?s (w_start w) \<noteq> 0" "time_Sub ?s (w_start w) \<noteq> ?p"
    using v by (auto simp: time_Sub_def sat64_def min64_def max64_def)
  then show ?thesis by (simp add: sw_advance_def Let_def)
qed

interpretation sw: limiter_state "sw_valid sw" "sw_limit sw" "2 * sw_period sw" "sw_inv sw"
  "\<lambda>_. zero_window" "sw_hit sw conv" for sw conv
proof unfold_locales
  fix t now :: gotime and s :: window
  assume v: "sw_valid sw"
  have new: "sw_inv sw u zero_window" for u using v by (simp add: sw_inv_def counts_ok_def zero_window_def sw_valid_def)
  then show "sw_inv sw now zero_window" .
  show "0 < 2 * sw_period sw \<and> 2 * sw_period sw \<le> max64" using v by (simp add: sw_valid_def)
  show "Limit (fst (sw_hit sw conv s now)) = sw_limit sw" by (simp add: sw_hit_eq)
  show "Allowed (fst (sw_hit sw conv s now)) \<Longrightarrow> RetryAfter (fst (sw_hit sw conv s now)) = 0"
    by (simp add: sw_hit_eq)
  {
    assume "sw_inv sw t s"
    then have c: "counts_ok sw s" by (simp add: sw_inv_def)
    show "sw_inv sw now (snd (sw_hit sw conv s now))" using sw_hit_inv[OF v c] by (simp add: sw_inv_def)
    show "0 \<le> Remaining (fst (sw_hit sw conv s now)) \<and> Remaining (fst (sw_hit sw conv s now)) \<le> sw_limit sw"
      using sw_remaining[OF v c] by simp
  }
  assume "sw_inv sw t s" "t + 2 * sw_period sw \<le> now"
  then have "sw_advance sw s now = sw_advance sw zero_window now"
    using sw_advance_idle[OF v] sw_advance_idle[OF v new[of "now - 2 * sw_period sw"]] by simp
  then show "sw_hit sw conv s now = sw_hit sw conv zero_window now" by (simp add: sw_hit_def)
qed

section \<open>Requests admitted per window\<close>

definition admitted_in :: "SlidingWindow \<Rightarrow> gotime \<Rightarrow> (gotime \<times> bool) list \<Rightarrow> int" where
  "admitted_in sw W rs = int (length (filter (\<lambda>(t, ok). ok \<and> time_Truncate t (sw_period sw) = W) rs))"

lemma admitted_in_past:
  assumes "0 < sw_period sw" and "sorted (t # ts)" and "W < time_Truncate t (sw_period sw)"
  shows "admitted_in sw W (sw_run sw conv w ts) = 0"
  using assms(2,3)
proof (induction ts arbitrary: t w)
  case (Cons u ts)
  then have "W < time_Truncate u (sw_period sw)"
    using time_Truncate_mono[OF assms(1), of t u] by auto
  then show ?case using Cons.IH[of u] Cons.prems(1) by (simp add: sw_run_Cons admitted_in_def)
qed (simp add: admitted_in_def)

lemma admitted_in_bound:
  assumes v: "sw_valid sw" and "counts_ok sw w" and "sorted (t # ts)"
    and "w_start w = W \<longrightarrow> time_Truncate t (sw_period sw) = W \<or> w_current w = 0"
  shows "admitted_in sw W (sw_run sw conv w ts) + (if w_start w = W then w_current w else 0) \<le> sw_limit sw"
  using assms(2-4)
proof (induction ts arbitrary: t w)
  case Nil
  then show ?case using v by (simp add: admitted_in_def counts_ok_def sw_valid_def)
next
  case (Cons u ts)
  have p: "0 < sw_period sw" using v by (simp add: sw_valid_def)
  let ?w = "snd (sw_hit sw conv w u)" and ?ok = "Allowed (fst (sw_hit sw conv w u))"
  note inv = sw_hit_inv[OF v Cons.prems(1), of conv u]
  have srt: "sorted (u # ts)" and tu: "t \<le> u" using Cons.prems(2) by auto
  have IH: "admitted_in sw W (sw_run sw conv ?w ts) + (if w_start ?w = W then w_current ?w else 0) \<le> sw_limit sw"
    by (rule Cons.IH[OF inv(1) srt]) (simp add: inv(2))
  have unf: "admitted_in sw W (sw_run sw conv w (u # ts)) =
      (if ?ok \<and> time_Truncate u (sw_period sw) = W then 1 else 0) + admitted_in sw W (sw_run sw conv ?w ts)"
    by (simp add: sw_run_Cons admitted_in_def)
  have cur: "w_current ?w = (if w_start w = time_Truncate u (sw_period sw) then w_current w else 0) + (if ?ok then 1 else 0)"
    by (auto simp: sw_hit_eq sw_advance_def Let_def time_Sub_def sat64_def min64_def max64_def)
  show ?case
  proof (cases "time_Truncate u (sw_period sw) = W")
    case True
    then show ?thesis using IH unf cur inv(2) Cons.prems(1) by (auto simp: counts_ok_def split: if_splits)
  next
    case False
    show ?thesis
    proof (cases "w_start w = W \<and> w_current w \<noteq> 0")
      case True
      then have "W < time_Truncate u (sw_period sw)"
        using Cons.prems(3) False time_Truncate_mono[OF p tu] by auto
      then have "admitted_in sw W (sw_run sw conv ?w ts) = 0" using admitted_in_past[OF p srt] by blast
      then show ?thesis using unf False Cons.prems(1) by (simp add: counts_ok_def)
    next
      case False
      then show ?thesis using IH unf \<open>time_Truncate u (sw_period sw) \<noteq> W\<close> inv by (auto simp: counts_ok_def split: if_splits)
    qed
  qed
qed

section \<open>Waiting times\<close>

text \<open>Parameters for which the products of counts and durations are exact in \<open>float64\<close>: a limit of nine
  million per second, or of a hundred thousand per minute.\<close>

definition sw_exact :: "SlidingWindow \<Rightarrow> bool" where
  "sw_exact sw \<longleftrightarrow> 0 < sw_limit sw \<and> 0 < sw_period sw \<and> sw_limit sw * sw_period sw < 2 ^ 53"

lemma sw_exact_bounds:
  assumes "sw_exact sw"
  shows "sw_limit sw < 2 ^ 53" and "sw_period sw < 2 ^ 53" and "sw_valid sw"
proof -
  have e: "0 < sw_limit sw" "0 < sw_period sw" "sw_limit sw * sw_period sw < 2 ^ 53"
    using assms by (simp_all add: sw_exact_def)
  have "sw_limit sw * 1 \<le> sw_limit sw * sw_period sw" "1 * sw_period sw \<le> sw_limit sw * sw_period sw"
    using e by (intro mult_left_mono mult_right_mono; simp)+
  with e(3) show l: "sw_limit sw < 2 ^ 53" and p: "sw_period sw < 2 ^ 53" by linarith+
  from l p e show "sw_valid sw" by (simp add: sw_valid_def max64_def)
qed

lemma exact_product:
  assumes "sw_exact sw" and "0 \<le> n" "n \<le> sw_limit sw" "0 \<le> d" "d \<le> sw_period sw"
  shows "f64_mul (f64_of_int n) (f64_of_int d) = of_int (n * d)" and "0 \<le> n * d" and "n * d < 2 ^ 53"
proof -
  have "n * d \<le> sw_limit sw * sw_period sw" using assms by (intro mult_mono) (simp_all add: sw_exact_def)
  then show nd: "n * d < 2 ^ 53" "0 \<le> n * d" using assms by (simp_all add: sw_exact_def)
  have "f64_of_int n = of_int n" "f64_of_int d = of_int d"
    using assms sw_exact_bounds[OF assms(1)] by (simp_all add: f64_of_int_exact)
  then show "f64_mul (f64_of_int n) (f64_of_int d) = of_int (n * d)"
    using nd rnd64_of_int[of "n * d"] by (simp add: f64_mul_def)
qed

text \<open>When the weighted previous count is within the budget, the request is allowed.\<close>

lemma within_budget_allowed:
  assumes ex: "sw_exact sw" and ok: "counts_ok sw w" and st: "w_start w = time_Truncate now (sw_period sw)"
    and "w_previous w * (w_start w + sw_period sw - now) \<le> (sw_limit sw - w_current w - 1) * sw_period sw"
  shows "f64_add (estimate sw w now) 1 \<le> f64_of_int (sw_limit sw)"
proof -
  note b = sw_exact_bounds[OF ex] and ov = overlap_bounds[OF sw_exact_bounds(3)[OF ex] st]
  let ?ov = "w_start w + sw_period sw - now" and ?b = "sw_limit sw - w_current w - 1"
  have p: "0 < sw_period sw" using ex by (simp add: sw_exact_def)
  have c: "0 \<le> w_current w" "w_current w \<le> sw_limit sw" "0 \<le> w_previous w" "w_previous w \<le> sw_limit sw"
    using ok by (simp_all add: counts_ok_def)
  note prod = exact_product[OF ex c(3,4), of ?ov]
  have "0 \<le> ?b * sw_period sw" using prod(2) ov assms(4) by simp
  then have b0: "0 \<le> ?b" using p by (simp add: zero_le_mult_iff)
  have "(of_int (w_previous w * ?ov) :: rat) \<le> of_int (?b * sw_period sw)" using assms(4) by (simp only: of_int_le_iff)
  then have "of_int (w_previous w * ?ov) / of_int (sw_period sw) \<le> (of_int ?b :: rat)" using p by (simp add: divide_le_eq)
  then have q: "rnd64 (of_int (w_previous w * ?ov) / of_int (sw_period sw)) \<le> of_int ?b"
    using b0 b c by (intro rnd64_le_int) simp_all
  have "estimate sw w now = rnd64 (rnd64 (of_int (w_previous w * ?ov) / of_int (sw_period sw)) + of_int (w_current w))"
    using prod(1) ov b c p by (simp add: estimate_def Let_def f64_add_def f64_of_int_exact)
  also have "\<dots> \<le> of_int (sw_limit sw - 1)" using q b c by (intro rnd64_le_int) simp_all
  finally show ?thesis using b c ex unfolding f64_add_def
    by (simp add: f64_of_int_exact sw_exact_def) (intro rnd64_le_int, simp_all)
qed

lemma maxOverlap_exact:
  assumes "sw_exact sw" and "0 \<le> b" "b \<le> sw_limit sw" and "0 < n" "n \<le> sw_limit sw"
  shows "maxOverlap sw conv b n = b * sw_period sw div n"
proof -
  have p: "0 \<le> sw_period sw" using assms(1) by (simp add: sw_exact_def)
  note prod = exact_product[OF assms(1-3) p order_refl]
  have n: "f64_of_int n = of_int n" using assms sw_exact_bounds[OF assms(1)] by (simp add: f64_of_int_exact)
  have "f64_to_int (rnd64 (of_int (b * sw_period sw) / of_int n)) = b * sw_period sw div n"
    by (rule rnd64_div_floor[OF prod(2,3) assms(4)])
  moreover have "0 \<le> b * sw_period sw div n" "b * sw_period sw div n \<le> b * sw_period sw div 1"
    using assms prod by (simp add: pos_imp_zdiv_nonneg_iff, intro zdiv_mono2) simp_all
  moreover have "f64_mul (f64_of_int (sw_period sw)) (f64_of_int b) = of_int (b * sw_period sw)"
    using prod(1) by (simp add: f64_mul_def mult.commute)
  ultimately show ?thesis
    using prod(3) n assms(4) by (simp add: maxOverlap_def f64_div_def f64_to_int64_def in64_iff)
qed

lemma time_Truncate_unique: "0 < p \<Longrightarrow> p dvd s \<Longrightarrow> s \<le> u \<Longrightarrow> u < s + p \<Longrightarrow> time_Truncate u p = s"
proof -
  assume a: "0 < p" "p dvd s" "s \<le> u" "u < s + p"
  have "u mod p = (u - s) mod p" using a(2) by (metis mod_0_imp_dvd dvd_imp_mod_0 mod_diff_right_eq diff_zero)
  then show ?thesis using a by (simp add: time_Truncate_def)
qed

lemma time_Truncate_dvd: "0 < p \<Longrightarrow> p dvd time_Truncate t p"
  by (simp add: time_Truncate_def flip: mod_eq_dvd_iff)

text \<open>What a denial says: either the window is full, or the previous window weighs more than the budget.\<close>

lemma denied_over_budget:
  assumes ex: "sw_exact sw" and ok: "counts_ok sw w" and st: "w_start w = time_Truncate now (sw_period sw)"
    and "\<not> f64_add (estimate sw w now) 1 \<le> f64_of_int (sw_limit sw)"
  shows "(sw_limit sw - w_current w - 1) * sw_period sw < w_previous w * (w_start w + sw_period sw - now)"
  using within_budget_allowed[OF ex ok st] assms(4) by fastforce

lemma mult_div_le: "0 < n \<Longrightarrow> n * (a div n) \<le> (a::int)"
  using mult_div_mod_eq[of n a] pos_mod_sign[of n a] by linarith

lemma div_less_of_mult: assumes "0 < n" "(a::int) < n * d" shows "a div n < d"
proof (rule ccontr)
  assume "\<not> a div n < d"
  then have "n * d \<le> n * (a div n)" using assms(1) by (intro mult_left_mono) simp_all
  then show False using mult_div_le[OF assms(1), of a] assms(2) by linarith
qed

text \<open>The state a hit at \<open>u\<close> sees, from a window of the same, the previous or an older period.\<close>

lemma sw_advance_at:
  assumes "sw_exact sw" and "w_start w = time_Truncate now (sw_period sw)"
  shows "w_start w \<le> u \<Longrightarrow> u < w_start w + sw_period sw \<Longrightarrow> sw_advance sw w u = w"
    and "w_start w + sw_period sw \<le> u \<Longrightarrow> u < w_start w + 2 * sw_period sw \<Longrightarrow>
      sw_advance sw w u = \<lparr>w_start = w_start w + sw_period sw, w_current = 0, w_previous = w_current w\<rparr>"
    and "u = w_start w + 2 * sw_period sw \<Longrightarrow>
      sw_advance sw w u = \<lparr>w_start = u, w_current = 0, w_previous = 0\<rparr>"
proof -
  define s where "s = w_start w"
  define p where "p = sw_period sw"
  have p: "0 < p" "p < 2 ^ 53" using assms(1) sw_exact_bounds[OF assms(1)] by (simp_all add: sw_exact_def p_def)
  have "p dvd s" using assms(2) time_Truncate_dvd[OF p(1)] by (simp add: s_def p_def)
  then have dvd: "p dvd s" "p dvd s + p" "p dvd s + 2 * p" by simp_all
  note tr = time_Truncate_unique[OF p(1)]
  have adv: "sw_advance sw w u = (if time_Truncate u p - s = 0 then w
      else if time_Truncate u p - s = p then \<lparr>w_start = time_Truncate u p, w_current = 0, w_previous = w_current w\<rparr>
      else \<lparr>w_start = time_Truncate u p, w_current = 0, w_previous = 0\<rparr>)" if "in64 (time_Truncate u p - s)"
    using that by (simp add: sw_advance_def Let_def time_Sub_def sat64_id s_def p_def)
  show "w_start w \<le> u \<Longrightarrow> u < w_start w + sw_period sw \<Longrightarrow> sw_advance sw w u = w"
    using tr[OF dvd(1), of u] adv unfolding s_def[symmetric] p_def[symmetric] by (simp add: in64_iff)
  show "w_start w + sw_period sw \<le> u \<Longrightarrow> u < w_start w + 2 * sw_period sw \<Longrightarrow>
      sw_advance sw w u = \<lparr>w_start = w_start w + sw_period sw, w_current = 0, w_previous = w_current w\<rparr>"
    using tr[OF dvd(2), of u] adv p unfolding s_def[symmetric] p_def[symmetric] by (simp add: in64_iff)
  show "u = w_start w + 2 * sw_period sw \<Longrightarrow>
      sw_advance sw w u = \<lparr>w_start = u, w_current = 0, w_previous = 0\<rparr>"
    using tr[OF dvd(3), of u] adv p unfolding s_def[symmetric] p_def[symmetric] by (simp add: in64_iff)
qed

lemma retry_window_full:
  fixes conv :: int
  assumes ex: "sw_exact sw" and ok: "counts_ok sw w" and st: "w_start w = time_Truncate now (sw_period sw)"
    and full: "w_current w = sw_limit sw"
  defines "u \<equiv> now + retryAfter sw conv w now"
  shows "now < u" and "f64_add (estimate sw (sw_advance sw w u) u) 1 \<le> f64_of_int (sw_limit sw)"
proof -
  let ?p = "sw_period sw" and ?l = "sw_limit sw" and ?s = "w_start w"
  define mo where "mo = (?l - 1) * ?p div ?l"
  have e: "0 < ?l" "0 < ?p" "?p < 2 ^ 53" using ex sw_exact_bounds[OF ex] by (simp_all add: sw_exact_def)
  have mo: "0 \<le> mo" "mo < ?p" "?l * mo \<le> (?l - 1) * ?p"
    unfolding mo_def using e by (simp_all add: pos_imp_zdiv_nonneg_iff div_less_of_mult mult_div_le)
  note ov = overlap_bounds[OF sw_exact_bounds(3)[OF ex] st]
  have "maxOverlap sw conv (?l - 1) (w_current w) = mo"
    using maxOverlap_exact[OF ex, of "?l - 1" ?l] e full by (simp add: mo_def)
  then have u: "u = ?s + 2 * ?p - mo"
    using mo ov e full by (simp add: u_def retryAfter_def Let_def time_Sub_def time_Add_def wrap64_id in64_iff sat64_id)
  then show "now < u" using mo ov by simp
  show "f64_add (estimate sw (sw_advance sw w u) u) 1 \<le> f64_of_int ?l"
  proof (cases "mo = 0")
    case True
    then have "sw_advance sw w u = \<lparr>w_start = u, w_current = 0, w_previous = 0\<rparr>" using sw_advance_at(3)[OF ex st] u by simp
    then show ?thesis using estimate_no_previous[OF sw_exact_bounds(3)[OF ex], of "\<lparr>w_start = u, w_current = 0, w_previous = 0\<rparr>" u]
        e sw_exact_bounds(1)[OF ex] by (simp add: counts_ok_def f64_add_def rnd64_1 f64_of_int_exact)
  next
    case False
    let ?w = "\<lparr>w_start = ?s + ?p, w_current = 0, w_previous = w_current w\<rparr>"
    have "sw_advance sw w u = ?w" using sw_advance_at(2)[OF ex st, of u] u mo False by simp
    moreover have "time_Truncate u ?p = ?s + ?p"
      using time_Truncate_unique[of ?p "?s + ?p" u] time_Truncate_dvd[of ?p now] st e u mo False by simp
    moreover have "counts_ok sw ?w" using ok full e by (simp add: counts_ok_def)
    moreover have "w_current w * (?s + ?p + ?p - u) \<le> (?l - 0 - 1) * ?p" using u mo(3) full by simp
    ultimately show ?thesis using within_budget_allowed[OF ex, of ?w u] by simp
  qed
qed

lemma retry_window_open:
  fixes conv :: int
  assumes ex: "sw_exact sw" and ok: "counts_ok sw w" and st: "w_start w = time_Truncate now (sw_period sw)"
    and open_win: "w_current w < sw_limit sw"
    and den: "\<not> f64_add (estimate sw w now) 1 \<le> f64_of_int (sw_limit sw)"
  defines "u \<equiv> now + retryAfter sw conv w now"
  shows "now < u" and "f64_add (estimate sw (sw_advance sw w u) u) 1 \<le> f64_of_int (sw_limit sw)"
proof -
  let ?p = "sw_period sw" and ?s = "w_start w" and ?b = "sw_limit sw - w_current w - 1" and ?n = "w_previous w"
  define mo where "mo = ?b * ?p div ?n"
  have e: "0 < ?p" "?p < 2 ^ 53" using ex sw_exact_bounds[OF ex] by (simp_all add: sw_exact_def)
  have c: "0 \<le> w_current w" "0 \<le> ?n" "?n \<le> sw_limit sw" using ok by (simp_all add: counts_ok_def)
  note ov = overlap_bounds[OF sw_exact_bounds(3)[OF ex] st]
  have over: "?b * ?p < ?n * (?s + ?p - now)" by (rule denied_over_budget[OF ex ok st den])
  have b0: "0 \<le> ?b * ?p" using open_win e by simp
  have n0: "0 < ?n" using over b0 c by (cases "?n = 0") simp_all
  have mo: "0 \<le> mo" "mo < ?s + ?p - now" "?n * mo \<le> ?b * ?p"
    unfolding mo_def using b0 n0 over by (simp_all add: pos_imp_zdiv_nonneg_iff div_less_of_mult mult_div_le)
  have "maxOverlap sw conv ?b ?n = mo" using maxOverlap_exact[OF ex, of ?b ?n] open_win c n0 by (simp add: mo_def)
  then have u: "u = ?s + ?p - mo"
    using mo ov e open_win by (simp add: u_def retryAfter_def Let_def time_Sub_def time_Add_def in64_iff sat64_id)
  then show "now < u" using mo by simp
  show "f64_add (estimate sw (sw_advance sw w u) u) 1 \<le> f64_of_int (sw_limit sw)"
  proof (cases "mo = 0")
    case True
    let ?w = "\<lparr>w_start = ?s + ?p, w_current = 0, w_previous = w_current w\<rparr>"
    have "sw_advance sw w u = ?w" using sw_advance_at(2)[OF ex st, of u] u True e by simp
    moreover have "time_Truncate u ?p = ?s + ?p"
      using time_Truncate_unique[of ?p "?s + ?p" u] time_Truncate_dvd[of ?p now] st e u True by simp
    moreover have "w_current w * ?p \<le> (sw_limit sw - 1) * ?p" using open_win e by (intro mult_right_mono) simp_all
    moreover have "counts_ok sw ?w" using ok open_win by (simp add: counts_ok_def)
    ultimately show ?thesis using within_budget_allowed[OF ex, of ?w u] u True by simp
  next
    case False
    have "sw_advance sw w u = w" using sw_advance_at(1)[OF ex st, of u] u mo False ov by simp
    moreover have "time_Truncate u ?p = ?s"
      using time_Truncate_unique[of ?p ?s u] time_Truncate_dvd[of ?p now] st e u mo False ov by simp
    ultimately show ?thesis using within_budget_allowed[OF ex ok, of u] u mo(3) by simp
  qed
qed

section \<open>Requests admitted in a trailing period\<close>

text \<open>The admitted requests of the period that ends at \<open>now\<close>.\<close>

definition trailing :: "SlidingWindow \<Rightarrow> gotime \<Rightarrow> (gotime \<times> bool) list \<Rightarrow> int" where
  "trailing sw now rs = int (length (filter (\<lambda>(t, ok). ok \<and> now - sw_period sw < t \<and> t \<le> now) rs))"

text \<open>Three roundings lose less than one part in \<open>2 ^ 51\<close>.\<close>

lemma rnd64_lower: assumes "0 \<le> x" shows "x * (1 - 1 / 2 ^ 53) \<le> rnd64 x"
proof (cases "x = 0")
  case False
  have "(x - rnd64 x) * 2 ^ 53 \<le> \<bar>rnd64 x - x\<bar> * 2 ^ 53" by (rule mult_right_mono) simp_all
  also have "\<dots> \<le> x" using False assms by (intro rnd64_error) simp
  finally show ?thesis by (simp add: field_simps)
qed simp

lemma rounded_sum_lower:
  assumes "0 \<le> q" and "0 \<le> c"
  shows "(q + c + 1) * (1 - 3 / 2 ^ 53) \<le> rnd64 (rnd64 (rnd64 q + c) + 1)"
proof -
  define d :: rat where "d = 1 - 1 / 2 ^ 53"
  have d: "0 \<le> d" "d \<le> 1" "1 - 3 / 2 ^ 53 \<le> d * d * d" by (simp_all add: d_def)
  have q: "q * d \<le> rnd64 q" "0 \<le> rnd64 q" using rnd64_lower[OF assms(1)] rnd64_nonneg[OF assms(1)] by (simp_all add: d_def)
  have s: "(rnd64 q + c) * d \<le> rnd64 (rnd64 q + c)" "0 \<le> rnd64 (rnd64 q + c)"
    using rnd64_lower[of "rnd64 q + c"] rnd64_nonneg[of "rnd64 q + c"] q(2) assms(2) by (simp_all add: d_def)
  have t: "(rnd64 (rnd64 q + c) + 1) * d \<le> rnd64 (rnd64 (rnd64 q + c) + 1)"
    using rnd64_lower[of "rnd64 (rnd64 q + c) + 1"] s(2) by (simp add: d_def)
  have "(q + c) * d \<le> q * d + c" using d assms by (simp add: distrib_right mult_left_le)
  also have "\<dots> \<le> rnd64 q + c" using q(1) by simp
  finally have 1: "(q + c) * d * d \<le> rnd64 (rnd64 q + c)" using s(1) mult_right_mono[OF _ d(1)] order_trans by blast
  have "(q + c + 1) * (d * d) \<le> (q + c) * d * d + 1" using d mult_le_one[OF d(2,1,2)] by (simp add: algebra_simps)
  also have "\<dots> \<le> rnd64 (rnd64 q + c) + 1" using 1 by simp
  finally have "(q + c + 1) * (d * d) * d \<le> rnd64 (rnd64 (rnd64 q + c) + 1)"
    using t mult_right_mono[OF _ d(1)] order_trans by blast
  moreover have "(q + c + 1) * (1 - 3 / 2 ^ 53) \<le> (q + c + 1) * (d * d * d)"
    using d(3) assms by (intro mult_left_mono) simp_all
  ultimately show ?thesis by (simp add: mult.assoc)
qed

text \<open>What an admission says, exactly: the previous window, weighted with what is left of it, and the current one with the new request
  fit into the limit.\<close>

lemma allowed_within_budget:
  assumes ex: "0 < sw_limit sw" "0 < sw_period sw" "4 * (sw_limit sw * sw_period sw) \<le> 2 ^ 53"
    and ok: "counts_ok sw w" and st: "w_start w = time_Truncate now (sw_period sw)"
    and al: "f64_add (estimate sw w now) 1 \<le> f64_of_int (sw_limit sw)"
  shows "w_previous w * (w_start w + sw_period sw - now) + (w_current w + 1) * sw_period sw \<le> sw_limit sw * sw_period sw"
proof (rule ccontr)
  let ?ov = "w_start w + sw_period sw - now" and ?p = "sw_period sw" and ?l = "sw_limit sw" and ?c = "w_current w"
  assume "\<not> w_previous w * ?ov + (?c + 1) * ?p \<le> ?l * ?p"
  then have n: "(?l - ?c - 1) * ?p + 1 \<le> w_previous w * ?ov" by (simp add: algebra_simps)
  have "0 < ?l * ?p" using ex by simp
  then have e: "sw_exact sw" using ex by (simp add: sw_exact_def)
  note b = sw_exact_bounds[OF e] and ov = overlap_bounds[OF sw_exact_bounds(3)[OF e] st]
  have c: "0 \<le> ?c" "?c + 1 \<le> ?l" "0 \<le> w_previous w" "w_previous w \<le> ?l"
    using ok allowed_fits[OF b(3) ok st al] by (simp_all add: counts_ok_def)
  note prod = exact_product[OF e c(3,4), of ?ov]
  define P L where "P = (of_int ?p :: rat)" and "L = (of_int ?l :: rat)"
  have P: "1 \<le> P" "1 \<le> L" "4 * (L * P) \<le> 2 ^ 53"
    using ex of_int_le_iff[of "4 * (?l * ?p)" "2 ^ 53", where ?'a = rat] by (simp_all add: P_def L_def)
  define q where "q = (of_int (w_previous w * ?ov) / P :: rat)"
  have "0 \<le> w_previous w * ?ov" using prod(2) ov by simp
  then have "0 \<le> (of_int (w_previous w * ?ov) :: rat)" by (simp only: of_int_0_le_iff)
  then have q0: "0 \<le> q" unfolding q_def using P(1) by (intro divide_nonneg_nonneg) simp_all
  have "of_int ((?l - ?c - 1) * ?p + 1) \<le> (of_int (w_previous w * ?ov) :: rat)" using n by (simp only: of_int_le_iff)
  then have "(L - of_int ?c - 1) * P + 1 \<le> q * P" using P by (simp add: q_def P_def L_def)
  then have 1: "L * P + 1 \<le> (q + of_int ?c + 1) * P" by (simp add: algebra_simps)
  define k :: rat where "k = 1 - 3 / 2 ^ 53"
  have "L * P < (L * P + 1) * k" using P(3) by (simp add: k_def algebra_simps)
  also have "\<dots> \<le> (q + of_int ?c + 1) * P * k" using 1 by (rule mult_right_mono) (simp add: k_def)
  also have "\<dots> = (q + of_int ?c + 1) * k * P" by (simp only: mult_ac)
  also have "\<dots> \<le> rnd64 (rnd64 (rnd64 q + of_int ?c) + 1) * P"
    using rounded_sum_lower[OF q0, of "of_int ?c"] c P by (intro mult_right_mono) (simp_all add: k_def)
  finally have "L * P < rnd64 (rnd64 (rnd64 q + of_int ?c) + 1) * P" .
  then have "L < rnd64 (rnd64 (rnd64 q + of_int ?c) + 1)" using P by simp
  moreover have "estimate sw w now = rnd64 (rnd64 q + of_int ?c)"
    using prod(1) ov b c ex by (simp add: estimate_def Let_def f64_add_def f64_of_int_exact q_def P_def)
  ultimately show False using al b ex by (simp add: f64_add_def f64_of_int_exact L_def)
qed

text \<open>The window after a sequence of calls; what it has counted.\<close>

fun sw_after :: "SlidingWindow \<Rightarrow> int \<Rightarrow> window \<Rightarrow> gotime list \<Rightarrow> window" where
  "sw_after sw conv w [] = w"
| "sw_after sw conv w (t # ts) = sw_after sw conv (snd (sw_hit sw conv w t)) ts"

lemma sw_after_append: "sw_after sw conv w (xs @ ys) = sw_after sw conv (sw_after sw conv w xs) ys"
  by (induction xs arbitrary: w) simp_all

lemma sw_run_append: "sw_run sw conv w (xs @ ys) = sw_run sw conv w xs @ sw_run sw conv (sw_after sw conv w xs) ys"
  by (induction xs arbitrary: w) (simp_all add: sw_run_Cons)

lemma fst_sw_run: "map fst (sw_run sw conv w ts) = ts"
  by (induction ts arbitrary: w) (simp_all add: sw_run_Cons)

definition counted :: "SlidingWindow \<Rightarrow> (gotime \<times> bool) list \<Rightarrow> window \<Rightarrow> bool" where
  "counted sw rs w \<longleftrightarrow> counts_ok sw w \<and> w_current w = admitted_in sw (w_start w) rs
     \<and> admitted_in sw (w_start w - sw_period sw) rs \<le> w_previous w
     \<and> (\<forall>(t, _)\<in>set rs. time_Truncate t (sw_period sw) \<le> w_start w) \<and> (rs = [] \<or> sw_period sw dvd w_start w)"

lemma admitted_in_0: "(\<forall>(t, _)\<in>set rs. time_Truncate t (sw_period sw) \<noteq> W) \<Longrightarrow> admitted_in sw W rs = 0"
  by (auto simp: admitted_in_def filter_empty_conv)

lemma dvd_gap: "(p::int) dvd a \<Longrightarrow> p dvd b \<Longrightarrow> a < b \<Longrightarrow> 0 < p \<Longrightarrow> a + p \<le> b"
proof -
  assume a: "p dvd a" "p dvd b" "a < b" "0 < p"
  then have "p dvd b - a" "0 < b - a" by simp_all
  then have "p \<le> b - a" by (rule zdvd_imp_le)
  then show ?thesis by simp
qed

lemma counted_advance:
  assumes v: "sw_valid sw" and c: "counted sw rs w" and u: "\<forall>(t, _)\<in>set rs. t \<le> u"
    and le: "rs = [] \<or> w_start w \<le> time_Truncate u (sw_period sw)"
  shows "counted sw rs (sw_advance sw w u)"
proof -
  let ?p = "sw_period sw" and ?s = "time_Truncate u (sw_period sw)" and ?w = "sw_advance sw w u"
  have p: "0 < ?p" "2 * ?p \<le> max64" using v by (simp_all add: sw_valid_def)
  have cd: "counts_ok sw w" "w_current w = admitted_in sw (w_start w) rs"
    "\<forall>(t, _)\<in>set rs. time_Truncate t ?p \<le> w_start w" "rs = [] \<or> ?p dvd w_start w"
    using c by (simp_all add: counted_def)
  note adv = sw_advance_props[OF p(1) cd(1), of u] and dv = time_Truncate_dvd[OF p(1), of u]
  have tr: "\<forall>(t, _)\<in>set rs. time_Truncate t ?p \<le> ?s" using u time_Truncate_mono[OF p(1)] by fast
  have later: "admitted_in sw W rs = 0" if "w_start w < W" for W using cd(3) that by (intro admitted_in_0) auto
  have gap: "rs = [] \<or> w_start w + ?p \<le> ?s" if "?s \<noteq> w_start w" using dvd_gap[of ?p "w_start w" ?s] cd(4) dv le p(1) that by auto
  consider (same) "?s = w_start w" | (adjacent) "?s = w_start w + ?p" | (far) "?s \<noteq> w_start w" "?s \<noteq> w_start w + ?p" by blast
  then show ?thesis
  proof cases
    case same
    then have "?w = w" by (simp add: sw_advance_def Let_def time_Sub_def sat64_def min64_def max64_def)
    then show ?thesis using c by simp
  next
    case adjacent
    have "?w = \<lparr>w_start = ?s, w_current = 0, w_previous = w_current w\<rparr>"
      using adjacent p by (simp add: sw_advance_def Let_def time_Sub_def sat64_id in64_def min64_def)
    then show ?thesis using adv(2) cd(2) later[of ?s] tr dv adjacent p(1) by (simp add: counted_def)
  next
    case far
    have "?w = \<lparr>w_start = ?s, w_current = 0, w_previous = 0\<rparr>"
      using far p by (auto simp: sw_advance_def Let_def time_Sub_def sat64_def min64_def max64_def)
    moreover have "admitted_in sw ?s rs = 0" "admitted_in sw (?s - ?p) rs = 0"
      using gap[OF far(1)] far(2) later p(1) by (auto simp: admitted_in_def)
    ultimately show ?thesis using adv(2) tr dv by (simp add: counted_def)
  qed
qed

lemma sw_after_start:
  assumes "sw_valid sw" and "counts_ok sw w"
  shows "counts_ok sw (sw_after sw conv w ts)" and "ts \<noteq> [] \<Longrightarrow> w_start (sw_after sw conv w ts) = time_Truncate (last ts) (sw_period sw)"
proof -
  show ok: "counts_ok sw (sw_after sw conv w ts)" for ts
    using assms(2) by (induction ts arbitrary: w) (simp_all add: sw_hit_inv[OF assms(1)])
  show "w_start (sw_after sw conv w ts) = time_Truncate (last ts) (sw_period sw)" if "ts \<noteq> []"
    using that sw_hit_inv(2)[OF assms(1) ok[of "butlast ts"], of conv "last ts"]
      sw_after_append[of sw conv w "butlast ts" "[last ts]"] by simp
qed

text \<open>The window that a request finds has counted what was admitted before it.\<close>

lemma run_counted:
  assumes v: "sw_valid sw" and s: "sorted (ts @ [u])"
  shows "counted sw (sw_run sw conv zero_window ts) (sw_advance sw (sw_after sw conv zero_window ts) u)"
  using s
proof (induction ts arbitrary: u rule: rev_induct)
  case Nil
  have "counted sw [] zero_window" using v by (simp add: counted_def counts_ok_def zero_window_def admitted_in_def sw_valid_def)
  then show ?case using counted_advance[OF v, of "[]" zero_window u] by simp
next
  case (snoc t ts)
  let ?p = "sw_period sw" and ?rs = "sw_run sw conv zero_window ts" and ?w = "sw_after sw conv zero_window ts"
  let ?a = "sw_advance sw ?w t" and ?h = "sw_hit sw conv ?w t" and ?ok = "Allowed (fst (sw_hit sw conv ?w t))"
  have p: "0 < ?p" using v by (simp add: sw_valid_def)
  have c0: "counts_ok sw zero_window" using v by (simp add: counts_ok_def zero_window_def sw_valid_def)
  have c: "counted sw ?rs ?a" by (rule snoc.IH) (use snoc.prems in \<open>simp add: sorted_append\<close>)
  have st: "w_start ?a = time_Truncate t ?p" by (rule sw_advance_props(1)[OF p sw_after_start(1)[OF v c0]])
  have ok: "counts_ok sw (snd ?h)" by (rule sw_hit_inv(1)[OF v sw_after_start(1)[OF v c0]])
  have adm: "admitted_in sw W (?rs @ [(t, ?ok)]) = admitted_in sw W ?rs + (if ?ok \<and> W = w_start ?a then 1 else 0)" for W
    by (auto simp: admitted_in_def st)
  have "counted sw (?rs @ [(t, ?ok)]) (snd ?h)"
    using c ok adm[of "w_start ?a"] adm[of "w_start ?a - ?p"] p st time_Truncate_dvd[OF p, of t]
    by (simp add: counted_def sw_hit_eq split: if_splits)
  moreover have "\<forall>(x, _)\<in>set (?rs @ [(t, ?ok)]). x \<le> u"
  proof -
    have "x \<in> set ts" if "(x, b) \<in> set ?rs" for x b
      using that arg_cong[OF fst_sw_run[of sw conv zero_window ts], of set] by force
    then show ?thesis using snoc.prems by (auto simp: sorted_append)
  qed
  moreover have "w_start (snd ?h) \<le> time_Truncate u ?p"
    using sw_hit_inv(2)[OF v sw_after_start(1)[OF v c0, of conv ts], of conv t] time_Truncate_mono[OF p, of t u] snoc.prems
    by (simp add: sorted_append)
  ultimately have "counted sw (?rs @ [(t, ?ok)]) (sw_advance sw (snd ?h) u)" by (intro counted_advance[OF v]) blast+
  then show ?case by (simp add: sw_run_append sw_run_Cons sw_after_append)
qed

lemma trailing_two_windows:
  assumes p: "0 < sw_period sw"
  shows "trailing sw u rs \<le> admitted_in sw (time_Truncate u (sw_period sw)) rs + admitted_in sw (time_Truncate u (sw_period sw) - sw_period sw) rs"
proof -
  let ?p = "sw_period sw" and ?s = "time_Truncate u (sw_period sw)"
  have two: "time_Truncate t ?p = ?s \<or> time_Truncate t ?p = ?s - ?p" if "u - ?p < t" "t \<le> u" for t
  proof (cases "?s \<le> t")
    case True
    then show ?thesis using time_Truncate_unique[OF p time_Truncate_dvd[OF p], of u t] time_Truncate_bounds[OF p, of u] that by simp
  next
    case False
    then show ?thesis using time_Truncate_unique[OF p, of "?s - ?p" t] time_Truncate_dvd[OF p, of u] time_Truncate_bounds[OF p, of u] that by simp
  qed
  show ?thesis unfolding trailing_def admitted_in_def
  proof (induction rs)
    case (Cons r rs)
    then show ?case using two[of "fst r"] p by (cases r) auto
  qed simp
qed

text \<open>Just after an admitted request.\<close>

lemma trailing_at_admission:
  assumes ex: "0 < sw_limit sw" "0 < sw_period sw" "4 * (sw_limit sw * sw_period sw) \<le> 2 ^ 53"
    and s: "sorted (ts @ [u])" and al: "Allowed (fst (sw_hit sw conv (sw_after sw conv zero_window ts) u))"
  shows "trailing sw u (sw_run sw conv zero_window (ts @ [u])) * sw_period sw
    \<le> sw_limit sw * (sw_period sw + (u - time_Truncate u (sw_period sw)))"
proof -
  let ?p = "sw_period sw" and ?l = "sw_limit sw" and ?rs = "sw_run sw conv zero_window ts"
  let ?a = "sw_advance sw (sw_after sw conv zero_window ts) u"
  have "0 < ?l * ?p" using ex by simp
  then have e: "sw_exact sw" using ex by (simp add: sw_exact_def)
  note v = sw_exact_bounds(3)[OF e]
  have c0: "counts_ok sw zero_window" using v by (simp add: counts_ok_def zero_window_def sw_valid_def)
  have c: "counts_ok sw ?a" "w_current ?a = admitted_in sw (w_start ?a) ?rs" "admitted_in sw (w_start ?a - ?p) ?rs \<le> w_previous ?a"
    using run_counted[OF v s, of conv] by (simp_all add: counted_def)
  have st: "w_start ?a = time_Truncate u ?p" by (rule sw_advance_props(1)[OF ex(2) sw_after_start(1)[OF v c0]])
  note b = allowed_within_budget[OF ex c(1) st al[unfolded sw_hit_eq]] and tb = time_Truncate_bounds[OF ex(2), of u]
  have "trailing sw u (sw_run sw conv zero_window (ts @ [u])) = trailing sw u ?rs + 1"
    using al ex(2) by (simp add: trailing_def sw_run_append sw_run_Cons)
  also have "\<dots> \<le> w_current ?a + w_previous ?a + 1"
    using trailing_two_windows[OF ex(2), of u ?rs] c(2,3) st by simp
  finally have "trailing sw u (sw_run sw conv zero_window (ts @ [u])) * ?p \<le> (w_current ?a + w_previous ?a + 1) * ?p"
    using ex(2) by (intro mult_right_mono) simp_all
  also have "\<dots> \<le> ?l * ?p + w_previous ?a * (u - time_Truncate u ?p)" using b st by (simp add: algebra_simps)
  also have "w_previous ?a * (u - time_Truncate u ?p) \<le> ?l * (u - time_Truncate u ?p)"
    using c(1) tb(1) by (intro mult_right_mono) (simp_all add: counts_ok_def)
  finally show ?thesis by (simp add: algebra_simps)
qed

lemma trailing_at_index:
  assumes "0 < sw_limit sw" and "0 < sw_period sw" and "4 * (sw_limit sw * sw_period sw) \<le> 2 ^ 53" and "sorted ts"
    and k: "k < length ts" and al: "snd (sw_run sw conv zero_window ts ! k)"
  shows "trailing sw (ts ! k) (take (Suc k) (sw_run sw conv zero_window ts)) * sw_period sw
    \<le> sw_limit sw * (sw_period sw + (ts ! k - time_Truncate (ts ! k) (sw_period sw)))"
proof -
  let ?pre = "take k ts"
  have ts: "ts = (?pre @ [ts ! k]) @ drop (Suc k) ts" using id_take_nth_drop[OF k] by simp
  have l: "length (sw_run sw conv zero_window xs) = length xs" for xs
    using arg_cong[OF fst_sw_run[of sw conv zero_window xs], of length] by simp
  have run: "sw_run sw conv zero_window ts = sw_run sw conv zero_window (?pre @ [ts ! k])
      @ sw_run sw conv (sw_after sw conv zero_window (?pre @ [ts ! k])) (drop (Suc k) ts)"
    by (subst ts, rule sw_run_append)
  have len: "length (sw_run sw conv zero_window (?pre @ [ts ! k])) = Suc k" using k by (simp add: l)
  have "sw_run sw conv zero_window ts ! k = sw_run sw conv zero_window (?pre @ [ts ! k]) ! k"
    using len by (subst run) (simp add: nth_append)
  also have "\<dots> = (ts ! k, Allowed (fst (sw_hit sw conv (sw_after sw conv zero_window ?pre) (ts ! k))))"
    using k by (simp add: sw_run_append sw_run_Cons nth_append l)
  finally have a: "Allowed (fst (sw_hit sw conv (sw_after sw conv zero_window ?pre) (ts ! k)))" using al by simp
  have "sorted (?pre @ [ts ! k])" using sorted_wrt_take[OF assms(4), of "Suc k"] k by (simp add: take_Suc_conv_app_nth)
  moreover have "take (Suc k) (sw_run sw conv zero_window ts) = sw_run sw conv zero_window (?pre @ [ts ! k])"
    using len by (subst run) simp
  ultimately show ?thesis using trailing_at_admission[OF assms(1-3) _ a] by simp
qed

lemma length_filter_le_filter: "(\<And>x. x \<in> set xs \<Longrightarrow> P x \<Longrightarrow> Q x) \<Longrightarrow> length (filter P xs) \<le> length (filter Q xs)"
  by (induction xs) (auto simp: le_SucI)

section \<open>Properties\<close>

text \<open>(C12) The sliding window never admits more than \<open>limit\<close> requests of a key in a window aligned to the period,
  however the requests are spread, with the rounding of \<open>float64\<close> taken into account.\<close>

theorem sliding_window_per_period:
  assumes "sw_valid sw" and "sorted ts"
  shows "admitted_in sw W (sw_run sw conv zero_window ts) \<le> sw_limit sw"
proof (cases ts)
  case Nil
  then show ?thesis using assms(1) by (simp add: admitted_in_def sw_valid_def)
next
  case (Cons t us)
  have "counts_ok sw zero_window" using assms(1) by (simp add: counts_ok_def zero_window_def sw_valid_def)
  moreover have "w_current zero_window = 0" by (simp add: zero_window_def)
  ultimately show ?thesis
    using admitted_in_bound[OF assms(1), of zero_window t ts W conv] assms(2) Cons by (auto split: if_splits)
qed

lemma demo_run:
  fixes conv :: int
  shows "sw_run \<lparr>sw_limit = 2, sw_period = 1000\<rparr> conv zero_window [990, 991, 992, 1500] =
    [(990, True), (991, True), (992, False), (1500, True)]"
proof -
  let ?sw = "\<lparr>sw_limit = 2, sw_period = 1000\<rparr>"
  note eval = sw_hit_eq sw_advance_def estimate_def zero_window_def time_Sub_def time_Add_def time_Truncate_def
     sat64_def min64_def max64_def f64_eval Let_def
  have 1: "Allowed (fst (sw_hit ?sw conv zero_window 990))"
    "snd (sw_hit ?sw conv zero_window 990) = \<lparr>w_start = 0, w_current = 1, w_previous = 0\<rparr>"
    by (simp_all add: eval)
  have 2: "Allowed (fst (sw_hit ?sw conv \<lparr>w_start = 0, w_current = 1, w_previous = 0\<rparr> 991))"
    "snd (sw_hit ?sw conv \<lparr>w_start = 0, w_current = 1, w_previous = 0\<rparr> 991) = \<lparr>w_start = 0, w_current = 2, w_previous = 0\<rparr>"
    by (simp_all add: eval)
  have 3: "\<not> Allowed (fst (sw_hit ?sw conv \<lparr>w_start = 0, w_current = 2, w_previous = 0\<rparr> 992))"
    "snd (sw_hit ?sw conv \<lparr>w_start = 0, w_current = 2, w_previous = 0\<rparr> 992) = \<lparr>w_start = 0, w_current = 2, w_previous = 0\<rparr>"
    by (simp_all add: eval)
  have 4: "Allowed (fst (sw_hit ?sw conv \<lparr>w_start = 0, w_current = 2, w_previous = 0\<rparr> 1500))"
    by (simp_all add: eval)
  show ?thesis by (simp add: sw_run_Cons 1 2 3 4)
qed

theorem sliding_window_per_period_witness:
  "admitted_in \<lparr>sw_limit = 2, sw_period = 1000\<rparr> 0
     (sw_run \<lparr>sw_limit = 2, sw_period = 1000\<rparr> 0 zero_window [990, 991, 992, 1500]) = 2
   \<and> admitted_in \<lparr>sw_limit = 2, sw_period = 1000\<rparr> 0
     (sw_run \<lparr>sw_limit = 2, sw_period = 1000\<rparr> 0 zero_window [990, 991, 992, 1500]) \<le> 2"
  using sliding_window_per_period[of "\<lparr>sw_limit = 2, sw_period = 1000\<rparr>" "[990, 991, 992, 1500]" 0 0]
  by (simp add: sw_valid_def max64_def demo_run) (simp add: admitted_in_def time_Truncate_def)

text \<open>(C20) How much a trailing period can hold. As long as limit times period, in nanoseconds, stays below \<open>2 ^ 51\<close> (a limit of two
  million per second), and despite the three roundings of the \<open>float64\<close> estimate: when a request is admitted at a time \<open>u\<close>, the requests
  admitted in the period that ends at \<open>u\<close>, itself included, are at most \<open>limit * (1 + e / period)\<close>, where \<open>e\<close> is how far \<open>u\<close> is into its
  aligned window. So no trailing period, whenever it ends, holds \<open>2 * limit\<close> admitted requests.\<close>

theorem sliding_window_trailing_bound:
  assumes "0 < sw_limit sw" and "0 < sw_period sw" and "4 * (sw_limit sw * sw_period sw) \<le> 2 ^ 53" and "sorted ts"
  shows "(\<forall>k<length ts. snd (sw_run sw conv zero_window ts ! k) \<longrightarrow>
        trailing sw (ts ! k) (take (Suc k) (sw_run sw conv zero_window ts)) * sw_period sw
          \<le> sw_limit sw * (sw_period sw + (ts ! k - time_Truncate (ts ! k) (sw_period sw))))
    \<and> (\<forall>now. trailing sw now (sw_run sw conv zero_window ts) < 2 * sw_limit sw)"
proof (intro conjI allI impI)
  fix k assume "k < length ts" and "snd (sw_run sw conv zero_window ts ! k)"
  then show "trailing sw (ts ! k) (take (Suc k) (sw_run sw conv zero_window ts)) * sw_period sw
      \<le> sw_limit sw * (sw_period sw + (ts ! k - time_Truncate (ts ! k) (sw_period sw)))"
    by (rule trailing_at_index[OF assms])
next
  fix now
  let ?rs = "sw_run sw conv zero_window ts" and ?P = "\<lambda>(t, ok). ok \<and> now - sw_period sw < t \<and> t \<le> now"
  show "trailing sw now ?rs < 2 * sw_limit sw"
  proof (cases "\<exists>r\<in>set ?rs. ?P r")
    case False
    then have "filter ?P ?rs = []" by (auto simp: filter_empty_conv)
    then show ?thesis using assms(1) by (simp add: trailing_def)
  next
    case True
    from split_list_last_prop[OF this] obtain ys r zs where sp: "?rs = ys @ r # zs" "?P r" "\<forall>z\<in>set zs. \<not> ?P z" by blast
    obtain u where r: "r = (u, True)" "now - sw_period sw < u" "u \<le> now" using sp(2) by (cases r) simp
    have fst: "map fst ys @ u # map fst zs = ts" using fst_sw_run[of sw conv zero_window ts] r(1) by (simp add: sp(1))
    then have k: "length ys < length ts" "ts ! length ys = u" using nth_append_length[of "map fst ys" u "map fst zs"] by auto
    have "filter ?P zs = []" using sp(3) by (auto simp: filter_empty_conv)
    then have "trailing sw now ?rs = trailing sw now (ys @ [r])" by (simp add: trailing_def sp(1))
    also have "\<dots> \<le> trailing sw u (ys @ [r])"
      using assms(4) r unfolding trailing_def of_nat_le_iff by (intro length_filter_le_filter) (auto simp: fst[symmetric] sorted_append)
    finally have "trailing sw now ?rs * sw_period sw \<le> trailing sw u (ys @ [r]) * sw_period sw"
      using assms(2) by (intro mult_right_mono) simp_all
    also have "\<dots> \<le> sw_limit sw * (sw_period sw + (u - time_Truncate u (sw_period sw)))"
      using trailing_at_index[OF assms k(1), of conv] k(2) r(1) by (simp add: sp(1) nth_append)
    also have "\<dots> < sw_limit sw * (2 * sw_period sw)"
      using assms(1) time_Truncate_bounds(2)[OF assms(2), of u] by (intro mult_strict_left_mono) simp_all
    finally show ?thesis using assms(2) by (simp add: mult.assoc mult.left_commute)
  qed
qed

text \<open>The bound is attained: of requests at 990, 991, 992 and 1500, with a limit of 2 per 1000 nanoseconds, three are admitted
  in the period that ends at 1500, half way into its window.\<close>

theorem sliding_window_trailing_bound_witness:
  "let rs = sw_run \<lparr>sw_limit = 2, sw_period = 1000\<rparr> 0 zero_window [990, 991, 992, 1500]
   in trailing \<lparr>sw_limit = 2, sw_period = 1000\<rparr> 1500 rs = 3 \<and> 3 * 1000 \<le> 2 * (1000 + (1500 - time_Truncate 1500 1000))
     \<and> (\<forall>now. trailing \<lparr>sw_limit = 2, sw_period = 1000\<rparr> now rs < 4)"
proof -
  let ?sw = "\<lparr>sw_limit = 2, sw_period = 1000\<rparr>" and ?ts = "[990, 991, 992, 1500]"
  have t: "trailing ?sw 1500 (sw_run ?sw 0 zero_window ?ts) = 3" by (simp add: demo_run trailing_def)
  note b = sliding_window_trailing_bound[of ?sw ?ts 0]
  have "trailing ?sw now (sw_run ?sw 0 zero_window ?ts) < 4" for now using b by simp
  moreover have "3 * 1000 \<le> 2 * (1000 + (1500 - time_Truncate 1500 1000))"
    using b[THEN conjunct1, THEN spec[of _ 3]] t by (simp add: demo_run)
  ultimately show ?thesis using t unfolding Let_def by blast
qed

text \<open>So a trailing period can hold more than \<open>limit\<close> admitted requests, although the comments of the constructor
  and of the configuration say that none ever does.\<close>

theorem sliding_window_exceeds_trailing:
  "\<exists>ts. sorted ts \<and> length (filter snd (sw_run \<lparr>sw_limit = 2, sw_period = 1000\<rparr> conv zero_window ts)) = 3
     \<and> last ts - hd ts < 1000"
  by (intro exI[of _ "[990, 991, 992, 1500]"]) (simp add: demo_run)

text \<open>\<open>RetryAfter\<close> of a denied request is a positive wait, and the same key asked again exactly then, with no
  request in between, is allowed. This holds where the products of counts and durations fit the
  53 bits of a \<open>float64\<close>; the waits do not depend on how Go converts values out of range.\<close>

theorem sliding_window_retry_allowed:
  assumes ex: "sw_exact sw" and "counts_ok sw w" and "\<not> Allowed (fst (sw_hit sw conv w now))"
  shows "0 < RetryAfter (fst (sw_hit sw conv w now))
    \<and> Allowed (fst (sw_hit sw conv (snd (sw_hit sw conv w now)) (now + RetryAfter (fst (sw_hit sw conv w now)))))"
proof -
  define w1 where "w1 = sw_advance sw w now"
  have p: "0 < sw_period sw" using ex by (simp add: sw_exact_def)
  have w1: "w_start w1 = time_Truncate now (sw_period sw)" "counts_ok sw w1"
    unfolding w1_def by (rule sw_advance_props[OF p assms(2)])+
  have den: "\<not> f64_add (estimate sw w1 now) 1 \<le> f64_of_int (sw_limit sw)"
    using assms(3) by (simp add: sw_hit_eq w1_def)
  have r: "RetryAfter (fst (sw_hit sw conv w now)) = retryAfter sw conv w1 now" "snd (sw_hit sw conv w now) = w1"
    using den by (simp_all add: sw_hit_eq w1_def)
  have "w_current w1 < sw_limit sw \<or> w_current w1 = sw_limit sw" using w1(2) by (auto simp: counts_ok_def)
  then show ?thesis
    using retry_window_open[OF ex w1(2,1) _ den, of conv] retry_window_full[OF ex w1(2,1), of conv]
    unfolding r by (auto simp: sw_hit_eq(1))
qed

theorem sliding_window_retry_allowed_witness:
  "\<not> Allowed (fst (sw_hit \<lparr>sw_limit = 2, sw_period = 1000\<rparr> 0 \<lparr>w_start = 0, w_current = 2, w_previous = 0\<rparr> 992))
   \<and> 0 < RetryAfter (fst (sw_hit \<lparr>sw_limit = 2, sw_period = 1000\<rparr> 0 \<lparr>w_start = 0, w_current = 2, w_previous = 0\<rparr> 992))"
proof -
  let ?sw = "\<lparr>sw_limit = 2, sw_period = 1000\<rparr>" and ?w = "\<lparr>w_start = 0, w_current = 2, w_previous = 0\<rparr>"
  have "\<not> Allowed (fst (sw_hit ?sw 0 ?w 992))"
    by (simp add: sw_hit_eq sw_advance_def estimate_def time_Sub_def time_Add_def time_Truncate_def
        sat64_def min64_def max64_def f64_eval)
  with sliding_window_retry_allowed[of ?sw ?w 0 992] show ?thesis by (simp add: sw_exact_def counts_ok_def)
qed

text \<open>Evicting idle keys is invisible to clients of a sliding window, as it is for the token bucket.\<close>

theorem sliding_window_eviction_invisible:
  assumes "NewSlidingWindow rate opts = Inr (sw, s)" and "rate_Limit rate < 2 ^ 53"
    and "2 * rate_Period rate \<le> max64" and "monotone_from t0 es"
  shows "rl_run (\<lambda>_. zero_window) (sw_hit sw conv) s es
    = rl_run (\<lambda>_. zero_window) (sw_hit sw conv) s (without_ticks es)"
proof -
  have sw: "sw = \<lparr>sw_limit = rate_Limit rate, sw_period = rate_Period rate\<rparr>" "0 < rate_Limit rate" "0 < rate_Period rate"
    and s: "s = \<lparr>st_ttl = wrap64 (2 * rate_Period rate), st_entries = Map.empty, st_closed = False\<rparr>"
    using assms(1) by (auto simp: NewSlidingWindow_def validate_def newStore_def Let_def split: option.splits if_splits sum.splits)
  have v: "sw_valid sw" using sw assms(2,3) by (simp add: sw_valid_def)
  have "wrap64 (2 * rate_Period rate) = 2 * rate_Period rate"
    using sw assms(3) by (intro wrap64_id) (simp add: in64_def min64_def)
  then have "sw.evicted_from sw t0 s s"
    using sw.fresh_store_evicted_from[of sw t0] s sw by simp
  then show ?thesis by (rule sw.ticks_invisible[OF v _ assms(4)])
qed

theorem sliding_window_eviction_invisible_witness:
  "\<exists>sw s. NewSlidingWindow \<lparr>rate_Limit = 2, rate_Period = 1000\<rparr> [] = Inr (sw, s)
    \<and> rl_run (\<lambda>_. zero_window) (sw_hit sw 0) s [Allow ''a'' 5, EvictTick 3000, Allow ''a'' 3001]
      = rl_run (\<lambda>_. zero_window) (sw_hit sw 0) s [Allow ''a'' 5, Allow ''a'' 3001]"
proof -
  obtain s :: "window store" where new: "NewSlidingWindow \<lparr>rate_Limit = 2, rate_Period = 1000\<rparr> []
      = Inr (\<lparr>sw_limit = 2, sw_period = 1000\<rparr>, s)"
    by (simp add: NewSlidingWindow_def validate_def newStore_def Let_def)
  from sliding_window_eviction_invisible[OF new, of 0 "[Allow ''a'' 5, EvictTick 3000, Allow ''a'' 3001]" 0]
  show ?thesis using new by (auto simp: without_ticks_def max64_def)
qed

end
