(* ===== verification/Ratelimit_Http.thy ===== *)
theory Ratelimit_Http
  imports Token_Bucket
begin

text \<open>
  The HTTP side of app 03: the middleware (\<^verbatim>\<open>ratelimit/http.go\<close>), the key functions that find the
  client address, the configuration check (\<^verbatim>\<open>internal/config/config.go\<close>) and the demo API
  (\<^verbatim>\<open>internal/server/server.go\<close>).

  A response is its status, its headers and its JSON body; \<open>Next\<close> is the call of the wrapped
  handler with the headers set so far. Addresses are an abstract type with the operations of
  \<open>net/netip\<close> the code calls as parameters.
\<close>

section \<open>Middleware\<close>

record errorResponse =
  er_Error :: string
  er_RetryAfter :: int

datatype reply =
    Respond int "(string \<times> string) list" errorResponse
  | Next "(string \<times> string) list"
  | Silent

text \<open>The conversion to seconds rounds up; the sum is computed in 64 bits.\<close>

definition ceilSeconds :: "duration \<Rightarrow> int" where
  "ceilSeconds d = go_quot (wrap64 (wrap64 (d + 1000000000) - 1)) 1000000000"

definition writeError :: "(string \<times> string) list \<Rightarrow> int \<Rightarrow> errorResponse \<Rightarrow> reply" where
  "writeError hdr status body = Respond status (hdr @ [(''Content-Type'', ''application/json'')]) body"

text \<open>The handler, given the key function's result, whether the request context has ended, and the
  limiter as a function of its state.\<close>

definition ServeHTTP ::
  "(rl_error + string) \<Rightarrow> bool \<Rightarrow> ('s \<Rightarrow> string \<Rightarrow> (rl_error + Decision) \<times> 's) \<Rightarrow> 's \<Rightarrow> reply \<times> 's"
where
  "ServeHTTP keyResult ctxDone allow s =
     (case keyResult of
        Inl err \<Rightarrow> (writeError [] 400 \<lparr>er_Error = ''cannot identify client'', er_RetryAfter = 0\<rparr>, s)
      | Inr key \<Rightarrow>
          (case allow s key of
             (Inl err, s') \<Rightarrow>
               (if ctxDone then (Silent, s')
                else (writeError [] 503 \<lparr>er_Error = ''rate limiter unavailable'', er_RetryAfter = 0\<rparr>, s'))
           | (Inr d, s') \<Rightarrow>
               (let hdr = [(''X-RateLimit-Limit'', itoa (Limit d)),
                           (''X-RateLimit-Remaining'', itoa (Remaining d)),
                           (''X-RateLimit-Reset'', itoa (ceilSeconds (ResetAfter d)))]
                in if \<not> Allowed d then
                     let retryAfter = ceilSeconds (RetryAfter d)
                     in (writeError (hdr @ [(''Retry-After'', itoa retryAfter)]) 429
                           \<lparr>er_Error = ''rate limit exceeded'', er_RetryAfter = retryAfter\<rparr>, s')
                   else (Next hdr, s'))))"

section \<open>Client addresses\<close>

record 'a netip =
  ParseAddr :: "string \<Rightarrow> 'a option"
  ParseAddrPort :: "string \<Rightarrow> 'a option"
  Unmap :: "'a \<Rightarrow> 'a"
  addr_String :: "'a \<Rightarrow> string"

definition remoteAddr :: "'a netip \<Rightarrow> string \<Rightarrow> rl_error + 'a" where
  "remoteAddr ip remote =
     (case ParseAddrPort ip remote of None \<Rightarrow> Inl ErrNoClientIP | Some a \<Rightarrow> Inr (Unmap ip a))"

definition RemoteIP :: "'a netip \<Rightarrow> string \<Rightarrow> rl_error + string" where
  "RemoteIP ip remote =
     (case remoteAddr ip remote of Inl err \<Rightarrow> Inl err | Inr a \<Rightarrow> Inr (addr_String ip a))"

text \<open>\<open>strings.FieldsFunc\<close>: the maximal runs of characters that are not separators.\<close>

fun fieldsFunc :: "(char \<Rightarrow> bool) \<Rightarrow> string \<Rightarrow> string \<Rightarrow> string list" where
  "fieldsFunc sep cur [] = (if cur = [] then [] else [cur])"
| "fieldsFunc sep cur (c # cs) =
     (if sep c then (if cur = [] then fieldsFunc sep [] cs else cur # fieldsFunc sep [] cs)
      else fieldsFunc sep (cur @ [c]) cs)"

fun join_with :: "string \<Rightarrow> string list \<Rightarrow> string" where
  "join_with sep [] = []"
| "join_with sep [x] = x"
| "join_with sep (x # xs) = x @ sep @ join_with sep xs"

fun scanHops :: "'a netip \<Rightarrow> ('a \<Rightarrow> bool) \<Rightarrow> 'a \<Rightarrow> string list \<Rightarrow> rl_error + string" where
  "scanHops ip isTrusted peer [] = Inr (addr_String ip peer)"
| "scanHops ip isTrusted peer (hop # hops) =
     (case ParseAddr ip hop of
        None \<Rightarrow> Inl ErrNoClientIP
      | Some a \<Rightarrow> if \<not> isTrusted (Unmap ip a) then Inr (addr_String ip (Unmap ip a))
                  else scanHops ip isTrusted peer hops)"

text \<open>A trusted prefix is the predicate \<open>Contains\<close> of its addresses.\<close>

definition ForwardedFor :: "'a netip \<Rightarrow> ('a \<Rightarrow> bool) list \<Rightarrow> string \<Rightarrow> string list \<Rightarrow> rl_error + string" where
  "ForwardedFor ip trusted remote headers =
     (let isTrusted = (\<lambda>addr. \<exists>p\<in>set trusted. p addr)
      in case remoteAddr ip remote of
           Inl err \<Rightarrow> Inl err
         | Inr peer \<Rightarrow>
             if \<not> isTrusted peer then Inr (addr_String ip peer)
             else scanHops ip isTrusted peer
                    (rev (fieldsFunc (\<lambda>c. c = CHR '','' \<or> c = CHR '' '') [] (join_with '','' headers))))"

section \<open>Algorithm names and the demo API\<close>

datatype Algorithm = TokenBucketAlg | SlidingWindowAlg

definition UnmarshalText :: "string \<Rightarrow> Algorithm option" where
  "UnmarshalText text =
     (if text = ''token_bucket'' then Some TokenBucketAlg
      else if text = ''sliding_window'' then Some SlidingWindowAlg
      else None)"

record Proverb =
  pv_ID :: int
  pv_Text :: string

definition proverbs :: "Proverb list" where
  "proverbs =
    [\<lparr>pv_ID = 1, pv_Text = ''Don't communicate by sharing memory, share memory by communicating.''\<rparr>,
     \<lparr>pv_ID = 2, pv_Text = ''Concurrency is not parallelism.''\<rparr>,
     \<lparr>pv_ID = 3, pv_Text = ''The bigger the interface, the weaker the abstraction.''\<rparr>,
     \<lparr>pv_ID = 4, pv_Text = ''Make the zero value useful.''\<rparr>,
     \<lparr>pv_ID = 5, pv_Text = ''Errors are values.''\<rparr>,
     \<lparr>pv_ID = 6, pv_Text = ''Clear is better than clever.''\<rparr>]"

text \<open>The outcome of \<open>getProverb\<close> for the path value \<open>id\<close>: a status and the proverb or the error message.\<close>

definition getProverb :: "string \<Rightarrow> int \<times> (string + Proverb)" where
  "getProverb pathId =
     (case atoi pathId of
        None \<Rightarrow> (400, Inl ''id must be an integer'')
      | Some i \<Rightarrow>
          (case List.find (\<lambda>p. pv_ID p = i) proverbs of
             None \<Rightarrow> (404, Inl ''proverb not found'')
           | Some p \<Rightarrow> (200, Inr p)))"

section \<open>Rounding up to seconds\<close>

lemma ceilSeconds_bounds:
  assumes "0 < d" and "d \<le> max64 - 1000000000"
  shows "0 < ceilSeconds d" and "d \<le> ceilSeconds d * 1000000000" and "(ceilSeconds d - 1) * 1000000000 < d"
proof -
  have "wrap64 (wrap64 (d + 1000000000) - 1) = d + 999999999"
    using assms by (simp add: wrap64_id in64_iff max64_def)
  then have c: "ceilSeconds d = go_quot (d + 999999999) 1000000000" by (simp add: ceilSeconds_def)
  note b = go_quot_bounds[of "d + 999999999" 1000000000]
  show "d \<le> ceilSeconds d * 1000000000" "(ceilSeconds d - 1) * 1000000000 < d"
    using b assms(1) unfolding c by (simp_all add: algebra_simps)
  with assms(1) show "0 < ceilSeconds d" by (simp add: zero_less_mult_iff)
qed

section \<open>Forwarded addresses\<close>

lemma fieldsFunc_append:
  "sep c \<Longrightarrow> fieldsFunc sep cur (xs @ c # ys) = fieldsFunc sep cur xs @ fieldsFunc sep [] ys"
  by (induction sep cur xs rule: fieldsFunc.induct) auto

definition decides :: "'a netip \<Rightarrow> ('a \<Rightarrow> bool) \<Rightarrow> string \<Rightarrow> bool" where
  "decides ip isTrusted hop \<longleftrightarrow> (case ParseAddr ip hop of None \<Rightarrow> True | Some a \<Rightarrow> \<not> isTrusted (Unmap ip a))"

lemma scanHops_append:
  "\<exists>hop\<in>set xs. decides ip tr hop \<Longrightarrow> scanHops ip tr peer (xs @ ys) = scanHops ip tr peer xs"
  by (induction xs) (auto simp: decides_def split: option.splits)

section \<open>Properties\<close>

text \<open>(C21) A client that obeys \<open>Retry-After\<close> is served. If the middleware over a token bucket answers 429, the
  header and the body carry the same positive number of seconds, and a request for the same key
  after exactly that many seconds, with none in between, reaches the next handler.\<close>

theorem retry_after_header_sufficient:
  assumes v: "tb_valid tb" and iv: "interval tb \<le> max64 - 1000000000"
    and "\<not> st_closed s" and st: "st_entries s key = Some e" and e: "tb_inv tb (lastSeen e) (state e)" "lastSeen e \<le> now"
    and resp: "ServeHTTP (Inr key) False (\<lambda>s k. tb_Allow tb s k now) s = (Respond status hdr body, s')"
  shows "status = 429 \<and> 1 \<le> er_RetryAfter body \<and> (''Retry-After'', itoa (er_RetryAfter body)) \<in> set hdr
    \<and> (\<exists>hdr'. fst (ServeHTTP (Inr key) False
          (\<lambda>s k. tb_Allow tb s k (now + er_RetryAfter body * 1000000000)) s') = Next hdr')"
proof -
  let ?d = "fst (tb_take tb (state e) now)" and ?b = "snd (tb_take tb (state e) now)"
  have allow: "tb_Allow tb s key now =
      (Inr ?d, s\<lparr>st_entries := (st_entries s)(key \<mapsto> \<lparr>state = ?b, lastSeen = now\<rparr>)\<rparr>)"
    using assms(3) st by (simp add: tb_Allow_def store_do_def split_beta Let_def)
  have den: "\<not> Allowed ?d" and st': "status = 429" "er_RetryAfter body = ceilSeconds (RetryAfter ?d)"
    and hdr: "(''Retry-After'', itoa (ceilSeconds (RetryAfter ?d))) \<in> set hdr"
    and s': "s' = s\<lparr>st_entries := (st_entries s)(key \<mapsto> \<lparr>state = ?b, lastSeen = now\<rparr>)\<rparr>"
    using resp unfolding ServeHTTP_def by (auto simp: allow Let_def writeError_def split: if_splits)
  note retry = tb_retry[OF v e den]
  have r: "0 < RetryAfter ?d" "RetryAfter ?d \<le> max64 - 1000000000" using retry[OF order_refl] iv by simp_all
  note sec = ceilSeconds_bounds[OF r]
  let ?u = "now + ceilSeconds (RetryAfter ?d) * 1000000000"
  have "Allowed (fst (tb_take tb ?b ?u))" using retry[of ?u] sec r by simp
  then have "\<exists>hdr'. fst (ServeHTTP (Inr key) False (\<lambda>s k. tb_Allow tb s k ?u) s') = Next hdr'"
    using assms(3) s' by (simp add: ServeHTTP_def tb_Allow_def store_do_def split_beta Let_def)
  then show ?thesis using st' hdr sec(1) by simp
qed

theorem retry_after_header_sufficient_witness:
  "\<exists>hdr body s'. ServeHTTP (Inr ''k'') False (\<lambda>s k. tb_Allow \<lparr>burst = 1, interval = 2000000000\<rparr> s k 7)
      \<lparr>st_ttl = 2000000000, st_entries = [''k'' \<mapsto> \<lparr>state = \<lparr>tokens = 0, refilledAt = 3\<rparr>, lastSeen = 5\<rparr>], st_closed = False\<rparr>
      = (Respond 429 hdr body, s') \<and> er_RetryAfter body = 2 \<and> (''Retry-After'', itoa 2) \<in> set hdr"
proof -
  let ?tb = "\<lparr>burst = 1, interval = 2000000000\<rparr>"
  let ?s = "\<lparr>st_ttl = 2000000000, st_entries = [''k'' \<mapsto> \<lparr>state = \<lparr>tokens = 0, refilledAt = 3\<rparr>, lastSeen = 5\<rparr>], st_closed = False\<rparr>"
  have "refill ?tb \<lparr>tokens = 0, refilledAt = 3\<rparr> 7 = \<lparr>tokens = 0, refilledAt = 3\<rparr>"
    by (simp add: refill_def time_Sub_def go_quot_def sat64_def min64_def max64_def)
  then have d: "\<not> Allowed (fst (tb_take ?tb \<lparr>tokens = 0, refilledAt = 3\<rparr> 7))"
    "RetryAfter (fst (tb_take ?tb \<lparr>tokens = 0, refilledAt = 3\<rparr> 7)) = 1999999996"
    by (simp_all add: tb_take_eq Let_def time_Sub_def time_Add_def sat64_def min64_def max64_def)
  have "ceilSeconds 1999999996 = 2" by (simp add: ceilSeconds_def go_quot_def wrap64_def)
  then have "\<exists>hdr body s'. ServeHTTP (Inr ''k'') False (\<lambda>s k. tb_Allow ?tb s k 7) ?s = (Respond 429 hdr body, s') \<and> er_RetryAfter body = 2"
    by (simp add: ServeHTTP_def tb_Allow_def store_do_def split_beta d writeError_def Let_def)
  then obtain hdr body s' where r: "ServeHTTP (Inr ''k'') False (\<lambda>s k. tb_Allow ?tb s k 7) ?s = (Respond 429 hdr body, s')"
    and n: "er_RetryAfter body = 2" by blast
  have "(''Retry-After'', itoa (er_RetryAfter body)) \<in> set hdr"
    using retry_after_header_sufficient[OF _ _ _ _ _ _ r, of "\<lparr>state = \<lparr>tokens = 0, refilledAt = 3\<rparr>, lastSeen = 5\<rparr>"]
    by (simp add: tb_valid_def tb_inv_def max64_def)
  then show ?thesis using r n by auto
qed

text \<open>A client cannot choose its key by adding addresses to \<open>X-Forwarded-For\<close>: what it puts in front of
  the entries its proxies append has no effect, as soon as one of those entries is not the
  address of a trusted proxy.\<close>

theorem forwarded_for_ignores_prefix:
  assumes "\<exists>hop\<in>set (fieldsFunc (\<lambda>c. c = CHR '','' \<or> c = CHR '' '') [] appended).
     decides ip (\<lambda>a. \<exists>p\<in>set trusted. p a) hop"
  shows "ForwardedFor ip trusted remote [forged @ '','' @ appended] = ForwardedFor ip trusted remote [appended]"
proof -
  have "scanHops ip tr peer (rev (fieldsFunc (\<lambda>c. c = CHR '','' \<or> c = CHR '' '') [] (forged @ CHR '','' # appended)))
      = scanHops ip tr peer (rev (fieldsFunc (\<lambda>c. c = CHR '','' \<or> c = CHR '' '') [] appended))"
    if "tr = (\<lambda>a. \<exists>p\<in>set trusted. p a)" for peer tr
    using assms that by (subst fieldsFunc_append) (auto intro!: scanHops_append)
  then show ?thesis by (auto simp: ForwardedFor_def Let_def split: sum.splits)
qed

theorem forwarded_for_ignores_prefix_witness:
  "ForwardedFor \<lparr>ParseAddr = Some, ParseAddrPort = Some, Unmap = id, addr_String = id\<rparr> [\<lambda>a. a = ''lb'']
     ''lb'' [''evil'' @ '','' @ ''me, lb''] = Inr ''me''"
proof -
  let ?ip = "\<lparr>ParseAddr = Some, ParseAddrPort = Some, Unmap = id, addr_String = id\<rparr>"
  have "ForwardedFor ?ip [\<lambda>a. a = ''lb''] ''lb'' [''evil'' @ '','' @ ''me, lb'']
      = ForwardedFor ?ip [\<lambda>a. a = ''lb''] ''lb'' [''me, lb'']"
    by (rule forwarded_for_ignores_prefix) (simp add: decides_def)
  then show ?thesis by (simp add: ForwardedFor_def remoteAddr_def)
qed

end
