(* ===== verification/Dispatch.thy ===== *)
theory Dispatch
  imports Go_Prelude
begin

text \<open>
  The delivery machinery of app 04: retry delays (\<^verbatim>\<open>internal/backoff/backoff.go\<close>), the bounded task
  queue (\<^verbatim>\<open>internal/dispatch/queue.go\<close>) and one delivery with its retries
  (\<^verbatim>\<open>internal/dispatch/dispatch.go\<close>, \<^verbatim>\<open>pool.go\<close>).

  The HTTP client, the timers and the context are seen through \<open>attempt_env\<close>: for each attempt,
  whether the pause before it was cut short, what sending the request gave, and whether the
  context had ended afterwards. The theorems quantify over all of these.
\<close>

section \<open>Backoff\<close>

text \<open>\<open>p_Rand n\<close> is the draw of \<open>Rand\<close>, or of \<open>rand.Int64N\<close> when \<open>Rand\<close> is nil.\<close>

record Policy =
  p_Base :: duration
  p_Max :: duration
  p_Rand :: "int \<Rightarrow> int"

text \<open>Shifts of a 64-bit integer: a right shift is arithmetic, a left shift drops the high bits. A
  negative count panics (\<open>None\<close>).\<close>

definition Delay :: "Policy \<Rightarrow> int \<Rightarrow> duration option" where
  "Delay p retry =
     (if retry < 0 then None
      else let ceiling = (if retry < 63 \<and> p_Base p \<le> p_Max p div 2 ^ nat retry
                          then wrap64 (p_Base p * 2 ^ nat retry) else p_Max p)
           in Some (if ceiling \<le> 0 then 0 else p_Rand p ceiling))"

text \<open>\<open>Sleep\<close>: \<open>cutshort = Some e\<close> when the context ended the pause.\<close>

definition Sleep :: "ctx_error option \<Rightarrow> duration \<Rightarrow> ctx_error + unit" where
  "Sleep cutshort d = (case cutshort of Some e \<Rightarrow> Inl e | None \<Rightarrow> Inr ())"

section \<open>Tasks and the queue\<close>

record Task =
  t_ID :: string
  t_URL :: string
  t_Payload :: string

datatype Status = StatusQueued | StatusDelivered | StatusFailed | StatusCanceled

datatype push_error = ErrQueueFull | ErrQueueClosed

text \<open>The channel is its buffer, oldest task first, and its capacity.\<close>

record Queue =
  q_closed :: bool
  q_tasks :: "Task list"
  q_cap :: int

text \<open>\<open>make(chan Task, size)\<close> panics on a negative size and on one beyond \<open>limit\<close>.\<close>

definition NewQueue :: "int \<Rightarrow> int \<Rightarrow> Queue option" where
  "NewQueue limit n = (if makeable limit n then Some \<lparr>q_closed = False, q_tasks = [], q_cap = n\<rparr> else None)"

definition queue_Len :: "Queue \<Rightarrow> int" where
  "queue_Len q = int (length (q_tasks q))"

definition Push :: "Queue \<Rightarrow> Task \<Rightarrow> push_error option \<times> Queue" where
  "Push q t =
     (if q_closed q then (Some ErrQueueClosed, q)
      else if queue_Len q < q_cap q then (None, q\<lparr>q_tasks := q_tasks q @ [t]\<rparr>)
      else (Some ErrQueueFull, q))"

text \<open>A receive from the channel \<open>Tasks\<close> returns: the oldest task, or the end once closed and drained.
  \<open>None\<close> is a receive that has to wait.\<close>

definition queue_recv :: "Queue \<Rightarrow> (Task option \<times> Queue) option" where
  "queue_recv q =
     (case q_tasks q of
        t # ts \<Rightarrow> Some (Some t, q\<lparr>q_tasks := ts\<rparr>)
      | [] \<Rightarrow> if q_closed q then Some (None, q) else None)"

definition queue_Close :: "Queue \<Rightarrow> Queue" where
  "queue_Close q = (if q_closed q then q else q\<lparr>q_closed := True\<rparr>)"

section \<open>One delivery\<close>

record Config =
  Workers :: int
  MaxAttempts :: int
  AttemptTimeout :: duration
  Backoff :: Policy

text \<open>What the HTTP client gives for one request.\<close>

datatype http_outcome = BuildFails | SendFails | Code int

datatype deliver_error =
    CtxErr ctx_error
  | PermanentBuild
  | SendErr
  | StatusError int
  | PermanentStatus int
  | RetriesExhausted int "deliver_error option"

text \<open>\<open>errors.Is(err, ErrPermanent)\<close>.\<close>

fun is_permanent :: "deliver_error \<Rightarrow> bool" where
  "is_permanent PermanentBuild = True"
| "is_permanent (PermanentStatus c) = True"
| "is_permanent (RetriesExhausted n (Some e)) = is_permanent e"
| "is_permanent _ = False"

record Result =
  res_TaskID :: string
  res_Status :: Status
  res_Attempts :: int
  res_Err :: "deliver_error option"

record attempt_env =
  sleep_cut :: "ctx_error option"
  outcome :: http_outcome
  ctx_after :: "ctx_error option"

definition attempt :: "http_outcome \<Rightarrow> deliver_error option" where
  "attempt out =
     (case out of
        BuildFails \<Rightarrow> Some PermanentBuild
      | SendFails \<Rightarrow> Some SendErr
      | Code code \<Rightarrow>
          if 200 \<le> code \<and> code < 300 then None
          else if code = 429 \<or> 500 \<le> code then Some (StatusError code)
          else Some (PermanentStatus code))"

text \<open>The loop over the attempts still to make; \<open>err\<close> is the error of the last one.\<close>

fun deliverLoop :: "Config \<Rightarrow> (nat \<Rightarrow> attempt_env) \<Rightarrow> string \<Rightarrow> nat \<Rightarrow> nat \<Rightarrow> deliver_error option \<Rightarrow> Result option" where
  "deliverLoop cfg env i 0 att err =
     Some \<lparr>res_TaskID = i, res_Status = StatusFailed, res_Attempts = MaxAttempts cfg,
           res_Err = Some (RetriesExhausted (MaxAttempts cfg) err)\<rparr>"
| "deliverLoop cfg env i (Suc left) att err =
     (let run = (\<lambda>_::unit.
        let err' = attempt (outcome (env att))
        in if err' = None then
             Some \<lparr>res_TaskID = i, res_Status = StatusDelivered, res_Attempts = int att + 1, res_Err = None\<rparr>
           else if ctx_after (env att) \<noteq> None then
             Some \<lparr>res_TaskID = i, res_Status = StatusCanceled, res_Attempts = int att + 1,
                   res_Err = map_option CtxErr (ctx_after (env att))\<rparr>
           else if is_permanent (the err') then
             Some \<lparr>res_TaskID = i, res_Status = StatusFailed, res_Attempts = int att + 1, res_Err = err'\<rparr>
           else deliverLoop cfg env i left (Suc att) err')
      in if 0 < att then
           (case Delay (Backoff cfg) (int att - 1) of
              None \<Rightarrow> None
            | Some delay \<Rightarrow>
                (case Sleep (sleep_cut (env att)) delay of
                   Inl e \<Rightarrow> Some \<lparr>res_TaskID = i, res_Status = StatusCanceled, res_Attempts = int att, res_Err = Some (CtxErr e)\<rparr>
                 | Inr _ \<Rightarrow> run ()))
         else run ())"

text \<open>\<open>ctx0\<close> is the context's error when the task is picked up; the result is \<open>None\<close> only if the
  computation of a delay panics.\<close>

definition deliver :: "Config \<Rightarrow> ctx_error option \<Rightarrow> (nat \<Rightarrow> attempt_env) \<Rightarrow> Task \<Rightarrow> Result option" where
  "deliver cfg ctx0 env t =
     (case ctx0 of
        Some e \<Rightarrow> Some \<lparr>res_TaskID = t_ID t, res_Status = StatusCanceled, res_Attempts = 0, res_Err = Some (CtxErr e)\<rparr>
      | None \<Rightarrow> deliverLoop cfg env (t_ID t) (nat (MaxAttempts cfg)) 0 None)"

section \<open>Lemmas\<close>

lemma Delay_total: "0 \<le> retry \<Longrightarrow> Delay p retry \<noteq> None"
  by (simp add: Delay_def Let_def)

text \<open>An attempt that is worth repeating: the pause before it was not cut short, it failed in a way
  that is not permanent, and the context is still alive.\<close>

definition repeats :: "(nat \<Rightarrow> attempt_env) \<Rightarrow> nat \<Rightarrow> bool" where
  "repeats env k \<longleftrightarrow> (0 < k \<longrightarrow> sleep_cut (env k) = None) \<and> ctx_after (env k) = None
     \<and> (\<exists>e. attempt (outcome (env k)) = Some e \<and> \<not> is_permanent e)"

text \<open>What the result says when the loop ends at attempt \<open>k\<close>, counted from 0.\<close>

definition ends_at :: "(nat \<Rightarrow> attempt_env) \<Rightarrow> nat \<Rightarrow> Result \<Rightarrow> bool" where
  "ends_at env k r \<longleftrightarrow>
     (if 0 < k \<and> sleep_cut (env k) \<noteq> None then
        res_Status r = StatusCanceled \<and> res_Attempts r = int k \<and> res_Err r = map_option CtxErr (sleep_cut (env k))
      else res_Attempts r = int k + 1 \<and>
        (case attempt (outcome (env k)) of
           None \<Rightarrow> res_Status r = StatusDelivered \<and> res_Err r = None
         | Some e \<Rightarrow>
             (case ctx_after (env k) of
                Some c \<Rightarrow> res_Status r = StatusCanceled \<and> res_Err r = Some (CtxErr c)
              | None \<Rightarrow> is_permanent e \<and> res_Status r = StatusFailed \<and> res_Err r = Some e)))"

lemma deliverLoop_step:
  assumes "repeats env att"
  shows "deliverLoop cfg env i (Suc left) att err = deliverLoop cfg env i left (Suc att) (attempt (outcome (env att)))"
proof (cases "0 < att")
  case True
  then obtain d where "Delay (Backoff cfg) (int att - 1) = Some d"
    using Delay_total[of "int att - 1" "Backoff cfg"] by auto
  then show ?thesis using True assms by (auto simp: repeats_def Sleep_def Let_def)
qed (use assms in \<open>auto simp: repeats_def Let_def\<close>)

lemma deliverLoop_ends:
  assumes "\<not> repeats env att"
  shows "\<exists>r. deliverLoop cfg env i (Suc left) att err = Some r \<and> res_TaskID r = i \<and> ends_at env att r"
proof -
  show ?thesis
  proof (cases "0 < att")
    case True
    then obtain d where "Delay (Backoff cfg) (int att - 1) = Some d"
      using Delay_total[of "int att - 1" "Backoff cfg"] by auto
    then show ?thesis using assms True
      by (auto simp: repeats_def ends_at_def Sleep_def Let_def split: option.splits)
  next
    case False
    then show ?thesis using assms by (auto simp: repeats_def ends_at_def Let_def split: option.splits)
  qed
qed

text \<open>The loop stops at the first attempt that does not repeat, or after the last.\<close>

lemma deliverLoop_result:
  "\<exists>r. deliverLoop cfg env i left att err = Some r \<and> res_TaskID r = i \<and>
     ((\<exists>k<att + left. att \<le> k \<and> (\<forall>j. att \<le> j \<and> j < k \<longrightarrow> repeats env j) \<and> \<not> repeats env k \<and> ends_at env k r)
      \<or> (\<forall>j. att \<le> j \<and> j < att + left \<longrightarrow> repeats env j) \<and> res_Status r = StatusFailed \<and> res_Attempts r = MaxAttempts cfg
         \<and> res_Err r = Some (RetriesExhausted (MaxAttempts cfg)
             (if left = 0 then err else attempt (outcome (env (att + left - 1))))))"
proof (induction left arbitrary: att err)
  case 0
  have "\<forall>j. att \<le> j \<and> j < att + 0 \<longrightarrow> repeats env j" by auto
  then show ?case by auto
next
  case (Suc left)
  show ?case
  proof (cases "repeats env att")
    case False
    then show ?thesis using deliverLoop_ends[OF False, of cfg i left err] by force
  next
    case True
    then have step: "deliverLoop cfg env i (Suc left) att err
        = deliverLoop cfg env i left (Suc att) (attempt (outcome (env att)))"
      by (rule deliverLoop_step)
    have le: "att \<le> j \<longleftrightarrow> j = att \<or> Suc att \<le> j" for j by auto
    from Suc.IH[of "Suc att" "attempt (outcome (env att))"] obtain r where
      r: "deliverLoop cfg env i left (Suc att) (attempt (outcome (env att))) = Some r" "res_TaskID r = i"
      and c: "(\<exists>k<Suc att + left. Suc att \<le> k \<and> (\<forall>j. Suc att \<le> j \<and> j < k \<longrightarrow> repeats env j) \<and> \<not> repeats env k \<and> ends_at env k r)
        \<or> (\<forall>j. Suc att \<le> j \<and> j < Suc att + left \<longrightarrow> repeats env j) \<and> res_Status r = StatusFailed
          \<and> res_Attempts r = MaxAttempts cfg
          \<and> res_Err r = Some (RetriesExhausted (MaxAttempts cfg)
             (if left = 0 then attempt (outcome (env att)) else attempt (outcome (env (Suc att + left - 1)))))"
      by blast
    from c show ?thesis
    proof
      assume "\<exists>k<Suc att + left. Suc att \<le> k \<and> (\<forall>j. Suc att \<le> j \<and> j < k \<longrightarrow> repeats env j) \<and> \<not> repeats env k \<and> ends_at env k r"
      then obtain k where "k < Suc att + left" "Suc att \<le> k" "\<forall>j. Suc att \<le> j \<and> j < k \<longrightarrow> repeats env j"
        "\<not> repeats env k" "ends_at env k r" by blast
      then have "k < att + Suc left \<and> att \<le> k \<and> (\<forall>j. att \<le> j \<and> j < k \<longrightarrow> repeats env j) \<and> \<not> repeats env k \<and> ends_at env k r"
        using True le by auto
      then show ?thesis using r step by auto
    next
      assume "(\<forall>j. Suc att \<le> j \<and> j < Suc att + left \<longrightarrow> repeats env j) \<and> res_Status r = StatusFailed
          \<and> res_Attempts r = MaxAttempts cfg
          \<and> res_Err r = Some (RetriesExhausted (MaxAttempts cfg)
             (if left = 0 then attempt (outcome (env att)) else attempt (outcome (env (Suc att + left - 1)))))"
      then show ?thesis using True le r step by auto
    qed
  qed
qed

section \<open>Properties\<close>

text \<open>The 64-bit shifts of \<open>Delay\<close> compute the ceiling min(Max, Base * 2^retry) exactly, for every retry
  number: no overflow and no shift by a width that loses bits. The pause lies below it.\<close>

theorem backoff_delay_exact:
  assumes "0 < p_Base p" and "in64 (p_Max p)" and "0 \<le> retry"
    and "\<And>n. 0 < n \<Longrightarrow> 0 \<le> p_Rand p n \<and> p_Rand p n < n"
  shows "let ceiling = min (p_Max p) (p_Base p * 2 ^ nat retry)
    in Delay p retry = Some (if ceiling \<le> 0 then 0 else p_Rand p ceiling)
       \<and> (\<forall>d. Delay p retry = Some d \<longrightarrow> 0 \<le> d \<and> (0 < ceiling \<longrightarrow> d < ceiling))"
proof -
  let ?b = "p_Base p * 2 ^ nat retry"
  note c = shift_ceiling[OF assms(1,2,3)]
  define m where "m = min (p_Max p) ?b"
  have "Delay p retry = Some (if m \<le> 0 then 0 else p_Rand p m)"
    unfolding Delay_def c Let_def m_def using assms(3) by simp
  then show ?thesis using assms(4)[of m] unfolding m_def[symmetric] Let_def by auto
qed

definition demo_policy :: Policy where
  "demo_policy = \<lparr>p_Base = 500, p_Max = 30000, p_Rand = (\<lambda>n. n div 2)\<rparr>"

theorem backoff_delay_exact_witness:
  "Delay demo_policy 3 = Some 2000 \<and> Delay demo_policy 70 = Some 15000"
proof -
  have r: "0 \<le> p_Rand demo_policy n \<and> p_Rand demo_policy n < n" if "0 < n" for n
    using that by (simp add: demo_policy_def)
  have b: "0 < p_Base demo_policy" "in64 (p_Max demo_policy)" by (simp_all add: demo_policy_def in64_iff)
  have p: "p_Base demo_policy = 500" "p_Max demo_policy = 30000" "p_Rand demo_policy n = n div 2" for n
    by (simp_all add: demo_policy_def)
  have d: "Delay demo_policy k = Some (let c = min 30000 (500 * 2 ^ nat k) in if c \<le> 0 then 0 else c div 2)"
    if "0 \<le> k" for k
    using backoff_delay_exact[of demo_policy k, OF b that r] unfolding p Let_def by (rule conjunct1)
  have "Delay demo_policy 3 = Some 2000" using d[of 3] by (simp add: Let_def)
  moreover have "Delay demo_policy 70 = Some 15000" using d[of 70] by (simp add: Let_def)
  ultimately show ?thesis by (rule conjI)
qed

text \<open>A delivery always ends with one result for its task. It makes at most \<open>MaxAttempts\<close> attempts: every
  attempt but the last failed in a way worth retrying with the context alive, and the result is
  what the last attempt decided, or \<open>ErrRetriesExhausted\<close> when all of them failed.\<close>

theorem deliver_result_decided_by_last_attempt:
  assumes "1 \<le> MaxAttempts cfg"
  shows "\<exists>r. deliver cfg None env t = Some r \<and> res_TaskID r = t_ID t \<and> res_Status r \<noteq> StatusQueued
    \<and> 1 \<le> res_Attempts r \<and> res_Attempts r \<le> MaxAttempts cfg
    \<and> (\<forall>j. int j < res_Attempts r - 1 \<longrightarrow> repeats env j)
    \<and> ((\<exists>k. int k < MaxAttempts cfg \<and> (\<forall>j<k. repeats env j) \<and> ends_at env k r)
       \<or> (\<forall>j. int j < MaxAttempts cfg \<longrightarrow> repeats env j) \<and> res_Status r = StatusFailed
         \<and> res_Err r = Some (RetriesExhausted (MaxAttempts cfg) (attempt (outcome (env (nat (MaxAttempts cfg) - 1))))))"
proof -
  let ?m = "nat (MaxAttempts cfg)"
  from deliverLoop_result[of cfg env "t_ID t" ?m 0 None] assms
  obtain r where r: "deliver cfg None env t = Some r" "res_TaskID r = t_ID t"
    and c: "(\<exists>k<?m. (\<forall>j<k. repeats env j) \<and> ends_at env k r)
      \<or> (\<forall>j<?m. repeats env j) \<and> res_Status r = StatusFailed \<and> res_Attempts r = MaxAttempts cfg
         \<and> res_Err r = Some (RetriesExhausted (MaxAttempts cfg) (attempt (outcome (env (?m - 1)))))"
    unfolding deliver_def by auto
  from c show ?thesis
  proof
    assume "\<exists>k<?m. (\<forall>j<k. repeats env j) \<and> ends_at env k r"
    then obtain k where k: "int k < MaxAttempts cfg" "\<forall>j<k. repeats env j" "ends_at env k r"
      by (auto simp: zless_nat_eq_int_zless)
    then have "res_Status r \<noteq> StatusQueued" "1 \<le> res_Attempts r" "res_Attempts r \<le> int k + 1"
      by (auto simp: ends_at_def split: if_splits option.splits)
    then show ?thesis using r k by force
  next
    assume e: "(\<forall>j<?m. repeats env j) \<and> res_Status r = StatusFailed \<and> res_Attempts r = MaxAttempts cfg
         \<and> res_Err r = Some (RetriesExhausted (MaxAttempts cfg) (attempt (outcome (env (?m - 1)))))"
    then show ?thesis using r assms by (intro exI[of _ r]) (auto simp: nat_less_iff)
  qed
qed

definition demo_cfg :: Config where
  "demo_cfg = \<lparr>Workers = 1, MaxAttempts = 3, AttemptTimeout = 10, Backoff = demo_policy\<rparr>"

definition demo_env :: "nat \<Rightarrow> attempt_env" where
  "demo_env k = \<lparr>sleep_cut = None, outcome = Code (if k = 0 then 503 else 200), ctx_after = None\<rparr>"

theorem deliver_result_decided_by_last_attempt_witness:
  "\<exists>r. deliver demo_cfg None demo_env \<lparr>t_ID = ''a'', t_URL = ''u'', t_Payload = ''p''\<rparr> = Some r
    \<and> res_Attempts r \<le> 3 \<and> res_Status r = StatusDelivered \<and> res_Attempts r = 2"
proof -
  have "1 \<le> MaxAttempts demo_cfg" by (simp add: demo_cfg_def)
  from deliver_result_decided_by_last_attempt[OF this, of demo_env "\<lparr>t_ID = ''a'', t_URL = ''u'', t_Payload = ''p''\<rparr>"]
  obtain r where "deliver demo_cfg None demo_env \<lparr>t_ID = ''a'', t_URL = ''u'', t_Payload = ''p''\<rparr> = Some r"
    "res_Attempts r \<le> 3" by (auto simp: demo_cfg_def)
  moreover have "deliver demo_cfg None demo_env \<lparr>t_ID = ''a'', t_URL = ''u'', t_Payload = ''p''\<rparr>
    = Some \<lparr>res_TaskID = ''a'', res_Status = StatusDelivered, res_Attempts = 2, res_Err = None\<rparr>" by code_simp
  ultimately show ?thesis by auto
qed

end
