(* ===== verification/Delivery.thy ===== *)
theory Delivery
  imports Dispatch "HOL-Library.Multiset"
begin

text \<open>
  The service around the deliveries of app 04: the status recorder
  (\<^verbatim>\<open>internal/status/recorder.go\<close>), the HTTP API (\<^verbatim>\<open>internal/api/api.go\<close>), and the goroutines of
  \<^verbatim>\<open>cmd/worker-pool/main.go\<close> and \<^verbatim>\<open>pool.go\<close> as a step relation over the shared queue, the pool and the
  recorder.

  The API's interfaces \<open>queue\<close> and \<open>store\<close> are the locale \<open>delivery_backend\<close>, interpreted on the queue
  and the recorder. A decoded request body and the parse of a URL come from the standard library
  through parameters; \<open>msg\<close> is the text of an error.
\<close>

section \<open>The recorder\<close>

record Record =
  rc_ID :: string
  rc_URL :: string
  rc_Status :: Status
  rc_Attempts :: int
  rc_Error :: string
  rc_CreatedAt :: gotime
  rc_UpdatedAt :: gotime

record Recorder =
  rd_retention :: duration
  rd_records :: "string \<rightharpoonup> Record"

definition NewRecorder :: "duration \<Rightarrow> Recorder" where
  "NewRecorder retention = \<lparr>rd_retention = retention, rd_records = Map.empty\<rparr>"

definition Track :: "Recorder \<Rightarrow> Task \<Rightarrow> gotime \<Rightarrow> Record \<times> Recorder" where
  "Track r t now =
     (let rc = \<lparr>rc_ID = t_ID t, rc_URL = t_URL t, rc_Status = StatusQueued, rc_Attempts = 0, rc_Error = [],
                rc_CreatedAt = now, rc_UpdatedAt = now\<rparr>
      in (rc, r\<lparr>rd_records := (rd_records r)(t_ID t \<mapsto> rc)\<rparr>))"

definition Forget :: "Recorder \<Rightarrow> string \<Rightarrow> Recorder" where
  "Forget r i = r\<lparr>rd_records := (rd_records r)(i := None)\<rparr>"

definition recorder_Get :: "Recorder \<Rightarrow> string \<Rightarrow> Record option" where
  "recorder_Get r i = rd_records r i"

definition recorder_apply :: "(deliver_error \<Rightarrow> string) \<Rightarrow> Recorder \<Rightarrow> Result \<Rightarrow> gotime \<Rightarrow> Recorder" where
  "recorder_apply msg r res now =
     (case rd_records r (res_TaskID res) of
        None \<Rightarrow> r
      | Some rc \<Rightarrow>
          let rc1 = rc\<lparr>rc_Status := res_Status res, rc_Attempts := res_Attempts res, rc_UpdatedAt := now\<rparr>;
              rc2 = (case res_Err res of None \<Rightarrow> rc1 | Some e \<Rightarrow> rc1\<lparr>rc_Error := msg e\<rparr>)
          in r\<lparr>rd_records := (rd_records r)(res_TaskID res \<mapsto> rc2)\<rparr>)"

definition evict :: "Recorder \<Rightarrow> gotime \<Rightarrow> Recorder" where
  "evict r now =
     (let cutoff = time_Add now (- rd_retention r)
      in r\<lparr>rd_records := (\<lambda>i. case rd_records r i of
                               None \<Rightarrow> None
                             | Some rc \<Rightarrow> if rc_Status rc \<noteq> StatusQueued \<and> rc_UpdatedAt rc < cutoff then None else Some rc)\<rparr>)"

text \<open>The loop of \<open>Run\<close>, over the results and ticks it receives until the channel is closed.\<close>

datatype recorder_event = RecvResult Result gotime | EvictTick gotime

fun recorder_Run :: "(deliver_error \<Rightarrow> string) \<Rightarrow> Recorder \<Rightarrow> recorder_event list \<Rightarrow> Recorder" where
  "recorder_Run msg r [] = r"
| "recorder_Run msg r (RecvResult res now # es) = recorder_Run msg (recorder_apply msg r res now) es"
| "recorder_Run msg r (EvictTick now # es) = recorder_Run msg (evict r now) es"

section \<open>The API\<close>

record createRequest =
  cr_URL :: string
  cr_Payload :: string

datatype body = TooLarge | Malformed | Decoded createRequest

datatype api_reply =
    Accepted string Record
  | Found Record
  | ApiError int "string option" string

text \<open>\<open>parse\<close> is \<open>url.Parse\<close>: the scheme and the host of a URL.\<close>

definition api_validate :: "(string \<Rightarrow> (string \<times> string) option) \<Rightarrow> createRequest \<Rightarrow> string option" where
  "api_validate parse req =
     (if (case parse (cr_URL req) of None \<Rightarrow> True
          | Some (scheme, host) \<Rightarrow> scheme \<noteq> ''http'' \<and> scheme \<noteq> ''https'' \<or> host = [])
      then Some ''url must be an absolute http or https URL''
      else if cr_Payload req = [] \<or> cr_Payload req = ''null'' then Some ''payload is required''
      else None)"

definition rejectPush :: "push_error \<Rightarrow> api_reply" where
  "rejectPush e =
     (case e of
        ErrQueueFull \<Rightarrow> ApiError 503 (Some ''1'') ''delivery queue is full''
      | ErrQueueClosed \<Rightarrow> ApiError 503 None ''server is shutting down'')"

definition create ::
  "('q \<Rightarrow> Task \<Rightarrow> push_error option \<times> 'q) \<Rightarrow> ('s \<Rightarrow> Task \<Rightarrow> gotime \<Rightarrow> Record \<times> 's) \<Rightarrow> ('s \<Rightarrow> string \<Rightarrow> 's)
    \<Rightarrow> (string \<Rightarrow> (string \<times> string) option) \<Rightarrow> string \<Rightarrow> gotime \<Rightarrow> body \<Rightarrow> 'q \<Rightarrow> 's \<Rightarrow> api_reply \<times> 'q \<times> 's"
where
  "create push track forget parse randText now b q s =
     (case b of
        TooLarge \<Rightarrow> (ApiError 413 None ''request body too large'', q, s)
      | Malformed \<Rightarrow> (ApiError 400 None ''invalid JSON body'', q, s)
      | Decoded req \<Rightarrow>
          (case api_validate parse req of
             Some m \<Rightarrow> (ApiError 400 None m, q, s)
           | None \<Rightarrow>
               let task = \<lparr>t_ID = randText, t_URL = cr_URL req, t_Payload = cr_Payload req\<rparr>;
                   (rc, s1) = track s task now
               in case push q task of
                    (Some e, q1) \<Rightarrow> (rejectPush e, q1, forget s1 (t_ID task))
                  | (None, q1) \<Rightarrow> (Accepted (''/deliveries/'' @ t_ID task) rc, q1, s1)))"

definition api_get :: "('s \<Rightarrow> string \<Rightarrow> Record option) \<Rightarrow> 's \<Rightarrow> string \<Rightarrow> api_reply" where
  "api_get get s i = (case get s i of None \<Rightarrow> ApiError 404 None ''delivery not found'' | Some rc \<Rightarrow> Found rc)"

text \<open>Either the request is refused before anything is stored, or its task is tracked and pushed.\<close>

lemma create_shape:
  obtains (early) code m where "create push track forget parse k now b q s = (ApiError code None m, q, s)"
  | (pushed) t where "t_ID t = k"
      "create push track forget parse k now b q s =
        (case push q t of
           (Some e, q1) \<Rightarrow> (rejectPush e, q1, forget (snd (track s t now)) k)
         | (None, q1) \<Rightarrow> (Accepted (''/deliveries/'' @ k) (fst (track s t now)), q1, snd (track s t now)))"
proof (cases b)
  case (Decoded req)
  let ?t = "\<lparr>t_ID = k, t_URL = cr_URL req, t_Payload = cr_Payload req\<rparr>"
  show thesis
  proof (cases "api_validate parse req")
    case None
    then show thesis using Decoded by (intro pushed[of ?t]) (simp_all add: create_def Let_def split_beta split: option.splits)
  qed (use Decoded early in \<open>simp add: create_def\<close>)
qed (use early in \<open>simp_all add: create_def\<close>)

text \<open>What the handlers rely on: a queue that takes a task or leaves itself unchanged, and a store that
  finds what was tracked and not forgotten.\<close>

locale delivery_backend =
  fixes push :: "'q \<Rightarrow> Task \<Rightarrow> push_error option \<times> 'q"
    and contents :: "'q \<Rightarrow> Task list"
    and track :: "'s \<Rightarrow> Task \<Rightarrow> gotime \<Rightarrow> Record \<times> 's"
    and forget :: "'s \<Rightarrow> string \<Rightarrow> 's"
    and get :: "'s \<Rightarrow> string \<Rightarrow> Record option"
  assumes push_ok: "push q t = (None, q') \<Longrightarrow> contents q' = contents q @ [t]"
    and push_err: "push q t = (Some e, q') \<Longrightarrow> q' = q"
    and get_track: "get (snd (track s t now)) i = (if i = t_ID t then Some (fst (track s t now)) else get s i)"
    and track_queued: "rc_Status (fst (track s t now)) = StatusQueued"
    and get_forget: "get (forget s j) i = (if i = j then None else get s i)"
begin

abbreviation api_create where
  "api_create \<equiv> create push track forget"

lemma create_accepted:
  assumes "api_create parse k now b q s = (Accepted loc rc, q', s')"
  shows "get s' k = Some rc \<and> rc_Status rc = StatusQueued \<and> loc = ''/deliveries/'' @ k
    \<and> (\<exists>t. contents q' = contents q @ [t] \<and> t_ID t = k)
    \<and> (\<forall>i. i \<noteq> k \<longrightarrow> get s' i = get s i)"
proof (cases rule: create_shape[of push track forget parse k now b q s])
  case (pushed t)
  obtain q1 where p: "push q t = (None, q1)"
    using assms unfolding pushed(2) by (auto simp: rejectPush_def split: prod.splits option.splits push_error.splits)
  have e: "loc = ''/deliveries/'' @ k" "rc = fst (track s t now)" "q' = q1" "s' = snd (track s t now)"
    using assms unfolding pushed(2) p by simp_all
  show ?thesis unfolding e using get_track[of s t now] track_queued push_ok[OF p] pushed(1) by auto
qed (use assms in simp)

lemma create_refused:
  assumes "api_create parse k now b q s = (ApiError code ra m, q', s')" and "get s k = None"
  shows "q' = q \<and> (\<forall>i. get s' i = get s i)"
proof (cases rule: create_shape[of push track forget parse k now b q s])
  case (pushed t)
  obtain e q1 where p: "push q t = (Some e, q1)"
    using assms(1) unfolding pushed(2) by (auto split: prod.splits option.splits)
  have e: "q' = q1" "s' = forget (snd (track s t now)) k" using assms(1) unfolding pushed(2) p by simp_all
  show ?thesis unfolding e using get_track[of s t now] get_forget push_err[OF p] pushed(1) assms(2) by auto
qed (use assms in simp)

end

interpretation rec_api: delivery_backend Push q_tasks Track Forget recorder_Get
  by unfold_locales
    (auto simp: Push_def Track_def Forget_def recorder_Get_def Let_def split: if_splits)

section \<open>The running service\<close>

text \<open>
  The goroutines: request handlers that track and then push a task, the loop of \<open>Pool.Run\<close>, which
  receives a task and waits for a free worker (\<open>s_picked\<close>), at most \<open>Workers\<close> deliveries
  (\<open>s_active\<close>), the results channel, which holds \<open>Workers\<close> results, and the recorder's loop. The last
  three fields are history: identifiers handed out, accepted by \<open>Push\<close>, and recorded.
\<close>

record sys =
  s_queue :: Queue
  s_rec :: Recorder
  s_tracked :: "Task list"
  s_picked :: "Task option"
  s_active :: "Task list"
  s_results :: "Result list"
  s_used :: "string list"
  s_accepted :: "string list"
  s_applied :: "string list"

datatype sys_event =
    EvTrack Task gotime
  | EvPush Task
  | EvRecv
  | EvSpawn
  | EvDeliver Task "ctx_error option" "nat \<Rightarrow> attempt_env"
  | EvApply gotime
  | EvEvict gotime
  | EvClose

text \<open>One step; \<open>None\<close> when the event cannot happen. \<open>rand.Text\<close> does not repeat an identifier.\<close>

fun sys_step :: "Config \<Rightarrow> (deliver_error \<Rightarrow> string) \<Rightarrow> sys_event \<Rightarrow> sys \<Rightarrow> sys option" where
  "sys_step cfg msg (EvTrack t now) s =
     (if t_ID t \<in> set (s_used s) then None
      else Some (s\<lparr>s_rec := snd (Track (s_rec s) t now), s_tracked := t # s_tracked s, s_used := t_ID t # s_used s\<rparr>))"
| "sys_step cfg msg (EvPush t) s =
     (if t \<notin> set (s_tracked s) then None
      else case Push (s_queue s) t of
             (None, q) \<Rightarrow> Some (s\<lparr>s_queue := q, s_tracked := remove1 t (s_tracked s), s_accepted := t_ID t # s_accepted s\<rparr>)
           | (Some e, q) \<Rightarrow> Some (s\<lparr>s_queue := q, s_tracked := remove1 t (s_tracked s), s_rec := Forget (s_rec s) (t_ID t)\<rparr>))"
| "sys_step cfg msg EvRecv s =
     (if s_picked s \<noteq> None then None
      else case queue_recv (s_queue s) of
             Some (Some t, q) \<Rightarrow> Some (s\<lparr>s_queue := q, s_picked := Some t\<rparr>)
           | _ \<Rightarrow> None)"
| "sys_step cfg msg EvSpawn s =
     (case s_picked s of
        None \<Rightarrow> None
      | Some t \<Rightarrow> if int (length (s_active s)) < Workers cfg
                  then Some (s\<lparr>s_picked := None, s_active := t # s_active s\<rparr>) else None)"
| "sys_step cfg msg (EvDeliver t ctx0 env) s =
     (if t \<notin> set (s_active s) \<or> \<not> int (length (s_results s)) < Workers cfg then None
      else case deliver cfg ctx0 env t of
             None \<Rightarrow> None
           | Some r \<Rightarrow> Some (s\<lparr>s_active := remove1 t (s_active s), s_results := s_results s @ [r]\<rparr>))"
| "sys_step cfg msg (EvApply now) s =
     (case s_results s of
        [] \<Rightarrow> None
      | r # rs \<Rightarrow> Some (s\<lparr>s_results := rs, s_rec := recorder_apply msg (s_rec s) r now, s_applied := res_TaskID r # s_applied s\<rparr>))"
| "sys_step cfg msg (EvEvict now) s = Some (s\<lparr>s_rec := evict (s_rec s) now\<rparr>)"
| "sys_step cfg msg EvClose s = Some (s\<lparr>s_queue := queue_Close (s_queue s)\<rparr>)"

definition sys_init :: "Queue \<Rightarrow> duration \<Rightarrow> sys" where
  "sys_init q retention = \<lparr>s_queue = q, s_rec = NewRecorder retention, s_tracked = [], s_picked = None, s_active = [],
     s_results = [], s_used = [], s_accepted = [], s_applied = []\<rparr>"

inductive sys_steps :: "Config \<Rightarrow> (deliver_error \<Rightarrow> string) \<Rightarrow> sys \<Rightarrow> sys_event list \<Rightarrow> sys \<Rightarrow> bool"
  for cfg msg where
  nil: "sys_steps cfg msg s [] s"
| step: "sys_step cfg msg e s = Some s1 \<Longrightarrow> sys_steps cfg msg s1 es s2 \<Longrightarrow> sys_steps cfg msg s (e # es) s2"

inductive_cases sys_steps_ConsE: "sys_steps cfg msg s (e # es) s'"

text \<open>The identifiers of accepted tasks without a recorded result.\<close>

definition pending :: "sys \<Rightarrow> string multiset" where
  "pending s = mset (map t_ID (q_tasks (s_queue s))) + (case s_picked s of None \<Rightarrow> {#} | Some t \<Rightarrow> {#t_ID t#})
     + mset (map t_ID (s_active s)) + mset (map res_TaskID (s_results s))"

definition open_ids :: "sys \<Rightarrow> string multiset" where
  "open_ids s = mset (map t_ID (s_tracked s)) + pending s"

definition queued_rec :: "Recorder \<Rightarrow> string \<Rightarrow> bool" where
  "queued_rec r i \<longleftrightarrow> (\<exists>rc. recorder_Get r i = Some rc \<and> rc_Status rc = StatusQueued)"

definition ids_ok :: "string multiset \<Rightarrow> string set \<Rightarrow> bool" where
  "ids_ok M U \<longleftrightarrow> (\<forall>i. count M i \<le> (if i \<in> U then 1 else 0))"

definition sys_inv :: "Config \<Rightarrow> sys \<Rightarrow> bool" where
  "sys_inv cfg s \<longleftrightarrow>
     mset (s_accepted s) = pending s + mset (s_applied s)
   \<and> ids_ok (open_ids s + mset (s_applied s)) (set (s_used s))
   \<and> (\<forall>i. i \<in># open_ids s \<longrightarrow> queued_rec (s_rec s) i)
   \<and> int (length (q_tasks (s_queue s))) \<le> q_cap (s_queue s)
   \<and> int (length (s_active s)) \<le> Workers cfg \<and> int (length (s_results s)) \<le> Workers cfg"

section \<open>Invariant\<close>

lemma mset_map_remove1: "t \<in> set ts \<Longrightarrow> mset (map f ts) = add_mset (f t) (mset (map f (remove1 t ts)))"
  by (induction ts) auto

lemma ids_ok_add: "ids_ok M U \<Longrightarrow> i \<notin> U \<Longrightarrow> ids_ok (add_mset i M) (insert i U)"
proof -
  assume a: "ids_ok M U" "i \<notin> U"
  have c: "count M j \<le> (if j \<in> U then 1 else 0)" for j using a(1) by (simp add: ids_ok_def)
  have "count (add_mset i M) j \<le> (if j \<in> insert i U then 1 else 0)" for j
    using c[of j] c[of i] a(2) by (cases "j = i") (auto split: if_splits)
  then show ?thesis by (simp add: ids_ok_def)
qed

lemma distinct_count_le1: "(\<And>x. count (mset xs) x \<le> 1) \<Longrightarrow> distinct xs"
proof (induction xs)
  case (Cons a xs)
  have "count (mset xs) x \<le> count (mset (a # xs)) x" for x by simp
  then have "count (mset xs) x \<le> 1" for x using Cons.prems[of x] by (rule order.trans)
  moreover have "count (mset xs) a = 0" using Cons.prems[of a] by simp
  ultimately show ?case using Cons.IH by simp
qed simp

lemma ids_ok_empty: "ids_ok {#} U"
  by (simp add: ids_ok_def)

lemma ids_ok_once: "ids_ok (add_mset i M) U \<Longrightarrow> i \<notin># M"
  unfolding ids_ok_def not_in_iff by (drule spec[of _ i]) (simp split: if_splits)

lemma ids_ok_drop: "ids_ok (add_mset i M) U \<Longrightarrow> ids_ok M U"
  unfolding ids_ok_def by (metis add.left_neutral add_Suc_right count_add_mset le_SucI le_add2 order.trans)

lemma queued_rec_Track: "queued_rec (snd (Track r t now)) i \<longleftrightarrow> i = t_ID t \<or> queued_rec r i"
  by (auto simp: queued_rec_def Track_def recorder_Get_def Let_def)

lemma queued_rec_Forget: "queued_rec (Forget r j) i \<longleftrightarrow> i \<noteq> j \<and> queued_rec r i"
  by (auto simp: queued_rec_def Forget_def recorder_Get_def)

lemma queued_rec_apply: "i \<noteq> res_TaskID res \<Longrightarrow> queued_rec (recorder_apply msg r res now) i = queued_rec r i"
  by (auto simp: queued_rec_def recorder_apply_def recorder_Get_def Let_def split: option.splits)

lemma queued_rec_evict: "queued_rec (evict r now) i = queued_rec r i"
  by (auto simp: queued_rec_def evict_def recorder_Get_def Let_def split: option.splits)

lemma deliver_TaskID: "deliver cfg ctx0 env t = Some r \<Longrightarrow> res_TaskID r = t_ID t"
  using deliverLoop_result[of cfg env "t_ID t" "nat (MaxAttempts cfg)" 0 None]
  by (auto simp: deliver_def split: option.splits)

lemma deliver_total: "\<exists>r. deliver cfg ctx0 env t = Some r"
  using deliverLoop_result[of cfg env "t_ID t" "nat (MaxAttempts cfg)" 0 None]
  by (auto simp: deliver_def split: option.splits)

lemmas queued_rec_simps = queued_rec_Track queued_rec_Forget queued_rec_evict

text \<open>Every event but those of a request and \<open>EvApply\<close> moves identifiers within the service.\<close>

definition bounds_ok :: "Config \<Rightarrow> sys \<Rightarrow> bool" where
  "bounds_ok cfg s \<longleftrightarrow> int (length (q_tasks (s_queue s))) \<le> q_cap (s_queue s)
     \<and> int (length (s_active s)) \<le> Workers cfg \<and> int (length (s_results s)) \<le> Workers cfg"

lemma sys_inv_move:
  assumes "sys_inv cfg s" and "pending s' = pending s" and "s_tracked s' = s_tracked s"
    and "s_accepted s' = s_accepted s" and "s_applied s' = s_applied s" and "s_used s' = s_used s"
    and "\<And>i. queued_rec (s_rec s') i = queued_rec (s_rec s) i" and "bounds_ok cfg s'"
  shows "sys_inv cfg s'"
  using assms unfolding sys_inv_def bounds_ok_def open_ids_def by simp

lemma sys_inv_bounds: "sys_inv cfg s \<Longrightarrow> bounds_ok cfg s"
  by (simp add: sys_inv_def bounds_ok_def)

lemma step_EvTrack:
  assumes "sys_step cfg msg (EvTrack t now) s = Some s'" and "sys_inv cfg s"
  shows "sys_inv cfg s'"
proof -
  have f: "t_ID t \<notin> set (s_used s)"
    and s': "s' = s\<lparr>s_rec := snd (Track (s_rec s) t now), s_tracked := t # s_tracked s, s_used := t_ID t # s_used s\<rparr>"
    using assms(1) by (simp_all split: if_splits)
  have o: "open_ids s' = add_mset (t_ID t) (open_ids s)" and p: "pending s' = pending s"
    by (simp_all add: s' open_ids_def pending_def)
  have "ids_ok (open_ids s' + mset (s_applied s')) (set (s_used s'))"
    using assms(2) f ids_ok_add[of "open_ids s + mset (s_applied s)"] unfolding o by (simp add: s' sys_inv_def)
  moreover have "queued_rec (s_rec s') i" if "i \<in># open_ids s'" for i
    using that assms(2) unfolding o by (auto simp: s' sys_inv_def queued_rec_simps)
  ultimately show ?thesis using assms(2) p unfolding sys_inv_def by (simp add: s')
qed

lemma step_EvPush:
  assumes "sys_step cfg msg (EvPush t) s = Some s'" and "sys_inv cfg s"
  shows "sys_inv cfg s'"
proof -
  have t: "t \<in> set (s_tracked s)" using assms(1) by (auto split: if_splits)
  note m = mset_map_remove1[OF t, of t_ID]
  show ?thesis
  proof (cases "fst (Push (s_queue s) t)")
    case None
    then have s': "s' = s\<lparr>s_queue := (s_queue s)\<lparr>q_tasks := q_tasks (s_queue s) @ [t]\<rparr>,
          s_tracked := remove1 t (s_tracked s), s_accepted := t_ID t # s_accepted s\<rparr>"
      and "int (length (q_tasks (s_queue s))) < q_cap (s_queue s)"
      using assms(1) t by (auto simp: Push_def queue_Len_def split: if_splits)
    moreover have "pending s' = add_mset (t_ID t) (pending s)" "open_ids s' = open_ids s"
      using m by (simp_all add: s' pending_def open_ids_def)
    ultimately show ?thesis using assms(2) unfolding sys_inv_def by simp
  next
    case (Some er)
    then have s': "s' = s\<lparr>s_tracked := remove1 t (s_tracked s), s_rec := Forget (s_rec s) (t_ID t)\<rparr>"
      using assms(1) t by (auto simp: Push_def split: if_splits)
    have o: "open_ids s = add_mset (t_ID t) (open_ids s')" "pending s' = pending s"
      using m by (simp_all add: s' open_ids_def pending_def)
    have k: "ids_ok (add_mset (t_ID t) (open_ids s' + mset (s_applied s))) (set (s_used s))"
      using assms(2) by (simp add: sys_inv_def o)
    have "queued_rec (s_rec s') i" if "i \<in># open_ids s'" for i
      using that ids_ok_once[OF k] o(1) assms(2) by (auto simp: s' queued_rec_simps sys_inv_def)
    then show ?thesis using assms(2) o(2) ids_ok_drop[OF k] unfolding sys_inv_def by (simp add: s')
  qed
qed

lemma step_EvApply:
  assumes "sys_step cfg msg (EvApply now) s = Some s'" and "sys_inv cfg s"
  shows "sys_inv cfg s'"
proof -
  obtain r rs where r: "s_results s = r # rs"
    and s': "s' = s\<lparr>s_results := rs, s_rec := recorder_apply msg (s_rec s) r now, s_applied := res_TaskID r # s_applied s\<rparr>"
    using assms(1) by (auto split: list.splits)
  have o: "open_ids s = add_mset (res_TaskID r) (open_ids s')" and p: "pending s = add_mset (res_TaskID r) (pending s')"
    using r by (simp_all add: s' open_ids_def pending_def)
  have k: "ids_ok (add_mset (res_TaskID r) (open_ids s' + mset (s_applied s))) (set (s_used s))"
    using assms(2) by (simp add: sys_inv_def o)
  have q: "queued_rec (s_rec s') i" if "i \<in># open_ids s'" for i
  proof -
    have "queued_rec (s_rec s) i" using assms(2) that o by (auto simp: sys_inv_def)
    moreover have "i \<noteq> res_TaskID r" using that ids_ok_once[OF k] by auto
    ultimately show ?thesis by (simp add: s' queued_rec_apply)
  qed
  have f: "s_applied s' = res_TaskID r # s_applied s" "s_used s' = s_used s" "s_accepted s' = s_accepted s"
    "bounds_ok cfg s'" using sys_inv_bounds[OF assms(2)] r by (simp_all add: s' bounds_ok_def)
  show ?thesis using assms(2) p q k f unfolding sys_inv_def bounds_ok_def by simp
qed

lemma step_move:
  assumes "sys_step cfg msg e s = Some s'" and "sys_inv cfg s"
    and "e = EvRecv \<or> e = EvSpawn \<or> e = EvClose \<or> (\<exists>t ctx0 env. e = EvDeliver t ctx0 env) \<or> (\<exists>now. e = EvEvict now)"
  shows "sys_inv cfg s'"
proof (rule sys_inv_move[OF assms(2)])
  note b = sys_inv_bounds[OF assms(2)]
  have m: "mset (map t_ID (s_active s)) = add_mset (t_ID t) (mset (map t_ID (remove1 t (s_active s))))" if "t \<in> set (s_active s)" for t
    by (rule mset_map_remove1[OF that])
  show "pending s' = pending s"
    using assms(1,3) m by (auto simp: pending_def queue_recv_def queue_Close_def dest!: deliver_TaskID
        split: if_splits option.splits list.splits)
  show "s_tracked s' = s_tracked s" "s_accepted s' = s_accepted s" "s_applied s' = s_applied s" "s_used s' = s_used s"
    "queued_rec (s_rec s') i = queued_rec (s_rec s) i" for i
    using assms(1,3) by (auto simp: queue_recv_def queued_rec_simps split: if_splits option.splits list.splits)
  show "bounds_ok cfg s'"
    using assms(1,3) b by (auto simp: bounds_ok_def queue_recv_def queue_Close_def length_remove1
        split: if_splits option.splits list.splits)
qed

lemma sys_step_inv:
  assumes "sys_step cfg msg e s = Some s'" and "sys_inv cfg s"
  shows "sys_inv cfg s'"
proof (cases e)
  case (EvTrack t now) then show ?thesis using assms step_EvTrack by blast
next
  case (EvPush t) then show ?thesis using assms step_EvPush by blast
next
  case (EvApply now) then show ?thesis using assms step_EvApply by blast
qed (use step_move[OF assms] in auto)

lemma sys_steps_inv: "sys_steps cfg msg s es s' \<Longrightarrow> sys_inv cfg s \<Longrightarrow> sys_inv cfg s'"
  by (induction rule: sys_steps.induct) (auto dest: sys_step_inv)

lemma sys_init_inv: "NewQueue limit n = Some q \<Longrightarrow> 0 \<le> Workers cfg \<Longrightarrow> sys_inv cfg (sys_init q retention)"
  by (auto simp: NewQueue_def makeable_def sys_init_def sys_inv_def pending_def open_ids_def ids_ok_empty split: if_splits)

section \<open>Recorded results\<close>

lemma deliver_not_queued: "deliver cfg ctx0 env t = Some r \<Longrightarrow> res_Status r \<noteq> StatusQueued"
  using deliverLoop_result[of cfg env "t_ID t" "nat (MaxAttempts cfg)" 0 None]
  by (auto simp: deliver_def ends_at_def split: option.splits if_splits)

definition final_inv :: "sys \<Rightarrow> bool" where
  "final_inv s \<longleftrightarrow> (\<forall>r\<in>set (s_results s). res_Status r \<noteq> StatusQueued) \<and> (\<forall>i\<in>set (s_applied s). \<not> queued_rec (s_rec s) i)"

lemma not_queued_apply:
  "res_Status r \<noteq> StatusQueued \<Longrightarrow> queued_rec (recorder_apply msg rd r now) i \<Longrightarrow> queued_rec rd i \<and> i \<noteq> res_TaskID r"
  by (auto simp: queued_rec_def recorder_apply_def recorder_Get_def Let_def split: option.splits if_splits)

lemma applied_used: "sys_inv cfg s \<Longrightarrow> i \<in> set (s_applied s) \<Longrightarrow> i \<in> set (s_used s)"
proof -
  assume a: "sys_inv cfg s" "i \<in> set (s_applied s)"
  then have "count (open_ids s + mset (s_applied s)) i \<le> (if i \<in> set (s_used s) then 1 else 0)"
    by (simp add: sys_inv_def ids_ok_def)
  moreover have "0 < count (mset (s_applied s)) i" using a(2) by simp
  ultimately show ?thesis by (auto split: if_splits)
qed

lemma sys_step_final:
  assumes "sys_step cfg msg e s = Some s'" and "sys_inv cfg s" and "final_inv s"
  shows "final_inv s'"
proof (cases e)
  case (EvTrack t now)
  then show ?thesis using assms applied_used[OF assms(2), of "t_ID t"]
    by (auto simp: final_inv_def queued_rec_simps split: if_splits)
next
  case (EvPush t)
  then show ?thesis using assms
    by (auto simp: final_inv_def queued_rec_simps split: if_splits prod.splits option.splits)
next
  case (EvApply now)
  then obtain r rs where "s_results s = r # rs"
    "s' = s\<lparr>s_results := rs, s_rec := recorder_apply msg (s_rec s) r now, s_applied := res_TaskID r # s_applied s\<rparr>"
    using assms(1) by (auto split: list.splits)
  then show ?thesis using assms(3) by (auto simp: final_inv_def dest: not_queued_apply)
qed (use assms in \<open>auto simp: final_inv_def queued_rec_simps split: if_splits option.splits dest: deliver_not_queued\<close>)

lemma sys_steps_final: "sys_steps cfg msg s es s' \<Longrightarrow> sys_inv cfg s \<Longrightarrow> final_inv s \<Longrightarrow> final_inv s'"
  by (induction rule: sys_steps.induct) (auto dest: sys_step_inv sys_step_final)

section \<open>Draining\<close>

text \<open>The events of the pool and of the recorder's receive, and how far the service is from having
  recorded everything it accepted.\<close>

fun pool_event :: "sys_event \<Rightarrow> bool" where
  "pool_event EvRecv = True"
| "pool_event EvSpawn = True"
| "pool_event (EvDeliver t ctx0 env) = True"
| "pool_event (EvApply now) = True"
| "pool_event _ = False"

definition distance :: "sys \<Rightarrow> nat" where
  "distance s = 4 * length (q_tasks (s_queue s)) + (if s_picked s = None then 0 else 3)
     + 2 * length (s_active s) + length (s_results s)"

lemma pool_event_progress:
  assumes "pool_event e" and "sys_step cfg msg e s = Some s'"
  shows "distance s' < distance s"
proof (cases e)
  case (EvDeliver t ctx0 env)
  then have "t \<in> set (s_active s)" using assms(2) by (auto split: if_splits)
  then obtain n where "length (s_active s) = Suc n" by (cases "s_active s") auto
  then show ?thesis using assms EvDeliver by (auto simp: distance_def length_remove1 split: if_splits option.splits)
qed (use assms in \<open>auto simp: distance_def queue_recv_def split: if_splits option.splits list.splits\<close>)

lemma pool_run_length:
  "sys_steps cfg msg s es s' \<Longrightarrow> list_all pool_event es \<Longrightarrow> length es + distance s' \<le> distance s"
  by (induction rule: sys_steps.induct) (auto dest: pool_event_progress)

text \<open>While something is pending, one of the goroutines can go on.\<close>

lemma pool_not_stuck:
  assumes "1 \<le> Workers cfg" and "bounds_ok cfg s" and "pending s \<noteq> {#}"
  shows "\<exists>e. pool_event e \<and> sys_step cfg msg e s \<noteq> None"
proof (cases "s_results s")
  case (Cons r rs)
  then show ?thesis by (intro exI[of _ "EvApply 0"]) simp
next
  case nil: Nil
  show ?thesis
  proof (cases "s_active s")
    case (Cons t ts)
    obtain r where "deliver cfg None (\<lambda>_. undefined) t = Some r" using deliver_total by blast
    then show ?thesis using nil Cons assms(1) by (intro exI[of _ "EvDeliver t None (\<lambda>_. undefined)"]) simp
  next
    case Nil
    show ?thesis
    proof (cases "s_picked s")
      case (Some t)
      then show ?thesis using Nil assms(1) by (intro exI[of _ EvSpawn]) simp
    next
      case None
      then have "q_tasks (s_queue s) \<noteq> []" using nil Nil assms(3) by (auto simp: pending_def)
      then show ?thesis using None by (intro exI[of _ EvRecv]) (auto simp: queue_recv_def neq_Nil_conv)
    qed
  qed
qed

section \<open>Properties\<close>

text \<open>(C5) Exactly once: in every execution of the service, with any interleaving of requests, workers,
  recorder and shutdown, an accepted delivery is either pending (queued, picked, being delivered
  or waiting to be recorded) or recorded, and never both nor twice. Its status reads queued exactly
  as long as it is pending, so eviction never drops it before its result. The queue and the workers
  stay within their limits.\<close>

theorem accepted_deliveries_accounted:
  assumes "NewQueue limit n = Some q" and "0 \<le> Workers cfg"
    and "sys_steps cfg msg (sys_init q retention) es s"
  shows "mset (s_accepted s) = pending s + mset (s_applied s) \<and> distinct (s_accepted s)
    \<and> (\<forall>i\<in>set (s_accepted s). queued_rec (s_rec s) i \<longleftrightarrow> i \<in># pending s)
    \<and> int (length (q_tasks (s_queue s))) \<le> q_cap (s_queue s) \<and> int (length (s_active s)) \<le> Workers cfg"
proof -
  have i: "sys_inv cfg s" by (rule sys_steps_inv[OF assms(3) sys_init_inv[OF assms(1,2)]])
  have f: "final_inv s"
    by (rule sys_steps_final[OF assms(3) sys_init_inv[OF assms(1,2)]]) (simp add: final_inv_def sys_init_def)
  have m: "mset (s_accepted s) = pending s + mset (s_applied s)" using i by (simp add: sys_inv_def)
  have "count (mset (s_accepted s)) x \<le> 1" for x
  proof -
    have "count (mset (s_accepted s)) x \<le> count (open_ids s + mset (s_applied s)) x" unfolding m open_ids_def by simp
    also have "\<dots> \<le> (if x \<in> set (s_used s) then 1 else 0)" using i unfolding sys_inv_def ids_ok_def by blast
    also have "\<dots> \<le> 1" by simp
    finally show ?thesis .
  qed
  then have d: "distinct (s_accepted s)" by (rule distinct_count_le1)
  have "queued_rec (s_rec s) k" if "k \<in># pending s" for k using i that by (auto simp: sys_inv_def open_ids_def)
  moreover have "\<not> queued_rec (s_rec s) k" if "k \<in> set (s_applied s)" for k using f that by (auto simp: final_inv_def)
  moreover have "k \<in># pending s \<or> k \<in> set (s_applied s)" if "k \<in> set (s_accepted s)" for k
    using that m[THEN arg_cong[of _ _ set_mset]] by auto
  ultimately have "\<forall>i\<in>set (s_accepted s). queued_rec (s_rec s) i \<longleftrightarrow> i \<in># pending s" by blast
  then show ?thesis using m d sys_inv_bounds[OF i] unfolding bounds_ok_def by simp
qed

definition demo_task :: Task where
  "demo_task = \<lparr>t_ID = ''a'', t_URL = ''u'', t_Payload = ''p''\<rparr>"

definition demo_queue :: Queue where
  "demo_queue = \<lparr>q_closed = False, q_tasks = [], q_cap = 1\<rparr>"

lemma delivery_demo_run:
  "\<exists>s. sys_steps demo_cfg (\<lambda>e. []) (sys_init demo_queue 10) [EvTrack demo_task 0, EvPush demo_task, EvRecv] s
    \<and> s_accepted s = [''a''] \<and> s_picked s = Some demo_task \<and> distance s = 3"
  by (rule exI, rule conjI, (rule sys_steps.step,
        simp add: sys_init_def demo_queue_def demo_task_def Track_def Push_def queue_Len_def queue_recv_def Let_def, simp?)+, rule sys_steps.nil)
    (simp add: demo_task_def distance_def)

theorem accepted_deliveries_accounted_witness:
  "\<exists>s. sys_steps demo_cfg (\<lambda>e. []) (sys_init demo_queue 10) [EvTrack demo_task 0, EvPush demo_task, EvRecv] s
    \<and> s_accepted s = [''a''] \<and> queued_rec (s_rec s) ''a''"
proof -
  obtain s where r: "sys_steps demo_cfg (\<lambda>e. []) (sys_init demo_queue 10) [EvTrack demo_task 0, EvPush demo_task, EvRecv] s"
    and a: "s_accepted s = [''a'']" "s_picked s = Some demo_task" using delivery_demo_run by blast
  have q: "NewQueue 1 1 = Some demo_queue" by (simp add: NewQueue_def makeable_def demo_queue_def)
  have "''a'' \<in># pending s" using a(2) by (simp add: pending_def demo_task_def)
  then have "queued_rec (s_rec s) ''a''"
    using accepted_deliveries_accounted[OF q _ r] a(1) by (simp add: demo_cfg_def)
  then show ?thesis using r a(1) by blast
qed

text \<open>The pool drains: whatever order its goroutines run in, they take at most \<open>distance\<close> steps, at no point are
  they all blocked while something is pending, and when none can go on, every accepted delivery has
  been recorded.\<close>

theorem pool_drains:
  assumes "NewQueue limit n = Some q" and "1 \<le> Workers cfg"
    and "sys_steps cfg msg (sys_init q retention) es s"
    and "sys_steps cfg msg s fs s'" and "list_all pool_event fs"
  shows "length fs \<le> distance s
    \<and> ((\<forall>e. pool_event e \<longrightarrow> sys_step cfg msg e s' = None) \<longrightarrow> mset (s_applied s') = mset (s_accepted s'))"
proof -
  have "sys_inv cfg (sys_init q retention)" by (rule sys_init_inv[OF assms(1)]) (use assms(2) in linarith)
  then have i: "sys_inv cfg s'" by (rule sys_steps_inv[OF assms(4) sys_steps_inv[OF assms(3)]])
  have m: "mset (s_accepted s') = pending s' + mset (s_applied s')" and b: "bounds_ok cfg s'"
    using i unfolding sys_inv_def bounds_ok_def by blast+
  have "pending s' = {#}" if "\<forall>e. pool_event e \<longrightarrow> sys_step cfg msg e s' = None"
  proof (rule ccontr)
    assume "pending s' \<noteq> {#}"
    from pool_not_stuck[OF assms(2) b this, of msg] obtain e where "pool_event e" "sys_step cfg msg e s' \<noteq> None" by blast
    then show False using that by simp
  qed
  then have "mset (s_applied s') = mset (s_accepted s')" if "\<forall>e. pool_event e \<longrightarrow> sys_step cfg msg e s' = None"
    unfolding m using that by simp
  moreover have "length fs \<le> distance s" using pool_run_length[OF assms(4,5)] by linarith
  ultimately show ?thesis by blast
qed

theorem pool_drains_witness:
  "\<exists>s. sys_steps demo_cfg (\<lambda>e. []) (sys_init demo_queue 10) [EvTrack demo_task 0, EvPush demo_task, EvRecv] s
    \<and> (\<forall>fs s'. sys_steps demo_cfg (\<lambda>e. []) s fs s' \<and> list_all pool_event fs \<longrightarrow> length fs \<le> 3)"
proof -
  obtain s where r: "sys_steps demo_cfg (\<lambda>e. []) (sys_init demo_queue 10) [EvTrack demo_task 0, EvPush demo_task, EvRecv] s"
    and a: "distance s = 3" using delivery_demo_run by blast
  have q: "NewQueue 1 1 = Some demo_queue" by (simp add: NewQueue_def makeable_def demo_queue_def)
  have w: "1 \<le> Workers demo_cfg" by (simp add: demo_cfg_def)
  have "length fs \<le> 3" if "sys_steps demo_cfg (\<lambda>e. []) s fs s'" "list_all pool_event fs" for fs s'
    using pool_drains[OF q w r that] a by (elim conjE) simp
  then show ?thesis using r by blast
qed

text \<open>A request to create a delivery either stores a queued record and enqueues its task, or leaves the queue and
  all records as they were.\<close>

theorem create_all_or_nothing:
  assumes "create Push Track Forget parse k now b q r = (reply, q', r')" and "recorder_Get r k = None"
  shows "(\<exists>rc t. reply = Accepted (''/deliveries/'' @ k) rc \<and> recorder_Get r' k = Some rc \<and> rc_Status rc = StatusQueued
      \<and> q_tasks q' = q_tasks q @ [t] \<and> t_ID t = k \<and> (\<forall>i. i \<noteq> k \<longrightarrow> recorder_Get r' i = recorder_Get r i))
    \<or> (\<exists>code ra m. reply = ApiError code ra m \<and> q' = q \<and> (\<forall>i. recorder_Get r' i = recorder_Get r i))"
proof (cases reply)
  case (Accepted loc rc)
  then show ?thesis using rec_api.create_accepted[OF assms(1)[unfolded Accepted]] by blast
next
  case (ApiError code ra m)
  then show ?thesis using rec_api.create_refused[OF assms(1)[unfolded ApiError] assms(2)] by blast
next
  case (Found rc)
  then show ?thesis using assms(1)
    by (cases rule: create_shape[of Push Track Forget parse k now b q r])
      (auto simp: rejectPush_def split: prod.splits option.splits push_error.splits)
qed

theorem create_all_or_nothing_witness:
  "\<exists>rc q' r'. create Push Track Forget (\<lambda>u. Some (''http'', ''h'')) ''k'' 5 (Decoded \<lparr>cr_URL = ''u'', cr_Payload = ''1''\<rparr>)
      demo_queue (NewRecorder 10) = (Accepted ''/deliveries/k'' rc, q', r')
    \<and> recorder_Get r' ''k'' = Some rc \<and> length (q_tasks q') = 1"
proof -
  obtain reply q' r' where c: "create Push Track Forget (\<lambda>u. Some (''http'', ''h'')) ''k'' 5 (Decoded \<lparr>cr_URL = ''u'', cr_Payload = ''1''\<rparr>)
      demo_queue (NewRecorder 10) = (reply, q', r')" by (metis prod_cases3)
  moreover have "fst (create Push Track Forget (\<lambda>u. Some (''http'', ''h'')) ''k'' 5 (Decoded \<lparr>cr_URL = ''u'', cr_Payload = ''1''\<rparr>)
      demo_queue (NewRecorder 10)) \<noteq> ApiError code ra m" for code ra m
    by (simp add: create_def api_validate_def Track_def Push_def demo_queue_def queue_Len_def Let_def)
  moreover have "recorder_Get (NewRecorder 10) ''k'' = None" by (simp add: recorder_Get_def NewRecorder_def)
  ultimately show ?thesis
    using create_all_or_nothing[OF c] by (auto simp: demo_queue_def)
qed

end
