(* ===== verification/Inventory.thy ===== *)
theory Inventory
  imports Go_Prelude "HOL-Library.Multiset" "HOL-Library.List_Lexorder" "HOL-Library.Char_ord"
begin

text \<open>
  The inventory of app 08 (\<^verbatim>\<open>internal/inventory/store.go\<close>): stock levels, reservations and their
  repetition.

  Maps are HOL maps; the order in which \<open>range\<close> visits a map is an argument of \<open>List\<close>. Strings
  are ordered by their bytes, as \<open>strings.Compare\<close> orders them. An error is its sentinel; the
  text around it is left out. The context is its error when the store's lock is held.
\<close>

section \<open>Data\<close>

datatype inv_error =
    ErrNotFound
  | ErrInsufficientStock
  | ErrReservationConflict
  | ErrInvalidReservation
  | InvCtx ctx_error

datatype new_error = EmptySku | NegativeStock string | DuplicateSku string

record Item =
  SKU :: string
  Name :: string
  Available :: int
  Reserved :: int

record Line =
  l_SKU :: string
  Quantity :: int

record Reservation =
  r_ID :: string
  r_Lines :: "Line list"
  r_CreatedAt :: gotime

record Filter =
  SKUPrefix :: string
  InStockOnly :: bool
  f_Limit :: int

record Store =
  items :: "string \<rightharpoonup> Item"
  reservations :: "string \<rightharpoonup> Reservation"

section \<open>Operations\<close>

fun newItems :: "(string \<rightharpoonup> Item) \<Rightarrow> Item list \<Rightarrow> new_error + (string \<rightharpoonup> Item)" where
  "newItems bySKU [] = Inr bySKU"
| "newItems bySKU (item # its) =
     (if SKU item = [] then Inl EmptySku
      else if Available item < 0 \<or> Reserved item < 0 then Inl (NegativeStock (SKU item))
      else if bySKU (SKU item) \<noteq> None then Inl (DuplicateSku (SKU item))
      else newItems (bySKU(SKU item \<mapsto> item)) its)"

definition NewStore :: "Item list \<Rightarrow> new_error + Store" where
  "NewStore its =
     (case newItems Map.empty its of
        Inl e \<Rightarrow> Inl e
      | Inr bySKU \<Rightarrow> Inr \<lparr>items = bySKU, reservations = Map.empty\<rparr>)"

definition inv_Get :: "Store \<Rightarrow> ctx_error option \<Rightarrow> string \<Rightarrow> inv_error + Item" where
  "inv_Get s ctx sku =
     (case ctx of
        Some e \<Rightarrow> Inl (InvCtx e)
      | None \<Rightarrow> (case items s sku of None \<Rightarrow> Inl ErrNotFound | Some item \<Rightarrow> Inr item))"

definition hasPrefix :: "string \<Rightarrow> string \<Rightarrow> bool" where
  "hasPrefix s pre \<longleftrightarrow> take (length pre) s = pre"

text \<open>The filter of \<open>List\<close>; an item is kept unless one of the two tests skips it.\<close>

definition listed :: "Filter \<Rightarrow> Item \<Rightarrow> bool" where
  "listed f item \<longleftrightarrow> hasPrefix (SKU item) (SKUPrefix f) \<and> \<not> (InStockOnly f \<and> Available item = 0)"

definition inv_List :: "Store \<Rightarrow> string list \<Rightarrow> ctx_error option \<Rightarrow> Filter \<Rightarrow> inv_error + Item list" where
  "inv_List s order ctx f =
     (case ctx of
        Some e \<Rightarrow> Inl (InvCtx e)
      | None \<Rightarrow>
          let found = sort_key SKU (filter (listed f) (List.map_filter (items s) order))
          in Inr (if 0 < f_Limit f then take (nat (min (f_Limit f) (int (length found)))) found else found))"

fun checkSorted :: "string option \<Rightarrow> Line list \<Rightarrow> bool" where
  "checkSorted prev [] = True"
| "checkSorted prev (line # ls) =
     (if l_SKU line = [] then False
      else if Quantity line \<le> 0 then False
      else if prev = Some (l_SKU line) then False
      else checkSorted (Some (l_SKU line)) ls)"

definition normalize :: "string \<Rightarrow> Line list \<Rightarrow> inv_error + Line list" where
  "normalize i lines =
     (if i = [] then Inl ErrInvalidReservation
      else if 128 < length i then Inl ErrInvalidReservation
      else if length lines = 0 then Inl ErrInvalidReservation
      else if 100 < length lines then Inl ErrInvalidReservation
      else let sorted = sort_key l_SKU lines
           in if checkSorted None sorted then Inr sorted else Inl ErrInvalidReservation)"

fun checkLines :: "(string \<rightharpoonup> Item) \<Rightarrow> Line list \<Rightarrow> inv_error option" where
  "checkLines its [] = None"
| "checkLines its (line # ls) =
     (case its (l_SKU line) of
        None \<Rightarrow> Some ErrNotFound
      | Some item \<Rightarrow> if Available item < Quantity line then Some ErrInsufficientStock else checkLines its ls)"

definition zero_item :: Item where
  "zero_item = \<lparr>SKU = [], Name = [], Available = 0, Reserved = 0\<rparr>"

definition moveLine :: "Line \<Rightarrow> (string \<rightharpoonup> Item) \<Rightarrow> (string \<rightharpoonup> Item)" where
  "moveLine line its =
     (let item = (case its (l_SKU line) of None \<Rightarrow> zero_item | Some item \<Rightarrow> item)
      in its(l_SKU line \<mapsto> item\<lparr>Available := wrap64 (Available item - Quantity line),
                               Reserved := wrap64 (Reserved item + Quantity line)\<rparr>))"

definition Reserve :: "Store \<Rightarrow> ctx_error option \<Rightarrow> string \<Rightarrow> Line list \<Rightarrow> gotime \<Rightarrow> (inv_error + Reservation) \<times> Store" where
  "Reserve s ctx i ls now =
     (case normalize i ls of
        Inl e \<Rightarrow> (Inl e, s)
      | Inr lines \<Rightarrow>
          (case ctx of
             Some e \<Rightarrow> (Inl (InvCtx e), s)
           | None \<Rightarrow>
               (case reservations s i of
                  Some existing \<Rightarrow>
                    if r_Lines existing \<noteq> lines then (Inl ErrReservationConflict, s) else (Inr existing, s)
                | None \<Rightarrow>
                    (case checkLines (items s) lines of
                       Some e \<Rightarrow> (Inl e, s)
                     | None \<Rightarrow>
                         let r = \<lparr>r_ID = i, r_Lines = lines, r_CreatedAt = now\<rparr>
                         in (Inr r, s\<lparr>items := fold moveLine lines (items s),
                                      reservations := (reservations s)(i \<mapsto> r)\<rparr>)))))"

section \<open>Normalized lines\<close>

definition qty :: "Line list \<Rightarrow> string \<Rightarrow> int" where
  "qty ls sku = sum_list (map Quantity (filter (\<lambda>l. l_SKU l = sku) ls))"

lemma checkSorted_props:
  "checkSorted prev ls \<Longrightarrow> sorted (map l_SKU ls) \<Longrightarrow> (\<forall>p l. prev = Some p \<longrightarrow> l \<in> set ls \<longrightarrow> p \<le> l_SKU l)
    \<Longrightarrow> distinct (map l_SKU ls) \<and> (\<forall>l\<in>set ls. 0 < Quantity l \<and> l_SKU l \<noteq> []) \<and> (\<forall>p. prev = Some p \<longrightarrow> p \<notin> l_SKU ` set ls)"
proof (induction prev ls rule: checkSorted.induct)
  case (2 prev line ls)
  have c: "checkSorted (Some (l_SKU line)) ls" "l_SKU line \<noteq> []" "0 < Quantity line" "prev \<noteq> Some (l_SKU line)"
    using "2.prems"(1) by (simp_all split: if_splits)
  have ge: "\<forall>l\<in>set ls. l_SKU line \<le> l_SKU l" using "2.prems"(2) by auto
  have ih: "distinct (map l_SKU ls)" "\<forall>l\<in>set ls. 0 < Quantity l \<and> l_SKU l \<noteq> []" "l_SKU line \<notin> l_SKU ` set ls"
    using "2.IH" c "2.prems"(2) ge by auto
  have "p \<notin> l_SKU ` set (line # ls)" if "prev = Some p" for p
  proof -
    have "p < l_SKU line" using that c(4) "2.prems"(3) by force
    then show ?thesis using ge by auto
  qed
  then show ?case using ih c by auto
qed simp

lemma normalize_Inr:
  assumes "normalize i ls = Inr lines"
  shows "lines = sort_key l_SKU ls" and "distinct (map l_SKU lines)" and "\<forall>l\<in>set lines. 0 < Quantity l \<and> l_SKU l \<noteq> []"
proof -
  have "lines = sort_key l_SKU ls \<and> checkSorted None lines"
    using assms by (auto simp: normalize_def Let_def split: if_splits)
  then show "lines = sort_key l_SKU ls" "distinct (map l_SKU lines)" "\<forall>l\<in>set lines. 0 < Quantity l \<and> l_SKU l \<noteq> []"
    using checkSorted_props[of None lines] by auto
qed

text \<open>The normal form does not depend on the order of the request's lines.\<close>

lemma normalize_perm:
  assumes "mset ls = mset ls'" and "normalize i ls = Inr lines"
  shows "normalize i ls' = Inr lines"
proof -
  note n = normalize_Inr[OF assms(2)]
  have "inj_on l_SKU (set ls')"
    using n(1,2) assms(1) by (metis distinct_map mset_eq_setD set_sort)
  then have "sort_key l_SKU ls' = lines"
    using n(1) assms(1) by (intro sort_key_inj_key_eq) simp_all
  moreover have "length ls = length ls'" using assms(1) by (rule mset_eq_length)
  ultimately show ?thesis using assms(2) n(1) by (auto simp: normalize_def Let_def split: if_splits)
qed

section \<open>Moving stock\<close>

lemma checkLines_None:
  "checkLines its ls = None \<Longrightarrow> l \<in> set ls \<Longrightarrow> \<exists>item. its (l_SKU l) = Some item \<and> Quantity l \<le> Available item"
  by (induction its ls rule: checkLines.induct) (auto split: option.splits if_splits)

lemma moveLine_other: "sku \<noteq> l_SKU l \<Longrightarrow> moveLine l its sku = its sku"
  by (simp add: moveLine_def Let_def)

lemma moveLine_same:
  "its (l_SKU l) = Some item \<Longrightarrow> in64 (Available item - Quantity l) \<Longrightarrow>
    moveLine l its (l_SKU l) = Some (item\<lparr>Available := Available item - Quantity l, Reserved := wrap64 (Reserved item + Quantity l)\<rparr>)"
  by (simp add: moveLine_def Let_def wrap64_id)

lemma fold_moveLine_other: "sku \<notin> l_SKU ` set ls \<Longrightarrow> fold moveLine ls its sku = its sku"
  by (induction ls arbitrary: its) (auto simp: moveLine_other)

lemma qty_notin: "sku \<notin> l_SKU ` set ls \<Longrightarrow> qty ls sku = 0"
  by (induction ls) (auto simp: qty_def)

text \<open>What the second loop of \<open>Reserve\<close> does to one item, when the lines name different items.\<close>

lemma fold_moveLine:
  assumes "distinct (map l_SKU ls)" and "its sku = Some item" and "in64 (Reserved item)"
    and "\<forall>l\<in>set ls. l_SKU l = sku \<longrightarrow> in64 (Available item - Quantity l)"
  shows "fold moveLine ls its sku
    = Some (item\<lparr>Available := Available item - qty ls sku, Reserved := wrap64 (Reserved item + qty ls sku)\<rparr>)"
  using assms
proof (induction ls arbitrary: its)
  case (Cons l ls)
  show ?case
  proof (cases "l_SKU l = sku")
    case True
    then have n: "sku \<notin> l_SKU ` set ls" using Cons.prems(1) by auto
    have "qty (l # ls) sku = Quantity l" using True qty_notin[OF n] by (simp add: qty_def)
    then show ?thesis using Cons.prems True fold_moveLine_other[OF n] moveLine_same[of its l item] by simp
  next
    case False
    then show ?thesis using Cons by (simp add: moveLine_other qty_def)
  qed
qed (simp add: qty_def wrap64_id)

lemma fold_moveLine_None:
  "\<forall>l\<in>set ls. its (l_SKU l) \<noteq> None \<Longrightarrow> (fold moveLine ls its sku = None) = (its sku = None)"
proof (induction ls arbitrary: its)
  case (Cons l ls)
  have "\<forall>k\<in>set ls. moveLine l its (l_SKU k) \<noteq> None" using Cons.prems by (auto simp: moveLine_def Let_def)
  then show ?case using Cons by (auto simp: moveLine_def Let_def)
qed simp

lemma qty_nonneg: "\<forall>l\<in>set ls. 0 < Quantity l \<Longrightarrow> 0 \<le> qty ls sku"
  by (induction ls) (auto simp: qty_def)

lemma qty_le_available:
  assumes "checkLines its ls = None" and "distinct (map l_SKU ls)" and "its sku = Some item" and "0 \<le> Available item"
  shows "qty ls sku \<le> Available item"
proof (cases "sku \<in> l_SKU ` set ls")
  case True
  then obtain l where l: "l \<in> set ls" "l_SKU l = sku" by auto
  then have "filter (\<lambda>k. l_SKU k = sku) ls = [l]"
    using assms(2) by (induction ls) (auto simp: filter_empty_conv image_iff)
  then show ?thesis using checkLines_None[OF assms(1) l(1)] l(2) assms(3) by (auto simp: qty_def)
qed (use assms(4) qty_notin in simp)

section \<open>The books balance\<close>

text \<open>The quantity of an item held by the committed reservations.\<close>

definition held :: "Store \<Rightarrow> string \<Rightarrow> int" where
  "held s sku = (\<Sum>i\<in>dom (reservations s). qty (r_Lines (the (reservations s i))) sku)"

text \<open>Relative to the items at the start: nothing appears or disappears, what is no longer available is what the
  reservations hold, no more was taken than there was, and the reserved level counts the reservations, modulo \<open>2 ^ 64\<close>.\<close>

definition tallied :: "(string \<rightharpoonup> Item) \<Rightarrow> Store \<Rightarrow> bool" where
  "tallied its0 s \<longleftrightarrow> finite (dom (reservations s)) \<and> dom (items s) = dom its0
     \<and> (\<forall>i r. reservations s i = Some r \<longrightarrow> r_ID r = i \<and> (\<forall>l\<in>set (r_Lines r). 0 < Quantity l))
     \<and> (\<forall>sku item0. its0 sku = Some item0 \<longrightarrow>
          (\<exists>item. items s sku = Some item \<and> SKU item = SKU item0 \<and> Name item = Name item0
             \<and> 0 \<le> Available item \<and> Available item + held s sku = Available item0
             \<and> Reserved item = wrap64 (Reserved item0 + held s sku)))"

text \<open>The levels are of type \<open>int64\<close> and not negative.\<close>

definition typed_items :: "(string \<rightharpoonup> Item) \<Rightarrow> bool" where
  "typed_items its \<longleftrightarrow> (\<forall>sku item. its sku = Some item \<longrightarrow> 0 \<le> Available item \<and> in64 (Available item)
     \<and> 0 \<le> Reserved item \<and> in64 (Reserved item) \<and> SKU item = sku)"

text \<open>The same when the two levels of every item fit together in an \<open>int64\<close>: then nothing wraps, no level is
  negative and the books balance.\<close>

definition balanced :: "(string \<rightharpoonup> Item) \<Rightarrow> Store \<Rightarrow> bool" where
  "balanced its0 s \<longleftrightarrow> finite (dom (reservations s)) \<and> dom (items s) = dom its0
     \<and> (\<forall>i r. reservations s i = Some r \<longrightarrow> r_ID r = i \<and> (\<forall>l\<in>set (r_Lines r). 0 < Quantity l))
     \<and> (\<forall>sku item0. its0 sku = Some item0 \<longrightarrow>
          (\<exists>item. items s sku = Some item \<and> SKU item = SKU item0 \<and> Name item = Name item0
             \<and> 0 \<le> Available item \<and> Available item + Reserved item = Available item0 + Reserved item0
             \<and> Reserved item = Reserved item0 + held s sku))"

definition good_items :: "(string \<rightharpoonup> Item) \<Rightarrow> bool" where
  "good_items its \<longleftrightarrow> (\<forall>sku item. its sku = Some item \<longrightarrow> 0 \<le> Available item \<and> 0 \<le> Reserved item
     \<and> in64 (Available item + Reserved item) \<and> SKU item = sku)"

lemma good_items_typed: "good_items its \<Longrightarrow> typed_items its"
  unfolding good_items_def typed_items_def in64_iff by force

lemma held_nonneg:
  assumes "tallied its0 s" shows "0 \<le> held s sku"
  unfolding held_def
proof (rule sum_nonneg)
  fix i assume "i \<in> dom (reservations s)"
  then obtain r where "reservations s i = Some r" by auto
  then show "0 \<le> qty (r_Lines (the (reservations s i))) sku"
    using assms by (auto simp: tallied_def intro: qty_nonneg)
qed

lemma tallied_fits:
  assumes "tallied its0 s" and "its0 sku = Some item0" and "items s sku = Some item"
    and "0 \<le> Reserved item0" and "in64 (Available item0 + Reserved item0)"
  shows "Reserved item = Reserved item0 + held s sku"
proof -
  have a: "0 \<le> Available item" "Available item + held s sku = Available item0" "Reserved item = wrap64 (Reserved item0 + held s sku)"
    using assms(1-3) unfolding tallied_def by fastforce+
  have "in64 (Reserved item0 + held s sku)" using a(1,2) assms(4,5) held_nonneg[OF assms(1), of sku] unfolding in64_iff by linarith
  then show ?thesis using a(3) by (simp add: wrap64_id)
qed

lemma balanced_iff_tallied:
  assumes "good_items its0" shows "balanced its0 s \<longleftrightarrow> tallied its0 s"
proof
  assume b: "balanced its0 s"
  have "\<exists>item. items s sku = Some item \<and> SKU item = SKU item0 \<and> Name item = Name item0 \<and> 0 \<le> Available item
      \<and> Available item + held s sku = Available item0 \<and> Reserved item = wrap64 (Reserved item0 + held s sku)"
    if i0: "its0 sku = Some item0" for sku item0
  proof -
    obtain item where it: "items s sku = Some item" "SKU item = SKU item0" "Name item = Name item0" "0 \<le> Available item"
      "Available item + Reserved item = Available item0 + Reserved item0" "Reserved item = Reserved item0 + held s sku"
      using b i0 unfolding balanced_def by blast
    have h: "0 \<le> held s sku"
      unfolding held_def
      by (rule sum_nonneg) (use b in \<open>auto simp: balanced_def intro!: qty_nonneg\<close>)
    have "0 \<le> Reserved item0" "in64 (Available item0 + Reserved item0)" using assms i0 by (simp_all add: good_items_def)
    then have "in64 (Reserved item0 + held s sku)" using it(4,5,6) h unfolding in64_iff by linarith
    then show ?thesis using it by (simp add: wrap64_id)
  qed
  then show "tallied its0 s" using b unfolding balanced_def tallied_def by blast
next
  assume t: "tallied its0 s"
  have "\<exists>item. items s sku = Some item \<and> SKU item = SKU item0 \<and> Name item = Name item0 \<and> 0 \<le> Available item
      \<and> Available item + Reserved item = Available item0 + Reserved item0 \<and> Reserved item = Reserved item0 + held s sku"
    if i0: "its0 sku = Some item0" for sku item0
  proof -
    obtain item where it: "items s sku = Some item" "SKU item = SKU item0" "Name item = Name item0" "0 \<le> Available item"
      "Available item + held s sku = Available item0"
      using t i0 unfolding tallied_def by blast
    have "0 \<le> Reserved item0" "in64 (Available item0 + Reserved item0)" using assms i0 by (simp_all add: good_items_def)
    from tallied_fits[OF t i0 it(1) this] it show ?thesis by simp
  qed
  then show "balanced its0 s" using t unfolding balanced_def tallied_def by blast
qed

lemma held_new:
  assumes "finite (dom (reservations s))" and "reservations s i = None"
  shows "held (s\<lparr>items := its, reservations := (reservations s)(i \<mapsto> r)\<rparr>) sku = held s sku + qty (r_Lines r) sku"
proof -
  have "(\<Sum>j\<in>dom (reservations s). qty (r_Lines (the (((reservations s)(i \<mapsto> r)) j))) sku) = held s sku"
    unfolding held_def by (rule sum.cong) (use assms(2) in auto)
  moreover have "i \<notin> dom (reservations s)" using assms(2) by auto
  ultimately show ?thesis using assms(1) by (simp add: held_def)
qed

text \<open>A call either leaves the store alone or commits one new reservation whose lines were all available.\<close>

lemma Reserve_cases:
  obtains (same) "snd (Reserve s ctx i ls now) = s"
  | (commit) lines where "normalize i ls = Inr lines" "ctx = None" "reservations s i = None" "checkLines (items s) lines = None"
      "fst (Reserve s ctx i ls now) = Inr \<lparr>r_ID = i, r_Lines = lines, r_CreatedAt = now\<rparr>"
      "snd (Reserve s ctx i ls now) = s\<lparr>items := fold moveLine lines (items s),
         reservations := (reservations s)(i \<mapsto> \<lparr>r_ID = i, r_Lines = lines, r_CreatedAt = now\<rparr>)\<rparr>"
proof (cases "normalize i ls")
  case (Inr lines)
  show thesis
  proof (cases "ctx = None \<and> reservations s i = None \<and> checkLines (items s) lines = None")
    case True
    then show thesis using Inr by (intro commit[of lines]) (simp_all add: Reserve_def Let_def)
  next
    case False
    then show thesis using Inr by (intro same) (auto simp: Reserve_def Let_def split: option.splits)
  qed
qed (use same in \<open>simp add: Reserve_def\<close>)

lemma Reserve_tallied:
  assumes "tallied its0 s" and "typed_items its0"
  shows "tallied its0 (snd (Reserve s ctx i ls now))"
proof (cases rule: Reserve_cases[of s ctx i ls now])
  case (commit lines)
  note n = normalize_Inr[OF commit(1)]
  let ?s = "snd (Reserve s ctx i ls now)"
  have fin: "finite (dom (reservations s))" using assms(1) by (simp add: tallied_def)
  have some: "\<forall>l\<in>set lines. items s (l_SKU l) \<noteq> None" using checkLines_None[OF commit(4)] by force
  have "dom (items ?s) = dom (items s)"
    using fold_moveLine_None[OF some] unfolding commit(6) dom_def by simp
  then have d: "dom (items ?s) = dom its0" using assms(1) by (simp add: tallied_def)
  have step: "\<exists>item. items ?s sku = Some item \<and> SKU item = SKU item0 \<and> Name item = Name item0
      \<and> 0 \<le> Available item \<and> Available item + held ?s sku = Available item0
      \<and> Reserved item = wrap64 (Reserved item0 + held ?s sku)" if i0: "its0 sku = Some item0" for sku item0
  proof -
    obtain item where it: "items s sku = Some item" "SKU item = SKU item0" "Name item = Name item0" "0 \<le> Available item"
      "Available item + held s sku = Available item0" "Reserved item = wrap64 (Reserved item0 + held s sku)"
      using assms(1) i0 unfolding tallied_def by blast
    have "in64 (Available item)"
      using assms(2) i0 it(4,5) held_nonneg[OF assms(1), of sku] unfolding typed_items_def in64_iff by fastforce
    then have "in64 (Available item - Quantity l)" if "l \<in> set lines" "l_SKU l = sku" for l
      using checkLines_None[OF commit(4) that(1)] that n(3) it(1,4) by (auto simp: in64_iff)
    moreover have "in64 (Reserved item)" using it(6) by (simp add: wrap64_in64)
    ultimately have "items ?s sku
        = Some (item\<lparr>Available := Available item - qty lines sku, Reserved := wrap64 (Reserved item + qty lines sku)\<rparr>)"
      using fold_moveLine[where its = "items s" and ls = lines, OF n(2) it(1)] unfolding commit(6) by simp
    moreover have "held ?s sku = held s sku + qty lines sku"
      unfolding commit(6) using held_new[OF fin commit(3)] by simp
    ultimately show ?thesis using it qty_le_available[OF commit(4) n(2) it(1,4)] by (simp add: wrap64_wrap64 add.assoc)
  qed
  have r: "r_ID r = j \<and> (\<forall>l\<in>set (r_Lines r). 0 < Quantity l)" if "reservations ?s j = Some r" for j r
    using that assms(1) n(3) unfolding commit(6) by (auto simp: tallied_def split: if_splits)
  have "finite (dom (reservations ?s))" unfolding commit(6) using fin by simp
  then show ?thesis unfolding tallied_def using d step r by blast
qed (use assms in simp)

lemma Reserve_balanced: "balanced its0 s \<Longrightarrow> good_items its0 \<Longrightarrow> balanced its0 (snd (Reserve s ctx i ls now))"
  using Reserve_tallied good_items_typed by (simp add: balanced_iff_tallied)

section \<open>Histories\<close>

datatype reserve_call = Call "ctx_error option" string "Line list" gotime

fun reserve_run :: "Store \<Rightarrow> reserve_call list \<Rightarrow> Store" where
  "reserve_run s [] = s"
| "reserve_run s (Call ctx i ls now # cs) = reserve_run (snd (Reserve s ctx i ls now)) cs"

lemma reserve_run_tallied: "tallied its0 s \<Longrightarrow> typed_items its0 \<Longrightarrow> tallied its0 (reserve_run s cs)"
  by (induction s cs rule: reserve_run.induct) (simp_all add: Reserve_tallied)

lemma reserve_run_append: "reserve_run s (xs @ ys) = reserve_run (reserve_run s xs) ys"
  by (induction s xs rule: reserve_run.induct) simp_all

lemma Reserve_keeps: "reservations s i = Some r \<Longrightarrow> reservations (snd (Reserve s ctx j ls now)) i = Some r"
  by (cases rule: Reserve_cases[of s ctx j ls now]) auto

lemma reserve_run_keeps: "reservations s i = Some r \<Longrightarrow> reservations (reserve_run s cs) i = Some r"
  by (induction s cs rule: reserve_run.induct) (simp_all add: Reserve_keeps)

lemma Reserve_other: "j \<noteq> i \<Longrightarrow> reservations (snd (Reserve s ctx j ls now)) i = reservations s i"
  by (cases rule: Reserve_cases[of s ctx j ls now]) auto

lemma newItems_spec:
  "newItems m its = Inr m' \<Longrightarrow> m' = m ++ map_of (map (\<lambda>x. (SKU x, x)) its)
    \<and> (\<forall>x\<in>set its. 0 \<le> Available x \<and> 0 \<le> Reserved x \<and> SKU x \<noteq> [] \<and> m (SKU x) = None) \<and> distinct (map SKU its)"
proof (induction m its rule: newItems.induct)
  case (2 m item its)
  have c: "SKU item \<noteq> []" "\<not> (Available item < 0 \<or> Reserved item < 0)" "\<not> m (SKU item) \<noteq> None"
    and e: "newItems (m(SKU item \<mapsto> item)) its = Inr m'"
    using "2.prems" by (simp_all split: if_splits)
  have ih: "m' = m(SKU item \<mapsto> item) ++ map_of (map (\<lambda>x. (SKU x, x)) its)"
    "\<forall>x\<in>set its. 0 \<le> Available x \<and> 0 \<le> Reserved x \<and> SKU x \<noteq> [] \<and> (m(SKU item \<mapsto> item)) (SKU x) = None" "distinct (map SKU its)"
    using "2.IH"[OF c e] by blast+
  have n: "SKU item \<notin> SKU ` set its" using ih(2) by auto
  then have "map_of (map (\<lambda>x. (SKU x, x)) its) (SKU item) = None"
    by (auto simp: map_of_eq_None_iff image_iff)
  then have "m' = m ++ map_of (map (\<lambda>x. (SKU x, x)) (item # its))"
    unfolding ih(1) by (auto simp: map_add_def fun_eq_iff split: option.splits)
  moreover have "\<forall>x\<in>set (item # its). 0 \<le> Available x \<and> 0 \<le> Reserved x \<and> SKU x \<noteq> [] \<and> m (SKU x) = None"
    using ih(2) c by (auto split: if_splits)
  moreover have "distinct (map SKU (item # its))" using ih(3) n by simp
  ultimately show ?case by blast
qed simp

lemma NewStore_items:
  assumes "NewStore its = Inr s"
  shows "reservations s = Map.empty" and "x \<in> set its \<Longrightarrow> items s (SKU x) = Some x"
    and "items s sku = Some x \<Longrightarrow> x \<in> set its \<and> SKU x = sku \<and> 0 \<le> Available x \<and> 0 \<le> Reserved x"
proof -
  have n: "newItems Map.empty its = Inr (items s)" "reservations s = Map.empty"
    using assms(1) by (auto simp: NewStore_def split: sum.splits)
  note sp = newItems_spec[OF n(1)]
  have i: "items s = map_of (map (\<lambda>x. (SKU x, x)) its)" and d: "distinct (map SKU its)" using sp by simp_all
  have m: "items s sku = Some x \<Longrightarrow> x \<in> set its \<and> SKU x = sku" for sku x
    unfolding i by (auto dest: map_of_SomeD)
  then show "items s sku = Some x \<Longrightarrow> x \<in> set its \<and> SKU x = sku \<and> 0 \<le> Available x \<and> 0 \<le> Reserved x" using sp by blast
  show "reservations s = Map.empty" by (rule n(2))
  have "map fst (map (\<lambda>x. (SKU x, x)) its) = map SKU its" by simp
  then show "x \<in> set its \<Longrightarrow> items s (SKU x) = Some x"
    unfolding i using d by (intro map_of_is_SomeI) (auto simp: comp_def)
qed

lemma NewStore_spec:
  assumes "NewStore its = Inr s" and "\<forall>x\<in>set its. in64 (Available x + Reserved x)"
  shows "good_items (items s)" and "balanced (items s) s" and "x \<in> set its \<Longrightarrow> items s (SKU x) = Some x"
proof -
  show g: "good_items (items s)" unfolding good_items_def using NewStore_items(3)[OF assms(1)] assms(2) by blast
  then show "balanced (items s) s" using NewStore_items(1)[OF assms(1)] by (auto simp: balanced_def held_def good_items_def)
qed (rule NewStore_items(2)[OF assms(1)])

lemma NewStore_tallied:
  assumes "NewStore its = Inr s" and "\<forall>x\<in>set its. in64 (Available x) \<and> in64 (Reserved x)"
  shows "typed_items (items s)" and "tallied (items s) s"
proof -
  show t: "typed_items (items s)" unfolding typed_items_def using NewStore_items(3)[OF assms(1)] assms(2) by blast
  then show "tallied (items s) s"
    using NewStore_items(1)[OF assms(1)] by (auto simp: tallied_def held_def typed_items_def wrap64_id)
qed

section \<open>Listing\<close>

lemma map_filter_items: "List.map_filter m order = map (\<lambda>k. the (m k)) (filter (\<lambda>k. m k \<noteq> None) order)"
  by (induction order) (auto simp: List.map_filter_def)

lemma visited_items:
  assumes "\<And>k x. m k = Some x \<Longrightarrow> SKU x = k" and "distinct order"
  shows "distinct (map SKU (List.map_filter m order))" and "set (List.map_filter m order) = {x. \<exists>k\<in>set order. m k = Some x}"
proof -
  have "map SKU (List.map_filter m order) = filter (\<lambda>k. m k \<noteq> None) order"
    using assms(1) by (induction order) (auto simp: List.map_filter_def)
  then show "distinct (map SKU (List.map_filter m order))" using assms(2) by simp
  show "set (List.map_filter m order) = {x. \<exists>k\<in>set order. m k = Some x}" by (force simp: map_filter_items)
qed

lemma sorted_distinct_key_unique:
  assumes "sorted (map f xs)" and "sorted (map f ys)" and "distinct (map f xs)" and "set xs = set ys" and "distinct (map f ys)"
  shows "xs = ys"
proof -
  have "mset xs = mset ys" using assms(3,4,5) by (simp add: distinct_map set_eq_iff_mset_eq_distinct)
  moreover have "inj_on f (set xs)" using assms(3) by (simp add: distinct_map)
  ultimately show ?thesis
    using sort_key_inj_key_eq[of xs ys f] sort_key_inj_key_eq[of xs xs f] assms(1,2) by simp
qed

section \<open>Properties\<close>

text \<open>(C9) Stock is conserved: take any seed that \<open>NewStore\<close> accepts, its levels being of type \<open>int64\<close>. After any sequence
  of calls to \<open>Reserve\<close>, repeated, conflicting, malformed and cancelled ones included, every item of the seed is still
  there, its available amount is not negative, and available plus what the committed reservations hold is what was
  available at the start. \<open>NewStore\<close> does not check that the two levels of an item fit together in an \<open>int64\<close>: in
  general the reserved level is the seed's plus what the reservations hold, reduced modulo \<open>2 ^ 64\<close>. For an item for
  which they do fit, it is exactly that, not negative, and available plus reserved never changes.\<close>

theorem stock_conserved:
  assumes "NewStore its = Inr s0" and "\<forall>y\<in>set its. in64 (Available y) \<and> in64 (Reserved y)" and "x \<in> set its"
  shows "\<exists>item. items (reserve_run s0 cs) (SKU x) = Some item \<and> Name item = Name x \<and> 0 \<le> Available item
    \<and> Available item + held (reserve_run s0 cs) (SKU x) = Available x
    \<and> Reserved item = wrap64 (Reserved x + held (reserve_run s0 cs) (SKU x))
    \<and> (in64 (Available x + Reserved x) \<longrightarrow> 0 \<le> Reserved item
        \<and> Reserved item = Reserved x + held (reserve_run s0 cs) (SKU x)
        \<and> Available item + Reserved item = Available x + Reserved x)"
proof -
  note sp = NewStore_tallied[OF assms(1,2)] and x = NewStore_items(2)[OF assms(1,3)]
  have t: "tallied (items s0) (reserve_run s0 cs)" by (rule reserve_run_tallied[OF sp(2,1)])
  obtain item where it: "items (reserve_run s0 cs) (SKU x) = Some item" "Name item = Name x" "0 \<le> Available item"
    "Available item + held (reserve_run s0 cs) (SKU x) = Available x" "Reserved item = wrap64 (Reserved x + held (reserve_run s0 cs) (SKU x))"
    using t x unfolding tallied_def by blast
  have "0 \<le> Reserved x" using sp(1) x by (simp add: typed_items_def)
  then show ?thesis using it held_nonneg[OF t, of "SKU x"] tallied_fits[OF t x it(1)] by simp
qed

definition demo_items :: "Item list" where
  "demo_items = [\<lparr>SKU = ''a'', Name = ''A'', Available = 5, Reserved = 0\<rparr>, \<lparr>SKU = ''b'', Name = ''B'', Available = 1, Reserved = 2\<rparr>]"

definition demo_lines :: "Line list" where
  "demo_lines = [\<lparr>l_SKU = ''b'', Quantity = 1\<rparr>, \<lparr>l_SKU = ''a'', Quantity = 3\<rparr>]"

theorem stock_conserved_witness:
  "\<exists>s0 item. NewStore demo_items = Inr s0
    \<and> items (reserve_run s0 [Call None ''r1'' demo_lines 0, Call None ''r2'' demo_lines 1]) ''a'' = Some item
    \<and> Available item + Reserved item = 5 \<and> Available item = 2"
proof -
  obtain s0 where n: "NewStore demo_items = Inr s0" by (simp add: NewStore_def demo_items_def)
  have "\<forall>x\<in>set demo_items. in64 (Available x) \<and> in64 (Reserved x)" by (simp add: demo_items_def in64_iff)
  from stock_conserved[OF n this, of "hd demo_items" "[Call None ''r1'' demo_lines 0, Call None ''r2'' demo_lines 1]"]
  obtain item where i: "items (reserve_run s0 [Call None ''r1'' demo_lines 0, Call None ''r2'' demo_lines 1]) ''a'' = Some item"
    "Available item + Reserved item = 5" by (auto simp: demo_items_def in64_iff)
  have "map_option Available (items (reserve_run (projr (NewStore demo_items))
      [Call None ''r1'' demo_lines 0, Call None ''r2'' demo_lines 1]) ''a'') = Some 2" by code_simp
  then show ?thesis using n i by auto
qed

text \<open>Without the bound the reserved level can wrap: a seed with one unit reserved and all of \<open>int64\<close> available is
  accepted, and reserving what is available makes the reserved level negative.\<close>

theorem reserved_level_wraps:
  "\<exists>s0 item. NewStore [\<lparr>SKU = ''a'', Name = ''A'', Available = max64, Reserved = 1\<rparr>] = Inr s0
    \<and> items (reserve_run s0 [Call None ''r1'' [\<lparr>l_SKU = ''a'', Quantity = max64\<rparr>] 0]) ''a'' = Some item
    \<and> Reserved item = min64"
proof -
  have "map_option Reserved (items (reserve_run (projr (NewStore [\<lparr>SKU = ''a'', Name = ''A'', Available = max64, Reserved = 1\<rparr>]))
      [Call None ''r1'' [\<lparr>l_SKU = ''a'', Quantity = max64\<rparr>] 0]) ''a'') = Some min64" by code_simp
  then show ?thesis by (auto simp: NewStore_def max64_def)
qed

text \<open>(C16) A reservation is made once: after a successful call, and whatever other calls follow, repeating it
  with the same identifier and the same lines in any order returns the original reservation and
  changes nothing; with other lines that are well-formed it is refused as a conflict.\<close>

theorem reserve_idempotent:
  assumes "fst (Reserve s ctx i ls now) = Inr r"
  shows "(mset ls' = mset ls \<longrightarrow>
      Reserve (reserve_run (snd (Reserve s ctx i ls now)) cs) None i ls' now' = (Inr r, reserve_run (snd (Reserve s ctx i ls now)) cs))
    \<and> (normalize i ls' = Inr lines' \<and> lines' \<noteq> sort_key l_SKU ls \<longrightarrow>
      Reserve (reserve_run (snd (Reserve s ctx i ls now)) cs) None i ls' now'
        = (Inl ErrReservationConflict, reserve_run (snd (Reserve s ctx i ls now)) cs))"
proof -
  obtain lines where n: "normalize i ls = Inr lines" and l: "r_Lines r = lines"
    and e: "reservations (snd (Reserve s ctx i ls now)) i = Some r"
    using assms by (auto simp: Reserve_def Let_def split: sum.splits option.splits if_splits)
  have k: "reservations (reserve_run (snd (Reserve s ctx i ls now)) cs) i = Some r" by (rule reserve_run_keeps[OF e])
  show ?thesis using normalize_perm[OF _ n, of ls'] normalize_Inr(1)[OF n] k l by (auto simp: Reserve_def)
qed

theorem reserve_idempotent_witness:
  "\<exists>s0 r. NewStore demo_items = Inr s0 \<and> fst (Reserve s0 None ''r1'' demo_lines 0) = Inr r
    \<and> Reserve (snd (Reserve s0 None ''r1'' demo_lines 0)) None ''r1'' (rev demo_lines) 9
      = (Inr r, snd (Reserve s0 None ''r1'' demo_lines 0))"
proof -
  obtain s0 where n: "NewStore demo_items = Inr s0" by (simp add: NewStore_def demo_items_def)
  have "isl (fst (Reserve (projr (NewStore demo_items)) None ''r1'' demo_lines 0)) = False" by code_simp
  then obtain r where r: "fst (Reserve s0 None ''r1'' demo_lines 0) = Inr r"
    using n by (cases "fst (Reserve s0 None ''r1'' demo_lines 0)") auto
  from reserve_idempotent[OF r, of "rev demo_lines" "[]" 9] n r show ?thesis by auto
qed

text \<open>A listing is the items that match the filter, in the order of their SKUs, cut to the limit; it does
  not depend on the order in which the map is visited.\<close>

theorem list_sorted_and_complete:
  assumes "\<And>k x. items s k = Some x \<Longrightarrow> SKU x = k" and "distinct order" and "set order = dom (items s)"
    and "distinct order'" and "set order' = dom (items s)"
    and "inv_List s order None f = Inr res"
  shows "inv_List s order' None f = Inr res \<and> sorted (map SKU res) \<and> distinct (map SKU res)
    \<and> (\<forall>x\<in>set res. items s (SKU x) = Some x \<and> listed f x)
    \<and> (f_Limit f \<le> 0 \<or> int (length res) < f_Limit f \<longrightarrow> (\<forall>k x. items s k = Some x \<and> listed f x \<longrightarrow> x \<in> set res))
    \<and> (0 < f_Limit f \<longrightarrow> int (length res) \<le> f_Limit f)"
proof -
  let ?all = "\<lambda>ord. sort_key SKU (filter (listed f) (List.map_filter (items s) ord))"
  have d: "distinct (map SKU (?all ord))" "set (?all ord) = {x. \<exists>k. items s k = Some x \<and> listed f x}"
    if "distinct ord" "set ord = dom (items s)" for ord
  proof -
    have "distinct (map SKU (filter (listed f) (List.map_filter (items s) ord)))"
      by (rule distinct_map_filter[OF visited_items(1)[OF assms(1) that(1)]])
    then show "distinct (map SKU (?all ord))" by (simp add: distinct_map)
    show "set (?all ord) = {x. \<exists>k. items s k = Some x \<and> listed f x}"
      using visited_items(2)[OF assms(1) that(1)] that(2) by auto
  qed
  have same: "?all order' = ?all order"
    by (rule sorted_distinct_key_unique[of SKU])
      (simp_all only: d[OF assms(2,3)] d[OF assms(4,5)] sorted_sort_key)
  have res: "res = (if 0 < f_Limit f then take (nat (min (f_Limit f) (int (length (?all order))))) (?all order) else ?all order)"
    using assms(6) by (simp add: inv_List_def Let_def)
  then have t: "res = take (length res) (?all order)" by (auto simp: min_def)
  have "inv_List s order' None f = Inr res" using assms(6) same by (simp add: inv_List_def Let_def)
  moreover have "sorted (map SKU res)" "distinct (map SKU res)"
    using d(1)[OF assms(2,3)] by (subst t, simp only: take_map[symmetric], simp add: sorted_wrt_take)+
  moreover have "\<forall>x\<in>set res. items s (SKU x) = Some x \<and> listed f x"
  proof
    fix x assume "x \<in> set res"
    then have "x \<in> set (?all order)" using t by (metis in_set_takeD)
    then show "items s (SKU x) = Some x \<and> listed f x" using d(2)[OF assms(2,3)] assms(1) by auto
  qed
  moreover have "\<forall>k x. items s k = Some x \<and> listed f x \<longrightarrow> x \<in> set res" if "f_Limit f \<le> 0 \<or> int (length res) < f_Limit f"
  proof -
    have "res = ?all order" using that res by (auto simp: min_def split: if_splits)
    then show ?thesis using d(2)[OF assms(2,3)] by auto
  qed
  moreover have "int (length res) \<le> f_Limit f" if "0 < f_Limit f"
  proof -
    have "length res \<le> nat (f_Limit f)" using that res by (auto simp: min_def)
    then show ?thesis using that by linarith
  qed
  ultimately show ?thesis by blast
qed

theorem list_sorted_and_complete_witness:
  "\<exists>s0 res. NewStore demo_items = Inr s0
    \<and> inv_List s0 [''b'', ''a''] None \<lparr>SKUPrefix = [], InStockOnly = True, f_Limit = 0\<rparr> = Inr res \<and> sorted (map SKU res)"
proof -
  obtain s0 where n: "NewStore demo_items = Inr s0" and i: "items s0 = [''a'' \<mapsto> demo_items ! 0, ''b'' \<mapsto> demo_items ! 1]"
    by (auto simp: NewStore_def demo_items_def fun_eq_iff)
  obtain res where r: "inv_List s0 [''b'', ''a''] None \<lparr>SKUPrefix = [], InStockOnly = True, f_Limit = 0\<rparr> = Inr res"
    by (simp add: inv_List_def Let_def)
  have k: "SKU x = k" if "items s0 k = Some x" for k x using that i by (auto simp: demo_items_def split: if_splits)
  have d: "set [''b'', ''a''] = dom (items s0)" "distinct [''b'', ''a'']" unfolding i by auto
  from list_sorted_and_complete[OF k d(2,1) d(2,1) r] n r show ?thesis by blast
qed

end
