(* ===== verification/Inventory_Rpc.thy ===== *)
theory Inventory_Rpc
  imports Inventory
begin

text \<open>
  The gRPC service of app 08 (\<^verbatim>\<open>internal/server/service.go\<close>, \<^verbatim>\<open>interceptors.go\<close>, \<^verbatim>\<open>server.go\<close>).

  The interface \<open>Inventory\<close> is the locale \<open>inventory_backend\<close>: the service's lemmas are proved from the
  laws of the locale and the store is an interpretation of it. A handler is its outcome: a
  response, a status, an error of another kind, or a panic. The transport is a parameter:
  \<open>send_ok n\<close> tells whether the n-th message of a stream could be sent, \<open>ctx_at n\<close> the state of the
  context before it.
\<close>

section \<open>Status codes\<close>

datatype grpc_code =
    Code_Unknown | Code_InvalidArgument | Code_NotFound | Code_FailedPrecondition | Code_AlreadyExists
  | Code_DeadlineExceeded | Code_Canceled | Code_Internal | Code_Unimplemented | Code_Unavailable | Code_DataLoss

text \<open>An error is a status, or the failure of \<open>Send\<close> for an item, whose code is that of the transport.\<close>

datatype rpc_error = Status grpc_code | SendFailed string

definition toStatus :: "inv_error \<Rightarrow> rpc_error" where
  "toStatus err =
     Status (case err of
        ErrInvalidReservation \<Rightarrow> Code_InvalidArgument
      | ErrNotFound \<Rightarrow> Code_NotFound
      | ErrInsufficientStock \<Rightarrow> Code_FailedPrecondition
      | ErrReservationConflict \<Rightarrow> Code_AlreadyExists
      | InvCtx DeadlineExceeded \<Rightarrow> Code_DeadlineExceeded
      | InvCtx Canceled \<Rightarrow> Code_Canceled)"

section \<open>Handlers\<close>

record ProtoItem =
  pi_Sku :: string
  pi_Name :: string
  pi_Available :: int
  pi_Reserved :: int

record ProtoReservation =
  pr_Id :: string
  pr_Lines :: "(string \<times> int) list"
  pr_CreateTime :: gotime

definition toProtoItem :: "Item \<Rightarrow> ProtoItem" where
  "toProtoItem item = \<lparr>pi_Sku = SKU item, pi_Name = Name item, pi_Available = Available item, pi_Reserved = Reserved item\<rparr>"

definition toProtoReservation :: "Reservation \<Rightarrow> ProtoReservation" where
  "toProtoReservation r =
     \<lparr>pr_Id = r_ID r, pr_Lines = map (\<lambda>l. (l_SKU l, Quantity l)) (r_Lines r), pr_CreateTime = r_CreatedAt r\<rparr>"

definition GetItem :: "('s \<Rightarrow> ctx_error option \<Rightarrow> string \<Rightarrow> inv_error + Item) \<Rightarrow> 's \<Rightarrow> ctx_error option \<Rightarrow> string
    \<Rightarrow> rpc_error + ProtoItem" where
  "GetItem get s ctx sku =
     (if sku = [] then Inl (Status Code_InvalidArgument)
      else case get s ctx sku of
             Inl e \<Rightarrow> Inl (toStatus e)
           | Inr item \<Rightarrow> Inr (toProtoItem item))"

text \<open>The limit of a request is an \<open>int32\<close>.\<close>

definition listLimit :: "int \<Rightarrow> int" where
  "listLimit n = (if 0 < n then min n 1000 else 100)"

text \<open>The loop that sends the items, with the items sent so far.\<close>

fun sendItems :: "(nat \<Rightarrow> ctx_error option) \<Rightarrow> (nat \<Rightarrow> bool) \<Rightarrow> nat \<Rightarrow> Item list \<Rightarrow> ProtoItem list \<Rightarrow> (rpc_error option) \<times> ProtoItem list" where
  "sendItems ctx_at send_ok n [] sent = (None, sent)"
| "sendItems ctx_at send_ok n (item # its) sent =
     (case ctx_at n of
        Some e \<Rightarrow> (Some (toStatus (InvCtx e)), sent)
      | None \<Rightarrow>
          if \<not> send_ok n then (Some (SendFailed (SKU item)), sent)
          else sendItems ctx_at send_ok (Suc n) its (sent @ [toProtoItem item]))"

definition ListItems ::
  "('s \<Rightarrow> ctx_error option \<Rightarrow> Filter \<Rightarrow> inv_error + Item list) \<Rightarrow> 's \<Rightarrow> ctx_error option \<Rightarrow> (nat \<Rightarrow> ctx_error option) \<Rightarrow> (nat \<Rightarrow> bool)
    \<Rightarrow> string \<Rightarrow> bool \<Rightarrow> int \<Rightarrow> (rpc_error option) \<times> ProtoItem list"
where
  "ListItems list s ctx ctx_at send_ok prefix inStock lim =
     (if lim < 0 then (Some (Status Code_InvalidArgument), [])
      else case list s ctx \<lparr>SKUPrefix = prefix, InStockOnly = inStock, f_Limit = listLimit lim\<rparr> of
             Inl e \<Rightarrow> (Some (toStatus e), [])
           | Inr its \<Rightarrow> sendItems ctx_at send_ok 0 its [])"

definition rpcReserve ::
  "('s \<Rightarrow> ctx_error option \<Rightarrow> string \<Rightarrow> Line list \<Rightarrow> gotime \<Rightarrow> (inv_error + Reservation) \<times> 's) \<Rightarrow> 's \<Rightarrow> ctx_error option
    \<Rightarrow> string \<Rightarrow> (string \<times> int) list \<Rightarrow> gotime \<Rightarrow> (rpc_error + ProtoReservation) \<times> 's"
where
  "rpcReserve reserve s ctx i ls now =
     (case reserve s ctx i (map (\<lambda>(sku, n). \<lparr>l_SKU = sku, Quantity = n\<rparr>) ls) now of
        (Inl e, s') \<Rightarrow> (Inl (toStatus e), s')
      | (Inr r, s') \<Rightarrow> (Inr (toProtoReservation r), s'))"

section \<open>Interceptors\<close>

text \<open>What a handler does: it returns or it panics.\<close>

datatype 'a outcome = Returns 'a | Panics

definition recovered :: rpc_error where
  "recovered = Status Code_Internal"

definition unaryRecovery :: "(rpc_error + 'r) outcome \<Rightarrow> rpc_error + 'r" where
  "unaryRecovery h = (case h of Panics \<Rightarrow> Inl recovered | Returns r \<Rightarrow> r)"

definition streamRecovery :: "(rpc_error option) outcome \<Rightarrow> rpc_error option" where
  "streamRecovery h = (case h of Panics \<Rightarrow> Some recovered | Returns r \<Rightarrow> r)"

text \<open>The deadline a handler runs under: the client's, or \<open>timeout\<close> after the call arrived at \<open>now\<close>.\<close>

definition unaryDefaultTimeout :: "duration \<Rightarrow> gotime \<Rightarrow> gotime option \<Rightarrow> (gotime option \<Rightarrow> 'o) \<Rightarrow> 'o" where
  "unaryDefaultTimeout timeout now deadline handler =
     (case deadline of Some d \<Rightarrow> handler (Some d) | None \<Rightarrow> handler (Some (time_Add now timeout)))"

text \<open>Logging changes nothing; it is an error for codes that are the server's fault. \<open>ok\<close> is no error.\<close>

datatype log_level = LogError | LogInfo

definition logCall :: "grpc_code option \<Rightarrow> log_level" where
  "logCall code =
     (case code of
        Some Code_Unknown \<Rightarrow> LogError | Some Code_Internal \<Rightarrow> LogError | Some Code_Unimplemented \<Rightarrow> LogError
      | Some Code_Unavailable \<Rightarrow> LogError | Some Code_DataLoss \<Rightarrow> LogError
      | _ \<Rightarrow> LogInfo)"

text \<open>The unary chain of \<open>New\<close>: logging around recovery around the default timeout.\<close>

definition unaryChain :: "duration \<Rightarrow> gotime \<Rightarrow> gotime option \<Rightarrow> (gotime option \<Rightarrow> (rpc_error + 'r) outcome) \<Rightarrow> rpc_error + 'r" where
  "unaryChain timeout now deadline handler = unaryRecovery (unaryDefaultTimeout timeout now deadline handler)"

section \<open>The service over any inventory\<close>

locale inventory_backend =
  fixes get :: "'s \<Rightarrow> ctx_error option \<Rightarrow> string \<Rightarrow> inv_error + Item"
    and list :: "'s \<Rightarrow> ctx_error option \<Rightarrow> Filter \<Rightarrow> inv_error + Item list"
    and reserve :: "'s \<Rightarrow> ctx_error option \<Rightarrow> string \<Rightarrow> Line list \<Rightarrow> gotime \<Rightarrow> (inv_error + Reservation) \<times> 's"
  assumes list_limit: "list s ctx f = Inr its \<Longrightarrow> 0 < f_Limit f \<Longrightarrow> int (length its) \<le> f_Limit f"
    and reserve_fails: "reserve s ctx i ls now = (Inl e, s') \<Longrightarrow> s' = s"
    and reserve_again: "reserve s ctx i ls now = (Inr r, s') \<Longrightarrow> reserve s' None i ls now' = (Inr r, s')"
begin

lemma rpc_reserve_error_no_effect:
  "rpcReserve reserve s ctx i ls now = (Inl e, s') \<Longrightarrow> s' = s"
  using reserve_fails by (auto simp: rpcReserve_def split: prod.splits sum.splits)

lemma rpc_reserve_retry:
  "rpcReserve reserve s ctx i ls now = (Inr r, s') \<Longrightarrow> rpcReserve reserve s' None i ls now' = (Inr r, s')"
  by (auto simp: rpcReserve_def split: prod.splits sum.splits dest: reserve_again[where now' = now'])

lemma list_items_length:
  assumes "0 \<le> lim"
  shows "int (length (snd (ListItems list s ctx ctx_at send_ok prefix inStock lim))) \<le> listLimit lim"
proof (cases "list s ctx \<lparr>SKUPrefix = prefix, InStockOnly = inStock, f_Limit = listLimit lim\<rparr>")
  case (Inr its)
  have "length (snd (sendItems ctx_at send_ok n its sent)) \<le> length sent + length its" for n its sent
    by (induction ctx_at send_ok n its sent rule: sendItems.induct) (auto split: option.splits)
  from this[of 0 its "[]"] list_limit[OF Inr] show ?thesis
    using Inr assms by (auto simp: ListItems_def listLimit_def)
qed (use assms in \<open>simp add: ListItems_def listLimit_def\<close>)

end

lemma inv_List_limit: "inv_List s order ctx f = Inr its \<Longrightarrow> 0 < f_Limit f \<Longrightarrow> int (length its) \<le> f_Limit f"
  by (auto simp: inv_List_def Let_def min_def split: option.splits)

lemma Reserve_fails: "Reserve s ctx i ls now = (Inl e, s') \<Longrightarrow> s' = s"
  by (auto simp: Reserve_def Let_def split: sum.splits option.splits if_splits)

lemma Reserve_again: "Reserve s ctx i ls now = (Inr r, s') \<Longrightarrow> Reserve s' None i ls now' = (Inr r, s')"
  by (auto simp: Reserve_def Let_def split: sum.splits option.splits if_splits)

interpretation mem_inv: inventory_backend inv_Get "\<lambda>s. inv_List s order" Reserve for order
  by unfold_locales (rule inv_List_limit Reserve_fails Reserve_again, assumption+)+

section \<open>Repeated calls\<close>

text \<open>A client sends the same \<open>Reserve\<close> again and again, while the others do as they like. An attempt that reaches the
  handler finds a context that is alive or not (\<open>Attempt ctx now lost\<close>), and its reply can be \<open>lost\<close>: the client then sees a
  status of the transport (\<open>None\<close>), whatever the handler did. What the client sees is the first component.\<close>

abbreviation requestLines :: "(string \<times> int) list \<Rightarrow> Line list" where
  "requestLines ls \<equiv> map (\<lambda>(sku, n). \<lparr>l_SKU = sku, Quantity = n\<rparr>) ls"

datatype wire_call = Attempt "ctx_error option" gotime bool | Other reserve_call

fun wire_run :: "Store \<Rightarrow> string \<Rightarrow> (string \<times> int) list \<Rightarrow> wire_call list \<Rightarrow> (rpc_error + ProtoReservation) option list \<times> Store" where
  "wire_run s i ls [] = ([], s)"
| "wire_run s i ls (Attempt ctx now lost # ops) =
     (let (res, s1) = rpcReserve Reserve s ctx i ls now;
          (vs, s2) = wire_run s1 i ls ops
      in ((if lost then None else Some res) # vs, s2))"
| "wire_run s i ls (Other c # ops) = wire_run (reserve_run s [c]) i ls ops"

fun others :: "wire_call list \<Rightarrow> reserve_call list" where
  "others [] = []"
| "others (Attempt ctx now lost # ops) = others ops"
| "others (Other c # ops) = c # others ops"

text \<open>No one else uses the identifier.\<close>

fun foreign :: "string \<Rightarrow> wire_call \<Rightarrow> bool" where
  "foreign i (Attempt ctx now lost) = True"
| "foreign i (Other (Call ctx j ls now)) = (j \<noteq> i)"

text \<open>Once the reservation is there, the attempts change nothing and the replies that arrive are it.\<close>

lemma rpcReserve_held:
  assumes "reservations s i = Some r" and "normalize i (requestLines ls) = Inr (r_Lines r)"
  shows "rpcReserve Reserve s ctx i ls now
    = ((case ctx of None \<Rightarrow> Inr (toProtoReservation r) | Some e \<Rightarrow> Inl (toStatus (InvCtx e))), s)"
  using assms by (cases ctx) (simp_all add: rpcReserve_def Reserve_def)

lemma wire_run_held:
  assumes "reservations s i = Some r" and "normalize i (requestLines ls) = Inr (r_Lines r)"
    and "wire_run s i ls ops = (vs, s')"
  shows "s' = reserve_run s (others ops) \<and> reservations s' i = Some r \<and> (\<forall>pr. Some (Inr pr) \<in> set vs \<longrightarrow> pr = toProtoReservation r)"
  using assms
proof (induction s i ls ops arbitrary: vs s' rule: wire_run.induct)
  case (2 s i ls ctx now lost ops)
  note h = rpcReserve_held[OF "2.prems"(1,2), of ctx now]
  obtain ws s2 where w: "wire_run s i ls ops = (ws, s2)" by force
  show ?case using "2.IH"[OF refl h[symmetric] "2.prems"(1,2) w] "2.prems"(3) h w by (auto split: option.splits if_splits)
next
  case (3 s i ls c ops)
  have "reservations (reserve_run s [c]) i = Some r" by (rule reserve_run_keeps[OF "3.prems"(1)])
  from "3.IH"[OF this "3.prems"(2)] "3.prems"(3) show ?case using reserve_run_append[of s "[c]" "others ops"] by auto
qed simp

text \<open>An attempt succeeds by making the reservation, with the lines in normal form.\<close>

lemma rpcReserve_makes:
  assumes "rpcReserve Reserve s ctx i ls now = (Inr pr, s')" and "reservations s i = None"
  shows "\<exists>r. reservations s' i = Some r \<and> r_CreatedAt r = now \<and> normalize i (requestLines ls) = Inr (r_Lines r)
    \<and> pr = toProtoReservation r \<and> s' = reserve_run s [Call ctx i (requestLines ls) now]"
proof -
  obtain r where r: "Reserve s ctx i (requestLines ls) now = (Inr r, s')" "pr = toProtoReservation r"
    using assms(1) by (auto simp: rpcReserve_def split: prod.splits sum.splits)
  then show ?thesis using assms(2) by (auto simp: Reserve_def Let_def split: sum.splits option.splits if_splits)
qed

definition made_once :: "Store \<Rightarrow> string \<Rightarrow> (string \<times> int) list \<Rightarrow> wire_call list \<Rightarrow> (rpc_error + ProtoReservation) option list \<Rightarrow> Store \<Rightarrow> bool" where
  "made_once s i ls ops vs s' \<longleftrightarrow> (\<exists>pre ctx now lost post r. ops = pre @ Attempt ctx now lost # post
     \<and> s' = reserve_run s (others pre @ Call ctx i (requestLines ls) now # others post)
     \<and> reservations s' i = Some r \<and> r_CreatedAt r = now \<and> normalize i (requestLines ls) = Inr (r_Lines r)
     \<and> (\<forall>pr. Some (Inr pr) \<in> set vs \<longrightarrow> pr = toProtoReservation r))"

definition never_made :: "Store \<Rightarrow> string \<Rightarrow> wire_call list \<Rightarrow> (rpc_error + ProtoReservation) option list \<Rightarrow> Store \<Rightarrow> bool" where
  "never_made s i ops vs s' \<longleftrightarrow> s' = reserve_run s (others ops) \<and> reservations s' i = None \<and> (\<forall>pr. Some (Inr pr) \<notin> set vs)"

lemma made_once_later:
  assumes "made_once s1 i ls ops vs s'" and "s1 = reserve_run s (others [c])" and "\<forall>pr. Some (Inr pr) \<in> set ws \<longrightarrow> Some (Inr pr) \<in> set vs"
  shows "made_once s i ls (c # ops) ws s'"
proof -
  obtain pre ctx now lost post r where m: "ops = pre @ Attempt ctx now lost # post"
    "s' = reserve_run s1 (others pre @ Call ctx i (requestLines ls) now # others post)"
    "reservations s' i = Some r" "r_CreatedAt r = now" "normalize i (requestLines ls) = Inr (r_Lines r)"
    "\<forall>pr. Some (Inr pr) \<in> set vs \<longrightarrow> pr = toProtoReservation r"
    using assms(1) unfolding made_once_def by blast
  have "others (c # pre) = others [c] @ others pre" by (cases c) simp_all
  then have "s' = reserve_run s (others (c # pre) @ Call ctx i (requestLines ls) now # others post)"
    unfolding m(2) assms(2) by (simp only: reserve_run_append append_assoc)
  then show ?thesis unfolding made_once_def using m(1,3-6) assms(3)
    by (intro exI[of _ "c # pre"] exI[of _ ctx] exI[of _ now] exI[of _ lost] exI[of _ post] exI[of _ r]) simp
qed

lemma wire_run_outcome:
  assumes "reservations s i = None" and "list_all (foreign i) ops" and "wire_run s i ls ops = (vs, s')"
  shows "never_made s i ops vs s' \<or> made_once s i ls ops vs s'"
  using assms
proof (induction s i ls ops arbitrary: vs rule: wire_run.induct)
  case (1 s i ls)
  then show ?case by (simp add: never_made_def)
next
  case (2 s i ls ctx now lost ops)
  obtain res s1 where c: "rpcReserve Reserve s ctx i ls now = (res, s1)" by force
  obtain ws s2 where w: "wire_run s1 i ls ops = (ws, s2)" by force
  have v: "vs = (if lost then None else Some res) # ws" "s' = s2" using "2.prems"(3) c w by simp_all
  show ?case
  proof (cases res)
    case (Inl e)
    then have s: "s1 = s" using mem_inv.rpc_reserve_error_no_effect c by blast
    from "2.IH"[OF refl c[symmetric]] have "never_made s i ops ws s' \<or> made_once s i ls ops ws s'"
      using "2.prems"(1,2) w v(2) s by simp
    then show ?thesis
    proof
      assume "never_made s i ops ws s'"
      then show ?thesis using v Inl by (auto simp: never_made_def)
    next
      assume "made_once s i ls ops ws s'"
      then have "made_once s i ls (Attempt ctx now lost # ops) vs s'"
        by (rule made_once_later) (use v Inl in \<open>auto split: if_splits\<close>)
      then show ?thesis ..
    qed
  next
    case (Inr pr)
    obtain r where r: "reservations s1 i = Some r" "r_CreatedAt r = now" "normalize i (requestLines ls) = Inr (r_Lines r)"
      "pr = toProtoReservation r" "s1 = reserve_run s [Call ctx i (requestLines ls) now]"
      using rpcReserve_makes[OF c[unfolded Inr] "2.prems"(1)] by blast
    note h = wire_run_held[OF r(1,3) w]
    have "s' = reserve_run s (others [] @ Call ctx i (requestLines ls) now # others ops)"
      using h v(2) r(5) reserve_run_append[of s "[Call ctx i (requestLines ls) now]" "others ops"] by simp
    then have "made_once s i ls (Attempt ctx now lost # ops) vs s'" unfolding made_once_def using h v Inr r(2-4)
      by (intro exI[of _ "[]"] exI[of _ ctx] exI[of _ now] exI[of _ lost] exI[of _ ops] exI[of _ r]) auto
    then show ?thesis ..
  qed
next
  case (3 s i ls c ops)
  obtain ctx j ls1 now where c: "c = Call ctx j ls1 now" by (cases c)
  have "reservations (reserve_run s [c]) i = None" using "3.prems"(1,2) Reserve_other[of j i s ctx ls1 now] by (simp add: c)
  from "3.IH"[OF this] have "never_made (reserve_run s [c]) i ops vs s' \<or> made_once (reserve_run s [c]) i ls ops vs s'"
    using "3.prems"(2,3) by simp
  then show ?case
  proof
    assume "never_made (reserve_run s [c]) i ops vs s'"
    then have "never_made s i (Other c # ops) vs s'"
      using reserve_run_append[of s "[c]" "others ops"] by (auto simp: never_made_def)
    then show ?thesis ..
  next
    assume "made_once (reserve_run s [c]) i ls ops vs s'"
    then have "made_once s i ls (Other c # ops) vs s'" by (rule made_once_later) simp_all
    then show ?thesis ..
  qed
qed

section \<open>Properties\<close>

text \<open>(C24) \<open>Reserve\<close> is safe to repeat. A client sends the same request any number of times, with an identifier no one else
  uses and that is not reserved yet; its calls reach the handler with a live, expired or cancelled context, their
  replies arrive or are lost, and other clients reserve in between. Then either no attempt had any effect, no reply
  that arrived is OK, and the stock is what the other calls alone make of it; or the stock is that of a history in
  which the reservation is made once, at one of the attempts, and every OK reply that arrived is that
  reservation. And a further attempt with a live context settles it: OK says that the reservation is in the store,
  an error that none of the attempts had any effect, those whose reply was lost included.\<close>

theorem rpc_reserve_retried_exactly_once:
  assumes "reservations s i = None" and "list_all (foreign i) ops" and "wire_run s i ls ops = (vs, s')"
  shows "((s' = reserve_run s (others ops) \<and> reservations s' i = None \<and> (\<forall>pr. Some (Inr pr) \<notin> set vs))
      \<or> (\<exists>pre ctx at lost post r. ops = pre @ Attempt ctx at lost # post
          \<and> s' = reserve_run s (others pre @ Call ctx i (requestLines ls) at # others post)
          \<and> reservations s' i = Some r \<and> (\<forall>pr. Some (Inr pr) \<in> set vs \<longrightarrow> pr = toProtoReservation r)))
    \<and> (\<forall>now pr s''. rpcReserve Reserve s' None i ls now = (Inr pr, s'') \<longrightarrow>
          (\<exists>r. reservations s'' i = Some r \<and> pr = toProtoReservation r \<and> (reservations s' i \<noteq> None \<longrightarrow> s'' = s')))
    \<and> (\<forall>now e s''. rpcReserve Reserve s' None i ls now = (Inl e, s'') \<longrightarrow>
          s'' = reserve_run s (others ops) \<and> reservations s'' i = None)"
proof -
  from wire_run_outcome[OF assms] show ?thesis
  proof
    assume n: "never_made s i ops vs s'"
    have "\<exists>r. reservations s'' i = Some r \<and> pr = toProtoReservation r" if "rpcReserve Reserve s' None i ls now = (Inr pr, s'')" for now pr s''
      using rpcReserve_makes[OF that conjunct1[OF conjunct2[OF n[unfolded never_made_def]]]] by blast
    moreover have "s'' = s'" if "rpcReserve Reserve s' None i ls now = (Inl e, s'')" for now e s''
      using mem_inv.rpc_reserve_error_no_effect[OF that] .
    ultimately show ?thesis using n unfolding never_made_def by blast
  next
    assume m: "made_once s i ls ops vs s'"
    then obtain r where r: "reservations s' i = Some r" "normalize i (requestLines ls) = Inr (r_Lines r)"
      unfolding made_once_def by blast
    from rpcReserve_held[OF r, of None] have "rpcReserve Reserve s' None i ls now = (Inr (toProtoReservation r), s')" for now by simp
    then have "reservations s'' i = Some r \<and> pr = toProtoReservation r \<and> s'' = s'" if "rpcReserve Reserve s' None i ls now = (Inr pr, s'')" for now pr s''
      using that r(1) by simp
    moreover have "rpcReserve Reserve s' None i ls now \<noteq> (Inl e, s'')" for now e s''
      using rpcReserve_held[OF r, of None now] by simp
    ultimately show ?thesis using m unfolding made_once_def by blast
  qed
qed

text \<open>The reply of the first attempt is lost, the second finds its context expired, the third is answered.\<close>

theorem rpc_reserve_retried_exactly_once_witness:
  "\<exists>s0 vs s1 pr. NewStore demo_items = Inr s0
    \<and> wire_run s0 ''r1'' [(''a'', 2)] [Attempt None 7 True, Other (Call None ''r2'' demo_lines 8), Attempt (Some DeadlineExceeded) 9 False] = (vs, s1)
    \<and> rpcReserve Reserve s1 None ''r1'' [(''a'', 2)] 10 = (Inr pr, s1)
    \<and> vs = [None, Some (Inl (Status Code_DeadlineExceeded))] \<and> pr_CreateTime pr = 7
    \<and> map_option Available (items s1 ''a'') = Some 0"
proof -
  let ?ops = "[Attempt None 7 True, Other (Call None ''r2'' demo_lines 8), Attempt (Some DeadlineExceeded) 9 False]"
  obtain s0 where n: "NewStore demo_items = Inr s0" by (simp add: NewStore_def demo_items_def)
  then have f: "reservations s0 ''r1'' = None" by (auto simp: NewStore_def split: sum.splits)
  obtain vs s1 where w: "wire_run s0 ''r1'' [(''a'', 2)] ?ops = (vs, s1)" by force
  have "(case wire_run (projr (NewStore demo_items)) ''r1'' [(''a'', 2)] ?ops of (vs, s1) \<Rightarrow> vs = [None, Some (Inl (Status Code_DeadlineExceeded))]
      \<and> map_option Available (items s1 ''a'') = Some 0
      \<and> (case fst (rpcReserve Reserve s1 None ''r1'' [(''a'', 2)] 10) of Inl e \<Rightarrow> False | Inr pr \<Rightarrow> pr_CreateTime pr = 7))
      \<and> reservations (snd (wire_run (projr (NewStore demo_items)) ''r1'' [(''a'', 2)] ?ops)) ''r1'' \<noteq> None"
    by code_simp
  then have v: "vs = [None, Some (Inl (Status Code_DeadlineExceeded))]" "map_option Available (items s1 ''a'') = Some 0"
    "case fst (rpcReserve Reserve s1 None ''r1'' [(''a'', 2)] 10) of Inl e \<Rightarrow> False | Inr pr \<Rightarrow> pr_CreateTime pr = 7"
    "reservations s1 ''r1'' \<noteq> None"
    using n w by simp_all
  obtain pr s2 where r: "rpcReserve Reserve s1 None ''r1'' [(''a'', 2)] 10 = (Inr pr, s2)"
    using v(3) by (cases "rpcReserve Reserve s1 None ''r1'' [(''a'', 2)] 10") (auto split: sum.splits)
  have "list_all (foreign ''r1'') ?ops" by simp
  from rpc_reserve_retried_exactly_once[OF f this w] r v(4) have "s2 = s1" by blast
  then show ?thesis using n w r v(1-3) by auto
qed

end
