(* ===== verification/At_Least_Once.thy ===== *)
theory At_Least_Once
  imports Go_Prelude
begin

text \<open>
  The contract that the Kafka consumers of apps 07 and 12 share: a record may be delivered again, but it is
  never lost. The effects of a consumer on the outside are a log of actions, oldest first. A log is
  safe if, whenever the consumer asks Kafka to commit offsets or lets a rebalance happen, every
  record polled until then has been stored or produced to the dead-letter topic. Committing a
  record also commits all earlier ones of its partition, so the condition speaks of all polled
  records and not only of the committed batch.

  The locale \<open>batch_flush\<close> states what a flush must do for the loop around it to keep the log safe.
\<close>

section \<open>Records and actions\<close>

record krecord =
  k_Topic :: string
  k_Partition :: int
  k_Offset :: int
  k_Key :: string
  k_Value :: string
  k_Headers :: "(string \<times> string) list"

text \<open>\<open>CommitTried\<close> is a commit request, with whether it succeeded: a failed request may have moved the offsets.\<close>

datatype ('e, 'b) action =
    Polled "krecord list"
  | Stored "'e list"
  | DeadLettered "krecord list"
  | Recorded 'b
  | CommitTried "krecord list" bool
  | AllowRebalance

fun polled_of :: "('e, 'b) action list \<Rightarrow> krecord list" where
  "polled_of [] = []"
| "polled_of (Polled rs # l) = rs @ polled_of l"
| "polled_of (a # l) = polled_of l"

fun is_release :: "('e, 'b) action \<Rightarrow> bool" where
  "is_release (CommitTried rs b) = True"
| "is_release AllowRebalance = True"
| "is_release _ = False"

text \<open>\<open>ev r\<close> is the event in a record, if it holds a valid one; \<open>dl r d\<close> says that \<open>d\<close> is a dead letter for \<open>r\<close>.\<close>

definition handled :: "(krecord \<Rightarrow> 'e option) \<Rightarrow> (krecord \<Rightarrow> krecord \<Rightarrow> bool) \<Rightarrow> ('e, 'b) action list \<Rightarrow> krecord \<Rightarrow> bool" where
  "handled ev dl log r \<longleftrightarrow>
     (\<exists>es e. Stored es \<in> set log \<and> ev r = Some e \<and> e \<in> set es)
     \<or> (\<exists>ds d. DeadLettered ds \<in> set log \<and> d \<in> set ds \<and> dl r d)"

definition safe_log :: "(krecord \<Rightarrow> 'e option) \<Rightarrow> (krecord \<Rightarrow> krecord \<Rightarrow> bool) \<Rightarrow> ('e, 'b) action list \<Rightarrow> bool" where
  "safe_log ev dl log \<longleftrightarrow>
     (\<forall>l1 a l2. log = l1 @ a # l2 \<and> is_release a \<longrightarrow> (\<forall>r\<in>set (polled_of l1). handled ev dl l1 r))"

section \<open>Extending a log\<close>

lemma polled_of_append [simp]: "polled_of (l @ m) = polled_of l @ polled_of m"
proof (induction l)
  case (Cons a l)
  then show ?case by (cases a) simp_all
qed simp

lemma handled_append: "handled ev dl l r \<Longrightarrow> handled ev dl (l @ m) r"
  unfolding handled_def by (metis Un_iff set_append)

lemma safe_log_Nil [simp]: "safe_log ev dl []"
  by (simp add: safe_log_def)

lemma safe_log_append:
  assumes "safe_log ev dl l"
    and "\<And>m1 a m2. m = m1 @ a # m2 \<Longrightarrow> is_release a \<Longrightarrow> \<forall>r\<in>set (polled_of (l @ m1)). handled ev dl (l @ m1) r"
  shows "safe_log ev dl (l @ m)"
  unfolding safe_log_def
proof (intro allI impI, elim conjE)
  fix l1 a l2
  assume e: "l @ m = l1 @ a # l2" and c: "is_release a"
  show "\<forall>r\<in>set (polled_of l1). handled ev dl l1 r"
  proof (cases "length l \<le> length l1")
    case True
    then obtain m1 where "l1 = l @ m1" "m = m1 @ a # l2" using e by (auto simp: append_eq_append_conv2)
    then show ?thesis using assms(2) c by blast
  next
    case False
    then obtain us where us: "l = l1 @ us" "us \<noteq> []" "us @ m = a # l2" using e by (auto simp: append_eq_append_conv2)
    then obtain l3 where "l = l1 @ a # l3" by (cases us) auto
    then show ?thesis using assms(1) c unfolding safe_log_def by blast
  qed
qed

text \<open>A release comes after a part of the log without any.\<close>

lemma release_after:
  assumes "log @ m1 @ a # m2 = log @ h @ t" and "\<forall>x\<in>set h. \<not> is_release x" and "is_release a"
  shows "\<exists>t1. m1 = h @ t1"
proof (cases "length h \<le> length m1")
  case True
  then show ?thesis using assms(1) by (auto simp: append_eq_append_conv2)
next
  case False
  then obtain us where us: "h = m1 @ us" "us \<noteq> []" "us @ t = a # m2" using assms(1) by (auto simp: append_eq_append_conv2)
  then have "a \<in> set h" by (cases us) auto
  then show ?thesis using assms(2,3) by blast
qed

section \<open>The loop around a flush\<close>

text \<open>\<open>flush env rs log\<close> hands over the pending records \<open>rs\<close>; its first result tells whether the loop may go on.\<close>

locale batch_flush =
  fixes ev :: "krecord \<Rightarrow> 'e option"
    and dl :: "krecord \<Rightarrow> krecord \<Rightarrow> bool"
    and flush :: "'f \<Rightarrow> krecord list \<Rightarrow> ('e, 'b) action list \<Rightarrow> bool \<times> ('e, 'b) action list"
  assumes flush_extends: "\<exists>m. snd (flush env rs log) = log @ m \<and> polled_of m = []"
    and flush_release: "snd (flush env rs log) = log @ m1 @ a # m2 \<Longrightarrow> is_release a \<Longrightarrow> r \<in> set rs \<Longrightarrow> handled ev dl (log @ m1) r"
    and flush_done: "fst (flush env rs log) \<Longrightarrow> r \<in> set rs \<Longrightarrow> handled ev dl (snd (flush env rs log)) r"
begin

definition on_track :: "krecord list \<Rightarrow> ('e, 'b) action list \<Rightarrow> bool" where
  "on_track pend log \<longleftrightarrow> safe_log ev dl log \<and> (\<forall>r\<in>set (polled_of log). r \<in> set pend \<or> handled ev dl log r)"

lemma on_track_Nil [simp]: "on_track [] []"
  by (simp add: on_track_def)

lemma on_track_safe: "on_track pend log \<Longrightarrow> safe_log ev dl log"
  by (simp add: on_track_def)

lemma on_track_poll:
  assumes "on_track pend log" shows "on_track (pend @ rs) (log @ [Polled rs])"
proof -
  have "safe_log ev dl (log @ [Polled rs])"
    by (rule safe_log_append) (use assms in \<open>auto simp: on_track_def Cons_eq_append_conv\<close>)
  then show ?thesis using assms handled_append[of ev dl log _ "[Polled rs]"] by (auto simp: on_track_def)
qed

lemma on_track_rebalance:
  assumes "on_track [] log" shows "on_track [] (log @ [AllowRebalance])"
proof -
  have "safe_log ev dl (log @ [AllowRebalance])"
    by (rule safe_log_append) (use assms in \<open>auto simp: on_track_def Cons_eq_append_conv\<close>)
  then show ?thesis using assms handled_append[of ev dl log _ "[AllowRebalance]"] by (auto simp: on_track_def)
qed

lemma on_track_flush:
  assumes "on_track rs log"
  shows "safe_log ev dl (snd (flush env rs log))" and "fst (flush env rs log) \<Longrightarrow> on_track [] (snd (flush env rs log))"
proof -
  obtain m where m: "snd (flush env rs log) = log @ m" "polled_of m = []" using flush_extends by blast
  show s: "safe_log ev dl (snd (flush env rs log))"
    unfolding m(1)
  proof (rule safe_log_append)
    show "safe_log ev dl log" using assms by (simp add: on_track_def)
    fix m1 a m2 assume e: "m = m1 @ a # m2" "is_release a"
    then have "polled_of m1 = []" using m(2) by simp
    then show "\<forall>r\<in>set (polled_of (log @ m1)). handled ev dl (log @ m1) r"
      using assms flush_release[OF m(1)[unfolded e(1)] e(2)] handled_append[of ev dl log _ m1] by (auto simp: on_track_def)
  qed
  show "on_track [] (snd (flush env rs log))" if "fst (flush env rs log)"
    using s assms flush_done[OF that] handled_append[of ev dl log _ m] m by (auto simp: on_track_def)
qed

end

section \<open>Logs that end cleanly\<close>

text \<open>After a last release nothing polled is left over, and all dead letters went to one topic.\<close>

lemma safe_log_end:
  assumes "safe_log ev dl log" and "log = l @ [AllowRebalance]"
  shows "\<forall>r\<in>set (polled_of log). handled ev dl log r"
proof -
  have "\<forall>r\<in>set (polled_of l). handled ev dl l r" using assms(1) unfolding safe_log_def assms(2) by force
  then show ?thesis unfolding assms(2) by (auto intro: handled_append)
qed

definition dead_letters_to :: "string \<Rightarrow> ('e, 'b) action list \<Rightarrow> bool" where
  "dead_letters_to topic log \<longleftrightarrow> (\<forall>ds. DeadLettered ds \<in> set log \<longrightarrow> (\<forall>d\<in>set ds. k_Topic d = topic))"

lemma dead_letters_to_Nil [simp]: "dead_letters_to topic []"
  by (simp add: dead_letters_to_def)

lemma dead_letters_to_append [simp]: "dead_letters_to topic (l @ m) \<longleftrightarrow> dead_letters_to topic l \<and> dead_letters_to topic m"
  by (auto simp: dead_letters_to_def)

lemma dead_letters_to_single [simp]:
  "dead_letters_to topic (a # l) \<longleftrightarrow> (case a of DeadLettered ds \<Rightarrow> \<forall>d\<in>set ds. k_Topic d = topic | _ \<Rightarrow> True) \<and> dead_letters_to topic l"
  by (cases a) (auto simp: dead_letters_to_def)

end
