(* ===== verification/Pipeline.thy ===== *)
theory Pipeline
  imports At_Least_Once
begin

text \<open>
  App 12: the pipeline from Kafka to ClickHouse (\<^verbatim>\<open>internal/pipeline/pipeline.go\<close>), its events
  (\<^verbatim>\<open>internal/event/event.go\<close>), the batch log's rows (\<^verbatim>\<open>internal/ledger/ledger.go\<close>) and the shape of an
  insert (\<^verbatim>\<open>internal/warehouse/warehouse.go\<close>).

  Kafka, ClickHouse and Postgres are parameters: \<open>flush_env\<close> says how each call of a flush ends and
  \<open>iteration\<close> what one turn of the loop sees. JSON decoding is the parameter \<open>unmarshal\<close>; the texts of
  errors come from \<open>msg\<close>. Metrics and logging are left out.
\<close>

section \<open>Events\<close>

record Event =
  ID :: string
  Type :: string
  Source :: string
  OccurredAt :: gotime
  Payload :: string

datatype decode_error = BadJson | MissingId | MissingType | MissingOccurredAt | OutsideRange

text \<open>The nanoseconds from year 1 to January 1 of 1900 and of 2262.\<close>

definition minOccurredAt :: gotime where
  "minOccurredAt = 693595 * 86400 * 1000000000"

definition maxOccurredAt :: gotime where
  "maxOccurredAt = 825813 * 86400 * 1000000000"

definition Decode :: "(string \<Rightarrow> Event option) \<Rightarrow> string \<Rightarrow> decode_error + Event" where
  "Decode unmarshal data =
     (case unmarshal data of
        None \<Rightarrow> Inl BadJson
      | Some e \<Rightarrow>
          if ID e = [] then Inl MissingId
          else if Type e = [] then Inl MissingType
          else if OccurredAt e = 0 then Inl MissingOccurredAt
          else if OccurredAt e < minOccurredAt \<or> \<not> OccurredAt e < maxOccurredAt then Inl OutsideRange
          else Inr e)"

section \<open>The ledger's rows\<close>

datatype BatchStatus = StatusInserted | StatusDeadLettered

record Partition =
  pt_Topic :: string
  pt_Partition :: int
  FirstOffset :: int
  LastOffset :: int
  pt_Records :: int

record Batch =
  b_Status :: BatchStatus
  b_Records :: int
  b_DeadLettered :: int
  b_InsertDuration :: duration
  b_Partitions :: "Partition list"

definition bumpPartition :: "krecord \<Rightarrow> Partition \<Rightarrow> Partition" where
  "bumpPartition r p =
     p\<lparr>FirstOffset := min (FirstOffset p) (k_Offset r), LastOffset := max (LastOffset p) (k_Offset r), pt_Records := pt_Records p + 1\<rparr>"

definition samePartition :: "krecord \<Rightarrow> Partition \<Rightarrow> bool" where
  "samePartition r p \<longleftrightarrow> pt_Topic p = k_Topic r \<and> pt_Partition p = k_Partition r"

text \<open>One turn of the loop: \<open>slices.IndexFunc\<close> finds the first entry of the record's partition; a new one is
  appended when there is none.\<close>

fun addRecord :: "krecord \<Rightarrow> Partition list \<Rightarrow> Partition list" where
  "addRecord r [] =
     [bumpPartition r \<lparr>pt_Topic = k_Topic r, pt_Partition = k_Partition r, FirstOffset = k_Offset r, LastOffset = k_Offset r, pt_Records = 0\<rparr>]"
| "addRecord r (p # ps) = (if samePartition r p then bumpPartition r p # ps else p # addRecord r ps)"

definition partitions :: "krecord list \<Rightarrow> Partition list" where
  "partitions rs = fold addRecord rs []"

section \<open>Configuration and pending records\<close>

record Config =
  DeadLetterTopic :: string
  BatchSize :: int
  BatchTimeout :: duration
  MaxAttempts :: int
  RetryBackoff :: duration

record pending =
  p_record :: krecord
  p_event :: "decode_error + Event"

datatype retry_error = Exhausted int | WaitCut int ctx_error

text \<open>The cause of a dead letter.\<close>

datatype cause = InvalidEvent decode_error | InsertFailed retry_error

definition deadLetter :: "(cause \<Rightarrow> string) \<Rightarrow> Config \<Rightarrow> krecord \<Rightarrow> cause \<Rightarrow> krecord" where
  "deadLetter msg cfg r c =
     \<lparr>k_Topic = DeadLetterTopic cfg, k_Partition = 0, k_Offset = 0, k_Key = k_Key r, k_Value = k_Value r,
      k_Headers = k_Headers r @
        [(''dlq-original-topic'', k_Topic r), (''dlq-original-partition'', itoa (k_Partition r)),
         (''dlq-original-offset'', itoa (k_Offset r)), (''dlq-error'', msg c)]\<rparr>"

section \<open>Retries\<close>

definition maxBackoff :: duration where
  "maxBackoff = 10000000000"

text \<open>\<open>ok n\<close>: the n-th attempt succeeds; \<open>cut_at n\<close>: the context ends the pause after it. The result has the
  pauses that were started.\<close>

function retryLoop :: "Config \<Rightarrow> (int \<Rightarrow> bool) \<Rightarrow> (int \<Rightarrow> ctx_error option) \<Rightarrow> int \<Rightarrow> duration \<Rightarrow> retry_error option \<times> duration list" where
  "retryLoop cfg ok cut_at attempt delay =
     (if ok attempt then (None, [])
      else if MaxAttempts cfg \<le> attempt then (Some (Exhausted attempt), [])
      else case cut_at attempt of
             Some e \<Rightarrow> (Some (WaitCut (attempt + 1) e), [delay])
           | None \<Rightarrow>
               (case retryLoop cfg ok cut_at (attempt + 1) (min (wrap64 (delay * 2)) maxBackoff) of
                  (res, ds) \<Rightarrow> (res, delay # ds)))"
  by pat_completeness auto
termination
  by (relation "measure (\<lambda>(cfg, ok, cut_at, attempt, delay). nat (MaxAttempts cfg - attempt))") auto

declare retryLoop.simps [simp del]

definition retry :: "Config \<Rightarrow> (int \<Rightarrow> bool) \<Rightarrow> (int \<Rightarrow> ctx_error option) \<Rightarrow> retry_error option" where
  "retry cfg ok cut_at = fst (retryLoop cfg ok cut_at 1 (RetryBackoff cfg))"

section \<open>Flush\<close>

record flush_env =
  insert_ok :: "int \<Rightarrow> bool"
  insert_cut :: "int \<Rightarrow> ctx_error option"
  insert_time :: duration
  ctx_after_insert :: "ctx_error option"
  produce_ok :: bool
  record_ok :: "int \<Rightarrow> bool"
  record_cut :: "int \<Rightarrow> ctx_error option"
  commit_ok :: bool

datatype flush_error = InsertErr retry_error | ProduceErr | RecordErr retry_error | CommitErr

text \<open>\<open>InsertEvents\<close> of the ClickHouse store has nothing to send for an empty batch.\<close>

definition InsertEvents :: "bool \<Rightarrow> Event list \<Rightarrow> bool" where
  "InsertEvents sent events \<longleftrightarrow> events = [] \<or> sent"

type_synonym plog = "(Event, Batch) action list"

definition flush :: "(cause \<Rightarrow> string) \<Rightarrow> Config \<Rightarrow> flush_env \<Rightarrow> pending list \<Rightarrow> plog \<Rightarrow> flush_error option \<times> plog" where
  "flush msg cfg env its log =
     (if its = [] then (None, log)
      else
        let records = map p_record its;
            events = List.map_filter (\<lambda>it. case p_event it of Inl _ \<Rightarrow> None | Inr e \<Rightarrow> Some e) its;
            dead = List.map_filter (\<lambda>it. case p_event it of Inl d \<Rightarrow> Some (deadLetter msg cfg (p_record it) (InvalidEvent d)) | Inr _ \<Rightarrow> None) its;
            err = retry cfg (\<lambda>n. InsertEvents (insert_ok env n) events) (insert_cut env);
            log1 = (if err = None then log @ [Stored events] else log)
        in case (case err of None \<Rightarrow> None
                 | Some (WaitCut n e) \<Rightarrow> err
                 | Some (Exhausted n) \<Rightarrow> if ctx_after_insert env \<noteq> None then err else None) of
             Some e \<Rightarrow> (Some (InsertErr e), log1)
           | None \<Rightarrow>
               let dead' = (case err of None \<Rightarrow> dead
                            | Some e \<Rightarrow> dead @ List.map_filter (\<lambda>it. case p_event it of Inl _ \<Rightarrow> None
                                                  | Inr _ \<Rightarrow> Some (deadLetter msg cfg (p_record it) (InsertFailed e))) its);
                   batch = \<lparr>b_Status = (if err = None then StatusInserted else StatusDeadLettered), b_Records = int (length records),
                            b_DeadLettered = int (length dead'), b_InsertDuration = insert_time env, b_Partitions = partitions records\<rparr>
               in if dead' \<noteq> [] \<and> \<not> produce_ok env then (Some ProduceErr, log1)
                  else
                    let log2 = (if dead' \<noteq> [] then log1 @ [DeadLettered dead'] else log1)
                    in case retry cfg (record_ok env) (record_cut env) of
                         Some e \<Rightarrow> (Some (RecordErr e), log2)
                       | None \<Rightarrow>
                           (if commit_ok env then None else Some CommitErr,
                            log2 @ [Recorded batch, CommitTried records (commit_ok env)]))"

section \<open>Poll and run\<close>

datatype fetch_error = FetchCtx ctx_error | FetchClientClosed | FetchOther

record pipe =
  pp_pending :: "pending list"
  pp_deadline :: gotime

definition mkPending :: "(string \<Rightarrow> Event option) \<Rightarrow> krecord \<Rightarrow> pending" where
  "mkPending unmarshal r = \<lparr>p_record = r, p_event = Decode unmarshal (k_Value r)\<rparr>"

definition addPending :: "(string \<Rightarrow> Event option) \<Rightarrow> Config \<Rightarrow> gotime \<Rightarrow> krecord \<Rightarrow> pipe \<Rightarrow> pipe" where
  "addPending unmarshal cfg now r p =
     \<lparr>pp_pending = pp_pending p @ [mkPending unmarshal r],
      pp_deadline = (if pp_pending p = [] then time_Add now (BatchTimeout cfg) else pp_deadline p)\<rparr>"

text \<open>One turn of the loop: what \<open>PollRecords\<close> returns for a maximum, the clock after it and at the test, and
  how a flush would go. \<open>ctx_then\<close> is the context's error after the flush.\<close>

record iteration =
  it_poll :: "int \<Rightarrow> fetch_error list \<times> krecord list"
  it_now :: gotime
  it_test :: gotime
  it_flush :: flush_env
  ctx_then :: "ctx_error option"

definition poll :: "(string \<Rightarrow> Event option) \<Rightarrow> Config \<Rightarrow> iteration \<Rightarrow> pipe \<Rightarrow> plog \<Rightarrow> bool \<times> pipe \<times> plog" where
  "poll unmarshal cfg it p log =
     (let (errs, rs) = it_poll it (BatchSize cfg - int (length (pp_pending p)))
      in if FetchClientClosed \<in> set errs then (False, p, log)
         else (True, fold (addPending unmarshal cfg (it_now it)) rs p, log @ [Polled rs]))"

datatype run_result = Stopped | PollFailed | FlushFailed flush_error

text \<open>\<open>flushDue\<close> is the test of the loop; the context is alive for each element of the list and done at its end.\<close>

definition flushDue :: "Config \<Rightarrow> gotime \<Rightarrow> pipe \<Rightarrow> bool" where
  "flushDue cfg now p \<longleftrightarrow>
     BatchSize cfg \<le> int (length (pp_pending p)) \<or> 0 < length (pp_pending p) \<and> \<not> now < pp_deadline p"

fun Run :: "(string \<Rightarrow> Event option) \<Rightarrow> (cause \<Rightarrow> string) \<Rightarrow> Config \<Rightarrow> flush_env \<Rightarrow> iteration list \<Rightarrow> pipe \<Rightarrow> plog \<Rightarrow> run_result \<times> plog" where
  "Run unmarshal msg cfg final [] p log =
     (case flush msg cfg final (pp_pending p) log of
        (Some e, log') \<Rightarrow> (FlushFailed e, log')
      | (None, log') \<Rightarrow> (Stopped, log' @ [AllowRebalance]))"
| "Run unmarshal msg cfg final (it # its) p log =
     (case poll unmarshal cfg it p log of
        (False, p1, log1) \<Rightarrow> (PollFailed, log1)
      | (True, p1, log1) \<Rightarrow>
          if flushDue cfg (it_test it) p1 then
            (case flush msg cfg (it_flush it) (pp_pending p1) log1 of
               (Some e, log2) \<Rightarrow>
                 if e = CommitErr \<and> ctx_then it = None
                 then Run unmarshal msg cfg final its (p1\<lparr>pp_pending := []\<rparr>) (log2 @ [AllowRebalance])
                 else (FlushFailed e, log2)
             | (None, log2) \<Rightarrow> Run unmarshal msg cfg final its (p1\<lparr>pp_pending := []\<rparr>) (log2 @ [AllowRebalance]))
          else Run unmarshal msg cfg final its p1 (if pp_pending p1 = [] then log1 @ [AllowRebalance] else log1))"

section \<open>What a flush does\<close>

definition event_of :: "(string \<Rightarrow> Event option) \<Rightarrow> krecord \<Rightarrow> Event option" where
  "event_of unmarshal r = (case Decode unmarshal (k_Value r) of Inl _ \<Rightarrow> None | Inr e \<Rightarrow> Some e)"

definition is_dead_letter :: "(cause \<Rightarrow> string) \<Rightarrow> Config \<Rightarrow> krecord \<Rightarrow> krecord \<Rightarrow> bool" where
  "is_dead_letter msg cfg r d \<longleftrightarrow> (\<exists>c. d = deadLetter msg cfg r c)"

lemma set_map_filter: "set (List.map_filter f xs) = {y. \<exists>x\<in>set xs. f x = Some y}"
  by (force simp: List.map_filter_def)

text \<open>The records of a batch are covered by a log: stored or dead-lettered.\<close>

definition covers :: "(cause \<Rightarrow> string) \<Rightarrow> Config \<Rightarrow> pending list \<Rightarrow> plog \<Rightarrow> bool" where
  "covers msg cfg its h \<longleftrightarrow> (\<forall>it\<in>set its.
     (\<exists>e es. p_event it = Inr e \<and> Stored es \<in> set h \<and> e \<in> set es)
     \<or> (\<exists>ds c. DeadLettered ds \<in> set h \<and> deadLetter msg cfg (p_record it) c \<in> set ds))"

definition quiet :: "plog \<Rightarrow> bool" where
  "quiet h \<longleftrightarrow> polled_of h = [] \<and> (\<forall>a\<in>set h. \<not> is_release a \<and> (\<forall>b. a \<noteq> Recorded b))"

text \<open>A flush either gives up before the ledger and the commit, or it has covered every record first.\<close>

lemma flush_shape:
  obtains (empty) "its = []" "flush msg cfg env its log = (None, log)"
  | (gave_up) e m where "flush msg cfg env its log = (Some e, log @ m)" "e \<noteq> CommitErr" "quiet m"
  | (committed) m b where
      "flush msg cfg env its log = (if commit_ok env then None else Some CommitErr, log @ m @ [Recorded b, CommitTried (map p_record its) (commit_ok env)])"
      "quiet m" "covers msg cfg its m" "b_Records b = int (length its)" "b_Partitions b = partitions (map p_record its)"
proof (cases "its = []")
  case True
  show thesis by (rule empty) (simp_all add: True flush_def)
next
  case ne: False
  define events where "events = List.map_filter (\<lambda>it. case p_event it of Inl _ \<Rightarrow> None | Inr e \<Rightarrow> Some e) its"
  define dead where "dead = List.map_filter (\<lambda>it. case p_event it of Inl d \<Rightarrow> Some (deadLetter msg cfg (p_record it) (InvalidEvent d)) | Inr _ \<Rightarrow> None) its"
  define err where "err = retry cfg (\<lambda>n. InsertEvents (insert_ok env n) events) (insert_cut env)"
  define dead' where "dead' = (case err of None \<Rightarrow> dead
      | Some e \<Rightarrow> dead @ List.map_filter (\<lambda>it. case p_event it of Inl _ \<Rightarrow> None | Inr _ \<Rightarrow> Some (deadLetter msg cfg (p_record it) (InsertFailed e))) its)"
  define m1 :: plog where "m1 = (if err = None then [Stored events] else [])"
  define m2 where "m2 = (if dead' \<noteq> [] then m1 @ [DeadLettered dead'] else m1)"
  define b where "b = \<lparr>b_Status = (if err = None then StatusInserted else StatusDeadLettered), b_Records = int (length (map p_record its)),
      b_DeadLettered = int (length dead'), b_InsertDuration = insert_time env, b_Partitions = partitions (map p_record its)\<rparr>"
  define stop where "stop = (case err of None \<Rightarrow> None | Some (WaitCut n e) \<Rightarrow> err | Some (Exhausted n) \<Rightarrow> if ctx_after_insert env \<noteq> None then err else None)"
  have l1: "(if err = None then log @ [Stored events] else log) = log @ m1" by (simp add: m1_def)
  have l2: "(if dead' \<noteq> [] then (log @ m1) @ [DeadLettered dead'] else log @ m1) = log @ m2" by (simp add: m2_def)
  have f: "flush msg cfg env its log =
      (case stop of Some e \<Rightarrow> (Some (InsertErr e), log @ m1)
       | None \<Rightarrow> if dead' \<noteq> [] \<and> \<not> produce_ok env then (Some ProduceErr, log @ m1)
           else case retry cfg (record_ok env) (record_cut env) of
                  Some e \<Rightarrow> (Some (RecordErr e), log @ m2)
                | None \<Rightarrow> (if commit_ok env then None else Some CommitErr, (log @ m2) @ [Recorded b, CommitTried (map p_record its) (commit_ok env)]))"
    unfolding flush_def Let_def events_def[symmetric] dead_def[symmetric] err_def[symmetric] dead'_def[symmetric]
      b_def[symmetric] stop_def[symmetric] l1 l2
    by (rule if_not_P[OF ne])
  have q: "quiet m1" "quiet m2" by (simp_all add: quiet_def m1_def m2_def)
  have c: "covers msg cfg its m2"
    unfolding covers_def
  proof
    fix it assume it: "it \<in> set its"
    show "(\<exists>e es. p_event it = Inr e \<and> Stored es \<in> set m2 \<and> e \<in> set es)
     \<or> (\<exists>ds c. DeadLettered ds \<in> set m2 \<and> deadLetter msg cfg (p_record it) c \<in> set ds)"
    proof (cases "p_event it")
      case (Inl d)
      then have "deadLetter msg cfg (p_record it) (InvalidEvent d) \<in> set dead"
        unfolding dead_def set_map_filter using it by (auto intro!: bexI[of _ it])
      then have "deadLetter msg cfg (p_record it) (InvalidEvent d) \<in> set dead'"
        by (simp add: dead'_def split: option.split)
      then show ?thesis by (auto simp: m2_def)
    next
      case (Inr e)
      show ?thesis
      proof (cases err)
        case None
        then have "e \<in> set events" unfolding events_def set_map_filter using it Inr by (auto intro!: bexI[of _ it])
        then show ?thesis using Inr None by (auto simp: m2_def m1_def)
      next
        case (Some er)
        then have "deadLetter msg cfg (p_record it) (InsertFailed er) \<in> set dead'"
          using it Inr by (auto simp: dead'_def set_map_filter intro!: bexI[of _ it])
        then show ?thesis unfolding m2_def by auto
      qed
    qed
  qed
  show thesis
  proof (cases stop)
    case (Some e)
    show thesis by (rule gave_up[of "InsertErr e" m1]) (simp_all add: f Some q)
  next
    case None
    show thesis
    proof (cases "dead' \<noteq> [] \<and> \<not> produce_ok env")
      case True
      show thesis by (rule gave_up[of ProduceErr m1]) (simp_all add: f None True q)
    next
      case False
      show thesis
      proof (cases "retry cfg (record_ok env) (record_cut env)")
        case (Some e)
        show thesis by (rule gave_up[of "RecordErr e" m2]) (simp_all only: f None False Some q if_False option.case, simp_all)
      next
        case r: None
        show thesis by (rule committed[of m2 b]) (simp_all only: f None False r q c if_False option.case append_assoc, simp_all add: b_def)
      qed
    qed
  qed
qed

section \<open>The loop\<close>

definition flush_records :: "(string \<Rightarrow> Event option) \<Rightarrow> (cause \<Rightarrow> string) \<Rightarrow> Config \<Rightarrow> flush_env \<Rightarrow> krecord list \<Rightarrow> plog \<Rightarrow> bool \<times> plog" where
  "flush_records unmarshal msg cfg env rs log =
     (let (e, l) = flush msg cfg env (map (mkPending unmarshal) rs) log in (e = None \<or> e = Some CommitErr, l))"

lemma pipeline_covers_handled:
  "covers msg cfg (map (mkPending unmarshal) rs) h \<Longrightarrow> r \<in> set rs
    \<Longrightarrow> handled (event_of unmarshal) (is_dead_letter msg cfg) (log @ h) r"
proof -
  assume "covers msg cfg (map (mkPending unmarshal) rs) h" "r \<in> set rs"
  then have "(\<exists>e es. Decode unmarshal (k_Value r) = Inr e \<and> Stored es \<in> set h \<and> e \<in> set es)
     \<or> (\<exists>ds c. DeadLettered ds \<in> set h \<and> deadLetter msg cfg r c \<in> set ds)"
    unfolding covers_def by (auto simp: mkPending_def)
  then show ?thesis
  proof
    assume "\<exists>e es. Decode unmarshal (k_Value r) = Inr e \<and> Stored es \<in> set h \<and> e \<in> set es"
    then show ?thesis unfolding handled_def event_of_def by force
  next
    assume "\<exists>ds c. DeadLettered ds \<in> set h \<and> deadLetter msg cfg r c \<in> set ds"
    then show ?thesis unfolding handled_def is_dead_letter_def by force
  qed
qed

interpretation pl: batch_flush "event_of unmarshal" "is_dead_letter msg cfg" "flush_records unmarshal msg cfg" for unmarshal msg cfg
proof
  fix env rs and log :: plog
  show "\<exists>m. snd (flush_records unmarshal msg cfg env rs log) = log @ m \<and> polled_of m = []"
  proof (cases "rs = []")
    case False
    show ?thesis
      by (cases rule: flush_shape[of "map (mkPending unmarshal) rs" msg cfg env log]) (auto simp: flush_records_def quiet_def)
  qed (simp add: flush_records_def flush_def)
next
  fix env rs and log m1 m2 :: plog and a r
  assume e: "snd (flush_records unmarshal msg cfg env rs log) = log @ m1 @ a # m2" and "is_release a" and r: "r \<in> set rs"
  have ne: "map (mkPending unmarshal) rs \<noteq> []" using r by auto
  show "handled (event_of unmarshal) (is_dead_letter msg cfg) (log @ m1) r"
  proof (cases rule: flush_shape[of "map (mkPending unmarshal) rs" msg cfg env log])
    case empty
    then show ?thesis using ne by simp
  next
    case (gave_up er m)
    then have "log @ m1 @ a # m2 = log @ m @ []" using e by (simp add: flush_records_def)
    then have "a \<in> set m" by auto
    then show ?thesis using gave_up(3) \<open>is_release a\<close> by (auto simp: quiet_def)
  next
    case (committed m b)
    then have "log @ m1 @ a # m2 = log @ m @ [Recorded b, CommitTried (map p_record (map (mkPending unmarshal) rs)) (commit_ok env)]"
      using e by (simp add: flush_records_def)
    moreover have "\<forall>x\<in>set m. \<not> is_release x" using committed(2) by (simp add: quiet_def)
    ultimately obtain t1 where "m1 = m @ t1" using release_after[of log m1 a m2] \<open>is_release a\<close> by blast
    then show ?thesis using handled_append[OF pipeline_covers_handled[OF committed(3) r, of log], of t1] by simp
  qed
next
  fix env rs and log :: plog and r
  assume ok: "fst (flush_records unmarshal msg cfg env rs log)" and r: "r \<in> set rs"
  have ne: "map (mkPending unmarshal) rs \<noteq> []" using r by auto
  show "handled (event_of unmarshal) (is_dead_letter msg cfg) (snd (flush_records unmarshal msg cfg env rs log)) r"
  proof (cases rule: flush_shape[of "map (mkPending unmarshal) rs" msg cfg env log])
    case empty
    then show ?thesis using ne by simp
  next
    case (gave_up er m)
    then show ?thesis using ok by (simp add: flush_records_def)
  next
    case (committed m b)
    then show ?thesis using handled_append[OF pipeline_covers_handled[OF committed(3) r, of log]]
      by (auto simp: flush_records_def)
  qed
qed

lemma fold_addPending: "pp_pending (fold (addPending unmarshal cfg now) rs p) = pp_pending p @ map (mkPending unmarshal) rs"
  by (induction rs arbitrary: p) (simp_all add: addPending_def)

lemma pipeline_Run_safe:
  assumes "pp_pending p = map (mkPending unmarshal) rs" and "pl.on_track unmarshal msg cfg rs log"
  shows "safe_log (event_of unmarshal) (is_dead_letter msg cfg) (snd (Run unmarshal msg cfg final its p log))"
  using assms
proof (induction its arbitrary: p log rs)
  case Nil
  obtain e l where f: "flush msg cfg final (pp_pending p) log = (e, l)" by force
  then have fr: "flush_records unmarshal msg cfg final rs log = (e = None \<or> e = Some CommitErr, l)"
    using Nil(1) by (simp add: flush_records_def)
  note t = pl.on_track_flush[OF Nil(2), of final, unfolded fr]
  show ?case
  proof (cases e)
    case None
    then show ?thesis using pl.on_track_safe[OF pl.on_track_rebalance[OF t(2)]] f by simp
  next
    case (Some er)
    then show ?thesis using t(1) f by simp
  qed
next
  case (Cons it its)
  obtain errs new where p: "it_poll it (BatchSize cfg - int (length (pp_pending p))) = (errs, new)" by force
  show ?case
  proof (cases "FetchClientClosed \<in> set errs")
    case True
    then show ?thesis using p pl.on_track_safe[OF Cons.prems(2)] by (simp add: poll_def)
  next
    case False
    define p1 where "p1 = fold (addPending unmarshal cfg (it_now it)) new p"
    have q: "poll unmarshal cfg it p log = (True, p1, log @ [Polled new])" using p False by (simp add: poll_def p1_def)
    have p1: "pp_pending p1 = map (mkPending unmarshal) (rs @ new)" using Cons.prems(1) by (simp add: p1_def fold_addPending)
    have t: "pl.on_track unmarshal msg cfg (rs @ new) (log @ [Polled new])" by (rule pl.on_track_poll[OF Cons.prems(2)])
    obtain e l where f: "flush msg cfg (it_flush it) (pp_pending p1) (log @ [Polled new]) = (e, l)" by force
    then have fr: "flush_records unmarshal msg cfg (it_flush it) (rs @ new) (log @ [Polled new]) = (e = None \<or> e = Some CommitErr, l)"
      using p1 by (simp add: flush_records_def)
    note tf = pl.on_track_flush[OF t, of "it_flush it", unfolded fr]
    have next': "safe_log (event_of unmarshal) (is_dead_letter msg cfg) (snd (Run unmarshal msg cfg final its (p1\<lparr>pp_pending := []\<rparr>) (l @ [AllowRebalance])))"
      if "e = None \<or> e = Some CommitErr"
      by (rule Cons.IH[where rs = "[]"]) (use pl.on_track_rebalance[OF tf(2)] that in auto)
    have idle: "pl.on_track unmarshal msg cfg (rs @ new) (if pp_pending p1 = [] then (log @ [Polled new]) @ [AllowRebalance] else log @ [Polled new])"
      using t pl.on_track_rebalance[of unmarshal msg cfg "log @ [Polled new]"] p1 by auto
    show ?thesis
    proof (cases "flushDue cfg (it_test it) p1")
      case True
      then show ?thesis using q f next' tf(1) by (auto split: option.splits)
    next
      case False
      then show ?thesis using q Cons.IH[OF p1 idle] by simp
    qed
  qed
qed

section \<open>Batch sizes\<close>

definition batches_within :: "Config \<Rightarrow> plog \<Rightarrow> bool" where
  "batches_within cfg log \<longleftrightarrow> (\<forall>b. Recorded b \<in> set log \<longrightarrow> 1 \<le> b_Records b \<and> b_Records b \<le> BatchSize cfg)"

text \<open>\<open>PollRecords\<close> returns at most the requested number of records when that is positive.\<close>

definition poll_contract :: "iteration \<Rightarrow> bool" where
  "poll_contract it \<longleftrightarrow> (\<forall>n>0. int (length (snd (it_poll it n))) \<le> n)"

lemma flush_batches:
  assumes "batches_within cfg log" and "int (length its) \<le> BatchSize cfg"
  shows "batches_within cfg (snd (flush msg cfg env its log))"
proof (cases its)
  case Nil
  then show ?thesis using assms(1) by (simp add: flush_def)
next
  case (Cons it its')
  show ?thesis using assms
    by (cases rule: flush_shape[of its msg cfg env log]) (auto simp: batches_within_def quiet_def Cons)
qed

lemma Run_batches:
  assumes "\<forall>it\<in>set its. poll_contract it" and "0 < BatchSize cfg"
    and "int (length (pp_pending p)) < BatchSize cfg" and "batches_within cfg log"
  shows "batches_within cfg (snd (Run unmarshal msg cfg final its p log))"
  using assms
proof (induction its arbitrary: p log)
  case Nil
  then have "batches_within cfg (snd (flush msg cfg final (pp_pending p) log))" by (intro flush_batches) simp_all
  then show ?case by (auto simp: batches_within_def split: option.splits prod.splits)
next
  case (Cons it its)
  let ?n = "BatchSize cfg - int (length (pp_pending p))"
  obtain errs new where n: "it_poll it ?n = (errs, new)" by force
  define p1 where "p1 = fold (addPending unmarshal cfg (it_now it)) new p"
  have "poll_contract it" "0 < ?n" using Cons.prems(1,3) by simp_all
  then have "int (length (snd (it_poll it ?n))) \<le> ?n" unfolding poll_contract_def by blast
  then have "int (length new) \<le> ?n" using n by simp
  then have len: "int (length (pp_pending p1)) \<le> BatchSize cfg" by (simp add: p1_def fold_addPending)
  have log1: "batches_within cfg (log @ [Polled new])" using Cons.prems(4) by (simp add: batches_within_def)
  have next': "batches_within cfg (snd (Run unmarshal msg cfg final its p' log'))"
    if "int (length (pp_pending p')) < BatchSize cfg" "batches_within cfg log'" for p' log'
    using Cons.IH[OF _ Cons.prems(2) that] Cons.prems(1) by simp
  obtain e l where f: "flush msg cfg (it_flush it) (pp_pending p1) (log @ [Polled new]) = (e, l)" by force
  have l: "batches_within cfg l" using flush_batches[OF log1 len, of msg "it_flush it"] f by simp
  then have l': "batches_within cfg (l @ [AllowRebalance])" by (simp add: batches_within_def)
  show ?case
  proof (cases "FetchClientClosed \<in> set errs")
    case True
    then show ?thesis using n Cons.prems(4) by (simp add: poll_def)
  next
    case False
    then have q: "poll unmarshal cfg it p log = (True, p1, log @ [Polled new])" using n by (simp add: poll_def p1_def)
    show ?thesis
    proof (cases "flushDue cfg (it_test it) p1")
      case True
      have "batches_within cfg (snd (Run unmarshal msg cfg final its (p1\<lparr>pp_pending := []\<rparr>) (l @ [AllowRebalance])))"
        by (rule next') (use Cons.prems(2) l' in simp_all)
      then show ?thesis using True q f l by (simp split: option.split)
    next
      case False
      then have "int (length (pp_pending p1)) < BatchSize cfg" by (simp add: flushDue_def)
      then have "batches_within cfg (snd (Run unmarshal msg cfg final its p1 (if pp_pending p1 = [] then (log @ [Polled new]) @ [AllowRebalance] else log @ [Polled new])))"
        by (rule next') (use log1 in \<open>simp add: batches_within_def\<close>)
      then show ?thesis using False q by simp
    qed
  qed
qed

section \<open>Partition spans\<close>

definition offsets :: "krecord list \<Rightarrow> Partition \<Rightarrow> int list" where
  "offsets rs p = map k_Offset (filter (\<lambda>r. samePartition r p) rs)"

definition spans :: "krecord list \<Rightarrow> Partition \<Rightarrow> bool" where
  "spans rs p \<longleftrightarrow> offsets rs p \<noteq> [] \<and> FirstOffset p = Min (set (offsets rs p)) \<and> LastOffset p = Max (set (offsets rs p))
     \<and> pt_Records p = int (length (offsets rs p))"

definition pkey :: "Partition \<Rightarrow> string \<times> int" where
  "pkey p = (pt_Topic p, pt_Partition p)"

definition rkey :: "krecord \<Rightarrow> string \<times> int" where
  "rkey r = (k_Topic r, k_Partition r)"

lemma samePartition_key: "samePartition r p \<longleftrightarrow> pkey p = rkey r"
  by (auto simp: samePartition_def pkey_def rkey_def)

lemma bump_key [simp]: "pkey (bumpPartition r p) = pkey p"
  by (simp add: bumpPartition_def pkey_def)

lemma addRecord_keys: "map pkey (addRecord r ps) = (if rkey r \<in> set (map pkey ps) then map pkey ps else map pkey ps @ [rkey r])"
  by (induction ps) (auto simp: samePartition_key bumpPartition_def, auto simp: pkey_def rkey_def)

lemma offsets_snoc: "offsets (rs @ [r]) p = (if pkey p = rkey r then offsets rs p @ [k_Offset r] else offsets rs p)"
  by (simp add: offsets_def samePartition_key)

lemma offsets_bump: "offsets rs (bumpPartition r p) = offsets rs p"
  by (simp add: offsets_def samePartition_key)

lemma spans_bump:
  assumes "spans rs p" and "pkey p = rkey r" shows "spans (rs @ [r]) (bumpPartition r p)"
proof -
  have ne: "set (offsets rs p) \<noteq> {}" using assms(1) by (simp add: spans_def)
  have o: "offsets (rs @ [r]) (bumpPartition r p) = offsets rs p @ [k_Offset r]"
    using assms(2) by (simp add: offsets_snoc offsets_bump)
  have f: "FirstOffset (bumpPartition r p) = min (FirstOffset p) (k_Offset r)" "LastOffset (bumpPartition r p) = max (LastOffset p) (k_Offset r)"
    "pt_Records (bumpPartition r p) = pt_Records p + 1" by (simp_all add: bumpPartition_def)
  show ?thesis using assms(1) ne unfolding spans_def o f by (simp add: min.commute max.commute)
qed

lemma addRecord_spans:
  assumes "\<forall>p\<in>set ps. spans rs p" and "distinct (map pkey ps)" and "rkey r \<notin> set (map pkey ps) \<Longrightarrow> rkey r \<notin> rkey ` set rs"
  shows "\<forall>p\<in>set (addRecord r ps). spans (rs @ [r]) p"
  using assms
proof (induction ps)
  case Nil
  have "filter (\<lambda>x. rkey r = rkey x) rs = []" using Nil.prems(3) by (auto simp: filter_empty_conv)
  then show ?case by (auto simp: spans_def bumpPartition_def offsets_def samePartition_key pkey_def rkey_def)
next
  case (Cons p ps)
  show ?case
  proof (cases "samePartition r p")
    case True
    then have "spans (rs @ [r]) q" if "q \<in> set ps" for q
      using that Cons.prems(1,2) by (auto simp: samePartition_key spans_def offsets_snoc image_iff)
    moreover have "spans (rs @ [r]) (bumpPartition r p)" using spans_bump True Cons.prems(1) by (simp add: samePartition_key)
    ultimately show ?thesis using True by simp
  next
    case False
    then have "spans (rs @ [r]) p" using Cons.prems(1) by (simp add: samePartition_key spans_def offsets_snoc)
    moreover have "\<forall>q\<in>set (addRecord r ps). spans (rs @ [r]) q"
      by (rule Cons.IH) (use Cons.prems False in \<open>auto simp: samePartition_key\<close>)
    ultimately show ?thesis using False by simp
  qed
qed

section \<open>Retries end\<close>

lemma retryLoop_cases:
  obtains (ok) "ok a" "retryLoop cfg ok cut_at a delay = (None, [])"
  | (last) "\<not> ok a" "MaxAttempts cfg \<le> a" "retryLoop cfg ok cut_at a delay = (Some (Exhausted a), [])"
  | (stop) e where "\<not> ok a" "a < MaxAttempts cfg" "cut_at a = Some e" "retryLoop cfg ok cut_at a delay = (Some (WaitCut (a + 1) e), [delay])"
  | (again) "\<not> ok a" "a < MaxAttempts cfg" "cut_at a = None"
      "retryLoop cfg ok cut_at a delay = (fst (retryLoop cfg ok cut_at (a + 1) (min (wrap64 (delay * 2)) maxBackoff)),
         delay # snd (retryLoop cfg ok cut_at (a + 1) (min (wrap64 (delay * 2)) maxBackoff)))"
proof (cases "ok a")
  case True
  show thesis by (rule ok) (use True retryLoop.simps[of cfg ok cut_at a delay] in simp_all)
next
  case no: False
  show thesis
  proof (cases "MaxAttempts cfg \<le> a")
    case True
    show thesis by (rule last) (use True no retryLoop.simps[of cfg ok cut_at a delay] in simp_all)
  next
    case False
    show thesis
    proof (cases "cut_at a")
      case (Some e)
      show thesis by (rule stop[of e]) (use Some False no retryLoop.simps[of cfg ok cut_at a delay] in simp_all)
    next
      case None
      show thesis by (rule again) (use None False no retryLoop.simps[of cfg ok cut_at a delay] in \<open>simp_all add: split_beta\<close>)
    qed
  qed
qed

lemma retryLoop_induct [consumes 2, case_names step]:
  assumes "1 \<le> a" and "a \<le> max 1 (MaxAttempts cfg)"
    and "\<And>a (delay::duration). 1 \<le> a \<Longrightarrow> a \<le> max 1 (MaxAttempts cfg) \<Longrightarrow> (a < MaxAttempts cfg \<Longrightarrow> \<forall>d. P (a + 1) d) \<Longrightarrow> P a delay"
  shows "P a delay"
  using assms(1,2)
proof (induction "nat (max 1 (MaxAttempts cfg) - a)" arbitrary: a delay rule: less_induct)
  case less
  show ?case by (rule assms(3)[OF less.prems]) (use less.hyps less.prems in auto)
qed

lemma retryLoop_None:
  "1 \<le> a \<Longrightarrow> a \<le> max 1 (MaxAttempts cfg) \<Longrightarrow> fst (retryLoop cfg ok cut_at a delay) = None \<longleftrightarrow>
    (\<exists>n. a \<le> n \<and> n \<le> max 1 (MaxAttempts cfg) \<and> ok n \<and> (\<forall>k. a \<le> k \<and> k < n \<longrightarrow> \<not> ok k \<and> cut_at k = None))"
proof (induction a delay rule: retryLoop_induct)
  case (step a delay)
  have le: "a \<le> k \<longleftrightarrow> k = a \<or> a + 1 \<le> k" for k by auto
  show ?case
  proof (cases rule: retryLoop_cases[of ok a cfg cut_at delay])
    case ok
    then show ?thesis using step(2) by (auto intro!: exI[of _ a])
  next
    case last
    have "\<not> ok n" if "a \<le> n" "n \<le> max 1 (MaxAttempts cfg)" for n
    proof -
      have "n = a" using that last(2) step(1) by auto
      then show ?thesis using last(1) by simp
    qed
    then show ?thesis using last(3) by auto
  next
    case (stop e)
    then show ?thesis by (metis fst_conv le option.distinct(1) order_less_le order_refl)
  next
    case again
    have "(\<exists>n. a + 1 \<le> n \<and> n \<le> max 1 (MaxAttempts cfg) \<and> ok n \<and> (\<forall>k. a + 1 \<le> k \<and> k < n \<longrightarrow> \<not> ok k \<and> cut_at k = None)) \<longleftrightarrow>
      (\<exists>n. a \<le> n \<and> n \<le> max 1 (MaxAttempts cfg) \<and> ok n \<and> (\<forall>k. a \<le> k \<and> k < n \<longrightarrow> \<not> ok k \<and> cut_at k = None))"
      using again(1,3) by (metis le)
    then show ?thesis using step(3)[OF again(2)] again(4) by simp
  qed
qed

lemma retryLoop_Exhausted:
  "1 \<le> a \<Longrightarrow> a \<le> max 1 (MaxAttempts cfg) \<Longrightarrow> fst (retryLoop cfg ok cut_at a delay) = Some (Exhausted n)
    \<longrightarrow> n = max 1 (MaxAttempts cfg) \<and> (\<forall>k. a \<le> k \<and> k \<le> n \<longrightarrow> \<not> ok k)"
proof (induction a delay rule: retryLoop_induct)
  case (step a delay)
  show ?case
  proof (cases rule: retryLoop_cases[of ok a cfg cut_at delay])
    case last
    then have "a = max 1 (MaxAttempts cfg)" using step(1,2) by auto
    then show ?thesis using last by (auto dest: order.antisym)
  next
    case again
    have le: "a \<le> k \<longleftrightarrow> k = a \<or> a + 1 \<le> k" for k by auto
    show ?thesis
    proof (intro impI)
      assume e: "fst (retryLoop cfg ok cut_at a delay) = Some (Exhausted n)"
      have "n = max 1 (MaxAttempts cfg) \<and> (\<forall>k. a + 1 \<le> k \<and> k \<le> n \<longrightarrow> \<not> ok k)"
        using step(3)[OF again(2), THEN spec, of "min (wrap64 (delay * 2)) maxBackoff"] e unfolding again(4) fst_conv by (rule mp)
      then show "n = max 1 (MaxAttempts cfg) \<and> (\<forall>k. a \<le> k \<and> k \<le> n \<longrightarrow> \<not> ok k)" using again(1) le by auto
    qed
  qed auto
qed

lemma retryLoop_pauses:
  "1 \<le> a \<Longrightarrow> a \<le> max 1 (MaxAttempts cfg) \<Longrightarrow> int (length (snd (retryLoop cfg ok cut_at a delay))) \<le> max 1 (MaxAttempts cfg) - a
    \<and> (\<forall>d\<in>set (snd (retryLoop cfg ok cut_at a delay)). d \<le> max delay maxBackoff)
    \<and> (\<forall>d\<in>set (tl (snd (retryLoop cfg ok cut_at a delay))). d \<le> maxBackoff)"
proof (induction a delay rule: retryLoop_induct)
  case (step a delay)
  show ?case
  proof (cases rule: retryLoop_cases[of ok a cfg cut_at delay])
    case again
    define r where "r = retryLoop cfg ok cut_at (a + 1) (min (wrap64 (delay * 2)) maxBackoff)"
    have mx: "max (min (wrap64 (delay * 2)) maxBackoff) maxBackoff = maxBackoff" by simp
    note ih = step(3)[OF again(2), THEN spec, of "min (wrap64 (delay * 2)) maxBackoff", folded r_def, unfolded mx]
    have e: "snd (retryLoop cfg ok cut_at a delay) = delay # snd r" unfolding again(4) r_def by (rule snd_conv)
    have "int (length (delay # snd r)) \<le> max 1 (MaxAttempts cfg) - a" using ih[THEN conjunct1] by simp
    moreover have "d \<le> max delay maxBackoff" if "d \<in> set (delay # snd r)" for d
      using that ih[THEN conjunct2, THEN conjunct1] by (auto simp: le_max_iff_disj)
    ultimately show ?thesis unfolding e using ih[THEN conjunct2, THEN conjunct1] by (metis list.sel(3))
  next
    case (stop e)
    show ?thesis unfolding stop(4) using stop(2) by simp
  qed (use step(2) in simp_all)
qed

section \<open>Properties\<close>

text \<open>(C3) No event is lost: for every behaviour of Kafka, ClickHouse, Postgres and the clock, whenever the pipeline asks
  Kafka to commit, and whenever it lets a rebalance happen, every record it has polled so far has been
  stored in ClickHouse, if it holds a valid event, or produced to the dead-letter topic.\<close>

theorem pipeline_never_loses_records:
  "safe_log (event_of unmarshal) (is_dead_letter msg cfg)
     (snd (Run unmarshal msg cfg final its \<lparr>pp_pending = [], pp_deadline = 0\<rparr> []))"
  by (rule pipeline_Run_safe[where rs = "[]"]) simp_all

text \<open>Every batch written to the ledger has between one and \<open>BatchSize\<close> records, given that \<open>PollRecords\<close> respects
  the maximum it is asked for.\<close>

theorem pipeline_batches_bounded:
  assumes "0 < BatchSize cfg" and "\<forall>it\<in>set its. poll_contract it"
  shows "\<forall>b. Recorded b \<in> set (snd (Run unmarshal msg cfg final its \<lparr>pp_pending = [], pp_deadline = 0\<rparr> []))
    \<longrightarrow> 1 \<le> b_Records b \<and> b_Records b \<le> BatchSize cfg"
proof -
  have "batches_within cfg (snd (Run unmarshal msg cfg final its \<lparr>pp_pending = [], pp_deadline = 0\<rparr> []))"
    by (rule Run_batches) (use assms in \<open>simp_all add: batches_within_def\<close>)
  then show ?thesis by (simp add: batches_within_def)
qed

definition demo_flush :: flush_env where
  "demo_flush = \<lparr>insert_ok = (\<lambda>n. n = 2), insert_cut = (\<lambda>_. None), insert_time = 5, ctx_after_insert = None, produce_ok = True,
     record_ok = (\<lambda>_. True), record_cut = (\<lambda>_. None), commit_ok = True\<rparr>"

definition demo_record :: "int \<Rightarrow> krecord" where
  "demo_record off = \<lparr>k_Topic = ''t'', k_Partition = 0, k_Offset = off, k_Key = [], k_Value = ''v'', k_Headers = []\<rparr>"

definition demo_iter :: iteration where
  "demo_iter = \<lparr>it_poll = (\<lambda>n. ([], take (nat n) [demo_record 7, demo_record 8, demo_record 9])), it_now = 0, it_test = 0, it_flush = demo_flush, ctx_then = None\<rparr>"

definition demo_cfg :: Config where
  "demo_cfg = \<lparr>DeadLetterTopic = ''dlq'', BatchSize = 2, BatchTimeout = 10, MaxAttempts = 3, RetryBackoff = 1\<rparr>"

definition demo_unmarshal :: "string \<Rightarrow> Event option" where
  "demo_unmarshal v = Some \<lparr>ID = ''a'', Type = ''t'', Source = [], OccurredAt = minOccurredAt, Payload = v\<rparr>"

definition demo_log :: plog where
  "demo_log = snd (Run demo_unmarshal (\<lambda>_. []) demo_cfg demo_flush [demo_iter] \<lparr>pp_pending = [], pp_deadline = 0\<rparr> [])"

theorem pipeline_batches_bounded_witness:
  "\<exists>b. Recorded b \<in> set demo_log \<and> b_Records b \<le> 2 \<and> b_Partitions b =
     [\<lparr>pt_Topic = ''t'', pt_Partition = 0, FirstOffset = 7, LastOffset = 8, pt_Records = 2\<rparr>]"
proof -
  have c: "0 < BatchSize demo_cfg" "\<forall>it\<in>set [demo_iter]. poll_contract it"
    by (auto simp: demo_cfg_def demo_iter_def poll_contract_def)
  let ?b = "\<lparr>b_Status = StatusInserted, b_Records = 2, b_DeadLettered = 0, b_InsertDuration = 5,
      b_Partitions = [\<lparr>pt_Topic = ''t'', pt_Partition = 0, FirstOffset = 7, LastOffset = 8, pt_Records = 2\<rparr>]\<rparr>"
  have "list_ex (\<lambda>a. a = Recorded ?b) demo_log" by code_simp
  then obtain b where "Recorded b \<in> set demo_log" "b_Partitions b =
     [\<lparr>pt_Topic = ''t'', pt_Partition = 0, FirstOffset = 7, LastOffset = 8, pt_Records = 2\<rparr>]"
    by (force simp: list_ex_iff)
  moreover from this(1) have "b_Records b \<le> 2"
    using pipeline_batches_bounded[OF c] unfolding demo_log_def by (simp add: demo_cfg_def)
  ultimately show ?thesis by blast
qed

text \<open>The ledger row's partitions summarise the batch: one entry for each topic partition with a record, in order of
  first appearance, with the least and greatest offset and the number of its records.\<close>

theorem partitions_summarise:
  "distinct (map pkey (partitions rs)) \<and> set (map pkey (partitions rs)) = rkey ` set rs
    \<and> (\<forall>p\<in>set (partitions rs). offsets rs p \<noteq> [] \<and> FirstOffset p = Min (set (offsets rs p))
         \<and> LastOffset p = Max (set (offsets rs p)) \<and> pt_Records p = int (length (offsets rs p)))"
proof -
  have "distinct (map pkey (partitions rs)) \<and> set (map pkey (partitions rs)) = rkey ` set rs \<and> (\<forall>p\<in>set (partitions rs). spans rs p)"
  proof (induction rs rule: rev_induct)
    case (snoc r rs)
    have e: "partitions (rs @ [r]) = addRecord r (partitions rs)" by (simp add: partitions_def)
    have "distinct (map pkey (partitions (rs @ [r])))" "set (map pkey (partitions (rs @ [r]))) = rkey ` set (rs @ [r])"
      using snoc unfolding e addRecord_keys by auto
    moreover have "\<forall>p\<in>set (partitions (rs @ [r])). spans (rs @ [r]) p"
      unfolding e by (rule addRecord_spans) (use snoc in auto)
    ultimately show ?case by blast
  qed (simp add: partitions_def)
  then show ?thesis unfolding spans_def by blast
qed

theorem partitions_summarise_witness:
  "\<exists>p. partitions [demo_record 9, demo_record 7] = [p] \<and> FirstOffset p = 7 \<and> LastOffset p = 9"
proof -
  obtain p where p: "partitions [demo_record 9, demo_record 7] = [p]"
    by (simp add: partitions_def samePartition_def bumpPartition_def demo_record_def)
  note s = partitions_summarise[of "[demo_record 9, demo_record 7]", unfolded p]
  have "pkey p \<in> rkey ` set [demo_record 9, demo_record 7]" using s by auto
  then have "offsets [demo_record 9, demo_record 7] p = [9, 7]"
    by (auto simp: offsets_def samePartition_key rkey_def demo_record_def)
  then show ?thesis using s p by simp
qed

text \<open>(C23) A retried operation ends: it makes at most \<open>max 1 MaxAttempts\<close> attempts, it succeeds exactly if an attempt does before
  the context ends a pause, it reports exhaustion only after every attempt failed, and every pause
  after the first is at most 10 seconds.\<close>

theorem pipeline_retry_outcome:
  "(retry cfg ok cut_at = None \<longleftrightarrow>
      (\<exists>n. 1 \<le> n \<and> n \<le> max 1 (MaxAttempts cfg) \<and> ok n \<and> (\<forall>k. 1 \<le> k \<and> k < n \<longrightarrow> \<not> ok k \<and> cut_at k = None)))
    \<and> (\<forall>n. retry cfg ok cut_at = Some (Exhausted n) \<longrightarrow> n = max 1 (MaxAttempts cfg) \<and> (\<forall>k. 1 \<le> k \<and> k \<le> n \<longrightarrow> \<not> ok k))
    \<and> int (length (snd (retryLoop cfg ok cut_at 1 (RetryBackoff cfg)))) \<le> max 1 (MaxAttempts cfg) - 1
    \<and> (\<forall>d\<in>set (tl (snd (retryLoop cfg ok cut_at 1 (RetryBackoff cfg)))). d \<le> maxBackoff)"
proof -
  have b: "1 \<le> (1::int)" "1 \<le> max 1 (MaxAttempts cfg)" by simp_all
  note r = retryLoop_None[OF b, of ok cut_at "RetryBackoff cfg"] retryLoop_pauses[OF b, of ok cut_at "RetryBackoff cfg"]
  show ?thesis unfolding retry_def using r retryLoop_Exhausted[OF b, of ok cut_at "RetryBackoff cfg"] by blast
qed

theorem pipeline_retry_outcome_witness:
  "retry demo_cfg (\<lambda>n. n = 3) (\<lambda>_. None) = None \<and> retry demo_cfg (\<lambda>n. n = 4) (\<lambda>_. None) \<noteq> None"
proof -
  have m: "max 1 (MaxAttempts demo_cfg) = 3" by (simp add: demo_cfg_def)
  note o = pipeline_retry_outcome[of demo_cfg, THEN conjunct1, unfolded m]
  have "retry demo_cfg (\<lambda>n. n = 3) (\<lambda>_. None) = None"
    unfolding o by (intro exI[of _ 3]) simp
  moreover have "retry demo_cfg (\<lambda>n. n = 4) (\<lambda>_. None) \<noteq> None"
    unfolding o by simp
  ultimately show ?thesis by blast
qed

end
