(* ===== verification/Kafka_Consumer.thy ===== *)
theory Kafka_Consumer
  imports At_Least_Once
begin

text \<open>
  App 07: the batcher (\<^verbatim>\<open>internal/batch/batch.go\<close>), the retry policy (\<^verbatim>\<open>internal/retry/retry.go\<close>), the events and
  the sink (\<^verbatim>\<open>internal/event/event.go\<close>, \<^verbatim>\<open>internal/sink/sink.go\<close>) and the consumer
  (\<^verbatim>\<open>internal/consumer/consumer.go\<close>).

  Kafka and the sink's writer are parameters: \<open>flush_env\<close> tells how the calls of a flush end. JSON is
  the parameters \<open>unmarshal\<close> and \<open>encode\<close>. The consumer's loop is a client of \<open>batch_flush\<close>.
\<close>

section \<open>Batcher\<close>

record 'a Batcher =
  bt_size :: int
  bt_timeout :: duration
  bt_items :: "'a list"
  bt_deadline :: gotime

text \<open>\<open>make([]T, 0, size)\<close> panics on a negative capacity and on one beyond \<open>limit\<close>.\<close>

definition batch_New :: "int \<Rightarrow> int \<Rightarrow> duration \<Rightarrow> 'a Batcher option" where
  "batch_New limit n timeout =
     (if makeable limit n then Some \<lparr>bt_size = n, bt_timeout = timeout, bt_items = [], bt_deadline = 0\<rparr> else None)"

definition Add :: "'a Batcher \<Rightarrow> gotime \<Rightarrow> 'a \<Rightarrow> 'a Batcher" where
  "Add b now item =
     (let b1 = (if length (bt_items b) = 0 then b\<lparr>bt_deadline := time_Add now (bt_timeout b)\<rparr> else b)
      in b1\<lparr>bt_items := bt_items b1 @ [item]\<rparr>)"

definition batch_Len :: "'a Batcher \<Rightarrow> int" where
  "batch_Len b = int (length (bt_items b))"

definition Room :: "'a Batcher \<Rightarrow> int" where
  "Room b = max (bt_size b - batch_Len b) 0"

definition Deadline :: "'a Batcher \<Rightarrow> gotime \<times> bool" where
  "Deadline b = (bt_deadline b, 0 < batch_Len b)"

definition Due :: "'a Batcher \<Rightarrow> gotime \<Rightarrow> bool" where
  "Due b now =
     (if batch_Len b = 0 then False
      else bt_size b \<le> batch_Len b \<or> \<not> now < bt_deadline b)"

definition Drain :: "'a Batcher \<Rightarrow> 'a list \<times> 'a Batcher" where
  "Drain b = (bt_items b, b\<lparr>bt_items := [], bt_deadline := 0\<rparr>)"

fun addAll :: "'a Batcher \<Rightarrow> (gotime \<times> 'a) list \<Rightarrow> 'a Batcher" where
  "addAll b [] = b"
| "addAll b ((now, x) # xs) = addAll (Add b now x) xs"

section \<open>Retry policy\<close>

record Policy =
  attempts :: int
  baseDelay :: duration
  maxDelay :: duration
  jitter :: "duration \<Rightarrow> duration"

definition retry_New :: "int \<Rightarrow> duration \<Rightarrow> duration \<Rightarrow> (duration \<Rightarrow> duration) \<Rightarrow> Policy" where
  "retry_New n base cap randN = \<lparr>attempts = max n 1, baseDelay = base, maxDelay = cap, jitter = randN\<rparr>"

text \<open>A negative shift count panics (\<open>None\<close>).\<close>

definition backoff :: "Policy \<Rightarrow> int \<Rightarrow> duration option" where
  "backoff p n =
     (let shift = n - 1
      in if shift < 0 then None
         else let ceiling = (if shift < 63 \<and> baseDelay p \<le> maxDelay p div 2 ^ nat shift
                             then wrap64 (baseDelay p * 2 ^ nat shift) else maxDelay p)
              in Some (if ceiling \<le> 0 then 0 else jitter p ceiling))"

datatype retry_error = ErrExhausted int | WaitBefore int ctx_error

text \<open>\<open>ok n\<close>: the n-th call of the operation succeeds, counted from 1; \<open>cut_at n\<close>: the context ends the pause
  before it. The outer option is \<open>None\<close> only for a panic.\<close>

fun doLoop :: "Policy \<Rightarrow> (int \<Rightarrow> bool) \<Rightarrow> (int \<Rightarrow> ctx_error option) \<Rightarrow> nat \<Rightarrow> int \<Rightarrow> (retry_error option) option" where
  "doLoop p ok cut_at 0 attempt = Some (Some (ErrExhausted (attempts p)))"
| "doLoop p ok cut_at (Suc left) attempt =
     (if 0 < attempt then
        (case backoff p attempt of
           None \<Rightarrow> None
         | Some d \<Rightarrow>
             (case cut_at (attempt + 1) of
                Some e \<Rightarrow> Some (Some (WaitBefore (attempt + 1) e))
              | None \<Rightarrow> if ok (attempt + 1) then Some None else doLoop p ok cut_at left (attempt + 1)))
      else if ok (attempt + 1) then Some None else doLoop p ok cut_at left (attempt + 1))"

definition Do :: "Policy \<Rightarrow> (int \<Rightarrow> bool) \<Rightarrow> (int \<Rightarrow> ctx_error option) \<Rightarrow> (retry_error option) option" where
  "Do p ok cut_at = doLoop p ok cut_at (nat (attempts p)) 0"

section \<open>Events and sink\<close>

record Event =
  ID :: string
  Type :: string
  Source :: string
  OccurredAt :: gotime
  Payload :: string

datatype decode_error = BadJson | MissingId | MissingType | MissingOccurredAt

definition Decode :: "(string \<Rightarrow> Event option) \<Rightarrow> string \<Rightarrow> decode_error + Event" where
  "Decode unmarshal data =
     (case unmarshal data of
        None \<Rightarrow> Inl BadJson
      | Some e \<Rightarrow>
          if ID e = [] then Inl MissingId
          else if Type e = [] then Inl MissingType
          else if OccurredAt e = 0 then Inl MissingOccurredAt
          else Inr e)"

datatype sink_error = SinkCtx ctx_error | EncodeFailed string | WriteFailed

fun encodeAll :: "(Event \<Rightarrow> string option) \<Rightarrow> string \<Rightarrow> Event list \<Rightarrow> sink_error + string" where
  "encodeAll encode buf [] = Inr buf"
| "encodeAll encode buf (e # es) =
     (case encode e of None \<Rightarrow> Inl (EncodeFailed (ID e)) | Some line \<Rightarrow> encodeAll encode (buf @ line @ [char_of (10::nat)]) es)"

text \<open>\<open>written\<close> is how many bytes of the buffer the writer takes; the result has the bytes that reached it.\<close>

definition sink_Write :: "(Event \<Rightarrow> string option) \<Rightarrow> ctx_error option \<Rightarrow> (string \<Rightarrow> nat) \<Rightarrow> Event list \<Rightarrow> sink_error option \<times> string" where
  "sink_Write encode ctx written events =
     (case ctx of
        Some e \<Rightarrow> (Some (SinkCtx e), [])
      | None \<Rightarrow>
          (case encodeAll encode [] events of
             Inl e \<Rightarrow> (Some e, [])
           | Inr buf \<Rightarrow> (if written buf < length buf then Some WriteFailed else None, take (written buf) buf)))"

section \<open>Consumer\<close>

record Config =
  DeadLetterTopic :: string
  BatchSize :: int
  BatchTimeout :: duration

record pending =
  p_record :: krecord
  p_event :: "decode_error + Event"

datatype cause = InvalidEvent decode_error | WriteFailedFor retry_error

definition deadLetter :: "(cause \<Rightarrow> string) \<Rightarrow> Config \<Rightarrow> krecord \<Rightarrow> cause \<Rightarrow> krecord" where
  "deadLetter msg cfg r c =
     \<lparr>k_Topic = DeadLetterTopic cfg, k_Partition = 0, k_Offset = 0, k_Key = k_Key r, k_Value = k_Value r,
      k_Headers = k_Headers r @
        [(''dlq-original-topic'', k_Topic r), (''dlq-original-partition'', itoa (k_Partition r)),
         (''dlq-original-offset'', itoa (k_Offset r)), (''dlq-error'', msg c)]\<rparr>"

record flush_env =
  write_ok :: "int \<Rightarrow> bool"
  write_cut :: "int \<Rightarrow> ctx_error option"
  ctx_after_write :: "ctx_error option"
  produce_ok :: bool
  commit_ok :: bool

definition consumer_write :: "Policy \<Rightarrow> flush_env \<Rightarrow> Event list \<Rightarrow> (retry_error option) option" where
  "consumer_write pol env events =
     (if length events = 0 then Some None else Do pol (write_ok env) (write_cut env))"

type_synonym clog = "(Event, unit) action list"

datatype flush_error = WriteErr retry_error | ProduceErr

text \<open>The split of the items: their records, the valid ones' records and events, and dead letters for the rest.\<close>

fun splitItems :: "(cause \<Rightarrow> string) \<Rightarrow> Config \<Rightarrow> pending list \<Rightarrow> krecord list \<times> krecord list \<times> Event list \<times> krecord list" where
  "splitItems msg cfg [] = ([], [], [], [])"
| "splitItems msg cfg (it # its) =
     (case splitItems msg cfg its of
        (records, valid, events, dead) \<Rightarrow>
          (case p_event it of
             Inl d \<Rightarrow> (p_record it # records, valid, events, deadLetter msg cfg (p_record it) (InvalidEvent d) # dead)
           | Inr e \<Rightarrow> (p_record it # records, p_record it # valid, e # events, dead)))"

definition flushItems :: "(cause \<Rightarrow> string) \<Rightarrow> Policy \<Rightarrow> Config \<Rightarrow> flush_env \<Rightarrow> pending list \<Rightarrow> clog \<Rightarrow> (flush_error option \<times> clog) option" where
  "flushItems msg pol cfg env its log =
     (if length its = 0 then Some (None, log)
      else case splitItems msg cfg its of
        (records, valid, events, dead) \<Rightarrow>
          (case consumer_write pol env events of
             None \<Rightarrow> None
           | Some err \<Rightarrow>
               let log1 = (if err = None then log @ [Stored events] else log);
                   dead' = (case err of None \<Rightarrow> dead | Some e \<Rightarrow> dead @ map (\<lambda>r. deadLetter msg cfg r (WriteFailedFor e)) valid)
               in case (case err of None \<Rightarrow> None
                        | Some (WaitBefore n e) \<Rightarrow> err
                        | Some (ErrExhausted n) \<Rightarrow> if ctx_after_write env \<noteq> None then err else None) of
                    Some e \<Rightarrow> Some (Some (WriteErr e), log1)
                  | None \<Rightarrow>
                      if 0 < length dead' \<and> \<not> produce_ok env then Some (Some ProduceErr, log1)
                      else Some (None, (if 0 < length dead' then log1 @ [DeadLettered dead'] else log1) @ [CommitTried records (commit_ok env)])))"

text \<open>The whole method: drain the batch, then hand the items over.\<close>

definition flush :: "(cause \<Rightarrow> string) \<Rightarrow> Policy \<Rightarrow> Config \<Rightarrow> flush_env \<Rightarrow> pending Batcher \<Rightarrow> clog
    \<Rightarrow> (flush_error option \<times> pending Batcher \<times> clog) option" where
  "flush msg pol cfg env b log =
     (case Drain b of
        (its, b') \<Rightarrow>
          (case flushItems msg pol cfg env its log of None \<Rightarrow> None | Some (e, log') \<Rightarrow> Some (e, b', log')))"

datatype fetch_error = FetchCtx ctx_error | FetchClientClosed | FetchOther

record iteration =
  it_poll :: "int \<Rightarrow> fetch_error list \<times> krecord list"
  it_now :: gotime
  it_test :: gotime
  it_flush :: flush_env

definition mkPending :: "(string \<Rightarrow> Event option) \<Rightarrow> krecord \<Rightarrow> pending" where
  "mkPending unmarshal r = \<lparr>p_record = r, p_event = Decode unmarshal (k_Value r)\<rparr>"

definition poll :: "(string \<Rightarrow> Event option) \<Rightarrow> iteration \<Rightarrow> pending Batcher \<Rightarrow> clog \<Rightarrow> bool \<times> pending Batcher \<times> clog" where
  "poll unmarshal it b log =
     (let (errs, rs) = it_poll it (Room b)
      in if FetchClientClosed \<in> set errs then (False, b, log)
         else (True, fold (\<lambda>r b. Add b (it_now it) (mkPending unmarshal r)) rs b, log @ [Polled rs]))"

datatype run_result = Stopped | PollFailed | FlushFailed flush_error | Panicked

text \<open>The context is alive at the start of each iteration of the list and done at its end.\<close>

fun Run :: "(string \<Rightarrow> Event option) \<Rightarrow> (cause \<Rightarrow> string) \<Rightarrow> Policy \<Rightarrow> Config \<Rightarrow> flush_env \<Rightarrow> iteration list
    \<Rightarrow> pending Batcher \<Rightarrow> clog \<Rightarrow> run_result \<times> clog" where
  "Run unmarshal msg pol cfg final [] b log =
     (case flush msg pol cfg final b log of
        None \<Rightarrow> (Panicked, log)
      | Some (Some e, b', log') \<Rightarrow> (FlushFailed e, log')
      | Some (None, b', log') \<Rightarrow> (Stopped, log' @ [AllowRebalance]))"
| "Run unmarshal msg pol cfg final (it # its) b log =
     (case poll unmarshal it b log of
        (False, b1, log1) \<Rightarrow> (PollFailed, log1)
      | (True, b1, log1) \<Rightarrow>
          (case (if Due b1 (it_test it) then flush msg pol cfg (it_flush it) b1 log1 else Some (None, b1, log1)) of
             None \<Rightarrow> (Panicked, log1)
           | Some (Some e, b2, log2) \<Rightarrow> (FlushFailed e, log2)
           | Some (None, b2, log2) \<Rightarrow>
               Run unmarshal msg pol cfg final its b2 (if batch_Len b2 = 0 then log2 @ [AllowRebalance] else log2)))"

section \<open>Retries\<close>

lemma doLoop_total: "0 \<le> a \<Longrightarrow> doLoop p ok cut_at n a \<noteq> None"
  by (induction n arbitrary: a) (auto simp: backoff_def Let_def split: option.splits)

lemma consumer_write_total: "\<exists>err. consumer_write pol env events = Some err"
  using doLoop_total[of 0 pol "write_ok env" "write_cut env" "nat (attempts pol)"]
  by (auto simp: consumer_write_def Do_def)

lemma doLoop_Exhausted:
  "doLoop p ok cut_at n a = Some (Some (ErrExhausted m)) \<Longrightarrow> m = attempts p \<and> (\<forall>k. a < k \<and> k \<le> a + int n \<longrightarrow> \<not> ok k)"
proof (induction n arbitrary: a)
  case (Suc n)
  have no: "\<not> ok (a + 1)" and d: "doLoop p ok cut_at n (a + 1) = Some (Some (ErrExhausted m))"
    using Suc.prems by (auto split: if_splits option.splits)
  have "k = a + 1 \<or> a + 1 < k" if "a < k" for k using that by linarith
  then show ?case using Suc.IH[OF d] no by force
qed auto

section \<open>What a flush does\<close>

definition event_of :: "(string \<Rightarrow> Event option) \<Rightarrow> krecord \<Rightarrow> Event option" where
  "event_of unmarshal r = (case Decode unmarshal (k_Value r) of Inl _ \<Rightarrow> None | Inr e \<Rightarrow> Some e)"

definition is_dead_letter :: "(cause \<Rightarrow> string) \<Rightarrow> Config \<Rightarrow> krecord \<Rightarrow> krecord \<Rightarrow> bool" where
  "is_dead_letter msg cfg r d \<longleftrightarrow> (\<exists>c. d = deadLetter msg cfg r c)"

definition covers :: "(cause \<Rightarrow> string) \<Rightarrow> Config \<Rightarrow> pending list \<Rightarrow> clog \<Rightarrow> bool" where
  "covers msg cfg its h \<longleftrightarrow> (\<forall>it\<in>set its.
     (\<exists>e es. p_event it = Inr e \<and> Stored es \<in> set h \<and> e \<in> set es)
     \<or> (\<exists>ds c. DeadLettered ds \<in> set h \<and> deadLetter msg cfg (p_record it) c \<in> set ds))"

definition quiet :: "clog \<Rightarrow> bool" where
  "quiet h \<longleftrightarrow> polled_of h = [] \<and> (\<forall>a\<in>set h. \<not> is_release a)"

lemma splitItems_props:
  assumes "splitItems msg cfg its = (records, valid, events, dead)"
  shows "records = map p_record its"
    and "it \<in> set its \<Longrightarrow> p_event it = Inl d \<Longrightarrow> deadLetter msg cfg (p_record it) (InvalidEvent d) \<in> set dead"
    and "it \<in> set its \<Longrightarrow> p_event it = Inr e \<Longrightarrow> e \<in> set events \<and> p_record it \<in> set valid"
  using assms by (induction its arbitrary: records valid events dead) (auto split: prod.splits sum.splits)

lemma flushItems_shape:
  obtains (empty) "its = []" "flushItems msg pol cfg env its log = Some (None, log)"
  | (gave_up) e m where "flushItems msg pol cfg env its log = Some (Some e, log @ m)" "quiet m"
  | (committed) m where "flushItems msg pol cfg env its log = Some (None, log @ m @ [CommitTried (map p_record its) (commit_ok env)])"
      "quiet m" "covers msg cfg its m"
proof (cases "its = []")
  case True
  show thesis by (rule empty) (simp_all add: True flushItems_def)
next
  case ne: False
  obtain records valid events dead where sp: "splitItems msg cfg its = (records, valid, events, dead)" by (metis prod_cases4)
  note props = splitItems_props[OF sp]
  obtain err where w: "consumer_write pol env events = Some err" using consumer_write_total by blast
  define dead' where "dead' = (case err of None \<Rightarrow> dead | Some e \<Rightarrow> dead @ map (\<lambda>r. deadLetter msg cfg r (WriteFailedFor e)) valid)"
  define stop where "stop = (case err of None \<Rightarrow> None | Some (WaitBefore n e) \<Rightarrow> err
      | Some (ErrExhausted n) \<Rightarrow> if ctx_after_write env \<noteq> None then err else None)"
  define m1 :: clog where "m1 = (if err = None then [Stored events] else [])"
  define m2 where "m2 = (if 0 < length dead' then m1 @ [DeadLettered dead'] else m1)"
  have l1: "(if err = None then log @ [Stored events] else log) = log @ m1" by (simp add: m1_def)
  have l2: "(if 0 < length dead' then (log @ m1) @ [DeadLettered dead'] else log @ m1) = log @ m2" by (simp add: m2_def)
  have f: "flushItems msg pol cfg env its log =
      (case stop of Some e \<Rightarrow> Some (Some (WriteErr e), log @ m1)
       | None \<Rightarrow> if 0 < length dead' \<and> \<not> produce_ok env then Some (Some ProduceErr, log @ m1)
           else Some (None, (log @ m2) @ [CommitTried (map p_record its) (commit_ok env)]))"
    unfolding flushItems_def sp prod.case w option.case Let_def dead'_def[symmetric] stop_def[symmetric] l1 l2 props(1)
    by (rule if_not_P) (use ne in simp)
  have q: "quiet m1" "quiet m2" by (simp_all add: quiet_def m1_def m2_def)
  have c: "covers msg cfg its m2"
    unfolding covers_def
  proof
    fix it assume it: "it \<in> set its"
    show "(\<exists>e es. p_event it = Inr e \<and> Stored es \<in> set m2 \<and> e \<in> set es)
     \<or> (\<exists>ds c. DeadLettered ds \<in> set m2 \<and> deadLetter msg cfg (p_record it) c \<in> set ds)"
    proof (cases "p_event it")
      case (Inl d)
      then have "deadLetter msg cfg (p_record it) (InvalidEvent d) \<in> set dead'"
        using props(2)[OF it Inl] by (simp add: dead'_def split: option.split)
      then show ?thesis unfolding m2_def by auto
    next
      case (Inr e)
      note v = props(3)[OF it Inr]
      show ?thesis
      proof (cases err)
        case None
        then show ?thesis using Inr v by (auto simp: m2_def m1_def)
      next
        case (Some er)
        then have "deadLetter msg cfg (p_record it) (WriteFailedFor er) \<in> set dead'" using v by (simp add: dead'_def)
        then show ?thesis unfolding m2_def by auto
      qed
    qed
  qed
  show thesis
  proof (cases stop)
    case (Some e)
    show thesis by (rule gave_up[of "WriteErr e" m1]) (simp_all add: f Some q)
  next
    case None
    show thesis
    proof (cases "0 < length dead' \<and> \<not> produce_ok env")
      case True
      show thesis by (rule gave_up[of ProduceErr m1]) (simp_all only: f None True q option.case if_True simp_thms)
    next
      case False
      show thesis by (rule committed[of m2]) (simp_all only: f None False q c if_False option.case append_assoc)
    qed
  qed
qed

section \<open>The loop\<close>

definition flush_records :: "(string \<Rightarrow> Event option) \<Rightarrow> (cause \<Rightarrow> string) \<Rightarrow> Policy \<Rightarrow> Config \<Rightarrow> flush_env \<Rightarrow> krecord list \<Rightarrow> clog \<Rightarrow> bool \<times> clog" where
  "flush_records unmarshal msg pol cfg env rs log =
     (case flushItems msg pol cfg env (map (mkPending unmarshal) rs) log of
        None \<Rightarrow> (False, log) | Some (e, l) \<Rightarrow> (e = None, l))"

lemma consumer_covers_handled:
  assumes "covers msg cfg (map (mkPending unmarshal) rs) h" and "r \<in> set rs"
  shows "handled (event_of unmarshal) (is_dead_letter msg cfg) (log @ h) r"
proof -
  have "(\<exists>e es. Decode unmarshal (k_Value r) = Inr e \<and> Stored es \<in> set h \<and> e \<in> set es)
     \<or> (\<exists>ds c. DeadLettered ds \<in> set h \<and> deadLetter msg cfg r c \<in> set ds)"
    using assms unfolding covers_def by (auto simp: mkPending_def)
  then show ?thesis
  proof
    assume "\<exists>e es. Decode unmarshal (k_Value r) = Inr e \<and> Stored es \<in> set h \<and> e \<in> set es"
    then show ?thesis unfolding handled_def event_of_def by force
  next
    assume "\<exists>ds c. DeadLettered ds \<in> set h \<and> deadLetter msg cfg r c \<in> set ds"
    then show ?thesis unfolding handled_def is_dead_letter_def by force
  qed
qed

interpretation kc: batch_flush "event_of unmarshal" "is_dead_letter msg cfg" "flush_records unmarshal msg pol cfg" for unmarshal msg pol cfg
proof
  fix env rs and log :: clog
  show "\<exists>m. snd (flush_records unmarshal msg pol cfg env rs log) = log @ m \<and> polled_of m = []"
    by (cases rule: flushItems_shape[of "map (mkPending unmarshal) rs" msg pol cfg env log])
      (auto simp: flush_records_def quiet_def)
next
  fix env rs and log m1 m2 :: clog and a r
  assume e: "snd (flush_records unmarshal msg pol cfg env rs log) = log @ m1 @ a # m2" and a: "is_release a" and r: "r \<in> set rs"
  show "handled (event_of unmarshal) (is_dead_letter msg cfg) (log @ m1) r"
  proof (cases rule: flushItems_shape[of "map (mkPending unmarshal) rs" msg pol cfg env log])
    case empty
    then show ?thesis using r by simp
  next
    case (gave_up er m)
    then have "a \<in> set m" using e by (auto simp: flush_records_def)
    then show ?thesis using gave_up(2) a by (auto simp: quiet_def)
  next
    case (committed m)
    then have "log @ m1 @ a # m2 = log @ m @ [CommitTried (map p_record (map (mkPending unmarshal) rs)) (commit_ok env)]"
      using e by (simp add: flush_records_def)
    moreover have "\<forall>x\<in>set m. \<not> is_release x" using committed(2) by (simp add: quiet_def)
    ultimately obtain t1 where "m1 = m @ t1" using release_after[of log m1 a m2] a by blast
    then show ?thesis using handled_append[OF consumer_covers_handled[OF committed(3) r, of log], of t1] by simp
  qed
next
  fix env rs and log :: clog and r
  assume ok: "fst (flush_records unmarshal msg pol cfg env rs log)" and r: "r \<in> set rs"
  show "handled (event_of unmarshal) (is_dead_letter msg cfg) (snd (flush_records unmarshal msg pol cfg env rs log)) r"
  proof (cases rule: flushItems_shape[of "map (mkPending unmarshal) rs" msg pol cfg env log])
    case (committed m)
    then show ?thesis using handled_append[OF consumer_covers_handled[OF committed(3) r, of log]]
      by (auto simp: flush_records_def)
  qed (use ok r in \<open>simp_all add: flush_records_def\<close>)
qed

lemma fold_Add: "bt_items (fold (\<lambda>r b. Add b now (mkPending unmarshal r)) rs b) = bt_items b @ map (mkPending unmarshal) rs"
  by (induction rs arbitrary: b) (simp_all add: Add_def Let_def)

lemma flush_as_records:
  assumes "bt_items b = map (mkPending unmarshal) rs"
  shows "\<exists>e b' l. flush msg pol cfg env b log = Some (e, b', l) \<and> bt_items b' = [] \<and> flush_records unmarshal msg pol cfg env rs log = (e = None, l)"
  by (cases rule: flushItems_shape[of "map (mkPending unmarshal) rs" msg pol cfg env log])
    (simp_all add: flush_def Drain_def assms flush_records_def)

lemma consumer_Run_safe:
  assumes "bt_items b = map (mkPending unmarshal) rs" and "kc.on_track unmarshal msg cfg rs log"
  shows "safe_log (event_of unmarshal) (is_dead_letter msg cfg) (snd (Run unmarshal msg pol cfg final its b log))"
  using assms
proof (induction its arbitrary: b log rs)
  case Nil
  obtain e b' l where f: "flush msg pol cfg final b log = Some (e, b', l)" "flush_records unmarshal msg pol cfg final rs log = (e = None, l)"
    using flush_as_records[OF Nil(1)] by blast
  note t = kc.on_track_flush[OF Nil(2), of pol final, unfolded f(2)]
  show ?case
  proof (cases e)
    case None
    then show ?thesis using kc.on_track_safe[OF kc.on_track_rebalance[OF t(2)]] f by simp
  qed (use t(1) f in simp)
next
  case (Cons it its)
  obtain errs new where p: "it_poll it (Room b) = (errs, new)" by force
  show ?case
  proof (cases "FetchClientClosed \<in> set errs")
    case True
    then show ?thesis using p kc.on_track_safe[OF Cons.prems(2)] by (simp add: poll_def)
  next
    case False
    define b1 where "b1 = fold (\<lambda>r b. Add b (it_now it) (mkPending unmarshal r)) new b"
    have q: "poll unmarshal it b log = (True, b1, log @ [Polled new])" using p False by (simp add: poll_def b1_def)
    have b1: "bt_items b1 = map (mkPending unmarshal) (rs @ new)" using Cons.prems(1) by (simp add: b1_def fold_Add)
    have t: "kc.on_track unmarshal msg cfg (rs @ new) (log @ [Polled new])" by (rule kc.on_track_poll[OF Cons.prems(2)])
    show ?thesis
    proof (cases "Due b1 (it_test it)")
      case True
      obtain e b2 l where f: "flush msg pol cfg (it_flush it) b1 (log @ [Polled new]) = Some (e, b2, l)" "bt_items b2 = []"
        "flush_records unmarshal msg pol cfg (it_flush it) (rs @ new) (log @ [Polled new]) = (e = None, l)"
        using flush_as_records[OF b1] by blast
      note tf = kc.on_track_flush[OF t, of pol "it_flush it", unfolded f(3)]
      show ?thesis
      proof (cases e)
        case None
        have "safe_log (event_of unmarshal) (is_dead_letter msg cfg) (snd (Run unmarshal msg pol cfg final its b2 (l @ [AllowRebalance])))"
          by (rule Cons.IH[where rs = "[]"]) (use kc.on_track_rebalance[OF tf(2)] None f(2) in simp_all)
        then show ?thesis using True q f None by (simp add: batch_Len_def)
      qed (use True q f tf(1) in simp)
    next
      case False
      have "kc.on_track unmarshal msg cfg (rs @ new) (if batch_Len b1 = 0 then (log @ [Polled new]) @ [AllowRebalance] else log @ [Polled new])"
        using t kc.on_track_rebalance[of unmarshal msg cfg "log @ [Polled new]"] b1 by (cases "rs @ new") (simp_all add: batch_Len_def)
      then show ?thesis using q False Cons.IH[OF b1] by simp
    qed
  qed
qed

section \<open>Properties\<close>

text \<open>(C4) No event is lost: for every behaviour of Kafka, the sink and the clock, whenever the consumer asks Kafka to
  commit, and whenever it lets a rebalance happen, every record it has polled so far was written to the
  sink, if it holds a valid event, or produced to the dead-letter topic.\<close>

theorem consumer_never_loses_records:
  assumes "batch_New limit (BatchSize cfg) (BatchTimeout cfg) = Some b"
  shows "safe_log (event_of unmarshal) (is_dead_letter msg cfg) (snd (Run unmarshal msg pol cfg final its b []))"
  by (rule consumer_Run_safe[where rs = "[]"]) (use assms in \<open>auto simp: batch_New_def split: if_splits\<close>)

definition demo_cfg :: Config where
  "demo_cfg = \<lparr>DeadLetterTopic = ''dlq'', BatchSize = 1, BatchTimeout = 10\<rparr>"

definition demo_env :: flush_env where
  "demo_env = \<lparr>write_ok = (\<lambda>n. n = 2), write_cut = (\<lambda>_. None), ctx_after_write = None, produce_ok = True, commit_ok = True\<rparr>"

definition demo_record :: krecord where
  "demo_record = \<lparr>k_Topic = ''t'', k_Partition = 0, k_Offset = 7, k_Key = [], k_Value = ''v'', k_Headers = []\<rparr>"

definition demo_iter :: iteration where
  "demo_iter = \<lparr>it_poll = (\<lambda>n. ([], [demo_record])), it_now = 0, it_test = 0, it_flush = demo_env\<rparr>"

definition demo_unmarshal :: "string \<Rightarrow> Event option" where
  "demo_unmarshal v = Some \<lparr>ID = ''a'', Type = ''t'', Source = [], OccurredAt = 5, Payload = v\<rparr>"

definition demo_batcher :: "pending Batcher" where
  "demo_batcher = \<lparr>bt_size = 1, bt_timeout = 10, bt_items = [], bt_deadline = 0\<rparr>"

definition demo_policy :: Policy where
  "demo_policy = retry_New 3 1 8 (\<lambda>n. n - 1)"

theorem consumer_never_loses_records_witness:
  "batch_New 100 (BatchSize demo_cfg) (BatchTimeout demo_cfg) = Some demo_batcher
    \<and> snd (Run demo_unmarshal (\<lambda>_. []) demo_policy demo_cfg demo_env [demo_iter] demo_batcher []) =
        [Polled [demo_record], Stored [the (demo_unmarshal ''v'')], CommitTried [demo_record] True, AllowRebalance, AllowRebalance]
    \<and> handled (event_of demo_unmarshal) (is_dead_letter (\<lambda>_. []) demo_cfg)
        [Polled [demo_record], Stored [the (demo_unmarshal ''v'')] :: (Event, unit) action] demo_record"
proof -
  have b: "batch_New 100 (BatchSize demo_cfg) (BatchTimeout demo_cfg) = Some demo_batcher"
    by (simp add: batch_New_def makeable_def demo_cfg_def demo_batcher_def)
  have l: "snd (Run demo_unmarshal (\<lambda>_. []) demo_policy demo_cfg demo_env [demo_iter] demo_batcher []) =
      [Polled [demo_record], Stored [the (demo_unmarshal ''v'')]] @ CommitTried [demo_record] True # [AllowRebalance, AllowRebalance]"
    by code_simp
  have "handled (event_of demo_unmarshal) (is_dead_letter (\<lambda>_. []) demo_cfg)
      [Polled [demo_record], Stored [the (demo_unmarshal ''v'')] :: (Event, unit) action] demo_record"
    using consumer_never_loses_records[OF b, of demo_unmarshal "\<lambda>_. []" demo_policy demo_env "[demo_iter]"]
    unfolding l safe_log_def by fastforce
  then show ?thesis using b l by simp
qed

text \<open>A batch is due exactly when it holds at least one item and is full or its oldest item has waited for the
  timeout; draining returns the items in the order they were added and leaves an empty batch.\<close>

theorem batcher_due_when_full_or_old:
  assumes "batch_New limit n timeout = Some b"
  shows "let b' = addAll b xs
    in (Due b' now \<longleftrightarrow> xs \<noteq> [] \<and> (n \<le> int (length xs) \<or> fst (hd xs) + timeout \<le> now))
       \<and> fst (Drain b') = map snd xs \<and> batch_Len (snd (Drain b')) = 0 \<and> Room b' = max (n - int (length xs)) 0
       \<and> addAll (snd (Drain b')) ys = addAll b ys"
proof -
  have gen: "bt_items (addAll b xs) = bt_items b @ map snd xs \<and> bt_size (addAll b xs) = bt_size b \<and> bt_timeout (addAll b xs) = bt_timeout b
      \<and> bt_deadline (addAll b xs) = (if bt_items b = [] \<and> xs \<noteq> [] then fst (hd xs) + bt_timeout b else bt_deadline b)"
    for b :: "'a Batcher" and xs
    by (induction b xs rule: addAll.induct) (auto simp: Add_def Let_def time_Add_def)
  have b: "b = \<lparr>bt_size = n, bt_timeout = timeout, bt_items = [], bt_deadline = 0\<rparr>"
    using assms by (simp add: batch_New_def split: if_splits)
  define b' where "b' = addAll b xs"
  have f: "bt_items b' = map snd xs" "bt_size b' = n" "bt_timeout b' = timeout" "bt_deadline b' = (if xs \<noteq> [] then fst (hd xs) + timeout else 0)"
    using gen[where b = b and xs = xs] unfolding b'_def by (simp_all add: b)
  have d: "snd (Drain b') = b" unfolding b Drain_def using f(2,3) by (cases b') simp
  have "Due b' now \<longleftrightarrow> xs \<noteq> [] \<and> (n \<le> int (length xs) \<or> fst (hd xs) + timeout \<le> now)"
    "fst (Drain b') = map snd xs" "Room b' = max (n - int (length xs)) 0" "batch_Len b = 0"
    using f by (auto simp: Due_def Drain_def batch_Len_def Room_def b)
  then show ?thesis unfolding Let_def b'_def[symmetric] d by blast
qed

theorem batcher_due_when_full_or_old_witness:
  "\<exists>b. batch_New 100 2 10 = Some b \<and> \<not> Due (addAll b [(5, ''x'')]) 14 \<and> Due (addAll b [(5, ''x'')]) 15"
proof -
  obtain b :: "string Batcher" where b: "batch_New 100 2 10 = Some b" by (simp add: batch_New_def makeable_def)
  from batcher_due_when_full_or_old[OF b, of "[(5, ''x'')]"] b show ?thesis by (auto simp: Let_def)
qed

text \<open>The pause before a retry is drawn below min(maxDelay, baseDelay * 2^(retry - 1)) for every retry number, and an operation
  is reported as exhausted only after all of its attempts failed.\<close>

theorem consumer_retry_policy:
  assumes "0 < base" and "in64 cap" and "1 \<le> k"
  shows "let p = retry_New n base cap randN; ceiling = min cap (base * 2 ^ nat (k - 1))
    in backoff p k = Some (if ceiling \<le> 0 then 0 else randN ceiling)
       \<and> Do p ok cut_at \<noteq> None
       \<and> (\<forall>m. Do p ok cut_at = Some (Some (ErrExhausted m)) \<longrightarrow> m = max n 1 \<and> (\<forall>j. 1 \<le> j \<and> j \<le> m \<longrightarrow> \<not> ok j))"
proof -
  let ?p = "retry_New n base cap randN"
  have s: "0 \<le> k - 1" using assms(3) by simp
  have "backoff ?p k = Some (if min cap (base * 2 ^ nat (k - 1)) \<le> 0 then 0 else randN (min cap (base * 2 ^ nat (k - 1))))"
    unfolding backoff_def retry_New_def Let_def Policy.simps shift_ceiling[OF assms(1,2) s] using s by simp
  moreover have "Do ?p ok cut_at \<noteq> None" unfolding Do_def by (rule doLoop_total) simp
  moreover have "m = max n 1 \<and> (\<forall>j. 1 \<le> j \<and> j \<le> m \<longrightarrow> \<not> ok j)" if "Do ?p ok cut_at = Some (Some (ErrExhausted m))" for m
    using doLoop_Exhausted[OF that[unfolded Do_def]] by (auto simp: retry_New_def)
  ultimately show ?thesis unfolding Let_def by blast
qed

theorem consumer_retry_policy_witness:
  "backoff (retry_New 3 100 1000 (\<lambda>c. c - 1)) 3 = Some 399 \<and> backoff (retry_New 3 100 1000 (\<lambda>c. c - 1)) 9 = Some 999"
proof -
  have b: "0 < (100::int)" "in64 1000" by (simp_all add: in64_iff)
  have "backoff (retry_New 3 100 1000 (\<lambda>c. c - 1)) k = Some (if min 1000 (100 * 2 ^ nat (k - 1)) \<le> (0::int) then 0 else min 1000 (100 * 2 ^ nat (k - 1)) - 1)"
    if "1 \<le> k" for k
    using consumer_retry_policy[OF b that, of 3 "\<lambda>c. c - 1"] unfolding Let_def by blast
  from this[of 3] this[of 9] show ?thesis by simp
qed

end
