(* ===== verification/Clickhouse_Sink.thy ===== *)
theory Clickhouse_Sink
  imports Go_Prelude
begin

text \<open>
  App 11: event validation (\<^verbatim>\<open>internal/event/event.go\<close>), the batcher (\<^verbatim>\<open>internal/batcher/batcher.go\<close>) and the
  ingest endpoint (\<^verbatim>\<open>internal/server/server.go\<close>).

  The batcher's goroutine and the handlers that enqueue are interleaved by a list of steps.
  ClickHouse is the parameter \<open>insert_env\<close> of a flush; the decoder of the request body is the
  parameter \<open>body\<close>. The server relies on the batcher through the locale \<open>enqueuer\<close>, its interface
  \<open>Enqueuer\<close>.
\<close>

section \<open>Events\<close>

text \<open>A UUID is its value as a number; the nil UUID is 0.\<close>

record Event =
  ID :: nat
  Type :: string
  UserID :: string
  Timestamp :: gotime
  Properties :: string

datatype invalid =
    MissingId | MissingType | LongType | MissingUser | LongUser | MissingTs | TooOld | TooFarAhead | NotAnObject
  | NoEvents

definition maxAge :: duration where
  "maxAge = 30 * 24 * 3600 * 1000000000"

definition maxLead :: duration where
  "maxLead = 24 * 3600 * 1000000000"

text \<open>\<open>bytes.TrimSpace\<close> on a JSON text, whose white space is ASCII.\<close>

definition is_space :: "char \<Rightarrow> bool" where
  "is_space c \<longleftrightarrow> of_char c \<in> {9, 10, 11, 12, 13, 32 :: nat}"

definition hasObjectProperties :: "Event \<Rightarrow> bool" where
  "hasObjectProperties e = (case dropWhile is_space (Properties e) of [] \<Rightarrow> False | c # cs \<Rightarrow> c = CHR ''{'')"

definition PropertiesJSON :: "Event \<Rightarrow> string" where
  "PropertiesJSON e = (if \<not> hasObjectProperties e then ''{}'' else Properties e)"

definition Validate :: "Event \<Rightarrow> gotime \<Rightarrow> invalid option" where
  "Validate e now =
     (if ID e = 0 then Some MissingId
      else if Type e = [] then Some MissingType
      else if 128 < length (Type e) then Some LongType
      else if UserID e = [] then Some MissingUser
      else if 256 < length (UserID e) then Some LongUser
      else if Timestamp e = 0 then Some MissingTs
      else if Timestamp e < time_Add now (- maxAge) then Some TooOld
      else if time_Add now maxLead < Timestamp e then Some TooFarAhead
      else if 0 < length (Properties e) \<and> \<not> hasObjectProperties e then Some NotAnObject
      else None)"

section \<open>Inserting with retries\<close>

record Config =
  BufferSize :: int
  BatchSize :: int
  MaxAttempts :: int
  RetryBackoff :: duration

text \<open>The environment of a flush: what each attempt does to the store \<open>'s\<close> behind the interface \<^verbatim>\<open>Inserter\<close>, and whether
  the pause after it is cut short by the context.\<close>

record 's insert_env =
  insert_try :: "int \<Rightarrow> Event list \<Rightarrow> 's \<Rightarrow> bool \<times> 's"
  insert_cut :: "int \<Rightarrow> ctx_error option"

datatype insert_error = FailedAfter int | RetryAborted ctx_error

definition maxRetryBackoff :: duration where
  "maxRetryBackoff = 10000000000"

function insertLoop :: "Config \<Rightarrow> 's insert_env \<Rightarrow> Event list \<Rightarrow> int \<Rightarrow> duration \<Rightarrow> 's \<Rightarrow> insert_error option \<times> 's" where
  "insertLoop cfg env batch attempt delay st =
     (let (ok, st') = insert_try env attempt batch st
      in if ok then (None, st')
         else if MaxAttempts cfg \<le> attempt then (Some (FailedAfter attempt), st')
         else case insert_cut env attempt of
                Some e \<Rightarrow> (Some (RetryAborted e), st')
              | None \<Rightarrow> insertLoop cfg env batch (attempt + 1) (min (wrap64 (delay * 2)) maxRetryBackoff) st')"
  by pat_completeness auto
termination
  by (relation "measure (\<lambda>(cfg, env, batch, attempt, delay, st). nat (MaxAttempts cfg - attempt))") auto

declare insertLoop.simps [simp del]

definition insertWithRetry :: "Config \<Rightarrow> 's insert_env \<Rightarrow> Event list \<Rightarrow> 's \<Rightarrow> insert_error option \<times> 's" where
  "insertWithRetry cfg env batch = insertLoop cfg env batch 1 (RetryBackoff cfg)"

section \<open>Batcher\<close>

text \<open>\<open>bc_batch\<close> is the local variable of \<open>Run\<close>; \<open>bc_flushed\<close> the batches handed to \<open>flush\<close> with their outcome;
  \<open>bc_store\<close> is the state of the store behind the \<^verbatim>\<open>Inserter\<close>.\<close>

record 's Batcher =
  bc_closed :: bool
  bc_events :: "Event list"
  bc_batch :: "Event list"
  bc_flushed :: "(Event list \<times> insert_error option) list"
  bc_store :: 's

datatype enqueue_error = ErrBufferFull | ErrTooLarge | ErrClosed

text \<open>\<open>make(chan)\<close> panics on a negative buffer size and on one beyond \<open>limit\<close>.\<close>

definition New :: "int \<Rightarrow> Config \<Rightarrow> 's \<Rightarrow> 's Batcher option" where
  "New limit cfg st =
     (if makeable limit (BufferSize cfg)
      then Some \<lparr>bc_closed = False, bc_events = [], bc_batch = [], bc_flushed = [], bc_store = st\<rparr> else None)"

definition Len :: "'s Batcher \<Rightarrow> int" where
  "Len b = int (length (bc_events b))"

definition Enqueue :: "Config \<Rightarrow> 's Batcher \<Rightarrow> Event list \<Rightarrow> enqueue_error option \<times> 's Batcher" where
  "Enqueue cfg b es =
     (if BufferSize cfg < int (length es) then (Some ErrTooLarge, b)
      else if bc_closed b then (Some ErrClosed, b)
      else if BufferSize cfg - Len b < int (length es) then (Some ErrBufferFull, b)
      else (None, b\<lparr>bc_events := bc_events b @ es\<rparr>))"

definition flush :: "Config \<Rightarrow> 's insert_env \<Rightarrow> Event list \<Rightarrow> 's Batcher \<Rightarrow> 's Batcher" where
  "flush cfg env batch b =
     (let (err, st) = insertWithRetry cfg env batch (bc_store b)
      in b\<lparr>bc_flushed := bc_flushed b @ [(batch, err)], bc_store := st\<rparr>)"

text \<open>The cases of the select in \<open>Run\<close>; a receive from an empty channel does not happen.\<close>

definition recv :: "Config \<Rightarrow> 's insert_env \<Rightarrow> 's Batcher \<Rightarrow> 's Batcher" where
  "recv cfg env b =
     (case bc_events b of
        [] \<Rightarrow> b
      | e # es \<Rightarrow>
          let b1 = b\<lparr>bc_events := es, bc_batch := bc_batch b @ [e]\<rparr>
          in if int (length (bc_batch b1)) < BatchSize cfg then b1
             else (flush cfg env (bc_batch b1) b1)\<lparr>bc_batch := []\<rparr>)"

definition tick :: "Config \<Rightarrow> 's insert_env \<Rightarrow> 's Batcher \<Rightarrow> 's Batcher" where
  "tick cfg env b =
     (if length (bc_batch b) = 0 then b
      else (flush cfg env (bc_batch b) b)\<lparr>bc_batch := []\<rparr>)"

text \<open>\<open>drain\<close> reads the closed channel to its end; \<open>envs n\<close> is the environment of its n-th flush.\<close>

fun drainLoop :: "Config \<Rightarrow> (nat \<Rightarrow> 's insert_env) \<Rightarrow> nat \<Rightarrow> Event list \<Rightarrow> Event list \<Rightarrow> 's Batcher \<Rightarrow> 's Batcher" where
  "drainLoop cfg envs n batch [] b = (if 0 < length batch then flush cfg (envs n) batch b else b)"
| "drainLoop cfg envs n batch (e # es) b =
     (let batch' = batch @ [e]
      in if int (length batch') = BatchSize cfg
         then drainLoop cfg envs (Suc n) [] es (flush cfg (envs n) batch' b)
         else drainLoop cfg envs n batch' es b)"

text \<open>The second result is whether \<open>drain\<close> returns an error: the join of the errors of its flushes.\<close>

definition drain :: "Config \<Rightarrow> (nat \<Rightarrow> 's insert_env) \<Rightarrow> 's Batcher \<Rightarrow> 's Batcher \<times> bool" where
  "drain cfg envs b =
     (let b1 = b\<lparr>bc_closed := True\<rparr>;
          b2 = (drainLoop cfg envs 0 (bc_batch b1) (bc_events b1) b1)\<lparr>bc_events := [], bc_batch := []\<rparr>
      in (b2, list_ex (\<lambda>f. snd f \<noteq> None) (drop (length (bc_flushed b)) (bc_flushed b2))))"

section \<open>Ingest endpoint\<close>

datatype body = BodyTooLarge | BadBody | TrailingData | Decoded "Event list"

datatype reply = Reply int "string option" | AcceptedN int

fun validateAll :: "Event list \<Rightarrow> gotime \<Rightarrow> invalid option" where
  "validateAll [] now = None"
| "validateAll (e # es) now = (case Validate e now of Some x \<Rightarrow> Some x | None \<Rightarrow> validateAll es now)"

definition validate :: "Event list \<Rightarrow> gotime \<Rightarrow> invalid option" where
  "validate es now = (if length es = 0 then Some NoEvents else validateAll es now)"

definition enqueueFailure :: "enqueue_error \<Rightarrow> int" where
  "enqueueFailure e = (case e of ErrBufferFull \<Rightarrow> 429 | ErrTooLarge \<Rightarrow> 413 | ErrClosed \<Rightarrow> 503)"

definition handleIngest :: "('q \<Rightarrow> Event list \<Rightarrow> enqueue_error option \<times> 'q) \<Rightarrow> gotime \<Rightarrow> body \<Rightarrow> 'q \<Rightarrow> reply \<times> 'q" where
  "handleIngest enqueue now b q =
     (case b of
        BodyTooLarge \<Rightarrow> (Reply 413 None, q)
      | BadBody \<Rightarrow> (Reply 400 None, q)
      | TrailingData \<Rightarrow> (Reply 400 None, q)
      | Decoded es \<Rightarrow>
          (case validate es now of
             Some x \<Rightarrow> (Reply 422 None, q)
           | None \<Rightarrow>
               (case enqueue q es of
                  (Some e, q') \<Rightarrow> (Reply (enqueueFailure e) (if enqueueFailure e = 429 then Some ''1'' else None), q')
                | (None, q') \<Rightarrow> (AcceptedN (int (length es)), q'))))"

definition handleHealth :: "bool \<Rightarrow> reply" where
  "handleHealth ping_ok = (if \<not> ping_ok then Reply 503 None else Reply 200 None)"

text \<open>What the endpoint relies on: all the events are buffered, or nothing changes.\<close>

locale enqueuer =
  fixes enqueue :: "'q \<Rightarrow> Event list \<Rightarrow> enqueue_error option \<times> 'q" and buffered :: "'q \<Rightarrow> Event list"
  assumes enqueue_ok: "enqueue q es = (None, q') \<Longrightarrow> buffered q' = buffered q @ es"
    and enqueue_refused: "enqueue q es = (Some e, q') \<Longrightarrow> q' = q"
begin

lemma ingest_accepts:
  assumes "handleIngest enqueue now b q = (AcceptedN n, q')"
  shows "\<exists>es. b = Decoded es \<and> es \<noteq> [] \<and> n = int (length es) \<and> (\<forall>e\<in>set es. Validate e now = None) \<and> buffered q' = buffered q @ es"
proof -
  obtain es where b: "b = Decoded es" "validate es now = None" "enqueue q es = (None, q')" "n = int (length es)"
    using assms by (auto simp: handleIngest_def split: body.splits option.splits prod.splits)
  have "\<forall>e\<in>set es. Validate e now = None" if "validateAll es now = None" for es
    using that by (induction es) (auto split: option.splits)
  then show ?thesis using b enqueue_ok[OF b(3)] by (auto simp: validate_def split: if_splits)
qed

lemma ingest_rejects: "handleIngest enqueue now b q = (Reply code h, q') \<Longrightarrow> q' = q"
  using enqueue_refused by (auto simp: handleIngest_def split: body.splits option.splits prod.splits)

end

interpretation bt: enqueuer "Enqueue cfg" bc_events for cfg
  by unfold_locales (auto simp: Enqueue_def split: if_splits)

section \<open>Histories\<close>

datatype 's bstep = Ingest gotime body | Recv "'s insert_env" | Tick "'s insert_env"

text \<open>The second component is the list of the events accepted so far.\<close>

fun bstep_run :: "Config \<Rightarrow> 's bstep \<Rightarrow> 's Batcher \<times> Event list \<Rightarrow> 's Batcher \<times> Event list" where
  "bstep_run cfg (Ingest now b) (q, acc) =
     (case handleIngest (Enqueue cfg) now b q of
        (AcceptedN n, q') \<Rightarrow> (q', acc @ (case b of Decoded es \<Rightarrow> es | _ \<Rightarrow> []))
      | (Reply code h, q') \<Rightarrow> (q', acc))"
| "bstep_run cfg (Recv env) (q, acc) = (recv cfg env q, acc)"
| "bstep_run cfg (Tick env) (q, acc) = (tick cfg env q, acc)"

definition accounted :: "'s Batcher \<Rightarrow> Event list" where
  "accounted b = concat (map fst (bc_flushed b)) @ bc_batch b @ bc_events b"

definition batcher_inv :: "Config \<Rightarrow> 's Batcher \<times> Event list \<Rightarrow> bool" where
  "batcher_inv cfg s \<longleftrightarrow> (case s of (b, acc) \<Rightarrow>
     acc = accounted b \<and> Len b \<le> BufferSize cfg \<and> int (length (bc_batch b)) < BatchSize cfg
     \<and> (\<forall>f\<in>set (bc_flushed b). 1 \<le> length (fst f) \<and> int (length (fst f)) \<le> BatchSize cfg))"

lemma bstep_inv:
  assumes "batcher_inv cfg s" and "1 \<le> BatchSize cfg"
  shows "batcher_inv cfg (bstep_run cfg st s)"
proof (cases st)
  case (Ingest now b)
  obtain q acc where s: "s = (q, acc)" by force
  obtain r q' where h: "handleIngest (Enqueue cfg) now b q = (r, q')" by force
  show ?thesis
  proof (cases r)
    case (Reply code hd)
    then show ?thesis using bt.ingest_rejects[OF h[unfolded Reply]] assms(1) h by (simp add: s Ingest)
  next
    case (AcceptedN n)
    obtain es where es: "b = Decoded es" "validate es now = None" "Enqueue cfg q es = (None, q')"
      using h AcceptedN by (auto simp: handleIngest_def split: body.splits option.splits prod.splits)
    have q': "q' = q\<lparr>bc_events := bc_events q @ es\<rparr>" "Len q + int (length es) \<le> BufferSize cfg"
      using es(3) by (auto simp: Enqueue_def split: if_splits)
    then show ?thesis using assms(1) h es(1) unfolding s Ingest AcceptedN
      by (simp add: batcher_inv_def accounted_def Len_def)
  qed
next
  case (Recv env)
  then show ?thesis using assms
    by (auto simp: batcher_inv_def accounted_def Len_def recv_def flush_def Let_def split: prod.splits list.splits)
next
  case (Tick env)
  then show ?thesis using assms
    by (auto simp: batcher_inv_def accounted_def Len_def tick_def flush_def Let_def Suc_le_eq split: prod.splits)
qed

lemma bsteps_inv: "batcher_inv cfg s \<Longrightarrow> 1 \<le> BatchSize cfg \<Longrightarrow> batcher_inv cfg (fold (bstep_run cfg) sts s)"
proof (induction sts arbitrary: s)
  case (Cons st sts)
  show ?case using Cons.IH[OF bstep_inv[OF Cons.prems] Cons.prems(2)] by simp
qed simp

text \<open>The chunks that \<open>drain\<close> flushes.\<close>

fun drainChunks :: "int \<Rightarrow> Event list \<Rightarrow> Event list \<Rightarrow> Event list list" where
  "drainChunks m batch [] = (if 0 < length batch then [batch] else [])"
| "drainChunks m batch (e # es) =
     (let batch' = batch @ [e]
      in if int (length batch') = m then batch' # drainChunks m [] es else drainChunks m batch' es)"

lemma flush_props:
  "map fst (bc_flushed (flush cfg env batch b)) = map fst (bc_flushed b) @ [batch]"
  "take (length (bc_flushed b)) (bc_flushed (flush cfg env batch b)) = bc_flushed b"
  "length (bc_flushed (flush cfg env batch b)) = Suc (length (bc_flushed b))"
  "bc_closed (flush cfg env batch b) = bc_closed b"
  by (simp_all add: flush_def split: prod.splits)

lemma drainLoop_props:
  "map fst (bc_flushed (drainLoop cfg envs n batch es b)) = map fst (bc_flushed b) @ drainChunks (BatchSize cfg) batch es
   \<and> bc_closed (drainLoop cfg envs n batch es b) = bc_closed b"
  by (induction cfg envs n batch es b rule: drainLoop.induct) (simp_all add: Let_def flush_props)

lemma drainChunks_props:
  "int (length batch) < m \<Longrightarrow> 1 \<le> m \<Longrightarrow>
    concat (drainChunks m batch es) = batch @ es
    \<and> (\<forall>c\<in>set (drainChunks m batch es). 1 \<le> length c \<and> int (length c) \<le> m)"
  by (induction m batch es rule: drainChunks.induct) (auto simp: Let_def Suc_le_eq)

section \<open>Properties\<close>

text \<open>Nothing accepted is forgotten: under every interleaving of requests with the batcher's loop, and after the
  drain at shutdown, the events accepted with 202 are, in order, the events of the flushed batches.
  Each batch has between 1 and \<open>BatchSize\<close> events, each is stored or reported as dropped, and \<open>drain\<close>
  fails exactly if one of its own batches was dropped.\<close>

theorem accepted_events_all_flushed:
  assumes "New limit cfg st0 = Some b0" and "1 \<le> BatchSize cfg" and "fold (bstep_run cfg) sts (b0, []) = (b, acc)"
    and "drain cfg envs b = (b', failed)"
  shows "acc = concat (map fst (bc_flushed b')) \<and> bc_events b' = [] \<and> bc_batch b' = [] \<and> bc_closed b'
    \<and> (\<forall>f\<in>set (bc_flushed b'). 1 \<le> length (fst f) \<and> int (length (fst f)) \<le> BatchSize cfg)
    \<and> (failed \<longleftrightarrow> (\<exists>f\<in>set (drop (length (bc_flushed b)) (bc_flushed b')). snd f \<noteq> None))"
proof -
  have "batcher_inv cfg (b0, [])"
    using assms(1,2) by (auto simp: New_def makeable_def batcher_inv_def accounted_def Len_def split: if_splits)
  then have i: "batcher_inv cfg (b, acc)" using bsteps_inv[OF _ assms(2), of "(b0, [])" sts] assms(3) by simp
  define cs where "cs = drainChunks (BatchSize cfg) (bc_batch b) (bc_events b)"
  have b': "map fst (bc_flushed b') = map fst (bc_flushed b) @ cs" "bc_events b' = []" "bc_batch b' = []" "bc_closed b'"
    and fa: "failed \<longleftrightarrow> (\<exists>f\<in>set (drop (length (bc_flushed b)) (bc_flushed b')). snd f \<noteq> None)"
    using assms(4) by (auto simp: drain_def Let_def cs_def list_ex_iff drainLoop_props)
  have p: "concat cs = bc_batch b @ bc_events b" "\<forall>c\<in>set cs. 1 \<le> length c \<and> int (length c) \<le> BatchSize cfg"
    using drainChunks_props[of "bc_batch b" "BatchSize cfg" "bc_events b"] i assms(2) unfolding cs_def by (simp_all add: batcher_inv_def)
  have "acc = concat (map fst (bc_flushed b'))" unfolding b' using i p(1) by (simp add: batcher_inv_def accounted_def)
  moreover have "\<forall>c\<in>set (map fst (bc_flushed b')). 1 \<le> length c \<and> int (length c) \<le> BatchSize cfg"
    unfolding b' using i p(2) by (auto simp: batcher_inv_def)
  then have "\<forall>f\<in>set (bc_flushed b'). 1 \<le> length (fst f) \<and> int (length (fst f)) \<le> BatchSize cfg" by simp
  ultimately show ?thesis using b'(2,3,4) fa by blast
qed

definition demo_cfg :: Config where
  "demo_cfg = \<lparr>BufferSize = 3, BatchSize = 2, MaxAttempts = 2, RetryBackoff = 1\<rparr>"

definition demo_event :: "nat \<Rightarrow> Event" where
  "demo_event n = \<lparr>ID = n, Type = ''t'', UserID = ''u'', Timestamp = 1000, Properties = [] \<rparr>"

definition demo_ins :: "int \<Rightarrow> unit insert_env" where
  "demo_ins k = \<lparr>insert_try = (\<lambda>n es st. (n = k, st)), insert_cut = (\<lambda>_. None)\<rparr>"

theorem accepted_events_all_flushed_witness:
  "\<exists>b0 b' failed. New 100 demo_cfg () = Some b0
    \<and> drain demo_cfg (\<lambda>_. demo_ins 9) (fst (fold (bstep_run demo_cfg)
        [Ingest 1000 (Decoded (map demo_event [1, 2, 3])), Recv (demo_ins 2), Recv (demo_ins 2)] (b0, []))) = (b', failed)
    \<and> concat (map fst (bc_flushed b')) = map demo_event [1, 2, 3] \<and> failed"
proof -
  obtain b0 where n: "New 100 demo_cfg () = Some b0" by (simp add: New_def makeable_def demo_cfg_def)
  let ?run = "\<lambda>b0. fold (bstep_run demo_cfg) [Ingest 1000 (Decoded (map demo_event [1, 2, 3])), Recv (demo_ins 2), Recv (demo_ins 2)] (b0, [])"
  obtain b acc where r: "?run b0 = (b, acc)" by force
  obtain b' failed where d: "drain demo_cfg (\<lambda>_. demo_ins 9) b = (b', failed)" by force
  have s: "1 \<le> BatchSize demo_cfg" by (simp add: demo_cfg_def)
  have "snd (?run (the (New 100 demo_cfg ()))) = map demo_event [1, 2, 3]" by code_simp
  then have "concat (map fst (bc_flushed b')) = map demo_event [1, 2, 3]"
    using accepted_events_all_flushed[OF n s r d] n r by simp
  moreover have "snd (drain demo_cfg (\<lambda>_. demo_ins 9) (fst (?run (the (New 100 demo_cfg ())))))" by code_simp
  ultimately show ?thesis using n r d by auto
qed

text \<open>(C22) A request is all or nothing: 202 means that every event of the body is valid and has been appended to the
  buffer, within its capacity; any other reply leaves the buffer as it was. While the buffer is
  open, an array that fits is never refused once it is valid.\<close>

theorem ingest_all_or_nothing:
  assumes "handleIngest (Enqueue cfg) now b q = (reply, q')" and "Len q \<le> BufferSize cfg"
  shows "(\<forall>n. reply = AcceptedN n \<longrightarrow> (\<exists>es. b = Decoded es \<and> es \<noteq> [] \<and> n = int (length es)
        \<and> (\<forall>e\<in>set es. Validate e now = None) \<and> bc_events q' = bc_events q @ es \<and> Len q' \<le> BufferSize cfg))
    \<and> (\<forall>code h. reply = Reply code h \<longrightarrow> q' = q)
    \<and> (\<forall>es. b = Decoded es \<and> validate es now = None \<and> \<not> bc_closed q \<and> Len q + int (length es) \<le> BufferSize cfg
        \<longrightarrow> reply = AcceptedN (int (length es)))"
proof (intro conjI allI impI)
  fix n assume r: "reply = AcceptedN n"
  from bt.ingest_accepts[OF assms(1)[unfolded r]] obtain es
    where es: "b = Decoded es" "es \<noteq> []" "n = int (length es)" "\<forall>e\<in>set es. Validate e now = None" "bc_events q' = bc_events q @ es" by blast
  have "Enqueue cfg q es = (None, q')"
    using assms(1) r es(1) by (auto simp: handleIngest_def split: option.splits prod.splits)
  then have "Len q' \<le> BufferSize cfg" by (auto simp: Enqueue_def Len_def split: if_splits)
  then show "\<exists>es. b = Decoded es \<and> es \<noteq> [] \<and> n = int (length es) \<and> (\<forall>e\<in>set es. Validate e now = None)
      \<and> bc_events q' = bc_events q @ es \<and> Len q' \<le> BufferSize cfg" using es by blast
next
  fix code h assume "reply = Reply code h"
  then show "q' = q" using bt.ingest_rejects assms(1) by blast
next
  fix es assume "b = Decoded es \<and> validate es now = None \<and> \<not> bc_closed q \<and> Len q + int (length es) \<le> BufferSize cfg"
  then show "reply = AcceptedN (int (length es))"
    using assms by (auto simp: handleIngest_def Enqueue_def Len_def split: if_splits)
qed

theorem ingest_all_or_nothing_witness:
  "\<exists>b0 q'. New 100 demo_cfg () = Some b0
    \<and> handleIngest (Enqueue demo_cfg) 1000 (Decoded [demo_event 4]) b0 = (AcceptedN 1, q') \<and> bc_events q' = [demo_event 4]"
proof -
  obtain b0 where n: "New 100 demo_cfg () = Some b0" "Len b0 \<le> BufferSize demo_cfg" "bc_events b0 = []"
    by (simp add: New_def makeable_def demo_cfg_def Len_def)
  obtain reply q' where h: "handleIngest (Enqueue demo_cfg) 1000 (Decoded [demo_event 4]) b0 = (reply, q')" by force
  have "fst (handleIngest (Enqueue demo_cfg) 1000 (Decoded [demo_event 4]) (the (New 100 demo_cfg ()))) = AcceptedN 1" by code_simp
  then have "reply = AcceptedN 1" using h n(1) by simp
  then show ?thesis using ingest_all_or_nothing[OF h n(2)] n h by auto
qed

end
