(* ===== verification/Task_Browser.thy ===== *)
theory Task_Browser
  imports Go_Prelude
begin

text \<open>
  App 10: the task model and its checks (\<^verbatim>\<open>internal/task/task.go\<close>, \<^verbatim>\<open>file.go\<close>), the atomic replacement of the
  task file, and the browser's update loop (\<^verbatim>\<open>internal/ui/model.go\<close>, \<^verbatim>\<open>keys.go\<close>, the window of rows of
  \<^verbatim>\<open>view.go\<close>).

  Unicode case mapping and trimming are the parameters \<open>lower\<close> and \<open>trim\<close>. The text field, the
  viewport and the styles belong to Bubble Tea: of the field only its value is kept and its reaction to a
  message is an argument, of the viewport the task it shows. Messages are a key, a window size,
  or something else.
\<close>

section \<open>Tasks\<close>

definition status_valid :: "string \<Rightarrow> bool" where
  "status_valid s \<longleftrightarrow> s = ''todo'' \<or> s = ''in_progress'' \<or> s = ''done''"

definition priority_valid :: "string \<Rightarrow> bool" where
  "priority_valid p \<longleftrightarrow> p = ''low'' \<or> p = ''medium'' \<or> p = ''high''"

text \<open>A due date is midnight UTC of its day; 0 is the zero time.\<close>

record Task =
  ID :: string
  Title :: string
  t_Status :: string
  Priority :: string
  Tags :: "string list"
  t_Due :: gotime
  Description :: string

text \<open>\<open>strings.Contains\<close>.\<close>

fun contains :: "string \<Rightarrow> string \<Rightarrow> bool" where
  "contains [] q = (q = [])"
| "contains (c # cs) q = (take (length q) (c # cs) = q \<or> contains cs q)"

definition Matches :: "(string \<Rightarrow> string) \<Rightarrow> Task \<Rightarrow> string \<Rightarrow> bool" where
  "Matches lower t query =
     (let q = lower query
      in if contains (lower (Title t)) q then True
         else list_ex (\<lambda>tag. contains (lower tag) q) (Tags t))"

text \<open>\<open>today\<close> is midnight UTC of the calendar day of \<open>now\<close>.\<close>

definition Overdue :: "Task \<Rightarrow> gotime \<Rightarrow> bool" where
  "Overdue t today = (if t_Status t = ''done'' \<or> t_Due t = 0 then False else t_Due t < today)"

section \<open>Validation of a task file\<close>

text \<open>A problem names its task by identifier, or by position when the identifier is blank.\<close>

datatype task_ref = TaskId string | TaskNo nat

datatype task_error =
    EmptyId task_ref
  | DuplicateID task_ref
  | EmptyTitle task_ref
  | UnknownStatus task_ref string
  | UnknownPriority task_ref string

definition taskErrors :: "(string \<Rightarrow> string) \<Rightarrow> string set \<Rightarrow> nat \<Rightarrow> Task \<Rightarrow> task_error list" where
  "taskErrors trim seen i t =
     (let ref = (if trim (ID t) = [] then TaskNo (i + 1) else TaskId (ID t))
      in (if trim (ID t) = [] then [EmptyId ref] else if ID t \<in> seen then [DuplicateID ref] else [])
         @ (if trim (Title t) = [] then [EmptyTitle ref] else [])
         @ (if \<not> status_valid (t_Status t) then [UnknownStatus ref (t_Status t)] else [])
         @ (if \<not> priority_valid (Priority t) then [UnknownPriority ref (Priority t)] else []))"

fun validateFrom :: "(string \<Rightarrow> string) \<Rightarrow> string set \<Rightarrow> nat \<Rightarrow> Task list \<Rightarrow> task_error list" where
  "validateFrom trim seen i [] = []"
| "validateFrom trim seen i (t # ts) = taskErrors trim seen i t @ validateFrom trim (insert (ID t) seen) (Suc i) ts"

definition validate :: "(string \<Rightarrow> string) \<Rightarrow> Task list \<Rightarrow> task_error list" where
  "validate trim tasks = validateFrom trim {} 0 tasks"

datatype load_error = LoadCtx ctx_error | ReadFailed | ErrMalformed | Problems "task_error list"

datatype decoded = DecodeFails | TrailingData "Task list" | Document "Task list"

text \<open>\<open>read\<close> is the content of the file and \<open>decode\<close> what the JSON decoder finds in it.\<close>

definition Load :: "(string \<Rightarrow> string) \<Rightarrow> (string \<Rightarrow> decoded) \<Rightarrow> ctx_error option \<Rightarrow> string option \<Rightarrow> load_error + Task list" where
  "Load trim decode ctx read =
     (case ctx of
        Some e \<Rightarrow> Inl (LoadCtx e)
      | None \<Rightarrow>
          (case read of
             None \<Rightarrow> Inl ReadFailed
           | Some data \<Rightarrow>
               (case decode data of
                  DecodeFails \<Rightarrow> Inl ErrMalformed
                | TrailingData ts \<Rightarrow> Inl ErrMalformed
                | Document ts \<Rightarrow> if validate trim ts \<noteq> [] then Inl (Problems (validate trim ts)) else Inr ts)))"

section \<open>Saving\<close>

text \<open>Files by name, with content and permission bits. \<open>resolve\<close> is \<open>filepath.EvalSymlinks\<close>: \<open>Inl True\<close> when the
  path does not exist, \<open>Inl False\<close> for another error.\<close>

type_synonym files = "string \<rightharpoonup> (string \<times> nat)"

definition replaceTarget :: "(string \<Rightarrow> bool + string) \<Rightarrow> files \<Rightarrow> string \<Rightarrow> (string \<times> nat) option" where
  "replaceTarget resolve fs path =
     (case resolve path of
        Inl True \<Rightarrow> Some (path, 384)
      | Inl False \<Rightarrow> None
      | Inr target \<Rightarrow> (case fs target of None \<Rightarrow> None | Some (content, perm) \<Rightarrow> Some (target, perm)))"

datatype save_error = SaveCtx ctx_error | EncodeFailed | ResolveFailed | TempFailed | ChmodFailed | WriteFailed | SyncFailed | CloseFailed | RenameFailed

text \<open>Which call fails, if any; \<open>partial\<close> is what a failed write left in the temporary file.\<close>

record save_env =
  sv_ctx :: "ctx_error option"
  sv_fail :: "save_error option"
  sv_partial :: string
  sv_tmp :: string

text \<open>The result is the error and the states of the file system, in order: a crash can leave any of them.\<close>

definition Save :: "(string \<Rightarrow> bool + string) \<Rightarrow> save_env \<Rightarrow> files \<Rightarrow> string \<Rightarrow> string option \<Rightarrow> save_error option \<times> files list" where
  "Save resolve env fs path encoded =
     (case sv_ctx env of
        Some e \<Rightarrow> (Some (SaveCtx e), [fs])
      | None \<Rightarrow>
          (case encoded of
             None \<Rightarrow> (Some EncodeFailed, [fs])
           | Some data \<Rightarrow>
               (case replaceTarget resolve fs path of
                  None \<Rightarrow> (Some ResolveFailed, [fs])
                | Some (target, perm) \<Rightarrow>
                    let tmp = sv_tmp env;
                        full = data @ [char_of (10::nat)];
                        fs1 = fs(tmp \<mapsto> ([], 384));
                        fs2 = fs(tmp \<mapsto> ([], perm));
                        fs3 = fs(tmp \<mapsto> (full, perm))
                    in case sv_fail env of
                         Some TempFailed \<Rightarrow> (Some TempFailed, [fs])
                       | Some ChmodFailed \<Rightarrow> (Some ChmodFailed, [fs, fs1, fs1(tmp := None)])
                       | Some WriteFailed \<Rightarrow> (Some WriteFailed, [fs, fs1, fs2, fs(tmp \<mapsto> (sv_partial env, perm)), fs(tmp := None)])
                       | Some SyncFailed \<Rightarrow> (Some SyncFailed, [fs, fs1, fs2, fs3, fs3(tmp := None)])
                       | Some CloseFailed \<Rightarrow> (Some CloseFailed, [fs, fs1, fs2, fs3, fs3(tmp := None)])
                       | Some RenameFailed \<Rightarrow> (Some RenameFailed, [fs, fs1, fs2, fs3, fs3(tmp := None)])
                       | _ \<Rightarrow> (None, [fs, fs1, fs2, fs3, (fs3(tmp := None))(target \<mapsto> (full, perm))]))))"

section \<open>The browser\<close>

datatype focus = focusList | focusDetails | focusFilter

record Model =
  tasks :: "Task list"
  visible :: "nat list"
  cursor :: int
  m_focus :: focus
  modified :: bool
  filter_value :: string
  details :: "Task option"
  det_width :: int
  det_height :: int
  width :: int
  height :: int

definition selectedIndex :: "Model \<Rightarrow> nat option" where
  "selectedIndex m = (if int (length (visible m)) \<le> cursor m then None else Some (visible m ! nat (cursor m)))"

text \<open>The details pane shows the selected task.\<close>

definition syncDetails :: "Model \<Rightarrow> Model" where
  "syncDetails m =
     (case selectedIndex m of
        None \<Rightarrow> m\<lparr>details := None\<rparr>
      | Some i \<Rightarrow> m\<lparr>details := Some (tasks m ! i)\<rparr>)"

fun indexOf :: "nat \<Rightarrow> nat list \<Rightarrow> int" where
  "indexOf x [] = - 1"
| "indexOf x (y # ys) = (if x = y then 0 else (let k = indexOf x ys in if k < 0 then - 1 else k + 1))"

definition matching :: "(string \<Rightarrow> string) \<Rightarrow> Task list \<Rightarrow> string \<Rightarrow> nat list" where
  "matching lower ts query = filter (\<lambda>i. Matches lower (ts ! i) query) [0..<length ts]"

definition applyFilter :: "(string \<Rightarrow> string) \<Rightarrow> (string \<Rightarrow> string) \<Rightarrow> Model \<Rightarrow> Model" where
  "applyFilter lower trim m =
     (let selected = selectedIndex m;
          query = trim (filter_value m);
          vis = matching lower (tasks m) query;
          c = (case selected of None \<Rightarrow> 0 | Some i \<Rightarrow> max (indexOf i vis) 0)
      in syncDetails (m\<lparr>visible := vis, cursor := c\<rparr>))"

definition New :: "(string \<Rightarrow> string) \<Rightarrow> (string \<Rightarrow> string) \<Rightarrow> Task list \<Rightarrow> Model" where
  "New lower trim ts =
     applyFilter lower trim \<lparr>tasks = ts, visible = [], cursor = 0, m_focus = focusList, modified = False,
       filter_value = [], details = None, det_width = 0, det_height = 0, width = 0, height = 0\<rparr>"

definition moveCursor :: "int \<Rightarrow> Model \<Rightarrow> Model" where
  "moveCursor delta m =
     (if length (visible m) = 0 then m
      else let nxt = min (max (cursor m + delta) 0) (int (length (visible m)) - 1)
           in if nxt = cursor m then m else syncDetails (m\<lparr>cursor := nxt\<rparr>))"

definition toggleDone :: "Model \<Rightarrow> Model" where
  "toggleDone m =
     (case selectedIndex m of
        None \<Rightarrow> m
      | Some i \<Rightarrow>
          let t = tasks m ! i;
              t' = (if t_Status t = ''done'' then t\<lparr>t_Status := ''todo''\<rparr> else t\<lparr>t_Status := ''done''\<rparr>)
          in syncDetails (m\<lparr>tasks := (tasks m)[i := t'], modified := True\<rparr>))"

definition paneWidths :: "Model \<Rightarrow> int \<times> int" where
  "paneWidths m = (let l = min (max (go_quot (width m) 3) 28) (width m) in (l, width m - l))"

definition bodyHeight :: "Model \<Rightarrow> int" where
  "bodyHeight m = max (height m - 2) 0"

text \<open>\<open>frame\<close> is the size of the border and padding of a pane.\<close>

definition resize :: "int \<times> int \<Rightarrow> int \<Rightarrow> int \<Rightarrow> Model \<Rightarrow> Model" where
  "resize frame w h m =
     (let m1 = m\<lparr>width := w, height := h\<rparr>;
          detailsWidth = snd (paneWidths m1);
          (frameX, frameY) = frame
      in syncDetails (m1\<lparr>det_width := max (detailsWidth - frameX) 0, det_height := max (bodyHeight m1 - frameY) 0\<rparr>))"

text \<open>The rows of the list that fit: first and one past the last.\<close>

definition listWindow :: "int \<Rightarrow> Model \<Rightarrow> int \<times> int" where
  "listWindow h m =
     (let first = max (cursor m - h + 1) 0
      in (first, min (first + h) (int (length (visible m)))))"

text \<open>A message; the text field's new value for it comes with it.\<close>

datatype msg = Key string string | WindowSize int int | Other string

definition key_in :: "string \<Rightarrow> string list \<Rightarrow> bool" where
  "key_in k ks \<longleftrightarrow> k \<in> set ks"

record keyMap =
  k_Up :: "string list"
  k_Down :: "string list"
  k_Switch :: "string list"
  k_Back :: "string list"
  k_Toggle :: "string list"
  k_Filter :: "string list"
  k_Apply :: "string list"
  k_Clear :: "string list"
  k_Quit :: "string list"
  k_ForceQuit :: "string list"

definition keys :: keyMap where
  "keys = \<lparr>k_Up = [''k'', ''up''], k_Down = [''j'', ''down''], k_Switch = [''enter''], k_Back = [''esc''], k_Toggle = [''x''],
     k_Filter = [''/''], k_Apply = [''enter''], k_Clear = [''esc''], k_Quit = [''q''], k_ForceQuit = [''ctrl+c'']\<rparr>"

text \<open>The bindings offered in the footer.\<close>

definition key_help :: "focus \<Rightarrow> string list list" where
  "key_help f =
     (case f of
        focusFilter \<Rightarrow> [k_Apply keys, k_Clear keys, k_ForceQuit keys]
      | focusDetails \<Rightarrow> [k_Up keys, k_Down keys, k_Switch keys, k_Back keys, k_Toggle keys, k_Filter keys, k_Quit keys]
      | focusList \<Rightarrow> [k_Up keys, k_Down keys, k_Switch keys, k_Toggle keys, k_Filter keys, k_Clear keys, k_Quit keys])"

definition updateBrowse :: "(string \<Rightarrow> string) \<Rightarrow> (string \<Rightarrow> string) \<Rightarrow> string \<Rightarrow> Model \<Rightarrow> Model \<times> bool" where
  "updateBrowse lower trim k m =
     (if key_in k (k_Quit keys) then (m, True)
      else if key_in k (k_Filter keys) then (m\<lparr>m_focus := focusFilter\<rparr>, False)
      else if key_in k (k_Toggle keys) then (toggleDone m, False)
      else if key_in k (k_Switch keys) then
        (if m_focus m = focusList then m\<lparr>m_focus := focusDetails\<rparr> else m\<lparr>m_focus := focusList\<rparr>, False)
      else if m_focus m = focusDetails \<and> key_in k (k_Back keys) then (m\<lparr>m_focus := focusList\<rparr>, False)
      else if m_focus m = focusDetails then (m, False)
      else if key_in k (k_Clear keys) then (applyFilter lower trim (m\<lparr>filter_value := []\<rparr>), False)
      else if key_in k (k_Up keys) then (moveCursor (- 1) m, False)
      else if key_in k (k_Down keys) then (moveCursor 1 m, False)
      else (m, False))"

definition updateFilter :: "(string \<Rightarrow> string) \<Rightarrow> (string \<Rightarrow> string) \<Rightarrow> string option \<Rightarrow> string \<Rightarrow> Model \<Rightarrow> Model" where
  "updateFilter lower trim k v m =
     (case k of
        None \<Rightarrow> applyFilter lower trim (m\<lparr>filter_value := v\<rparr>)
      | Some ks \<Rightarrow>
          if key_in ks (k_Apply keys) then m\<lparr>m_focus := focusList\<rparr>
          else if key_in ks (k_Clear keys) then applyFilter lower trim (m\<lparr>filter_value := [], m_focus := focusList\<rparr>)
          else applyFilter lower trim (m\<lparr>filter_value := v\<rparr>))"

text \<open>The second result is whether the program quits.\<close>

definition Update :: "(string \<Rightarrow> string) \<Rightarrow> (string \<Rightarrow> string) \<Rightarrow> int \<times> int \<Rightarrow> msg \<Rightarrow> Model \<Rightarrow> Model \<times> bool" where
  "Update lower trim frame ms m =
     (case ms of
        WindowSize w h \<Rightarrow> (resize frame w h m, False)
      | Key k v \<Rightarrow>
          if key_in k (k_ForceQuit keys) then (m, True)
          else if m_focus m = focusFilter then (updateFilter lower trim (Some k) v m, False)
          else updateBrowse lower trim k m
      | Other v \<Rightarrow>
          if m_focus m = focusFilter then (updateFilter lower trim None v m, False) else (m, False))"

fun browse :: "(string \<Rightarrow> string) \<Rightarrow> (string \<Rightarrow> string) \<Rightarrow> int \<times> int \<Rightarrow> msg list \<Rightarrow> Model \<Rightarrow> Model" where
  "browse lower trim frame [] m = m"
| "browse lower trim frame (x # xs) m = (case Update lower trim frame x m of (m', quit) \<Rightarrow> if quit then m' else browse lower trim frame xs m')"

text \<open>What the program saves when it quits (\<^verbatim>\<open>cmd/tui-app/main.go\<close>): the tasks, if any was changed.\<close>

definition toSave :: "Model \<Rightarrow> Task list option" where
  "toSave m = (if \<not> modified m then None else Some (tasks m))"

section \<open>The state of the browser\<close>

text \<open>Tasks that differ at most in their status.\<close>

definition same_task :: "Task \<Rightarrow> Task \<Rightarrow> bool" where
  "same_task t u \<longleftrightarrow> t\<lparr>t_Status := []\<rparr> = u\<lparr>t_Status := []\<rparr>"

definition browser_ok :: "(string \<Rightarrow> string) \<Rightarrow> (string \<Rightarrow> string) \<Rightarrow> Task list \<Rightarrow> Model \<Rightarrow> bool" where
  "browser_ok lower trim ts m \<longleftrightarrow>
     list_all2 same_task (tasks m) ts
   \<and> visible m = matching lower (tasks m) (trim (filter_value m))
   \<and> 0 \<le> cursor m \<and> (if visible m = [] then cursor m = 0 else cursor m < int (length (visible m)))
   \<and> details m = (if visible m = [] then None else Some (tasks m ! (visible m ! nat (cursor m))))
   \<and> (\<not> modified m \<longrightarrow> tasks m = ts)
   \<and> list_all2 (\<lambda>t u. t_Status t = t_Status u \<or> t_Status t = ''done'' \<or> t_Status t = ''todo'') (tasks m) ts"

lemma same_task_fields:
  assumes "same_task t u"
  shows "ID t = ID u" and "Title t = Title u" and "Priority t = Priority u" and "Tags t = Tags u" and "t_Due t = t_Due u"
proof -
  have "t\<lparr>t_Status := []\<rparr> = u\<lparr>t_Status := []\<rparr>" using assms by (simp add: same_task_def)
  then show "ID t = ID u" "Title t = Title u" "Priority t = Priority u" "Tags t = Tags u" "t_Due t = t_Due u"
    by (cases t; cases u; simp)+
qed

lemma same_task_update [simp]: "same_task (t\<lparr>t_Status := s\<rparr>) u = same_task t u"
  by (simp add: same_task_def)

lemma Matches_update [simp]: "Matches lower (t\<lparr>t_Status := s\<rparr>) q = Matches lower t q"
  by (simp add: Matches_def)

lemma matching_update:
  "i < length ts \<Longrightarrow> matching lower (ts[i := (ts ! i)\<lparr>t_Status := s\<rparr>]) q = matching lower ts q"
  unfolding matching_def by (auto intro!: filter_cong simp: nth_list_update)

lemma matching_bound: "k < length (matching lower ts q) \<Longrightarrow> matching lower ts q ! k < length ts"
proof -
  assume "k < length (matching lower ts q)"
  then have "matching lower ts q ! k \<in> set (matching lower ts q)" by (rule nth_mem)
  then show ?thesis by (simp add: matching_def)
qed

lemma indexOf_bound: "indexOf x ys < int (length ys)"
  by (induction ys) (auto simp: Let_def)

lemma indexOf_found: "0 \<le> indexOf x ys \<Longrightarrow> ys ! nat (indexOf x ys) = x"
  by (induction ys) (auto simp: Let_def nth_Cons' nat_add_distrib split: if_splits)

lemma indexOf_mem: "x \<in> set ys \<Longrightarrow> 0 \<le> indexOf x ys"
  by (induction ys) (auto simp: Let_def)

text \<open>Once the list, the cursor and the rows agree, \<open>syncDetails\<close> brings the details pane in line.\<close>

lemma browser_ok_sync:
  assumes "list_all2 same_task (tasks m) ts" and "visible m = matching lower (tasks m) (trim (filter_value m))"
    and "0 \<le> cursor m" and "if visible m = [] then cursor m = 0 else cursor m < int (length (visible m))"
    and "\<not> modified m \<longrightarrow> tasks m = ts"
    and "list_all2 (\<lambda>t u. t_Status t = t_Status u \<or> t_Status t = ''done'' \<or> t_Status t = ''todo'') (tasks m) ts"
  shows "browser_ok lower trim ts (syncDetails m)"
  using assms by (auto simp: browser_ok_def syncDetails_def selectedIndex_def split: if_splits)

lemma applyFilter_ok:
  assumes "list_all2 same_task (tasks m) ts" and "\<not> modified m \<longrightarrow> tasks m = ts"
    and "list_all2 (\<lambda>t u. t_Status t = t_Status u \<or> t_Status t = ''done'' \<or> t_Status t = ''todo'') (tasks m) ts"
  shows "browser_ok lower trim ts (applyFilter lower trim m)"
proof -
  let ?v = "matching lower (tasks m) (trim (filter_value m))"
  have "indexOf i ?v < int (length ?v)" for i by (rule indexOf_bound)
  then have c: "(case selectedIndex m of None \<Rightarrow> 0 | Some i \<Rightarrow> max (indexOf i ?v) 0) < int (length ?v)" if "?v \<noteq> []"
    using that by (auto split: option.split)
  have z: "(case selectedIndex m of None \<Rightarrow> 0 | Some i \<Rightarrow> max (indexOf i ?v) 0) = 0" if "?v = []"
    using that by (auto split: option.split)
  show ?thesis unfolding applyFilter_def Let_def
    by (rule browser_ok_sync) (use assms c z in \<open>auto split: option.split\<close>)
qed

lemma browser_okD:
  assumes "browser_ok lower trim ts m"
  shows "list_all2 same_task (tasks m) ts" and "\<not> modified m \<longrightarrow> tasks m = ts"
    and "list_all2 (\<lambda>t u. t_Status t = t_Status u \<or> t_Status t = ''done'' \<or> t_Status t = ''todo'') (tasks m) ts"
  using assms by (simp_all add: browser_ok_def)

lemma browser_ok_view:
  "browser_ok lower trim ts m \<Longrightarrow> browser_ok lower trim ts (m\<lparr>m_focus := f\<rparr>)"
  "browser_ok lower trim ts m \<Longrightarrow> browser_ok lower trim ts (m\<lparr>width := w, height := h\<rparr>)"
  by (auto simp: browser_ok_def split: if_splits)

lemma moveCursor_ok:
  assumes "browser_ok lower trim ts m" shows "browser_ok lower trim ts (moveCursor d m)"
proof (cases "visible m = []")
  case False
  let ?n = "min (max (cursor m + d) 0) (int (length (visible m)) - 1)"
  have "browser_ok lower trim ts (syncDetails (m\<lparr>cursor := ?n\<rparr>))"
    by (rule browser_ok_sync) (use assms False in \<open>auto simp: browser_ok_def Suc_le_eq\<close>)
  then show ?thesis using assms by (simp add: moveCursor_def Let_def)
qed (use assms in \<open>simp add: moveCursor_def\<close>)

lemma toggleDone_ok:
  assumes "browser_ok lower trim ts m" shows "browser_ok lower trim ts (toggleDone m)"
proof (cases "selectedIndex m")
  case (Some i)
  let ?t = "tasks m ! i"
  define st where "st = (if t_Status ?t = ''done'' then ''todo'' else ''done'')"
  have e: "toggleDone m = syncDetails (m\<lparr>tasks := (tasks m)[i := ?t\<lparr>t_Status := st\<rparr>], modified := True\<rparr>)"
    using Some by (simp add: toggleDone_def Let_def st_def)
  have v: "visible m = matching lower (tasks m) (trim (filter_value m))" "visible m \<noteq> []" "i = visible m ! nat (cursor m)"
    "nat (cursor m) < length (visible m)"
    using assms Some by (auto simp: browser_ok_def selectedIndex_def split: if_splits)
  have i: "i < length (tasks m)" using matching_bound v by metis
  have l: "length (tasks m) = length ts" using browser_okD(1)[OF assms] by (rule list_all2_lengthD)
  have a: "list_all2 same_task ((tasks m)[i := ?t\<lparr>t_Status := st\<rparr>]) ts"
    using browser_okD(1)[OF assms] i by (auto simp: list_all2_conv_all_nth nth_list_update)
  have b: "list_all2 (\<lambda>t u. t_Status t = t_Status u \<or> t_Status t = ''done'' \<or> t_Status t = ''todo'') ((tasks m)[i := ?t\<lparr>t_Status := st\<rparr>]) ts"
    using browser_okD(3)[OF assms] i by (auto simp: list_all2_conv_all_nth nth_list_update st_def)
  show ?thesis unfolding e
    by (rule browser_ok_sync) (use assms a b i v matching_update in \<open>auto simp: browser_ok_def\<close>)
qed (use assms in \<open>simp add: toggleDone_def\<close>)

lemma resize_ok: "browser_ok lower trim ts m \<Longrightarrow> browser_ok lower trim ts (resize frame w h m)"
  unfolding resize_def Let_def prod.case_eq_if by (rule browser_ok_sync) (auto simp: browser_ok_def split: if_splits)

lemma Update_ok:
  assumes "browser_ok lower trim ts m" shows "browser_ok lower trim ts (fst (Update lower trim frame x m))"
proof -
  have f: "browser_ok lower trim ts (applyFilter lower trim (m\<lparr>filter_value := v\<rparr>))"
    "browser_ok lower trim ts (applyFilter lower trim (m\<lparr>filter_value := v, m_focus := fo\<rparr>))" for v fo
    by (rule applyFilter_ok; use browser_okD[OF assms] in simp)+
  show ?thesis
    by (cases x) (simp_all add: Update_def updateBrowse_def updateFilter_def assms f browser_ok_view resize_ok moveCursor_ok toggleDone_ok)
qed

lemma browse_ok: "browser_ok lower trim ts m \<Longrightarrow> browser_ok lower trim ts (browse lower trim frame xs m)"
proof (induction xs arbitrary: m)
  case (Cons x xs)
  obtain m' q where u: "Update lower trim frame x m = (m', q)" by force
  then have "browser_ok lower trim ts m'" using Update_ok[OF Cons.prems, of frame x] by simp
  then show ?case using u Cons.IH by simp
qed simp

lemma New_ok: "browser_ok lower trim ts (New lower trim ts)"
proof -
  have "list_all2 same_task ts ts" by (simp add: list_all2_conv_all_nth same_task_def)
  then show ?thesis unfolding New_def by (intro applyFilter_ok) (simp_all add: list_all2_conv_all_nth)
qed

section \<open>Valid task lists\<close>

definition task_good :: "(string \<Rightarrow> string) \<Rightarrow> Task \<Rightarrow> bool" where
  "task_good trim t \<longleftrightarrow> trim (ID t) \<noteq> [] \<and> trim (Title t) \<noteq> [] \<and> status_valid (t_Status t) \<and> priority_valid (Priority t)"

lemma validateFrom_iff:
  "validateFrom trim seen i ts = [] \<longleftrightarrow> (\<forall>t\<in>set ts. task_good trim t) \<and> distinct (map ID ts) \<and> set (map ID ts) \<inter> seen = {}"
  by (induction trim seen i ts rule: validateFrom.induct) (auto simp: taskErrors_def Let_def task_good_def split: if_splits)

lemma validate_iff: "validate trim ts = [] \<longleftrightarrow> (\<forall>t\<in>set ts. task_good trim t) \<and> distinct (map ID ts)"
  by (simp add: validate_def validateFrom_iff)

lemma browser_ok_valid:
  assumes "browser_ok lower trim ts m" and "validate trim ts = []"
  shows "validate trim (tasks m) = []"
proof -
  note d = browser_okD[OF assms(1)]
  have "map ID (tasks m) = map ID ts"
    by (rule nth_equalityI) (use d(1) in \<open>auto simp: list_all2_conv_all_nth dest!: same_task_fields(1)\<close>)
  moreover have "task_good trim (tasks m ! i)" if "i < length (tasks m)" for i
  proof -
    have i: "i < length ts" using that d(1) by (simp add: list_all2_conv_all_nth)
    then have g: "task_good trim (ts ! i)" using assms(2) by (simp add: validate_iff)
    have s: "same_task (tasks m ! i) (ts ! i)" using d(1) that by (simp add: list_all2_conv_all_nth)
    have "t_Status (tasks m ! i) = t_Status (ts ! i) \<or> t_Status (tasks m ! i) = ''done'' \<or> t_Status (tasks m ! i) = ''todo''"
      using d(3) that by (simp add: list_all2_conv_all_nth)
    then show ?thesis using g same_task_fields[OF s] by (auto simp: task_good_def status_valid_def)
  qed
  ultimately show ?thesis using assms(2) by (auto simp: validate_iff in_set_conv_nth)
qed

section \<open>Properties\<close>

text \<open>(C13) After any messages the browser is consistent: the tasks are the loaded ones up to their status, the list shows exactly
  the tasks that match the filter, the cursor is on a shown row whenever there is one, the details pane
  shows the task under the cursor, an unmodified browser holds the tasks it was given, and the
  selected row is among the rows drawn in a pane of positive height.\<close>

theorem browser_consistent:
  "let m = browse lower trim frame msgs (New lower trim ts)
   in list_all2 same_task (tasks m) ts
    \<and> visible m = matching lower (tasks m) (trim (filter_value m))
    \<and> selectedIndex m = (if visible m = [] then None else Some (visible m ! nat (cursor m)))
    \<and> details m = (if visible m = [] then None else Some (tasks m ! (visible m ! nat (cursor m))))
    \<and> (modified m \<or> tasks m = ts)
    \<and> (visible m = [] \<or> h \<le> 0 \<or> fst (listWindow h m) \<le> cursor m \<and> cursor m < snd (listWindow h m))"
proof -
  define m where "m = browse lower trim frame msgs (New lower trim ts)"
  have ok: "browser_ok lower trim ts m" unfolding m_def by (rule browse_ok[OF New_ok])
  have "selectedIndex m = (if visible m = [] then None else Some (visible m ! nat (cursor m)))"
    using ok by (auto simp: browser_ok_def selectedIndex_def split: if_splits)
  moreover have "visible m = [] \<or> h \<le> 0 \<or> fst (listWindow h m) \<le> cursor m \<and> cursor m < snd (listWindow h m)"
    using ok by (auto simp: browser_ok_def listWindow_def Let_def split: if_splits)
  ultimately show ?thesis using ok unfolding Let_def m_def[symmetric] by (auto simp: browser_ok_def)
qed

text \<open>What a session saves can be loaded again: if the tasks came from \<open>Load\<close>, then whatever was done in the browser, the
  tasks it saves pass the validation, so a later \<open>Load\<close> of the encoded file returns exactly
  them. The encoding is assumed to decode to what was encoded.\<close>

theorem saved_tasks_load_again:
  assumes "Load trim decode None (Some file) = Inr ts"
    and "toSave (browse lower trim frame msgs (New lower trim ts)) = Some saved"
    and "decode (encode saved) = Document saved"
  shows "Load trim decode None (Some (encode saved)) = Inr saved"
proof -
  have "validate trim ts = []" using assms(1) by (auto simp: Load_def split: decoded.splits if_splits)
  moreover have "saved = tasks (browse lower trim frame msgs (New lower trim ts))"
    using assms(2) by (simp add: toSave_def split: if_splits)
  ultimately have "validate trim saved = []" using browser_ok_valid[OF browse_ok[OF New_ok]] by simp
  then show ?thesis using assms(3) by (simp add: Load_def)
qed

definition demo_task :: Task where
  "demo_task = \<lparr>ID = ''1'', Title = ''Read'', t_Status = ''in_progress'', Priority = ''low'', Tags = [''go''], t_Due = 0, Description = []\<rparr>"

theorem saved_tasks_load_again_witness:
  "\<exists>saved. toSave (browse id id (2, 2) [Key ''x'' [], Key ''q'' []] (New id id [demo_task])) = Some saved
    \<and> map t_Status saved = [''done'']
    \<and> Load id (\<lambda>f. Document (if f = ''old'' then [demo_task] else saved)) None (Some ''new'') = Inr saved"
proof -
  have "map_option (map t_Status) (toSave (browse id id (2, 2) [Key ''x'' [], Key ''q'' []] (New id id [demo_task]))) = Some [''done'']"
    by code_simp
  then obtain saved where s: "toSave (browse id id (2, 2) [Key ''x'' [], Key ''q'' []] (New id id [demo_task])) = Some saved"
    "map t_Status saved = [''done'']" by auto
  have "Load id (\<lambda>f. Document (if f = ''old'' then [demo_task] else saved)) None (Some ''old'') = Inr [demo_task]"
    by (simp add: Load_def validate_def taskErrors_def demo_task_def status_valid_def priority_valid_def)
  from saved_tasks_load_again[OF this s(1), of "\<lambda>_. ''new''"] s show ?thesis by auto
qed

text \<open>(C15) Saving is atomic: in every state the file system goes through, whatever call fails and wherever the program
  is stopped, the task file has its old content or the complete new one, no other file changes
  but the temporary one, which is gone at the end; success means the new content with the old
  permission bits.\<close>

theorem save_atomic:
  assumes "replaceTarget resolve fs path = Some (target, perm)" and "sv_tmp env \<noteq> target" and "fs (sv_tmp env) = None"
    and "Save resolve env fs path (Some data) = (err, states)" and "st \<in> set states"
  shows "(st target = fs target \<or> st target = Some (data @ [char_of (10::nat)], perm))
    \<and> (\<forall>f. f \<noteq> target \<and> f \<noteq> sv_tmp env \<longrightarrow> st f = fs f)
    \<and> last states (sv_tmp env) = None
    \<and> (err = None \<longrightarrow> last states target = Some (data @ [char_of (10::nat)], perm))
    \<and> (err \<noteq> None \<longrightarrow> st target = fs target)"
  using assms unfolding Save_def Let_def
  by (auto split: option.splits save_error.splits)

definition demo_save :: "save_error option \<Rightarrow> save_env" where
  "demo_save f = \<lparr>sv_ctx = None, sv_fail = f, sv_partial = ''x'', sv_tmp = ''.tasks.1''\<rparr>"

theorem save_atomic_witness:
  "\<exists>states. Save (\<lambda>p. Inr p) (demo_save None) [''tasks'' \<mapsto> (''old'', 420)] ''tasks'' (Some ''new'') = (None, states)
    \<and> last states ''tasks'' = Some (''new'' @ [char_of (10::nat)], 420)"
proof -
  obtain err states where s: "Save (\<lambda>p. Inr p) (demo_save None) [''tasks'' \<mapsto> (''old'', 420)] ''tasks'' (Some ''new'') = (err, states)" by force
  then have e: "err = None" and st: "[''tasks'' \<mapsto> (''old'', 420)] \<in> set states"
    by (auto simp: Save_def demo_save_def replaceTarget_def Let_def)
  have "replaceTarget (\<lambda>p. Inr p) [''tasks'' \<mapsto> (''old'', 420)] ''tasks'' = Some (''tasks'', 420)" by (simp add: replaceTarget_def)
  from save_atomic[OF this _ _ s st] e s show ?thesis by (auto simp: demo_save_def)
qed

end
