(* ===== verification/Text_Scan.thy ===== *)
theory Text_Scan
  imports Go_Prelude
begin

text \<open>
  App 01, reading text: the splitting into words of \<^verbatim>\<open>internal/wordfreq/scan.go\<close>, with what it uses of the
  Go library: UTF-8 decoding (\<^verbatim>\<open>unicode/utf8\<close>), the scanner of \<^verbatim>\<open>bufio\<close> that calls a split function on a growing
  buffer, and \<open>bufio.ScanLines\<close>. The locale \<open>split_function\<close> states what makes the tokens of a scanner
  independent of how the input arrives in reads; both split functions are shown to have it.

  Bytes are characters, the Unicode tables are the record \<open>unicode\<close>.
\<close>

section \<open>UTF-8\<close>

abbreviation byte :: "char \<Rightarrow> nat" where
  "byte c \<equiv> of_char c"

abbreviation RuneError :: nat where
  "RuneError \<equiv> 65533"

text \<open>The length announced by a first byte and the range of the second one; 1 for ASCII and invalid first bytes.\<close>

definition utf8First :: "nat \<Rightarrow> nat \<times> nat \<times> nat" where
  "utf8First b =
     (if 194 \<le> b \<and> b \<le> 223 then (2, 128, 191)
      else if b = 224 then (3, 160, 191)
      else if b = 237 then (3, 128, 159)
      else if 225 \<le> b \<and> b \<le> 239 then (3, 128, 191)
      else if b = 240 then (4, 144, 191)
      else if b = 244 then (4, 128, 143)
      else if 241 \<le> b \<and> b \<le> 243 then (4, 128, 191)
      else (1, 0, 0))"

abbreviation outside :: "char \<Rightarrow> nat \<Rightarrow> nat \<Rightarrow> bool" where
  "outside c lo hi \<equiv> byte c < lo \<or> hi < byte c"

definition FullRune :: "string \<Rightarrow> bool" where
  "FullRune p =
     (case p of
        [] \<Rightarrow> False
      | b0 # _ \<Rightarrow>
          (case utf8First (byte b0) of (n, lo, hi) \<Rightarrow>
             if n \<le> length p then True
             else if 1 < length p \<and> outside (p ! 1) lo hi then True
             else if 2 < length p \<and> outside (p ! 2) 128 191 then True
             else False))"

definition DecodeRune :: "string \<Rightarrow> nat \<times> nat" where
  "DecodeRune p =
     (case p of
        [] \<Rightarrow> (RuneError, 0)
      | b0 # _ \<Rightarrow>
          (case utf8First (byte b0) of (n, lo, hi) \<Rightarrow>
             if n = 1 then (if byte b0 < 128 then byte b0 else RuneError, 1)
             else if length p < n then (RuneError, 1)
             else if outside (p ! 1) lo hi then (RuneError, 1)
             else if n = 2 then (byte b0 mod 32 * 64 + byte (p ! 1) mod 64, 2)
             else if outside (p ! 2) 128 191 then (RuneError, 1)
             else if n = 3 then (byte b0 mod 16 * 4096 + byte (p ! 1) mod 64 * 64 + byte (p ! 2) mod 64, 3)
             else if outside (p ! 3) 128 191 then (RuneError, 1)
             else (byte b0 mod 8 * 262144 + byte (p ! 1) mod 64 * 4096 + byte (p ! 2) mod 64 * 64 + byte (p ! 3) mod 64, 4)))"

lemma utf8First_cases:
  "fst (utf8First b) \<in> {1, 2, 3, 4}"
  by (simp add: utf8First_def)

lemma DecodeRune_hd:
  assumes "p \<noteq> []" and "utf8First (byte (hd p)) = (n, lo, hi)"
  shows "DecodeRune p =
            (if n = 1 then (if byte (hd p) < 128 then byte (hd p) else RuneError, 1)
             else if length p < n then (RuneError, 1)
             else if outside (p ! 1) lo hi then (RuneError, 1)
             else if n = 2 then (byte (hd p) mod 32 * 64 + byte (p ! 1) mod 64, 2)
             else if outside (p ! 2) 128 191 then (RuneError, 1)
             else if n = 3 then (byte (hd p) mod 16 * 4096 + byte (p ! 1) mod 64 * 64 + byte (p ! 2) mod 64, 3)
             else if outside (p ! 3) 128 191 then (RuneError, 1)
             else (byte (hd p) mod 8 * 262144 + byte (p ! 1) mod 64 * 4096 + byte (p ! 2) mod 64 * 64 + byte (p ! 3) mod 64, 4))"
proof (cases p)
  case (Cons b0 q)
  then show ?thesis using assms(2) unfolding DecodeRune_def by (simp only: list.case list.sel prod.case)
qed (use assms(1) in simp)

lemma FullRune_hd:
  assumes "p \<noteq> []" and "utf8First (byte (hd p)) = (n, lo, hi)"
  shows "FullRune p \<longleftrightarrow> n \<le> length p \<or> 1 < length p \<and> outside (p ! 1) lo hi \<or> 2 < length p \<and> outside (p ! 2) 128 191"
proof (cases p)
  case (Cons b0 q)
  then show ?thesis using assms(2) unfolding FullRune_def by (simp only: list.case list.sel prod.case) argo
qed (use assms(1) in simp)

lemma utf8_header:
  assumes "p \<noteq> []"
  obtains n lo hi where "utf8First (byte (hd p)) = (n, lo, hi)" "n = 1 \<or> n = 2 \<or> n = 3 \<or> n = 4"
proof -
  obtain n lo hi where f: "utf8First (byte (hd p)) = (n, lo, hi)" by (metis prod_cases3)
  then show ?thesis using utf8First_cases[of "byte (hd p)"] that[OF f] by auto
qed

lemma DecodeRune_size:
  assumes "p \<noteq> []" shows "0 < snd (DecodeRune p)" and "snd (DecodeRune p) \<le> length p"
proof -
  obtain n lo hi where f: "utf8First (byte (hd p)) = (n, lo, hi)" "n = 1 \<or> n = 2 \<or> n = 3 \<or> n = 4"
    using utf8_header[OF assms] .
  have "1 \<le> length p" using assms by (simp add: Suc_le_eq)
  with f(2) show "0 < snd (DecodeRune p)" "snd (DecodeRune p) \<le> length p"
    unfolding DecodeRune_hd[OF assms f(1)] by (elim disjE; simp)+
qed

text \<open>A full rune is decided by its bytes alone, whatever follows.\<close>

lemma FullRune_nonempty: "FullRune p \<Longrightarrow> p \<noteq> []"
  by (auto simp: FullRune_def)

lemma DecodeRune_append:
  assumes "FullRune p" shows "DecodeRune (p @ q) = DecodeRune p"
proof -
  note ne = FullRune_nonempty[OF assms]
  obtain n lo hi where f: "utf8First (byte (hd p)) = (n, lo, hi)" "n = 1 \<or> n = 2 \<or> n = 3 \<or> n = 4"
    using utf8_header[OF ne] .
  have ne2: "p @ q \<noteq> []" and f2: "utf8First (byte (hd (p @ q))) = (n, lo, hi)" and h: "hd (p @ q) = hd p" using ne f by simp_all
  have nth: "k < length p \<Longrightarrow> (p @ q) ! k = p ! k" for k by (simp add: nth_append)
  note dec = DecodeRune_hd[OF ne2 f2, unfolded h] DecodeRune_hd[OF ne f(1)]
  consider "n \<le> length p" | "length p < n" "1 < length p" "outside (p ! 1) lo hi" | "length p < n" "2 < length p" "outside (p ! 2) 128 191"
    using assms FullRune_hd[OF ne f(1)] by linarith
  then show ?thesis
  proof cases
    case 1
    have b: "1 < n \<Longrightarrow> (p @ q) ! 1 = p ! 1" "2 < n \<Longrightarrow> (p @ q) ! 2 = p ! 2" "3 < n \<Longrightarrow> (p @ q) ! 3 = p ! 3" using 1 nth by auto
    from f(2) show ?thesis unfolding dec using 1 b by (elim disjE) simp_all
  next
    case 2
    then have "(p @ q) ! 1 = p ! 1" by (intro nth)
    with 2 show ?thesis unfolding dec by simp
  next
    case 3
    then have "(p @ q) ! 2 = p ! 2" "n = 4" using f(2) nth by auto
    with 3 show ?thesis unfolding dec by simp
  qed
qed

lemma FullRune_append:
  assumes "FullRune p" shows "FullRune (p @ q)"
proof -
  note ne = FullRune_nonempty[OF assms]
  obtain n lo hi where f: "utf8First (byte (hd p)) = (n, lo, hi)" using utf8_header[OF ne] by metis
  have ne2: "p @ q \<noteq> []" and f2: "utf8First (byte (hd (p @ q))) = (n, lo, hi)" using ne f by simp_all
  have nth: "k < length p \<Longrightarrow> (p @ q) ! k = p ! k" for k by (simp add: nth_append)
  show ?thesis using assms unfolding FullRune_hd[OF ne f] FullRune_hd[OF ne2 f2] by (auto simp: nth)
qed

lemma DecodeRune_Nil [simp]: "DecodeRune [] = (RuneError, 0)"
  by (simp add: DecodeRune_def)

section \<open>Words\<close>

record unicode =
  IsLetter :: "nat \<Rightarrow> bool"
  IsNumber :: "nat \<Rightarrow> bool"
  IsMark :: "nat \<Rightarrow> bool"

definition isWordRune :: "unicode \<Rightarrow> nat \<Rightarrow> bool" where
  "isWordRune u r \<longleftrightarrow> IsLetter u r \<or> IsNumber u r \<or> IsMark u r"

text \<open>Apostrophe, right single quotation mark (U+2019) and hyphen.\<close>

definition isJoiner :: "nat \<Rightarrow> bool" where
  "isJoiner r \<longleftrightarrow> r = 39 \<or> r = 8217 \<or> r = 45"

text \<open>The first loop: \<open>Inl\<close> when it returns for want of a full rune, \<open>Inr\<close> with the start of the word.\<close>

function skipLoop :: "unicode \<Rightarrow> string \<Rightarrow> bool \<Rightarrow> nat \<Rightarrow> nat + nat" where
  "skipLoop u data atEOF start =
     (if start < length data then
        (if \<not> atEOF \<and> \<not> FullRune (drop start data) then Inl start
         else if isWordRune u (fst (DecodeRune (drop start data))) then Inr start
         else skipLoop u data atEOF (start + snd (DecodeRune (drop start data))))
      else Inr start)"
  by pat_completeness auto
termination
  by (relation "measure (\<lambda>(u, data, e, s). length data - s)") (auto simp: DecodeRune_size diff_less_mono2)

text \<open>The second loop: what it returns, or \<open>None\<close> when it reaches the end of the data.\<close>

function wordLoop :: "unicode \<Rightarrow> string \<Rightarrow> bool \<Rightarrow> nat \<Rightarrow> nat \<Rightarrow> (nat \<times> string option) option" where
  "wordLoop u data atEOF start i =
     (if i < length data then
        (if \<not> atEOF \<and> \<not> FullRune (drop i data) then Some (start, None)
         else if isWordRune u (fst (DecodeRune (drop i data))) then
           wordLoop u data atEOF start (i + snd (DecodeRune (drop i data)))
         else if isJoiner (fst (DecodeRune (drop i data))) then
           (let sz = snd (DecodeRune (drop i data)); rest = drop (i + sz) data
            in if \<not> atEOF \<and> \<not> FullRune rest then Some (start, None)
               else if isWordRune u (fst (DecodeRune rest)) then wordLoop u data atEOF start (i + sz)
               else Some (i + sz, Some (drop start (take i data))))
         else Some (i + snd (DecodeRune (drop i data)), Some (drop start (take i data))))
      else None)"
  by pat_completeness auto
termination
  by (relation "measure (\<lambda>(u, data, e, s, i). length data - i)") (auto simp: DecodeRune_size diff_less_mono2)

declare skipLoop.simps [simp del] wordLoop.simps [simp del]

definition ScanWords :: "unicode \<Rightarrow> string \<Rightarrow> bool \<Rightarrow> nat \<times> string option" where
  "ScanWords u data atEOF =
     (case skipLoop u data atEOF 0 of
        Inl start \<Rightarrow> (start, None)
      | Inr start \<Rightarrow>
          (case wordLoop u data atEOF start start of
             Some res \<Rightarrow> res
           | None \<Rightarrow> if atEOF \<and> start < length data then (length data, Some (drop start data)) else (start, None)))"

section \<open>Lines\<close>

definition dropCR :: "string \<Rightarrow> string" where
  "dropCR data = (if data \<noteq> [] \<and> byte (last data) = 13 then butlast data else data)"

definition ScanLines :: "string \<Rightarrow> bool \<Rightarrow> nat \<times> string option" where
  "ScanLines data atEOF =
     (if atEOF \<and> data = [] then (0, None)
      else let i = length (takeWhile (\<lambda>c. byte c \<noteq> 10) data)
           in if i < length data then (i + 1, Some (dropCR (take i data)))
              else if atEOF then (length data, Some (dropCR data))
              else (0, None))"

section \<open>The scanner\<close>

datatype 'e scan_error = ErrTooLong | ErrAdvanceTooFar | NoProgress | ReadError 'e

text \<open>All tokens of a reader and the scanner's error. \<open>buf\<close> is the data read and not consumed, \<open>reads\<close> what the
  following reads return; the last of them comes with \<open>err\<close>, where \<open>None\<close> is the end of the file.
  An empty read at the end is one that returns the error alone. A token without advance would be
  delivered again and again: the model stops with \<open>NoProgress\<close>.\<close>

function Scan :: "(string \<Rightarrow> bool \<Rightarrow> nat \<times> string option) \<Rightarrow> nat \<Rightarrow> 'e option \<Rightarrow> string \<Rightarrow> string list \<Rightarrow> string list \<times> 'e scan_error option" where
  "Scan split mx err buf [] =
     (case split buf True of
        (a, Some t) \<Rightarrow>
          if length buf < a then ([], Some ErrAdvanceTooFar)
          else if a = 0 then ([t], Some NoProgress)
          else (case Scan split mx err (drop a buf) [] of (ts, e) \<Rightarrow> (t # ts, e))
      | (a, None) \<Rightarrow> if length buf < a then ([], Some ErrAdvanceTooFar) else ([], map_option ReadError err))"
| "Scan split mx err buf (c # cs) =
     (if buf = [] then Scan split mx err c cs
      else case split buf False of
        (a, Some t) \<Rightarrow>
          if length buf < a then ([], Some ErrAdvanceTooFar)
          else if a = 0 then ([t], Some NoProgress)
          else (case Scan split mx err (drop a buf) (c # cs) of (ts, e) \<Rightarrow> (t # ts, e))
      | (a, None) \<Rightarrow>
          if length buf < a then ([], Some ErrAdvanceTooFar)
          else if mx \<le> length (drop a buf) then ([], Some ErrTooLong)
          else Scan split mx err (drop a buf @ c) cs)"
  by pat_completeness auto
termination
  by (relation "measures [\<lambda>(s, mx, e, buf, reads). length reads, \<lambda>(s, mx, e, buf, reads). length buf]") auto

declare Scan.simps [simp del]

text \<open>The tokens of a whole input.\<close>

definition tokensOf :: "(string \<Rightarrow> bool \<Rightarrow> nat \<times> string option) \<Rightarrow> string \<Rightarrow> string list" where
  "tokensOf split d = fst (Scan split 0 (None :: unit option) d [])"

text \<open>What a split function must keep for the tokens not to depend on the reads: a token found before the
  end of the data is the one found with more data, and data skipped before the end is skipped with more data.\<close>

locale split_function =
  fixes split :: "string \<Rightarrow> bool \<Rightarrow> nat \<times> string option"
  assumes token_advance: "split d eof = (a, Some t) \<Longrightarrow> 0 < a \<and> a \<le> length d"
    and skip_advance: "split d eof = (a, None) \<Longrightarrow> a \<le> length d"
    and token_stable: "split d False = (a, Some t) \<Longrightarrow> split (d @ e) True = (a, Some t)"
    and skip_stable: "split d False = (a, None) \<Longrightarrow> split (d @ e) True = (case split (drop a d @ e) True of (n, t) \<Rightarrow> (a + n, t))"
begin

lemma Scan_rest: "Scan split mx err d [] = (tokensOf split d, map_option ReadError err)"
proof (induction d rule: length_induct)
  case (1 d)
  show ?case
  proof (cases "split d True")
    case (Pair a ot)
    show ?thesis
    proof (cases ot)
      case None
      then show ?thesis using Pair skip_advance[of d True a] by (simp add: tokensOf_def Scan.simps)
    next
      case (Some t)
      have a: "0 < a" "a \<le> length d" using Pair Some token_advance[of d True a t] by simp_all
      then have "length (drop a d) < length d" by simp
      then have "Scan split mx err (drop a d) [] = (tokensOf split (drop a d), map_option ReadError err)" using 1 by blast
      then show ?thesis using a Pair Some by (simp add: tokensOf_def Scan.simps split: prod.split)
    qed
  qed
qed

lemma tokensOf_token:
  assumes "split d True = (a, Some t)" shows "tokensOf split d = t # tokensOf split (drop a d)"
  using assms token_advance[OF assms] by (simp add: tokensOf_def Scan.simps split: prod.split)

lemma tokensOf_none: "split d True = (a, None) \<Longrightarrow> tokensOf split d = []"
  using skip_advance by (simp add: tokensOf_def Scan.simps)

lemma tokensOf_skip:
  assumes "split d False = (a, None)" shows "tokensOf split (d @ e) = tokensOf split (drop a d @ e)"
proof (cases "split (drop a d @ e) True")
  case (Pair n ot)
  have e: "split (d @ e) True = (a + n, ot)" using skip_stable[OF assms, of e] Pair by simp
  have a: "a \<le> length d" by (rule skip_advance[OF assms])
  show ?thesis
  proof (cases ot)
    case None
    then show ?thesis using e Pair tokensOf_none by simp
  next
    case (Some t)
    have "drop (a + n) (d @ e) = drop n (drop a d @ e)" using a by (simp add: add.commute)
    then show ?thesis using tokensOf_token[OF e[unfolded Some]] tokensOf_token[OF Pair[unfolded Some]] by simp
  qed
qed

lemma Scan_any_reads:
  assumes "length (buf @ concat reads) < mx"
  shows "Scan split mx err buf reads = (tokensOf split (buf @ concat reads), map_option ReadError err)"
  using assms
proof (induction reads arbitrary: buf)
  case Nil
  then show ?case by (simp add: Scan_rest)
next
  case (Cons c cs)
  show ?case using Cons.prems
  proof (induction buf rule: length_induct)
    case (1 buf)
    show ?case
    proof (cases "buf = []")
      case True
      then show ?thesis using Cons.IH[of c] 1 by (simp add: Scan.simps)
    next
      case False
      obtain a ot where s: "split buf False = (a, ot)" by force
      show ?thesis
      proof (cases ot)
        case None
        have a: "a \<le> length buf" using s None skip_advance by simp
        then have "Scan split mx err (drop a buf @ c) cs = (tokensOf split (drop a buf @ c @ concat cs), map_option ReadError err)"
          using Cons.IH[of "drop a buf @ c"] 1(2) by simp
        moreover have "\<not> mx \<le> length buf - a" using 1(2) by simp
        ultimately show ?thesis using a s None False tokensOf_skip[OF s[unfolded None]] by (simp add: Scan.simps)
      next
        case (Some t)
        have a: "0 < a" "a \<le> length buf" using s Some token_advance by simp_all
        have "Scan split mx err (drop a buf) (c # cs) = (tokensOf split (drop a buf @ concat (c # cs)), map_option ReadError err)"
          using 1 a False by simp
        then show ?thesis using a s Some False tokensOf_token[OF token_stable[OF s[unfolded Some]]] by (simp add: Scan.simps)
      qed
    qed
  qed
qed

end

section \<open>Lines do not depend on the reads\<close>

lemma takeWhile_append_stop:
  "length (takeWhile P d) < length d \<Longrightarrow> takeWhile P (d @ e) = takeWhile P d"
  by (metis nth_length_takeWhile nth_mem takeWhile_append1)

interpretation lines: split_function ScanLines
proof
  fix d e :: string and eof a t
  let ?P = "\<lambda>c. byte c \<noteq> 10"
  show "ScanLines d eof = (a, Some t) \<Longrightarrow> 0 < a \<and> a \<le> length d"
    by (auto simp: ScanLines_def Let_def split: if_splits)
  show "ScanLines d eof = (a, None) \<Longrightarrow> a \<le> length d"
    by (auto simp: ScanLines_def Let_def split: if_splits)
  show "ScanLines (d @ e) True = (a, Some t)" if "ScanLines d False = (a, Some t)"
  proof -
    have l: "length (takeWhile ?P d) < length d" using that by (auto simp: ScanLines_def Let_def split: if_splits)
    then show ?thesis using that takeWhile_append_stop[OF l, of e] by (auto simp: ScanLines_def Let_def split: if_splits)
  qed
  show "ScanLines (d @ e) True = (case ScanLines (drop a d @ e) True of (n, t) \<Rightarrow> (a + n, t))" if "ScanLines d False = (a, None)"
  proof -
    have "a = 0" using that by (auto simp: ScanLines_def Let_def split: if_splits)
    then show ?thesis by simp
  qed
qed

text \<open>The lines of a text: what stands between newlines, without a carriage return at the end; what
  follows the last newline is a line only if it is not empty.\<close>

function linesOf :: "string \<Rightarrow> string list" where
  "linesOf d =
     (if d = [] then []
      else let l = takeWhile (\<lambda>c. byte c \<noteq> 10) d
           in dropCR l # linesOf (drop (length l + 1) d))"
  by pat_completeness auto
termination
  by (relation "measure length") auto

declare linesOf.simps [simp del]

lemma ScanLines_empty: "ScanLines [] True = (0, None)"
  by (simp add: ScanLines_def)

lemma tokensOf_ScanLines: "tokensOf ScanLines d = linesOf d"
proof (induction d rule: linesOf.induct)
  case (1 d)
  let ?l = "takeWhile (\<lambda>c. byte c \<noteq> 10) d"
  show ?case
  proof (cases "d = []")
    case True
    then show ?thesis using lines.tokensOf_none[OF ScanLines_empty] by (simp add: linesOf.simps)
  next
    case False
    show ?thesis
    proof (cases "length ?l < length d")
      case True
      have "ScanLines d True = (length ?l + 1, Some (dropCR ?l))"
        using True False by (simp add: ScanLines_def Let_def takeWhile_eq_take[symmetric])
      then show ?thesis using lines.tokensOf_token 1 False by (simp add: linesOf.simps[of d] Let_def)
    next
      case F: False
      then have l: "?l = d" by (metis length_takeWhile_le le_neq_implies_less takeWhile_eq_take take_all_iff order_refl)
      have "ScanLines d True = (length d, Some (dropCR d))" using False F by (simp add: ScanLines_def Let_def)
      moreover have "linesOf d = [dropCR d]"
        unfolding linesOf.simps[of d] Let_def l using False by (simp add: linesOf.simps[of "[]"])
      ultimately show ?thesis using lines.tokensOf_token[of d "length d"] lines.tokensOf_none[OF ScanLines_empty] by simp
    qed
  qed
qed

section \<open>Words do not depend on the reads\<close>

lemma skipLoop_bound: "start \<le> length d \<Longrightarrow> skipLoop u d eof start \<in> Inl ` {start..length d} \<union> Inr ` {start..length d}"
proof (induction u d eof start rule: skipLoop.induct)
  case (1 u d eof start)
  show ?case
  proof (cases "start < length d")
    case True
    have "start + snd (DecodeRune (drop start d)) \<le> length d" using DecodeRune_size(2)[of "drop start d"] True by simp
    then show ?thesis using 1 True by (subst skipLoop.simps) auto
  qed (use 1 in \<open>simp add: skipLoop.simps\<close>)
qed

lemma skipLoop_word:
  "skipLoop u d eof start = Inr s \<Longrightarrow> s < length d \<Longrightarrow> isWordRune u (fst (DecodeRune (drop s d))) \<and> (eof \<or> FullRune (drop s d))"
proof (induction u d eof start rule: skipLoop.induct)
  case (1 u d eof start)
  note e = "1.prems"(1)[unfolded skipLoop.simps[of u d eof start]]
  show ?case using e 1(1) 1(3) by (auto split: if_splits)
qed

lemma skipLoop_at_word:
  assumes "s < length d" and "isWordRune u (fst (DecodeRune (drop s d)))" shows "skipLoop u d True s = Inr s"
  using assms by (simp add: skipLoop.simps)

lemma skipLoop_more:
  "s \<le> length d \<Longrightarrow> skipLoop u d False s \<in> {Inl s', Inr s'} \<Longrightarrow> skipLoop u (d @ e) True s = skipLoop u (d @ e) True s'"
proof (induction u d False s rule: skipLoop.induct)
  case (1 u d s)
  note e = "1.prems"(2)[unfolded skipLoop.simps[of u d False s]]
  show ?case
  proof (cases "s < length d \<and> FullRune (drop s d) \<and> \<not> isWordRune u (fst (DecodeRune (drop s d)))")
    case True
    then have d: "DecodeRune (drop s (d @ e)) = DecodeRune (drop s d)" by (simp add: DecodeRune_append)
    have "s + snd (DecodeRune (drop s d)) \<le> length d" using DecodeRune_size(2)[of "drop s d"] True by auto
    then have "skipLoop u (d @ e) True (s + snd (DecodeRune (drop s d))) = skipLoop u (d @ e) True s'" using 1(1) e True by simp
    then show ?thesis using True d by (subst skipLoop.simps) simp
  next
    case False
    then have "s' = s" using e by (auto split: if_splits)
    then show ?thesis by simp
  qed
qed

lemma skipLoop_shift:
  "k \<le> length x \<Longrightarrow> skipLoop u x eof (k + j) = map_sum ((+) k) ((+) k) (skipLoop u (drop k x) eof j)"
proof (induction u "drop k x" eof j rule: skipLoop.induct)
  case (1 u eof j)
  have d: "drop (k + j) x = drop j (drop k x)" by (simp add: add.commute)
  have l: "k + j < length x \<longleftrightarrow> j < length (drop k x)" using 1(2) by auto
  show ?case
    using 1 unfolding skipLoop.simps[of u x eof "k + j"] skipLoop.simps[of u "drop k x" eof j] d l
    by (cases eof) (simp_all add: add.assoc)
qed

lemma wordLoop_shift:
  "k \<le> length x \<Longrightarrow> wordLoop u x eof (k + st) (k + i) = map_option (map_prod ((+) k) id) (wordLoop u (drop k x) eof st i)"
proof (induction u "drop k x" eof st i rule: wordLoop.induct)
  case (1 u eof st i)
  have d: "drop (k + j) x = drop j (drop k x)" for j by (simp add: add.commute)
  have l: "k + i < length x \<longleftrightarrow> i < length (drop k x)" using 1(3) by auto
  have t: "drop (k + st) (take (k + i) x) = drop st (take i (drop k x))" by (simp add: drop_take add.commute)
  show ?case
    using 1 unfolding wordLoop.simps[of u x eof "k + st" "k + i"] wordLoop.simps[of u "drop k x" eof st i] l t add.assoc Let_def d
    by (cases eof) simp_all
qed

lemma wordLoop_none: "wordLoop u d eof st i = Some (a, None) \<Longrightarrow> a = st \<and> \<not> eof"
proof (induction u d eof st i rule: wordLoop.induct)
  case (1 u d eof st i)
  note e = "1.prems"(1)[unfolded wordLoop.simps[of u d eof st i] Let_def]
  show ?case using e 1(1,2) by (auto split: if_splits)
qed

lemma wordLoop_bound: "wordLoop u d eof st i = Some (a, Some t) \<Longrightarrow> i < a \<and> a \<le> length d"
proof (induction u d eof st i rule: wordLoop.induct)
  case (1 u d eof st i)
  note e = "1.prems"(1)[unfolded wordLoop.simps[of u d eof st i] Let_def]
  have i: "i < length d" using e by (simp split: if_splits)
  then have "0 < snd (DecodeRune (drop i d))" "i + snd (DecodeRune (drop i d)) \<le> length d"
    using DecodeRune_size[of "drop i d"] by simp_all
  then show ?case using e 1(1,2) by (force split: if_splits)
qed

lemma wordLoop_more: "wordLoop u d False st i = Some (a, Some t) \<Longrightarrow> wordLoop u (d @ e) True st i = Some (a, Some t)"
proof (induction u d False st i rule: wordLoop.induct)
  case (1 u d st i)
  let ?sz = "snd (DecodeRune (drop i d))"
  note w = "1.prems"(1)[unfolded wordLoop.simps[of u d False st i] Let_def]
  have i: "i < length d" and f: "FullRune (drop i d)" using w by (auto split: if_splits)
  have d: "DecodeRune (drop i (d @ e)) = DecodeRune (drop i d)" using f i by (simp add: DecodeRune_append)
  have sz: "i + ?sz \<le> length d" using DecodeRune_size(2)[of "drop i d"] i by simp
  have r: "DecodeRune (drop (i + ?sz) (d @ e)) = DecodeRune (drop (i + ?sz) d)" if "FullRune (drop (i + ?sz) d)"
    using DecodeRune_append[OF that, of e] sz by simp
  have t: "take i (d @ e) = take i d" using i by simp
  show ?case
    unfolding wordLoop.simps[of u "d @ e" True st i] Let_def d t
    using w 1(1,2) i f r by (auto split: if_splits)
qed

lemma ScanWords_shift:
  assumes "skipLoop u x True 0 = skipLoop u x True a" and "a \<le> length x"
  shows "ScanWords u x True = (case ScanWords u (drop a x) True of (n, t) \<Rightarrow> (a + n, t))"
proof -
  have s: "skipLoop u x True 0 = map_sum ((+) a) ((+) a) (skipLoop u (drop a x) True 0)"
    using skipLoop_shift[OF assms(2), of u True 0] assms(1) by simp
  show ?thesis
  proof (cases "skipLoop u (drop a x) True 0")
    case (Inl b)
    then show ?thesis using s by (simp add: ScanWords_def)
  next
    case (Inr b)
    have "wordLoop u x True (a + b) (a + b) = map_option (map_prod ((+) a) id) (wordLoop u (drop a x) True b b)"
      by (rule wordLoop_shift[OF assms(2)])
    moreover have "a + b < length x \<longleftrightarrow> b < length (drop a x)" using assms(2) by auto
    ultimately show ?thesis using s Inr assms(2)
      by (cases "wordLoop u (drop a x) True b b") (auto simp: ScanWords_def add.commute split: prod.split)
  qed
qed

interpretation words: split_function "ScanWords u" for u
proof
  fix d e :: string and eof a t
  have b: "skipLoop u d eof 0 \<in> Inl ` {0..length d} \<union> Inr ` {0..length d}" for eof by (rule skipLoop_bound) simp
  show "0 < a \<and> a \<le> length d" if "ScanWords u d eof = (a, Some t)"
    using that b[of eof] by (fastforce simp: ScanWords_def dest: wordLoop_bound split: sum.splits option.splits if_splits)
  show "a \<le> length d" if "ScanWords u d eof = (a, None)"
    using that b[of eof] by (fastforce simp: ScanWords_def dest: wordLoop_none split: sum.splits option.splits if_splits)
  show "ScanWords u (d @ e) True = (a, Some t)" if tok: "ScanWords u d False = (a, Some t)"
  proof -
    obtain s where s1: "skipLoop u d False 0 = Inr s" using tok by (cases "skipLoop u d False 0") (auto simp: ScanWords_def)
    moreover have "wordLoop u d False s s = Some (a, Some t)" using that s1 by (simp add: ScanWords_def split: option.splits)
    ultimately have s: "skipLoop u d False 0 = Inr s" "wordLoop u d False s s = Some (a, Some t)" by simp_all
    have l: "s < length d" using wordLoop_bound[OF s(2)] by simp
    have w: "isWordRune u (fst (DecodeRune (drop s d)))" "FullRune (drop s d)" using skipLoop_word[OF s(1) l] by simp_all
    have "isWordRune u (fst (DecodeRune (drop s (d @ e))))" using w l DecodeRune_append[OF w(2), of e] by simp
    then have "skipLoop u (d @ e) True s = Inr s" using l by (intro skipLoop_at_word) simp_all
    then have "skipLoop u (d @ e) True 0 = Inr s" using skipLoop_more[of 0 d u s e] s(1) by simp
    then show ?thesis using wordLoop_more[OF s(2), of e] by (simp add: ScanWords_def)
  qed
  show "ScanWords u (d @ e) True = (case ScanWords u (drop a d @ e) True of (n, t) \<Rightarrow> (a + n, t))" if "ScanWords u d False = (a, None)"
  proof -
    have s: "skipLoop u d False 0 \<in> {Inl a, Inr a}"
      using that by (auto simp: ScanWords_def dest: wordLoop_none split: sum.splits option.splits)
    have "a \<le> length d" using s b[of False] by auto
    then show ?thesis using ScanWords_shift[OF skipLoop_more[OF _ s, of e]] by simp
  qed
qed

section \<open>The words of a text\<close>

text \<open>The runes of a text with their bytes.\<close>

function runes :: "string \<Rightarrow> (nat \<times> string) list" where
  "runes d =
     (if d = [] then []
      else (fst (DecodeRune d), take (snd (DecodeRune d)) d) # runes (drop (snd (DecodeRune d)) d))"
  by pat_completeness auto
termination
  by (relation "measure length") (auto simp: DecodeRune_size)

declare runes.simps [simp del]

text \<open>Reference: runs of word runes, where a joiner between two word runes belongs to the word. \<open>w\<close> is the word so far.\<close>

fun wordsOf :: "unicode \<Rightarrow> (nat \<times> string) list \<Rightarrow> string \<Rightarrow> string list" where
  "wordsOf u [] w = (if w = [] then [] else [w])"
| "wordsOf u ((r, bs) # rs) w =
     (if isWordRune u r then wordsOf u rs (w @ bs)
      else if w \<noteq> [] \<and> isJoiner r \<and> rs \<noteq> [] \<and> isWordRune u (fst (hd rs)) then wordsOf u rs (w @ bs)
      else (if w = [] then [] else [w]) @ wordsOf u rs [])"

lemma runes_Nil [simp]: "runes [] = []"
  by (simp add: runes.simps)

lemma runes_drop:
  assumes "i < length d"
  shows "runes (drop i d) = (fst (DecodeRune (drop i d)), take (snd (DecodeRune (drop i d))) (drop i d)) # runes (drop (i + snd (DecodeRune (drop i d))) d)"
  using assms by (subst runes.simps) (simp add: add.commute)

lemma wordsOf_skip:
  assumes "skipLoop u d True s = Inr s'"
  shows "wordsOf u (runes (drop s d)) [] = wordsOf u (runes (drop s' d)) []"
  using assms
proof (induction u d True s rule: skipLoop.induct)
  case (1 u d s)
  note e = "1.prems"(1)[unfolded skipLoop.simps[of u d True s]]
  show ?case using e 1(1) by (auto simp: runes_drop split: if_splits)
qed

lemma slice_extend:
  assumes "st \<le> i" and "i < length d"
  shows "drop st (take i d) @ take n (drop i d) = drop st (take (i + n) d)"
  using assms by (simp add: take_add)

lemma skipLoop_eof: "skipLoop u d True s = Inr (projr (skipLoop u d True s))"
proof (induction u d True s rule: skipLoop.induct)
  case (1 u d s)
  then show ?case by (subst (1 2) skipLoop.simps) auto
qed

text \<open>From inside a word, the loop finds the end of the word that the reference finds.\<close>

lemma wordsOf_word:
  assumes "\<not> isWordRune u RuneError" and "st \<le> i" and "i \<le> length d" and "st < i \<or> isWordRune u (fst (DecodeRune (drop i d)))"
  shows "wordsOf u (runes (drop i d)) (drop st (take i d)) =
          (case wordLoop u d True st i of
             Some (a, Some t) \<Rightarrow> t # wordsOf u (runes (drop a d)) []
           | _ \<Rightarrow> [drop st d])"
  using assms
proof (induction u d True st i rule: wordLoop.induct)
  case (1 u d st i)
  show ?case
  proof (cases "i < length d")
    case False
    then have "st < i" "i = length d" using "1.prems" by auto
    then show ?thesis by (simp add: wordLoop.simps)
  next
    case True
    let ?r = "fst (DecodeRune (drop i d))" and ?n = "snd (DecodeRune (drop i d))"
    have n: "0 < ?n" "i + ?n \<le> length d" using DecodeRune_size[of "drop i d"] True by auto
    have sl: "drop st (take i d) @ take ?n (drop i d) = drop st (take (i + ?n) d)" using "1.prems"(2) True by (rule slice_extend)
    have rest: "runes (drop (i + ?n) d) \<noteq> [] \<and> isWordRune u (fst (hd (runes (drop (i + ?n) d))))
        \<longleftrightarrow> isWordRune u (fst (DecodeRune (drop (i + ?n) d)))"
      using "1.prems"(1) by (cases "i + ?n < length d") (simp_all add: runes_drop)
    have w: "drop st (take i d) \<noteq> []" if "\<not> isWordRune u ?r" using "1.prems" that True by simp
    show ?thesis
      unfolding runes_drop[OF True] wordsOf.simps wordLoop.simps[of u d True st i] Let_def sl
      using 1(1)[OF True] 1(2)[OF True _ _ _ refl refl] "1.prems" n w rest True by simp
  qed
qed

lemma tokensOf_ScanWords:
  assumes "\<not> isWordRune u RuneError"
  shows "tokensOf (ScanWords u) d = wordsOf u (runes d) []"
proof (induction d rule: length_induct)
  case (1 d)
  obtain s where s: "skipLoop u d True 0 = Inr s" using skipLoop_eof by blast
  have l: "s \<le> length d" using skipLoop_bound[of 0 d u True] s by auto
  have e: "wordsOf u (runes d) [] = wordsOf u (runes (drop s d)) []" using wordsOf_skip[OF s] by simp
  show ?case
  proof (cases "s < length d")
    case False
    then have "ScanWords u d True = (s, None)" using s by (simp add: ScanWords_def wordLoop.simps)
    then show ?thesis using words.tokensOf_none e False by simp
  next
    case True
    have w: "isWordRune u (fst (DecodeRune (drop s d)))" using skipLoop_word[OF s True] by simp
    obtain a t where a: "ScanWords u d True = (a, Some t)" and r: "wordsOf u (runes (drop s d)) [] = t # wordsOf u (runes (drop a d)) []"
    proof (cases "wordLoop u d True s s")
      case None
      then show ?thesis using that[of "length d" "drop s d"] s True wordsOf_word[OF assms order_refl l] w by (simp add: ScanWords_def)
    next
      case (Some x)
      obtain a t where x: "x = (a, Some t)" using wordLoop_none Some by (metis option.exhaust prod.exhaust)
      then show ?thesis using that[of a t] s Some wordsOf_word[OF assms order_refl l] w by (simp add: ScanWords_def)
    qed
    have "length (drop a d) < length d" using words.token_advance[OF a] True by auto
    then have "tokensOf (ScanWords u) (drop a d) = wordsOf u (runes (drop a d)) []" using 1 by blast
    then show ?thesis using words.tokensOf_token[OF a] e r by simp
  qed
qed

end
