(* ===== verification/Word_Freq.thy ===== *)
theory Word_Freq
  imports Text_Scan "HOL-Library.Multiset" "HOL-Library.List_Lexorder" "HOL-Library.Char_ord" "HOL-Library.Product_Lexorder"
begin

text \<open>
  App 01: the operands and their readers (\<^verbatim>\<open>internal/input/input.go\<close>), the word counts (\<^verbatim>\<open>internal/wordfreq/count.go\<close>), the
  set of lines (\<^verbatim>\<open>internal/dedupe/dedupe.go\<close>) and the two commands (\<^verbatim>\<open>internal/cli\<close>).

  Case folding is the parameter \<open>foldcase\<close>; files are a function from names to what their reads return. Inputs
  counted concurrently finish in any order: the order is an argument.
\<close>

section \<open>Operands and readers\<close>

datatype io_error = CtxError ctx_error | OSError string

datatype input_error = ErrStdinRepeated

definition Stdin :: string where
  "Stdin = ''-''"

definition Names :: "string list \<Rightarrow> input_error + string list" where
  "Names args =
     (if args = [] then Inr [Stdin]
      else if Stdin \<in> set args \<and> Stdin \<in> set (tl (dropWhile (\<lambda>a. a \<noteq> Stdin) args)) then Inl ErrStdinRepeated
      else Inr args)"

text \<open>One read of the underlying reader, with the context's error before and after it. The error of a read is \<open>None\<close> (nil),
  \<open>Some None\<close> (end of file) or \<open>Some (Some e)\<close>.\<close>

record read_event =
  ctx_before :: "ctx_error option"
  r_data :: string
  r_err :: "io_error option option"
  ctx_after :: "ctx_error option"

definition contextRead :: "read_event \<Rightarrow> string \<times> io_error option option" where
  "contextRead ev =
     (case ctx_before ev of
        Some c \<Rightarrow> ([], Some (Some (CtxError c)))
      | None \<Rightarrow>
          (case ctx_after ev of
             Some c \<Rightarrow> (r_data ev, Some (Some (CtxError c)))
           | None \<Rightarrow> (r_data ev, r_err ev)))"

text \<open>The reads up to the first error, and that error.\<close>

fun readAll :: "read_event list \<Rightarrow> string list \<times> io_error option" where
  "readAll [] = ([], None)"
| "readAll (ev # evs) =
     (case contextRead ev of
        (d, Some e) \<Rightarrow> ([d], e)
      | (d, None) \<Rightarrow> (case readAll evs of (ds, e) \<Rightarrow> (d # ds, e)))"

record rd_closer =
  rc_events :: "read_event list"
  rc_close :: "io_error option"

definition Open :: "read_event list \<Rightarrow> (string \<Rightarrow> io_error + rd_closer) \<Rightarrow> string \<Rightarrow> io_error + rd_closer" where
  "Open stdin files name =
     (if name = Stdin then Inr \<lparr>rc_events = stdin, rc_close = None\<rparr> else files name)"

section \<open>Counts\<close>

definition maxWordSize :: nat where
  "maxWordSize = 16777216"

type_synonym Counts = "(string \<times> int) list"

text \<open>\<open>c[w] += n\<close>.\<close>

fun addTo :: "string \<Rightarrow> int \<Rightarrow> Counts \<Rightarrow> Counts" where
  "addTo w n [] = [(w, n)]"
| "addTo w n ((v, m) # cs) = (if v = w then (v, m + n) # cs else (v, m) # addTo w n cs)"

definition Merge :: "Counts \<Rightarrow> Counts \<Rightarrow> Counts" where
  "Merge c other = foldl (\<lambda>acc (w, n). addTo w n acc) c other"

definition Total :: "Counts \<Rightarrow> int" where
  "Total c = foldl (\<lambda>t (w, n). t + n) 0 c"

record Entry =
  Word :: string
  Count_of :: int

definition Top :: "int \<Rightarrow> Counts \<Rightarrow> Entry list" where
  "Top n c =
     (let entries = map (\<lambda>(w, k). \<lparr>Word = w, Count_of = k\<rparr>) c;
          sorted = sort_key (\<lambda>e. (- Count_of e, Word e)) entries
      in if 0 < n then take (nat (min n (int (length sorted)))) sorted else sorted)"

fun countWords :: "(string \<Rightarrow> string) \<Rightarrow> int \<Rightarrow> string list \<Rightarrow> Counts \<Rightarrow> Counts" where
  "countWords foldcase minLen [] counts = counts"
| "countWords foldcase minLen (t # ts) counts =
     (let word = foldcase t
      in if int (length (runes word)) < minLen then countWords foldcase minLen ts counts
         else countWords foldcase minLen ts (addTo word 1 counts))"

definition Count :: "unicode \<Rightarrow> (string \<Rightarrow> string) \<Rightarrow> rd_closer \<Rightarrow> int \<Rightarrow> io_error scan_error + Counts" where
  "Count u foldcase r minLen =
     (case readAll (rc_events r) of (reads, rerr) \<Rightarrow>
        (case Scan (ScanWords u) maxWordSize rerr [] reads of (toks, serr) \<Rightarrow>
           (case serr of
              Some e \<Rightarrow> Inl e
            | None \<Rightarrow> Inr (countWords foldcase minLen toks []))))"

datatype wf_error =
    OpenFailed io_error
  | ReadFailed string "io_error scan_error" "io_error option"
  | CloseFailed io_error

text \<open>The deferred close joins its error to the result.\<close>

definition countInput :: "unicode \<Rightarrow> (string \<Rightarrow> string) \<Rightarrow> (string \<Rightarrow> io_error + rd_closer) \<Rightarrow> int \<Rightarrow> string \<Rightarrow> wf_error + Counts" where
  "countInput u foldcase opener minLen name =
     (case opener name of
        Inl e \<Rightarrow> Inl (OpenFailed e)
      | Inr rc \<Rightarrow>
          (case Count u foldcase rc minLen of
             Inl e \<Rightarrow> Inl (ReadFailed name e (rc_close rc))
           | Inr counts \<Rightarrow> (case rc_close rc of Some e \<Rightarrow> Inl (CloseFailed e) | None \<Rightarrow> Inr counts)))"

text \<open>\<open>order\<close> is the order in which the goroutines finish: the total is merged in that order, and the group returns
  the first error.\<close>

fun CountAll :: "(string \<Rightarrow> wf_error + Counts) \<Rightarrow> string list \<Rightarrow> Counts \<Rightarrow> wf_error + Counts" where
  "CountAll input [] tot = Inr tot"
| "CountAll input (name # order) tot =
     (case input name of
        Inl e \<Rightarrow> Inl e
      | Inr counts \<Rightarrow> CountAll input order (Merge tot counts))"

section \<open>Distinct lines\<close>

definition maxLineSize :: nat where
  "maxLineSize = 16777216"

record Line =
  Text :: string
  l_Count :: int

record Set =
  index :: "string \<rightharpoonup> nat"
  lines :: "Line list"
  s_total :: int

definition NewSet :: Set where
  "NewSet = \<lparr>index = Map.empty, lines = [], s_total = 0\<rparr>"

definition Add :: "string \<Rightarrow> Set \<Rightarrow> Set \<times> bool" where
  "Add t s =
     (let s1 = s\<lparr>s_total := s_total s + 1\<rparr>
      in case index s1 t of
           Some i \<Rightarrow> (s1\<lparr>lines := (lines s1)[i := (lines s1 ! i)\<lparr>l_Count := l_Count (lines s1 ! i) + 1\<rparr>]\<rparr>, False)
         | None \<Rightarrow> (s1\<lparr>index := (index s1)(t \<mapsto> length (lines s1)), lines := lines s1 @ [\<lparr>Text = t, l_Count = 1\<rparr>]\<rparr>, True))"

definition Lines :: "Set \<Rightarrow> Line list" where
  "Lines s = lines s"

definition Len :: "Set \<Rightarrow> nat" where
  "Len s = length (lines s)"

definition Set_Total :: "Set \<Rightarrow> int" where
  "Set_Total s = s_total s"

datatype scan_failure = WriteFailed io_error | ScanFailed "io_error scan_error"

text \<open>\<open>onFirst\<close> gets a line and the lines written before; \<open>out\<close> is what it has written.\<close>

fun scanLoop :: "(string list \<Rightarrow> string \<Rightarrow> io_error option) option \<Rightarrow> string list \<Rightarrow> Set \<Rightarrow> string list \<Rightarrow> Set \<times> string list \<times> io_error option" where
  "scanLoop onFirst [] s out = (s, out, None)"
| "scanLoop onFirst (line # toks) s out =
     (case Add line s of (s1, first) \<Rightarrow>
        (case onFirst of
           None \<Rightarrow> scanLoop onFirst toks s1 out
         | Some f \<Rightarrow>
             if \<not> first then scanLoop onFirst toks s1 out
             else case f out line of
                    Some e \<Rightarrow> (s1, out, Some e)
                  | None \<Rightarrow> scanLoop onFirst toks s1 (out @ [line])))"

definition scan :: "(string list \<Rightarrow> string \<Rightarrow> io_error option) option \<Rightarrow> rd_closer \<Rightarrow> Set \<Rightarrow> string list \<Rightarrow> Set \<times> string list \<times> scan_failure option" where
  "scan onFirst r s out =
     (case readAll (rc_events r) of (reads, rerr) \<Rightarrow>
        (case Scan ScanLines maxLineSize rerr [] reads of (toks, serr) \<Rightarrow>
           (case scanLoop onFirst toks s out of
              (s1, out1, Some e) \<Rightarrow> (s1, out1, Some (WriteFailed e))
            | (s1, out1, None) \<Rightarrow> (s1, out1, map_option ScanFailed serr))))"

datatype dd_error =
    DD_Open io_error
  | DD_Read string scan_failure "io_error option"
  | DD_Close io_error

definition scanInput :: "(string \<Rightarrow> io_error + rd_closer) \<Rightarrow> (string list \<Rightarrow> string \<Rightarrow> io_error option) option \<Rightarrow> string \<Rightarrow> Set \<Rightarrow> string list \<Rightarrow> Set \<times> string list \<times> dd_error option" where
  "scanInput opener onFirst name s out =
     (case opener name of
        Inl e \<Rightarrow> (s, out, Some (DD_Open e))
      | Inr rc \<Rightarrow>
          (case scan onFirst rc s out of
             (s1, out1, Some e) \<Rightarrow> (s1, out1, Some (DD_Read name e (rc_close rc)))
           | (s1, out1, None) \<Rightarrow> (s1, out1, map_option DD_Close (rc_close rc))))"

fun ScanAll :: "(string \<Rightarrow> io_error + rd_closer) \<Rightarrow> (string list \<Rightarrow> string \<Rightarrow> io_error option) option \<Rightarrow> string list \<Rightarrow> Set \<Rightarrow> string list \<Rightarrow> Set \<times> string list \<times> dd_error option" where
  "ScanAll opener onFirst [] s out = (s, out, None)"
| "ScanAll opener onFirst (name # names) s out =
     (case scanInput opener onFirst name s out of
        (s1, out1, Some e) \<Rightarrow> (s1, out1, Some e)
      | (s1, out1, None) \<Rightarrow> ScanAll opener onFirst names s1 out1)"

section \<open>The commands\<close>

datatype cli_error =
    ErrInvalidFlag string
  | NamesFailed input_error
  | CountFailed wf_error
  | DedupeFailed dd_error
  | OutputFailed io_error

record countCommand =
  c_top :: int
  minLen :: int
  jobs :: int
  c_json :: bool

definition validate :: "countCommand \<Rightarrow> cli_error option" where
  "validate c =
     (if c_top c < 0 then Some (ErrInvalidFlag ''top'')
      else if minLen c < 1 then Some (ErrInvalidFlag ''min-len'')
      else if jobs c < 1 then Some (ErrInvalidFlag ''jobs'')
      else None)"

record report =
  rp_Total :: int
  rp_Unique :: nat
  rp_Words :: "Entry list"

text \<open>\<open>finish\<close> is the order in which the inputs are done, given their names.\<close>

definition count_run ::
  "unicode \<Rightarrow> (string \<Rightarrow> string) \<Rightarrow> (string \<Rightarrow> io_error + rd_closer) \<Rightarrow> (string list \<Rightarrow> string list) \<Rightarrow> countCommand \<Rightarrow> string list \<Rightarrow> cli_error + report" where
  "count_run u foldcase opener finish c args =
     (case validate c of
        Some e \<Rightarrow> Inl e
      | None \<Rightarrow>
          (case Names args of
             Inl e \<Rightarrow> Inl (NamesFailed e)
           | Inr names \<Rightarrow>
               (case CountAll (countInput u foldcase opener (minLen c)) (finish names) [] of
                  Inl e \<Rightarrow> Inl (CountFailed e)
                | Inr counts \<Rightarrow> Inr \<lparr>rp_Total = Total counts, rp_Unique = length counts, rp_Words = Top (c_top c) counts\<rparr>)))"

text \<open>\<open>%7d\<close>.\<close>

definition pad7 :: "int \<Rightarrow> string" where
  "pad7 n = replicate (7 - length (itoa n)) (CHR '' '') @ itoa n"

fun writeCounted :: "(string list \<Rightarrow> string \<Rightarrow> io_error option) \<Rightarrow> Line list \<Rightarrow> string list \<Rightarrow> string list \<times> io_error option" where
  "writeCounted wr [] out = (out, None)"
| "writeCounted wr (l # ls) out =
     (let line = pad7 (l_Count l) @ '' '' @ Text l
      in case wr out line of Some e \<Rightarrow> (out, Some e) | None \<Rightarrow> writeCounted wr ls (out @ [line]))"

text \<open>The error, the lines written to standard output, and the numbers of inputs, lines and distinct lines that are logged.
  \<open>wr\<close> is a write to the buffered writer, \<open>flushErr\<close> the result of flushing it.\<close>

definition dedupe_run ::
  "(string \<Rightarrow> io_error + rd_closer) \<Rightarrow> (string list \<Rightarrow> string \<Rightarrow> io_error option) \<Rightarrow> io_error option \<Rightarrow> bool \<Rightarrow> string list \<Rightarrow> cli_error option \<times> string list \<times> (nat \<times> int \<times> nat) option" where
  "dedupe_run opener wr flushErr withCount args =
     (case Names args of
        Inl e \<Rightarrow> (Some (NamesFailed e), [], None)
      | Inr names \<Rightarrow>
          (case ScanAll opener (if \<not> withCount then Some wr else None) names NewSet [] of
             (s, out, err) \<Rightarrow>
               (case err of
                  Some e \<Rightarrow> (Some (DedupeFailed e), out, None)
                | None \<Rightarrow>
                    (case (if withCount then writeCounted wr (Lines s) out else (out, None)) of
                       (out1, werr) \<Rightarrow>
                         (case werr of
                            Some e \<Rightarrow> (Some (OutputFailed e), out1, None)
                          | None \<Rightarrow>
                              (case flushErr of
                                 Some e \<Rightarrow> (Some (OutputFailed e), out1, None)
                               | None \<Rightarrow> (None, out1, Some (length names, Set_Total s, Len s))))))))"

section \<open>Counts are counts\<close>

text \<open>The counts of a list of words: one entry per word, with the number of its occurrences.\<close>

definition counts_of :: "string list \<Rightarrow> Counts \<Rightarrow> bool" where
  "counts_of ws cs \<longleftrightarrow> distinct (map fst cs) \<and> map_of cs = (\<lambda>w. if w \<in> set ws then Some (int (count_list ws w)) else None)"

lemma map_of_addTo: "map_of (addTo w n cs) = (map_of cs)(w \<mapsto> (case map_of cs w of None \<Rightarrow> n | Some m \<Rightarrow> m + n))"
  by (induction w n cs rule: addTo.induct) (auto simp: fun_eq_iff)

lemma fst_addTo: "map fst (addTo w n cs) = (if w \<in> fst ` set cs then map fst cs else map fst cs @ [w])"
  by (induction w n cs rule: addTo.induct) auto

lemma distinct_addTo: "distinct (map fst cs) \<Longrightarrow> distinct (map fst (addTo w n cs))"
  by (simp add: fst_addTo)

lemma counts_of_Nil [simp]: "counts_of [] []"
  by (simp add: counts_of_def fun_eq_iff)

lemma counts_of_addTo:
  assumes "counts_of ws cs" shows "counts_of (ws @ [w]) (addTo w 1 cs)"
  using assms by (auto simp: counts_of_def distinct_addTo map_of_addTo fun_eq_iff count_list_0_iff)

lemma counts_of_countWords:
  assumes "counts_of ws cs"
  shows "counts_of (ws @ filter (\<lambda>w. minL \<le> int (length (runes w))) (map foldcase toks)) (countWords foldcase minL toks cs)"
  using assms
proof (induction foldcase minL toks cs arbitrary: ws rule: countWords.induct)
  case (2 foldcase minL t ts cs)
  show ?case
  proof (cases "int (length (runes (foldcase t))) < minL")
    case False
    have "counts_of (ws @ [foldcase t]) (addTo (foldcase t) 1 cs)"
      by (rule counts_of_addTo[OF 2(3)])
    from 2(2)[OF refl False this] show ?thesis using False by simp
  qed (use 2 in simp)
qed simp

lemma Merge_Cons: "Merge c ((v, n) # other) = Merge (addTo v n c) other"
  by (simp add: Merge_def)

lemma map_of_Merge:
  "distinct (map fst other) \<Longrightarrow>
   map_of (Merge c other) w = (case map_of other w of None \<Rightarrow> map_of c w | Some n \<Rightarrow> Some (n + (case map_of c w of None \<Rightarrow> 0 | Some m \<Rightarrow> m)))"
proof (induction other arbitrary: c)
  case (Cons p other)
  obtain v n where p: "p = (v, n)" by force
  have v: "map_of other v = None" using Cons.prems p by (simp add: map_of_eq_None_iff)
  show ?case using Cons.IH[of "addTo v n c"] Cons.prems v by (auto simp: p Merge_Cons map_of_addTo split: option.split)
qed (simp add: Merge_def)

lemma distinct_Merge: "distinct (map fst c) \<Longrightarrow> distinct (map fst (Merge c other))"
proof (induction other arbitrary: c)
  case (Cons p other)
  obtain v n where p: "p = (v, n)" by force
  show ?case using Cons.IH[OF distinct_addTo[OF Cons.prems]] by (simp add: p Merge_Cons)
qed (simp add: Merge_def)

lemma counts_of_Merge:
  assumes "counts_of ws c" and "counts_of vs other" shows "counts_of (ws @ vs) (Merge c other)"
  using assms distinct_Merge map_of_Merge unfolding counts_of_def
  by (auto simp: fun_eq_iff count_list_0_iff)

lemma counts_of_CountAll:
  assumes "\<forall>n\<in>set order. \<exists>cs. input n = Inr cs \<and> counts_of (f n) cs" and "counts_of ws tot"
  shows "\<exists>cs. CountAll input order tot = Inr cs \<and> counts_of (ws @ concat (map f order)) cs"
  using assms
proof (induction input order tot arbitrary: ws rule: CountAll.induct)
  case (2 input name order tot)
  obtain cs where c: "input name = Inr cs" "counts_of (f name) cs" using "2.prems"(1) by auto
  have "\<exists>cs'. CountAll input order (Merge tot cs) = Inr cs' \<and> counts_of ((ws @ f name) @ concat (map f order)) cs'"
    by (rule 2(1)[OF c(1) _ counts_of_Merge[OF "2.prems"(2) c(2)]]) (use "2.prems"(1) in simp)
  then show ?case using c(1) by simp
qed simp

lemma counts_of_mset:
  assumes "mset ws = mset vs" shows "counts_of ws = counts_of vs"
  using assms mset_eq_setD[OF assms] by (auto simp: counts_of_def fun_eq_iff count_mset[symmetric] simp del: count_mset)

text \<open>The counts are, as a multiset, those of the distinct words.\<close>

lemma counts_of_entries:
  assumes "counts_of ws cs" shows "mset cs = mset (map (\<lambda>w. (w, int (count_list ws w))) (remdups ws))"
proof -
  have d: "distinct cs" using assms by (auto simp: counts_of_def distinct_map)
  moreover have "distinct (map (\<lambda>w. (w, int (count_list ws w))) (remdups ws))" by (simp add: distinct_map inj_on_def)
  moreover have "set cs = set (map (\<lambda>w. (w, int (count_list ws w))) (remdups ws))"
  proof -
    have "(w, n) \<in> set cs \<longleftrightarrow> w \<in> set ws \<and> n = int (count_list ws w)" for w n
      using assms by (auto simp: counts_of_def simp flip: map_of_eq_Some_iff split: if_splits)
    then show ?thesis by auto
  qed
  ultimately show ?thesis by (rule set_eq_iff_mset_eq_distinct[THEN iffD1])
qed

lemma Total_sum: "Total cs = (\<Sum>p\<leftarrow>cs. snd p)"
proof -
  have "foldl (\<lambda>t (w, n). t + n) a cs = a + (\<Sum>p\<leftarrow>cs. snd p)" for a :: int by (induction cs arbitrary: a) (auto simp: case_prod_beta)
  then show ?thesis by (simp add: Total_def)
qed

lemma Total_counts_of:
  assumes "counts_of ws cs" shows "Total cs = int (length ws)"
proof -
  let ?L = "map (\<lambda>w. (w, int (count_list ws w))) (remdups ws)"
  have "mset (map snd cs) = mset (map snd ?L)" unfolding mset_map counts_of_entries[OF assms, unfolded mset_map] ..
  then have "Total cs = sum_list (map snd ?L)" unfolding Total_sum by (metis sum_mset_sum_list)
  also have "\<dots> = (\<Sum>w\<leftarrow>remdups ws. int (count_list ws w))" by (simp add: comp_def)
  also have "\<dots> = (\<Sum>w\<in>set ws. int (count_list ws w))" by (simp add: sum_list_distinct_conv_sum_set)
  also have "\<dots> = int (length ws)" by (simp add: sum_count_set flip: of_nat_sum)
  finally show ?thesis .
qed

lemma Unique_counts_of: "counts_of ws cs \<Longrightarrow> length cs = card (set ws)"
  using counts_of_entries[of ws cs] by (metis length_map length_remdups_card_conv size_mset)

text \<open>The sort key of an entry determines it, so the listing does not depend on the order of the map.\<close>

lemma Top_mset: "mset cs = mset cs' \<Longrightarrow> Top n cs = Top n cs'"
proof -
  assume m: "mset cs = mset cs'"
  let ?e = "map (\<lambda>(w, k). \<lparr>Word = w, Count_of = k\<rparr>)" and ?k = "\<lambda>e :: Entry. (- Count_of e, Word e)"
  have "sort_key ?k (?e cs) = sort_key ?k (?e cs')"
  proof (rule sort_key_inj_key_eq)
    show "mset (?e cs) = mset (sort_key ?k (?e cs'))" using m by simp
    show "inj_on ?k (set (?e cs))" by (rule inj_onI) (auto intro: Entry.equality)
    show "sorted (map ?k (sort_key ?k (?e cs')))" by simp
  qed
  then show ?thesis by (simp add: Top_def Let_def)
qed

section \<open>The set keeps the first-seen order\<close>

definition firstSeen :: "string list \<Rightarrow> string list" where
  "firstSeen xs = rev (remdups (rev xs))"

lemma firstSeen_snoc: "firstSeen (xs @ [x]) = (if x \<in> set xs then firstSeen xs else firstSeen xs @ [x])"
  by (simp add: firstSeen_def)

lemma firstSeen_simps [simp]: "firstSeen [] = []" "set (firstSeen xs) = set xs" "distinct (firstSeen xs)"
  by (simp_all add: firstSeen_def)

text \<open>The set after the lines \<open>xs\<close>: the index is the inverse of the list of lines.\<close>

definition set_of :: "string list \<Rightarrow> Set \<Rightarrow> bool" where
  "set_of xs s \<longleftrightarrow>
     lines s = map (\<lambda>l. \<lparr>Text = l, l_Count = int (count_list xs l)\<rparr>) (firstSeen xs)
   \<and> (\<forall>t i. index s t = Some i \<longleftrightarrow> i < length (firstSeen xs) \<and> firstSeen xs ! i = t)
   \<and> s_total s = int (length xs)"

lemma set_of_New: "set_of [] NewSet"
  by (simp add: set_of_def NewSet_def)

lemma set_of_Add:
  assumes "set_of xs s"
  shows "set_of (xs @ [t]) (fst (Add t s))" and "snd (Add t s) \<longleftrightarrow> t \<notin> set xs"
proof -
  let ?f = "firstSeen xs"
  have l: "lines s = map (\<lambda>l. \<lparr>Text = l, l_Count = int (count_list xs l)\<rparr>) ?f"
    and i: "index s u = Some i \<longleftrightarrow> i < length ?f \<and> ?f ! i = u" and n: "s_total s = int (length xs)" for u i
    using assms by (simp_all add: set_of_def)
  have mem: "index s t = None \<longleftrightarrow> t \<notin> set xs"
    using i[of t] by (metis firstSeen_simps(2) in_set_conv_nth not_None_eq)
  have "set_of (xs @ [t]) (fst (Add t s)) \<and> (snd (Add t s) \<longleftrightarrow> t \<notin> set xs)"
  proof (cases "index s t")
    case None
    have "map (\<lambda>l. \<lparr>Text = l, l_Count = int (count_list xs l)\<rparr>) ?f = map (\<lambda>l. \<lparr>Text = l, l_Count = int (count_list (xs @ [t]) l)\<rparr>) ?f"
      using None mem by auto
    moreover have "t \<notin> set xs" using None mem by simp
    moreover have "j < length ?f \<Longrightarrow> ?f ! j \<noteq> t" for j using \<open>t \<notin> set xs\<close> by (metis firstSeen_simps(2) nth_mem)
    then have "((index s)(t \<mapsto> length ?f)) u = Some k \<longleftrightarrow> k < Suc (length ?f) \<and> (?f @ [t]) ! k = u" for u k
      using i[of u k] \<open>t \<notin> set xs\<close> by (auto simp: nth_append less_Suc_eq)
    ultimately show ?thesis using l n by (simp add: Add_def None set_of_def firstSeen_snoc count_list_0_iff)
  next
    case (Some k)
    have k: "k < length ?f" "?f ! k = t" using Some i[of t k] by simp_all
    have "t \<in> set xs" using Some mem by simp
    have "(lines s)[k := \<lparr>Text = t, l_Count = int (count_list xs t) + 1\<rparr>] = map (\<lambda>l. \<lparr>Text = l, l_Count = int (count_list (xs @ [t]) l)\<rparr>) ?f"
      unfolding l using k by (intro nth_equalityI) (auto simp: nth_list_update nth_eq_iff_index_eq)
    moreover have "(lines s ! k)\<lparr>l_Count := l_Count (lines s ! k) + 1\<rparr> = \<lparr>Text = t, l_Count = int (count_list xs t) + 1\<rparr>"
      using k l by simp
    ultimately show ?thesis using \<open>t \<in> set xs\<close> i n by (simp add: Add_def Some set_of_def firstSeen_snoc)
  qed
  then show "set_of (xs @ [t]) (fst (Add t s))" "snd (Add t s) \<longleftrightarrow> t \<notin> set xs" by simp_all
qed

lemma scanLoop_ok:
  assumes "set_of xs s" and "out = (if onFirst = None then [] else firstSeen xs)" and "\<forall>f. onFirst = Some f \<longrightarrow> (\<forall>w l. f w l = None)"
  shows "\<exists>s'. scanLoop onFirst toks s out = (s', if onFirst = None then [] else firstSeen (xs @ toks), None) \<and> set_of (xs @ toks) s'"
  using assms
proof (induction onFirst toks s out arbitrary: xs rule: scanLoop.induct)
  case (2 onFirst t toks s out)
  obtain s1 fst1 where a: "Add t s = (s1, fst1)" by force
  have s1: "set_of (xs @ [t]) s1" "fst1 \<longleftrightarrow> t \<notin> set xs" using set_of_Add[OF "2.prems"(1), of t] a by simp_all
  show ?case
  proof (cases onFirst)
    case None
    then show ?thesis using 2(1)[OF a[symmetric] None s1(1)] 2 a by simp
  next
    case (Some f)
    have f: "f out t = None" using "2.prems"(3) Some by simp
    have ou: "out = firstSeen xs" using "2.prems"(2) Some by simp
    show ?thesis
    proof (cases fst1)
      case True
      have "out @ [t] = firstSeen (xs @ [t])" using True s1(2) ou by (simp add: firstSeen_snoc)
      then show ?thesis using 2(3)[OF a[symmetric] Some _ f s1(1)] True Some f a "2.prems"(3) by simp
    next
      case False
      have "out = firstSeen (xs @ [t])" using False s1(2) ou by (simp add: firstSeen_snoc)
      then show ?thesis using 2(2)[OF a[symmetric] Some False s1(1)] False Some a "2.prems"(3) by simp
    qed
  qed
qed simp

section \<open>Properties\<close>

text \<open>An input that can be opened, read to its end and closed, and contains \<open>t\<close>.\<close>

definition reads_as :: "io_error + rd_closer \<Rightarrow> string \<Rightarrow> bool" where
  "reads_as op t \<longleftrightarrow>
     (case op of
        Inl e \<Rightarrow> False
      | Inr rc \<Rightarrow> rc_close rc = None \<and> snd (readAll (rc_events rc)) = None \<and> concat (fst (readAll (rc_events rc))) = t)"

lemma reads_asE:
  assumes "reads_as op t"
  obtains rc reads where "op = Inr rc" "rc_close rc = None" "readAll (rc_events rc) = (reads, None)" "concat reads = t"
  using assms by (cases op) (auto simp: reads_as_def prod_eq_iff)

text \<open>The order of the listing.\<close>

definition before :: "Entry \<Rightarrow> Entry \<Rightarrow> bool" where
  "before a b \<longleftrightarrow> Count_of b < Count_of a \<or> Count_of b = Count_of a \<and> Word a < Word b"

lemma sorted_before:
  assumes "distinct (map fst cs)"
  shows "sorted_wrt before (sort_key (\<lambda>e. (- Count_of e, Word e)) (map (\<lambda>(w, k). \<lparr>Word = w, Count_of = k\<rparr>) cs))"
proof -
  let ?k = "\<lambda>e :: Entry. (- Count_of e, Word e)" and ?e = "map (\<lambda>(w, k). \<lparr>Word = w, Count_of = k\<rparr>) cs"
  let ?s = "sort_key ?k ?e"
  have w: "distinct (map Word ?e)" using assms by (simp add: comp_def case_prod_beta)
  have "mset (map Word ?s) = mset (map Word ?e)" unfolding mset_map mset_sort ..
  then have "distinct (map Word ?s)" using mset_eq_imp_distinct_iff w by blast
  then have "distinct ?s" "inj_on ?k (set ?s)" unfolding distinct_map inj_on_def by blast+
  then have "sorted_wrt (<) (map ?k ?s)" unfolding strict_sorted_iff distinct_map using sorted_sort_key by blast
  then have "sorted_wrt (\<lambda>a b. ?k a < ?k b) ?s" unfolding sorted_wrt_map .
  then show ?thesis by (rule sorted_wrt_mono_rel[rotated]) (auto simp: before_def less_prod_def')
qed

text \<open>The folded words of a text that are long enough.\<close>

definition long_words :: "unicode \<Rightarrow> (string \<Rightarrow> string) \<Rightarrow> int \<Rightarrow> string \<Rightarrow> string list" where
  "long_words u foldcase minL t = filter (\<lambda>w. minL \<le> int (length (runes w))) (map foldcase (wordsOf u (runes t) []))"

lemma countInput_ok:
  assumes "\<not> isWordRune u RuneError" and "reads_as (opener n) t" and "length t < maxWordSize"
  shows "\<exists>cs. countInput u foldcase opener minL n = Inr cs \<and> counts_of (long_words u foldcase minL t) cs"
proof -
  obtain rc reads where o: "opener n = Inr rc" "rc_close rc = None" "readAll (rc_events rc) = (reads, None)" "concat reads = t"
    using assms(2) by (rule reads_asE)
  have "Scan (ScanWords u) maxWordSize (None :: io_error option) [] reads = (wordsOf u (runes t) [], None)"
    using words.Scan_any_reads[where buf = "[]" and reads = reads and mx = maxWordSize and err = "None :: io_error option"] o(4) assms(1,3) by (simp add: tokensOf_ScanWords)
  then have "countInput u foldcase opener minL n = Inr (countWords foldcase minL (wordsOf u (runes t) []) [])"
    using o by (simp add: countInput_def Count_def)
  moreover have "counts_of (long_words u foldcase minL t) (countWords foldcase minL (wordsOf u (runes t) []) [])"
    using counts_of_countWords[OF counts_of_Nil] by (simp add: long_words_def)
  ultimately show ?thesis by blast
qed

text \<open>The listing: the first entries of the full sorted list.\<close>

lemma Top_spec:
  assumes "counts_of ws cs" and "0 \<le> n"
  shows "\<exists>rest. sorted_wrt before (Top n cs @ rest)
      \<and> mset (Top n cs @ rest) = mset (map (\<lambda>w. \<lparr>Word = w, Count_of = int (count_list ws w)\<rparr>) (remdups ws))
      \<and> length (Top n cs) = (if n = 0 then card (set ws) else min (nat n) (card (set ws)))"
proof -
  let ?e = "\<lambda>(w, k). \<lparr>Word = w, Count_of = k\<rparr>"
  let ?s = "sort_key (\<lambda>e. (- Count_of e, Word e)) (map ?e cs)"
  define k where "k = (if 0 < n then nat (min n (int (length cs))) else length cs)"
  have t: "Top n cs = take k ?s" by (simp add: Top_def Let_def k_def)
  have "distinct (map fst cs)" using assms(1) by (simp add: counts_of_def)
  then have so: "sorted_wrt before ?s" by (rule sorted_before)
  have "mset (map ?e cs) = mset (map ?e (map (\<lambda>w. (w, int (count_list ws w))) (remdups ws)))"
    unfolding mset_map counts_of_entries[OF assms(1), unfolded mset_map] ..
  then have "mset ?s = mset (map (\<lambda>w. \<lparr>Word = w, Count_of = int (count_list ws w)\<rparr>) (remdups ws))" by (simp add: comp_def)
  moreover have "length (Top n cs) = (if n = 0 then card (set ws) else min (nat n) (card (set ws)))"
    using assms(2) by (auto simp: t k_def Unique_counts_of[OF assms(1)])
  ultimately show ?thesis using so t by (intro exI[of _ "drop k ?s"]) simp
qed

text \<open>The report of \<open>count\<close> is about the words of the texts alone.\<close>

lemma count_report_exact:
  assumes "\<not> isWordRune u RuneError" and "validate c = None" and "Names args = Inr names" and "mset (finish names) = mset names"
    and "\<forall>n\<in>set names. reads_as (opener n) (contents n) \<and> length (contents n) < maxWordSize"
  shows "\<exists>rep rest. let ws = concat (map (\<lambda>n. long_words u foldcase (minLen c) (contents n)) names) in
      count_run u foldcase opener finish c args = Inr rep
    \<and> rp_Total rep = int (length ws) \<and> rp_Unique rep = card (set ws)
    \<and> sorted_wrt before (rp_Words rep @ rest)
    \<and> mset (rp_Words rep @ rest) = mset (map (\<lambda>w. \<lparr>Word = w, Count_of = int (count_list ws w)\<rparr>) (remdups ws))
    \<and> length (rp_Words rep) = (if c_top c = 0 then card (set ws) else min (nat (c_top c)) (card (set ws)))"
proof -
  let ?f = "\<lambda>n. long_words u foldcase (minLen c) (contents n)"
  define ws where "ws = concat (map ?f names)"
  have sets: "set (finish names) = set names" using assms(4) by (rule mset_eq_setD)
  have "\<forall>n\<in>set (finish names). \<exists>cs. countInput u foldcase opener (minLen c) n = Inr cs \<and> counts_of (?f n) cs"
    using assms(5) countInput_ok[OF assms(1)] unfolding sets by blast
  then obtain cs where cs: "CountAll (countInput u foldcase opener (minLen c)) (finish names) [] = Inr cs"
    "counts_of (concat (map ?f (finish names))) cs"
    using counts_of_CountAll[OF _ counts_of_Nil] by (metis append_Nil)
  have "mset (concat (map ?f (finish names))) = mset ws"
    unfolding ws_def mset_concat map_map using assms(4) by (metis mset_map sum_mset_sum_list)
  then have c: "counts_of ws cs" using cs(2) counts_of_mset by metis
  have "0 \<le> c_top c" using assms(2) by (simp add: validate_def split: if_splits)
  from Top_spec[OF c this] obtain rest where r: "sorted_wrt before (Top (c_top c) cs @ rest)"
    "mset (Top (c_top c) cs @ rest) = mset (map (\<lambda>w. \<lparr>Word = w, Count_of = int (count_list ws w)\<rparr>) (remdups ws))"
    "length (Top (c_top c) cs) = (if c_top c = 0 then card (set ws) else min (nat (c_top c)) (card (set ws)))" by blast
  have run: "count_run u foldcase opener finish c args = Inr \<lparr>rp_Total = Total cs, rp_Unique = length cs, rp_Words = Top (c_top c) cs\<rparr>"
    using assms(2,3) cs(1) by (simp add: count_run_def)
  show ?thesis unfolding Let_def ws_def[symmetric]
    by (rule exI, rule exI[of _ rest], intro conjI, rule run) (simp_all only: report.select_convs Total_counts_of[OF c] Unique_counts_of[OF c] r)
qed

text \<open>A table of ASCII letters and digits, files of one read each, and the report on two of them.\<close>

definition ascii :: unicode where
  "ascii = \<lparr>IsLetter = (\<lambda>r. 65 \<le> r \<and> r \<le> 90 \<or> 97 \<le> r \<and> r \<le> 122), IsNumber = (\<lambda>r. 48 \<le> r \<and> r \<le> 57), IsMark = (\<lambda>r. False)\<rparr>"

definition demo_files :: "string \<Rightarrow> io_error + rd_closer" where
  "demo_files n =
     (if n = ''a'' then Inr \<lparr>rc_events = [\<lparr>ctx_before = None, r_data = ''it i'', r_err = None, ctx_after = None\<rparr>,
                                  \<lparr>ctx_before = None, r_data = ''s'', r_err = Some None, ctx_after = None\<rparr>], rc_close = None\<rparr>
      else Inr \<lparr>rc_events = [\<lparr>ctx_before = None, r_data = ''it'', r_err = Some None, ctx_after = None\<rparr>], rc_close = None\<rparr>)"

lemma demo_files_read: "reads_as (demo_files n) (if n = ''a'' then ''it is'' else ''it'')"
  by (simp add: demo_files_def reads_as_def contextRead_def)

lemma demo_words: "long_words ascii id 1 ''it is'' = [''it'', ''is'']" "long_words ascii id 1 ''it'' = [''it'']"
  by (simp_all add: long_words_def runes.simps DecodeRune_def utf8First_def isWordRune_def isJoiner_def ascii_def)

lemma scanInput_ok:
  assumes "set_of xs s" and "out = (if onFirst = None then [] else firstSeen xs)" and "\<forall>f. onFirst = Some f \<longrightarrow> (\<forall>w l. f w l = None)"
    and "reads_as (opener n) t" and "length t < maxLineSize"
  shows "\<exists>s'. scanInput opener onFirst n s out = (s', if onFirst = None then [] else firstSeen (xs @ linesOf t), None) \<and> set_of (xs @ linesOf t) s'"
proof -
  obtain rc reads where o: "opener n = Inr rc" "rc_close rc = None" "readAll (rc_events rc) = (reads, None)" "concat reads = t"
    using assms(4) by (rule reads_asE)
  have "Scan ScanLines maxLineSize (None :: io_error option) [] reads = (linesOf t, None)"
    using lines.Scan_any_reads[where buf = "[]" and reads = reads and mx = maxLineSize and err = "None :: io_error option"] o(4) assms(5) by (simp add: tokensOf_ScanLines)
  then show ?thesis using scanLoop_ok[OF assms(1-3), of "linesOf t"] o by (auto simp: scanInput_def scan_def)
qed

lemma ScanAll_ok:
  assumes "set_of xs s" and "out = (if onFirst = None then [] else firstSeen xs)" and "\<forall>f. onFirst = Some f \<longrightarrow> (\<forall>w l. f w l = None)"
    and "\<forall>n\<in>set names. reads_as (opener n) (contents n) \<and> length (contents n) < maxLineSize"
  shows "\<exists>s'. ScanAll opener onFirst names s out = (s', if onFirst = None then [] else firstSeen (xs @ concat (map (\<lambda>n. linesOf (contents n)) names)), None)
      \<and> set_of (xs @ concat (map (\<lambda>n. linesOf (contents n)) names)) s'"
  using assms
proof (induction names arbitrary: xs s out)
  case (Cons n names)
  have n: "reads_as (opener n) (contents n)" "length (contents n) < maxLineSize" using Cons.prems(4) by simp_all
  obtain s' where s': "scanInput opener onFirst n s out = (s', if onFirst = None then [] else firstSeen (xs @ linesOf (contents n)), None)"
    "set_of (xs @ linesOf (contents n)) s'"
    using scanInput_ok[where opener = opener and n = n and t = "contents n", OF Cons.prems(1-3) n] by blast
  show ?case using Cons.IH[OF s'(2) refl Cons.prems(3)] Cons.prems(4) s'(1) by (cases onFirst) simp_all
qed simp

lemma writeCounted_ok: "\<forall>w l. wr w l = None \<Longrightarrow> writeCounted wr ls out = (out @ map (\<lambda>l. pad7 (l_Count l) @ '' '' @ Text l) ls, None)"
  by (induction wr ls out rule: writeCounted.induct) (simp_all add: Let_def)

text \<open>(C26) \<open>dedupe\<close> prints every distinct line of the inputs once, in the order in which the lines are first seen, whatever the
  reads; with \<open>--count\<close> each line is preceded by the exact number of its occurrences in all inputs. The numbers of inputs, lines
  and distinct lines it logs are exact.\<close>

theorem dedupe_output_exact:
  assumes "Names args = Inr names" and "\<forall>n\<in>set names. reads_as (opener n) (contents n) \<and> length (contents n) < maxLineSize"
    and "\<forall>w l. wr w l = None"
  shows "let ls = concat (map (\<lambda>n. linesOf (contents n)) names) in
    dedupe_run opener wr None withCount args =
      (None, if withCount then map (\<lambda>l. pad7 (int (count_list ls l)) @ '' '' @ l) (firstSeen ls) else firstSeen ls,
       Some (length names, int (length ls), card (set ls)))"
proof -
  define ls where "ls = concat (map (\<lambda>n. linesOf (contents n)) names)"
  let ?on = "if \<not> withCount then Some wr else None"
  have on: "\<forall>f. ?on = Some f \<longrightarrow> (\<forall>w l. f w l = None)" using assms(3) by simp
  have e: "[] = (if ?on = None then [] else firstSeen [])" by simp
  obtain s' where s': "ScanAll opener ?on names NewSet [] = (s', if ?on = None then [] else firstSeen ls, None)" "set_of ls s'"
    using ScanAll_ok[where out = "[]" and opener = opener and contents = contents, OF set_of_New e on assms(2)]
    unfolding append_Nil ls_def by blast
  have "Lines s' = map (\<lambda>l. \<lparr>Text = l, l_Count = int (count_list ls l)\<rparr>) (firstSeen ls)" "Set_Total s' = int (length ls)"
    "Len s' = card (set ls)"
    using s'(2) distinct_card[of "firstSeen ls"] by (simp_all add: set_of_def Lines_def Set_Total_def Len_def)
  then show ?thesis unfolding Let_def ls_def[symmetric]
    using s'(1) assms(1) by (cases withCount) (simp_all add: dedupe_run_def writeCounted_ok[OF assms(3)] comp_def)
qed

lemma demo_lines: "linesOf ''it'' = [''it'']" "linesOf ''it is'' = [''it is'']"
  by (simp_all add: linesOf.simps dropCR_def)

theorem dedupe_output_exact_witness:
  "dedupe_run demo_files (\<lambda>w l. None) None False [''b'', ''a'', ''b''] = (None, [''it'', ''it is''], Some (3, 3, 2))"
proof -
  let ?t = "\<lambda>n. if n = ''a'' then ''it is'' else ''it''"
  have "Names [''b'', ''a'', ''b''] = Inr [''b'', ''a'', ''b'']" by (simp add: Names_def Stdin_def)
  moreover have "\<forall>n\<in>set [''b'', ''a'', ''b'']. reads_as (demo_files n) (?t n) \<and> length (?t n) < maxLineSize"
    using demo_files_read by (simp add: maxLineSize_def)
  ultimately show ?thesis using dedupe_output_exact[where contents = ?t and opener = demo_files and wr = "\<lambda>w l. None" and withCount = False]
    by (simp add: Let_def demo_lines firstSeen_def card_insert_if)
qed

end
