(* ===== verification/Notes.thy ===== *)
theory Notes
  imports Go_Prelude "HOL-Library.Finite_Map" "HOL-Library.Multiset" "HOL-Library.List_Lexorder" "HOL-Library.Char_ord" "HOL-Library.Product_Lexorder"
begin

text \<open>
  App 02: the in-memory note store (\<^verbatim>\<open>internal/notes/store.go\<close>) and the JSON API over it (\<^verbatim>\<open>internal/httpapi\<close>). The API only knows
  the interface \<open>noteStore\<close>: here a record of operations, with the laws the handlers rely on in the locale
  \<open>note_store\<close>, interpreted on the operations of the store.

  Values of HOL are never shared, so the copies made by \<open>clone\<close> are the values themselves. New identifiers
  (uuid), the clock, JSON decoding and the struct validator are arguments. A nil list of tags is
  \<open>None\<close>.
\<close>

section \<open>The store\<close>

datatype store_error = ErrNotFound

record Note =
  ID :: string
  Title :: string
  Body :: string
  Tags :: "string list option"
  CreatedAt :: gotime
  UpdatedAt :: gotime

record Input =
  in_Title :: string
  in_Body :: string
  in_Tags :: "string list option"

record Store =
  s_notes :: "(string, Note) fmap"

definition NewStore :: Store where
  "NewStore = \<lparr>s_notes = fmempty\<rparr>"

definition Create :: "gotime \<Rightarrow> string \<Rightarrow> Input \<Rightarrow> Store \<Rightarrow> Note \<times> Store" where
  "Create now uuid inp s =
     (let n = \<lparr>ID = uuid, Title = in_Title inp, Body = in_Body inp, Tags = in_Tags inp, CreatedAt = now, UpdatedAt = now\<rparr>
      in (n, s\<lparr>s_notes := fmupd (ID n) n (s_notes s)\<rparr>))"

definition Get :: "string \<Rightarrow> Store \<Rightarrow> store_error + Note" where
  "Get nid s = (case fmlookup (s_notes s) nid of None \<Rightarrow> Inl ErrNotFound | Some n \<Rightarrow> Inr n)"

text \<open>The map is visited in the order of its keys; \<open>List_any_order\<close> shows that the order does not matter.\<close>

definition List :: "Store \<Rightarrow> Note list" where
  "List s =
     (let out = map (\<lambda>k. the (fmlookup (s_notes s) k)) (sorted_list_of_fset (fmdom (s_notes s)))
      in sort_key (\<lambda>n. (CreatedAt n, ID n)) out)"

definition Update :: "gotime \<Rightarrow> string \<Rightarrow> Input \<Rightarrow> Store \<Rightarrow> (store_error + Note) \<times> Store" where
  "Update now nid inp s =
     (case fmlookup (s_notes s) nid of
        None \<Rightarrow> (Inl ErrNotFound, s)
      | Some n \<Rightarrow>
          let n' = n\<lparr>Title := in_Title inp, Body := in_Body inp, Tags := in_Tags inp, UpdatedAt := now\<rparr>
          in (Inr n', s\<lparr>s_notes := fmupd nid n' (s_notes s)\<rparr>))"

definition Delete :: "string \<Rightarrow> Store \<Rightarrow> store_error option \<times> Store" where
  "Delete nid s =
     (case fmlookup (s_notes s) nid of
        None \<Rightarrow> (Some ErrNotFound, s)
      | Some _ \<Rightarrow> (None, s\<lparr>s_notes := fmdrop nid (s_notes s)\<rparr>))"

section \<open>The interface\<close>

record 's noteStore =
  ns_Create :: "gotime \<Rightarrow> string \<Rightarrow> Input \<Rightarrow> 's \<Rightarrow> Note \<times> 's"
  ns_Get :: "string \<Rightarrow> 's \<Rightarrow> store_error + Note"
  ns_List :: "'s \<Rightarrow> Note list"
  ns_Update :: "gotime \<Rightarrow> string \<Rightarrow> Input \<Rightarrow> 's \<Rightarrow> (store_error + Note) \<times> 's"
  ns_Delete :: "string \<Rightarrow> 's \<Rightarrow> store_error option \<times> 's"

definition Store_ops :: "Store noteStore" where
  "Store_ops = \<lparr>ns_Create = Create, ns_Get = Get, ns_List = List, ns_Update = Update, ns_Delete = Delete\<rparr>"

section \<open>Requests, responses, errors\<close>

record noteRequest =
  rq_Title :: string
  rq_Body :: string
  rq_Tags :: "string list option"

definition rq_input :: "noteRequest \<Rightarrow> Input" where
  "rq_input req = \<lparr>in_Title = rq_Title req, in_Body = rq_Body req, in_Tags = rq_Tags req\<rparr>"

record noteResponse =
  rs_ID :: string
  rs_Title :: string
  rs_Body :: string
  rs_Tags :: "string list"
  rs_CreatedAt :: gotime
  rs_UpdatedAt :: gotime

definition newNoteResponse :: "Note \<Rightarrow> noteResponse" where
  "newNoteResponse n =
     \<lparr>rs_ID = ID n, rs_Title = Title n, rs_Body = Body n, rs_Tags = (case Tags n of None \<Rightarrow> [] | Some ts \<Rightarrow> ts),
      rs_CreatedAt = CreatedAt n, rs_UpdatedAt = UpdatedAt n\<rparr>"

text \<open>What the JSON decoder reports: the kinds of errors that \<open>decodeError\<close> tells apart.\<close>

datatype json_error =
    EOF
  | MaxBytes nat
  | SyntaxError
  | UnexpectedEOF
  | TypeError string string
  | OtherJSON string

record httpError =
  he_status :: nat
  he_code :: string
  he_message :: string

record fieldError =
  Field :: string
  Rule :: string
  Param :: string

datatype api_error = Http httpError | StoreError store_error | ValidationErrors "fieldError list" | OtherError

definition badRequest :: "string \<Rightarrow> string \<Rightarrow> httpError" where
  "badRequest code message = \<lparr>he_status = 400, he_code = code, he_message = message\<rparr>"

definition errRouteNotFound :: httpError where
  "errRouteNotFound = \<lparr>he_status = 404, he_code = ''not_found'', he_message = ''route not found''\<rparr>"

definition errNoteNotFound :: httpError where
  "errNoteNotFound = \<lparr>he_status = 404, he_code = ''not_found'', he_message = ''note not found''\<rparr>"

definition errMethodNotAllowed :: httpError where
  "errMethodNotAllowed = \<lparr>he_status = 405, he_code = ''method_not_allowed'', he_message = ''method not allowed''\<rparr>"

definition errInternal :: httpError where
  "errInternal = \<lparr>he_status = 500, he_code = ''internal'', he_message = ''internal server error''\<rparr>"

datatype resp_body =
    NoBody
  | StatusOk
  | NoteBody noteResponse
  | NotesBody "noteResponse list"
  | ErrorBody string string "fieldError list"

record response =
  status :: nat
  headers :: "(string \<times> string) list"
  body :: resp_body

definition writeJSON :: "nat \<Rightarrow> (string \<times> string) list \<Rightarrow> resp_body \<Rightarrow> response" where
  "writeJSON code hs v = \<lparr>status = code, headers = (''Content-Type'', ''application/json'') # hs, body = v\<rparr>"

definition he_response :: "httpError \<Rightarrow> resp_body" where
  "he_response e = ErrorBody (he_code e) (he_message e) []"

definition writeError :: "(string \<times> string) list \<Rightarrow> api_error \<Rightarrow> response" where
  "writeError hs err =
     (case err of
        Http e \<Rightarrow> writeJSON (he_status e) hs (he_response e)
      | StoreError ErrNotFound \<Rightarrow> writeJSON (he_status errNoteNotFound) hs (he_response errNoteNotFound)
      | ValidationErrors fes \<Rightarrow> writeJSON 422 hs (ErrorBody ''validation_failed'' ''request body failed validation'' fes)
      | OtherError \<Rightarrow> writeJSON (he_status errInternal) hs (he_response errInternal))"

definition unknownField :: string where
  "unknownField = ''json: unknown field ''"

definition decodeError :: "json_error \<Rightarrow> httpError" where
  "decodeError err =
     (case err of
        EOF \<Rightarrow> badRequest ''empty_body'' ''request body must not be empty''
      | MaxBytes limit \<Rightarrow>
          \<lparr>he_status = 413, he_code = ''body_too_large'', he_message = ''request body must not exceed '' @ itoa (int limit) @ '' bytes''\<rparr>
      | SyntaxError \<Rightarrow> badRequest ''invalid_json'' ''request body contains malformed JSON''
      | UnexpectedEOF \<Rightarrow> badRequest ''invalid_json'' ''request body contains malformed JSON''
      | TypeError field val \<Rightarrow>
          if field = [] then badRequest ''invalid_json'' ''request body must be a JSON object''
          else badRequest ''invalid_json'' (''field '' @ [CHR 0x22] @ field @ [CHR 0x22] @ '' cannot hold a JSON '' @ val)
      | OtherJSON msg \<Rightarrow>
          if take (length unknownField) msg = unknownField
          then badRequest ''unknown_field'' (''request body contains '' @ drop 6 msg)
          else badRequest ''invalid_json'' ''request body could not be decoded'')"

text \<open>A request as the handlers see it: the result of decoding its body, whether more data follows it, and the time and identifier a
  creation would use; and as the middleware sees it: the request identifier of the header, the one
  that would be generated, and whether the handler ran longer than the timeout.\<close>

record request =
  rq_method :: string
  path :: string
  decoded :: "json_error + noteRequest"
  trailing :: bool
  now :: gotime
  uuid :: string
  given_id :: string
  fresh_id :: string
  timed_out :: bool

definition decodeJSON :: "request \<Rightarrow> api_error + noteRequest" where
  "decodeJSON r =
     (case decoded r of
        Inl e \<Rightarrow> Inl (Http (decodeError e))
      | Inr req \<Rightarrow>
          if trailing r then Inl (Http (badRequest ''invalid_json'' ''request body must contain a single JSON object''))
          else Inr req)"

definition decodeNoteRequest :: "(noteRequest \<Rightarrow> fieldError list) \<Rightarrow> request \<Rightarrow> api_error + noteRequest" where
  "decodeNoteRequest check r =
     (case decodeJSON r of
        Inl e \<Rightarrow> Inl e
      | Inr req \<Rightarrow> if check req \<noteq> [] then Inl (ValidationErrors (check req)) else Inr req)"

section \<open>Handlers\<close>

definition createNote :: "(noteRequest \<Rightarrow> fieldError list) \<Rightarrow> 's noteStore \<Rightarrow> request \<Rightarrow> 's \<Rightarrow> (api_error + response) \<times> 's" where
  "createNote check st r s =
     (case decodeNoteRequest check r of
        Inl e \<Rightarrow> (Inl e, s)
      | Inr req \<Rightarrow>
          (case ns_Create st (now r) (uuid r) (rq_input req) s of (n, s') \<Rightarrow>
             (Inr (writeJSON 201 [(''Location'', ''/notes/'' @ ID n)] (NoteBody (newNoteResponse n))), s')))"

definition listNotes :: "'s noteStore \<Rightarrow> 's \<Rightarrow> (api_error + response) \<times> 's" where
  "listNotes st s = (Inr (writeJSON 200 [] (NotesBody (map newNoteResponse (ns_List st s)))), s)"

definition getNote :: "'s noteStore \<Rightarrow> string \<Rightarrow> 's \<Rightarrow> (api_error + response) \<times> 's" where
  "getNote st nid s =
     (case ns_Get st nid s of
        Inl e \<Rightarrow> (Inl (StoreError e), s)
      | Inr n \<Rightarrow> (Inr (writeJSON 200 [] (NoteBody (newNoteResponse n))), s))"

definition updateNote :: "(noteRequest \<Rightarrow> fieldError list) \<Rightarrow> 's noteStore \<Rightarrow> string \<Rightarrow> request \<Rightarrow> 's \<Rightarrow> (api_error + response) \<times> 's" where
  "updateNote check st nid r s =
     (case decodeNoteRequest check r of
        Inl e \<Rightarrow> (Inl e, s)
      | Inr req \<Rightarrow>
          (case ns_Update st (now r) nid (rq_input req) s of
             (Inl e, s') \<Rightarrow> (Inl (StoreError e), s')
           | (Inr n, s') \<Rightarrow> (Inr (writeJSON 200 [] (NoteBody (newNoteResponse n))), s')))"

definition deleteNote :: "'s noteStore \<Rightarrow> string \<Rightarrow> 's \<Rightarrow> (api_error + response) \<times> 's" where
  "deleteNote st nid s =
     (case ns_Delete st nid s of
        (Some e, s') \<Rightarrow> (Inl (StoreError e), s')
      | (None, s') \<Rightarrow> (Inr \<lparr>status = 204, headers = [], body = NoBody\<rparr>, s'))"

definition healthz :: "'s \<Rightarrow> (api_error + response) \<times> 's" where
  "healthz s = (Inr (writeJSON 200 [] StatusOk), s)"

definition handle :: "(api_error + response) \<times> 's \<Rightarrow> response \<times> 's" where
  "handle res = (case res of (Inl err, s) \<Rightarrow> (writeError [] err, s) | (Inr resp, s) \<Rightarrow> (resp, s))"

definition methodNotAllowed :: "string \<Rightarrow> 's \<Rightarrow> response \<times> 's" where
  "methodNotAllowed allow s = (writeError [(''Allow'', allow)] (Http errMethodNotAllowed), s)"

text \<open>The patterns of the mux; \<open>GET\<close> patterns also match \<open>HEAD\<close>. A wildcard stands for one non-empty segment.\<close>

datatype target = Healthz | Collection | Item string | Elsewhere

definition target_of :: "string \<Rightarrow> target" where
  "target_of p =
     (if p = ''/healthz'' then Healthz
      else if p = ''/notes'' then Collection
      else if take 7 p = ''/notes/'' \<and> drop 7 p \<noteq> [] \<and> CHR ''/'' \<notin> set (drop 7 p) then Item (drop 7 p)
      else Elsewhere)"

definition isGet :: "string \<Rightarrow> bool" where
  "isGet m \<longleftrightarrow> m = ''GET'' \<or> m = ''HEAD''"

definition mux :: "(noteRequest \<Rightarrow> fieldError list) \<Rightarrow> 's noteStore \<Rightarrow> request \<Rightarrow> 's \<Rightarrow> response \<times> 's" where
  "mux check st r s =
     (case target_of (path r) of
        Healthz \<Rightarrow> if isGet (rq_method r) then handle (healthz s) else handle (Inl (Http errRouteNotFound), s)
      | Collection \<Rightarrow>
          if rq_method r = ''POST'' then handle (createNote check st r s)
          else if isGet (rq_method r) then handle (listNotes st s)
          else methodNotAllowed ''GET, POST'' s
      | Item nid \<Rightarrow>
          if isGet (rq_method r) then handle (getNote st nid s)
          else if rq_method r = ''PUT'' then handle (updateNote check st nid r s)
          else if rq_method r = ''DELETE'' then handle (deleteNote st nid s)
          else methodNotAllowed ''GET, PUT, DELETE'' s
      | Elsewhere \<Rightarrow> handle (Inl (Http errRouteNotFound), s))"

section \<open>Request identifiers\<close>

definition validRequestID :: "string \<Rightarrow> bool" where
  "validRequestID i =
     (if i = [] \<or> 128 < length i then False
      else \<not> list_ex (\<lambda>c. of_char c < (33::nat) \<or> (126::nat) < of_char c) i)"

definition withRequestID :: "string \<Rightarrow> string \<Rightarrow> (string \<Rightarrow> response \<times> 's) \<Rightarrow> response \<times> 's" where
  "withRequestID fresh given next =
     (let i = (if \<not> validRequestID given then fresh else given)
      in case next i of (resp, s) \<Rightarrow> (resp\<lparr>headers := (''X-Request-ID'', i) # headers resp\<rparr>, s))"

text \<open>The recorder that logs a response: the first status written, and the number of bytes.\<close>

record statusRecorder =
  sr_status :: nat
  sr_size :: nat

definition WriteHeader :: "nat \<Rightarrow> statusRecorder \<Rightarrow> statusRecorder" where
  "WriteHeader code rec = (if sr_status rec = 0 then rec\<lparr>sr_status := code\<rparr> else rec)"

definition Write :: "nat \<Rightarrow> statusRecorder \<Rightarrow> statusRecorder" where
  "Write n rec =
     (let rec1 = (if sr_status rec = 0 then rec\<lparr>sr_status := 200\<rparr> else rec)
      in rec1\<lparr>sr_size := sr_size rec1 + n\<rparr>)"

text \<open>A handler that panics (\<open>None\<close>) is answered with an internal error.\<close>

definition recoverPanics :: "response option \<Rightarrow> response" where
  "recoverPanics out = (case out of None \<Rightarrow> writeError [] (Http errInternal) | Some resp \<Rightarrow> resp)"

text \<open>\<open>http.TimeoutHandler\<close>: the handler still runs to its end, but its response is dropped.\<close>

definition withTimeout :: "bool \<Rightarrow> response \<Rightarrow> response" where
  "withTimeout timedOut resp =
     (if timedOut then \<lparr>status = 503, headers = [(''Content-Type'', ''application/json'')], body = ErrorBody ''timeout'' ''request timed out'' []\<rparr>
      else resp)"

text \<open>The whole chain of \<open>NewHandler\<close>.\<close>

definition ServeHTTP :: "(noteRequest \<Rightarrow> fieldError list) \<Rightarrow> 's noteStore \<Rightarrow> request \<Rightarrow> 's \<Rightarrow> response \<times> 's" where
  "ServeHTTP check st r s =
     withRequestID (fresh_id r) (given_id r)
       (\<lambda>i. case mux check st r s of (resp, s') \<Rightarrow> (withTimeout (timed_out r) (recoverPanics (Some resp)), s'))"

text \<open>Requests one after the other.\<close>

fun serveAll :: "(noteRequest \<Rightarrow> fieldError list) \<Rightarrow> 's noteStore \<Rightarrow> request list \<Rightarrow> 's \<Rightarrow> 's" where
  "serveAll check st [] s = s"
| "serveAll check st (r # rs) s = serveAll check st rs (snd (ServeHTTP check st r s))"

section \<open>Specification\<close>

text \<open>The API as a map of notes: what a request does to it, and the status it gets.\<close>

definition after :: "(noteRequest \<Rightarrow> fieldError list) \<Rightarrow> request \<Rightarrow> (string \<rightharpoonup> Note) \<Rightarrow> (string \<rightharpoonup> Note)" where
  "after check r m =
     (case (target_of (path r), rq_method r, decodeNoteRequest check r) of
        (Collection, meth, Inr req) \<Rightarrow>
          if meth = ''POST''
          then m(uuid r \<mapsto> \<lparr>ID = uuid r, Title = rq_Title req, Body = rq_Body req, Tags = rq_Tags req, CreatedAt = now r, UpdatedAt = now r\<rparr>)
          else m
      | (Item k, meth, dec) \<Rightarrow>
          if meth = ''DELETE'' then m(k := None)
          else (case (m k, dec) of
                  (Some n, Inr req) \<Rightarrow>
                    if meth = ''PUT'' then m(k \<mapsto> n\<lparr>Title := rq_Title req, Body := rq_Body req, Tags := rq_Tags req, UpdatedAt := now r\<rparr>) else m
                | _ \<Rightarrow> m)
      | _ \<Rightarrow> m)"

fun after_all :: "(noteRequest \<Rightarrow> fieldError list) \<Rightarrow> request list \<Rightarrow> (string \<rightharpoonup> Note) \<Rightarrow> (string \<rightharpoonup> Note)" where
  "after_all check [] m = m"
| "after_all check (r # rs) m = after_all check rs (after check r m)"

definition rejected :: "api_error \<Rightarrow> nat" where
  "rejected e = (case e of Http h \<Rightarrow> he_status h | StoreError _ \<Rightarrow> 404 | ValidationErrors _ \<Rightarrow> 422 | OtherError \<Rightarrow> 500)"

definition spec_status :: "(noteRequest \<Rightarrow> fieldError list) \<Rightarrow> request \<Rightarrow> (string \<rightharpoonup> Note) \<Rightarrow> nat" where
  "spec_status check r m =
     (if timed_out r then 503
      else case target_of (path r) of
        Healthz \<Rightarrow> if isGet (rq_method r) then 200 else 404
      | Collection \<Rightarrow>
          if rq_method r = ''POST'' then (case decodeNoteRequest check r of Inl e \<Rightarrow> rejected e | Inr _ \<Rightarrow> 201)
          else if isGet (rq_method r) then 200 else 405
      | Item k \<Rightarrow>
          if isGet (rq_method r) then (if m k = None then 404 else 200)
          else if rq_method r = ''PUT'' then
            (case decodeNoteRequest check r of Inl e \<Rightarrow> rejected e | Inr _ \<Rightarrow> if m k = None then 404 else 200)
          else if rq_method r = ''DELETE'' then (if m k = None then 404 else 204)
          else 405
      | Elsewhere \<Rightarrow> 404)"

text \<open>The whole reply to a request, in terms of the map: its headers and its body. A created or updated note is answered as the map has
  it afterwards; a listing has the notes of the map, each once, by creation time and identifier.\<close>

definition spec_headers :: "(noteRequest \<Rightarrow> fieldError list) \<Rightarrow> request \<Rightarrow> (string \<rightharpoonup> Note) \<Rightarrow> (string \<times> string) list" where
  "spec_headers check r m =
     (''X-Request-ID'', if validRequestID (given_id r) then given_id r else fresh_id r) #
     (if spec_status check r m = 204 then [] else [(''Content-Type'', ''application/json'')]) @
     (if spec_status check r m = 201 then [(''Location'', ''/notes/'' @ uuid r)]
      else if spec_status check r m = 405 then [(''Allow'', if target_of (path r) = Collection then ''GET, POST'' else ''GET, PUT, DELETE'')]
      else [])"

definition error_body :: "api_error \<Rightarrow> resp_body" where
  "error_body e =
     (case e of
        Http h \<Rightarrow> ErrorBody (he_code h) (he_message h) []
      | StoreError _ \<Rightarrow> ErrorBody ''not_found'' ''note not found'' []
      | ValidationErrors fes \<Rightarrow> ErrorBody ''validation_failed'' ''request body failed validation'' fes
      | OtherError \<Rightarrow> ErrorBody ''internal'' ''internal server error'' [])"

definition is_listing :: "(string \<rightharpoonup> Note) \<Rightarrow> resp_body \<Rightarrow> bool" where
  "is_listing m b \<longleftrightarrow> (\<exists>ns. b = NotesBody (map newNoteResponse ns) \<and> set ns = {n. m (ID n) = Some n} \<and> distinct (map ID ns)
     \<and> sorted (map (\<lambda>n. (CreatedAt n, ID n)) ns))"

definition spec_body :: "(noteRequest \<Rightarrow> fieldError list) \<Rightarrow> request \<Rightarrow> (string \<rightharpoonup> Note) \<Rightarrow> resp_body \<Rightarrow> bool" where
  "spec_body check r m b =
     (if timed_out r then b = ErrorBody ''timeout'' ''request timed out'' []
      else case target_of (path r) of
        Healthz \<Rightarrow> b = (if isGet (rq_method r) then StatusOk else ErrorBody ''not_found'' ''route not found'' [])
      | Collection \<Rightarrow>
          if rq_method r = ''POST'' then
            (case decodeNoteRequest check r of
               Inl e \<Rightarrow> b = error_body e
             | Inr _ \<Rightarrow> b = NoteBody (newNoteResponse (the (after check r m (uuid r)))))
          else if isGet (rq_method r) then is_listing m b
          else b = ErrorBody ''method_not_allowed'' ''method not allowed'' []
      | Item k \<Rightarrow>
          if isGet (rq_method r) then
            b = (case m k of None \<Rightarrow> ErrorBody ''not_found'' ''note not found'' [] | Some n \<Rightarrow> NoteBody (newNoteResponse n))
          else if rq_method r = ''PUT'' then
            (case decodeNoteRequest check r of
               Inl e \<Rightarrow> b = error_body e
             | Inr _ \<Rightarrow> b = (if m k = None then ErrorBody ''not_found'' ''note not found'' [] else NoteBody (newNoteResponse (the (after check r m k)))))
          else if rq_method r = ''DELETE'' then
            b = (if m k = None then ErrorBody ''not_found'' ''note not found'' [] else NoBody)
          else b = ErrorBody ''method_not_allowed'' ''method not allowed'' []
      | Elsewhere \<Rightarrow> b = ErrorBody ''not_found'' ''route not found'' [])"

definition spec_reply :: "(noteRequest \<Rightarrow> fieldError list) \<Rightarrow> request \<Rightarrow> (string \<rightharpoonup> Note) \<Rightarrow> response \<Rightarrow> bool" where
  "spec_reply check r m p \<longleftrightarrow>
     status p = spec_status check r m \<and> headers p = spec_headers check r m \<and> spec_body check r m (body p)"

text \<open>The specification leaves no choice: there is one reply to a request on a map.\<close>

lemma is_listing_unique:
  assumes "is_listing m b" and "is_listing m b'" shows "b = b'"
proof -
  let ?key = "\<lambda>n. (CreatedAt n, ID n)"
  obtain ns ns' where n: "b = NotesBody (map newNoteResponse ns)" "set ns = {n. m (ID n) = Some n}" "distinct (map ID ns)" "sorted (map ?key ns)"
    and n': "b' = NotesBody (map newNoteResponse ns')" "set ns' = {n. m (ID n) = Some n}" "distinct (map ID ns')" "sorted (map ?key ns')"
    using assms unfolding is_listing_def by blast
  have "mset ns = mset ns'" using n(2,3) n'(2,3) set_eq_iff_mset_eq_distinct[of ns ns'] by (simp add: distinct_map)
  moreover have "inj_on ?key (set ns)" using n(3) by (auto simp: distinct_map inj_on_def)
  ultimately have "ns = ns'"
    using sort_key_inj_key_eq[of ns ns' ?key] sort_key_inj_key_eq[of ns ns ?key] n(4) n'(4) by simp
  then show ?thesis using n(1) n'(1) by simp
qed

lemma spec_reply_unique: "spec_reply check r m p \<Longrightarrow> spec_reply check r m p' \<Longrightarrow> p = p'"
  by (cases p; cases p') (auto simp: spec_reply_def spec_body_def intro: is_listing_unique split: target.splits sum.splits if_splits)

section \<open>What the handlers rely on\<close>

text \<open>The laws of a note store: what \<open>Get\<close> returns after each operation. \<open>wf\<close> is the invariant of the store.\<close>

locale note_store =
  fixes st :: "'s noteStore" and wf :: "'s \<Rightarrow> bool"
  assumes create_note: "ns_Create st t u inp s = (n, s') \<Longrightarrow>
      n = \<lparr>ID = u, Title = in_Title inp, Body = in_Body inp, Tags = in_Tags inp, CreatedAt = t, UpdatedAt = t\<rparr>"
    and get_create: "ns_Create st t u inp s = (n, s') \<Longrightarrow> ns_Get st k s' = (if k = u then Inr n else ns_Get st k s)"
    and update_missing: "ns_Get st u s = Inl e \<Longrightarrow> ns_Update st t u inp s = (Inl e, s)"
    and update_found: "ns_Get st u s = Inr n \<Longrightarrow>
      fst (ns_Update st t u inp s) = Inr (n\<lparr>Title := in_Title inp, Body := in_Body inp, Tags := in_Tags inp, UpdatedAt := t\<rparr>)"
    and get_update: "ns_Update st t u inp s = (Inr n, s') \<Longrightarrow> ns_Get st k s' = (if k = u then Inr n else ns_Get st k s)"
    and delete_missing: "ns_Get st u s = Inl e \<Longrightarrow> ns_Delete st u s = (Some e, s)"
    and delete_found: "ns_Get st u s = Inr n \<Longrightarrow> fst (ns_Delete st u s) = None"
    and get_delete: "ns_Delete st u s = (None, s') \<Longrightarrow> ns_Get st k s' = (if k = u then Inl ErrNotFound else ns_Get st k s)"
    and list_all: "wf s \<Longrightarrow> distinct (map ID (ns_List st s)) \<and> set (ns_List st s) = {n. ns_Get st (ID n) s = Inr n}"
    and list_sorted: "sorted (map (\<lambda>n. (CreatedAt n, ID n)) (ns_List st s))"
    and wf_create: "wf s \<Longrightarrow> wf (snd (ns_Create st t u inp s))"
    and wf_update: "wf s \<Longrightarrow> wf (snd (ns_Update st t u inp s))"
    and wf_delete: "wf s \<Longrightarrow> wf (snd (ns_Delete st u s))"
begin

lemma mux_wf: "wf s \<Longrightarrow> wf (snd (mux check st r s))"
  using wf_create wf_update wf_delete
  by (auto simp: mux_def handle_def createNote_def listNotes_def getNote_def updateNote_def deleteNote_def healthz_def methodNotAllowed_def
      split: target.splits sum.splits prod.splits option.splits) (metis snd_conv)+

definition view :: "'s \<Rightarrow> string \<rightharpoonup> Note" where
  "view s k = (case ns_Get st k s of Inl e \<Rightarrow> None | Inr n \<Rightarrow> Some n)"

lemma view_create: "view (snd (ns_Create st t u inp s)) =
    (view s)(u \<mapsto> \<lparr>ID = u, Title = in_Title inp, Body = in_Body inp, Tags = in_Tags inp, CreatedAt = t, UpdatedAt = t\<rparr>)"
  using create_note get_create by (cases "ns_Create st t u inp s") (auto simp: view_def fun_eq_iff)

lemma view_update: "view (snd (ns_Update st t u inp s)) =
    (case view s u of None \<Rightarrow> view s | Some n \<Rightarrow> (view s)(u \<mapsto> n\<lparr>Title := in_Title inp, Body := in_Body inp, Tags := in_Tags inp, UpdatedAt := t\<rparr>))"
proof (cases "ns_Get st u s")
  case (Inr n)
  obtain s' where u: "ns_Update st t u inp s = (Inr (n\<lparr>Title := in_Title inp, Body := in_Body inp, Tags := in_Tags inp, UpdatedAt := t\<rparr>), s')"
    using update_found[OF Inr] by (metis prod.collapse)
  show ?thesis using get_update[OF u] Inr u by (simp add: view_def fun_eq_iff)
qed (use update_missing in \<open>simp add: view_def\<close>)

lemma view_delete: "view (snd (ns_Delete st u s)) = (view s)(u := None)"
proof (cases "ns_Get st u s")
  case (Inr n)
  obtain s' where u: "ns_Delete st u s = (None, s')" using delete_found[OF Inr] by (metis prod.collapse)
  show ?thesis using get_delete[OF u] u by (simp add: view_def fun_eq_iff)
qed (use delete_missing in \<open>auto simp: view_def fun_eq_iff\<close>)

lemma mux_after: "view (snd (mux check st r s)) = after check r (view s)"
proof (cases "target_of (path r)")
  case Collection
  have c: "snd (createNote check st r s) = (case decodeNoteRequest check r of Inl e \<Rightarrow> s | Inr req \<Rightarrow> snd (ns_Create st (now r) (uuid r) (rq_input req) s))"
    by (simp add: createNote_def split: sum.split prod.split)
  have "snd (handle x) = snd x" for x :: "(api_error + response) \<times> 's" by (simp add: handle_def split: prod.split sum.split)
  then show ?thesis using Collection
    by (auto simp: mux_def after_def c listNotes_def methodNotAllowed_def view_create rq_input_def split: sum.split)
next
  case (Item k)
  have h: "snd (handle x) = snd x" for x :: "(api_error + response) \<times> 's" by (simp add: handle_def split: prod.split sum.split)
  have u: "snd (updateNote check st k r s) = (case decodeNoteRequest check r of Inl e \<Rightarrow> s | Inr req \<Rightarrow> snd (ns_Update st (now r) k (rq_input req) s))"
    by (simp add: updateNote_def split: sum.split prod.split)
  have d: "snd (deleteNote st k s) = snd (ns_Delete st k s)" by (simp add: deleteNote_def split: prod.split option.split)
  have g: "snd (getNote st k s) = s" by (simp add: getNote_def split: sum.split)
  show ?thesis using Item
    by (auto simp: mux_def after_def h u d g methodNotAllowed_def view_update view_delete rq_input_def isGet_def split: sum.split option.split)
qed (auto simp: mux_def after_def handle_def healthz_def)

lemma status_mux:
  assumes "\<not> timed_out r" shows "status (fst (mux check st r s)) = spec_status check r (view s)"
proof -
  have w: "status (writeError hs e) = rejected e" for hs e
    by (simp add: writeError_def rejected_def writeJSON_def errNoteNotFound_def errInternal_def split: api_error.split store_error.split)
  have c: "status (fst (handle (createNote check st r s))) = (case decodeNoteRequest check r of Inl e \<Rightarrow> rejected e | Inr _ \<Rightarrow> 201)"
    by (simp add: handle_def createNote_def w writeJSON_def split: sum.split prod.split)
  have g: "status (fst (handle (getNote st k s))) = (if view s k = None then 404 else 200)" for k
    by (simp add: handle_def getNote_def w writeJSON_def view_def rejected_def split: sum.split)
  have u: "status (fst (handle (updateNote check st k r s))) = (case decodeNoteRequest check r of Inl e \<Rightarrow> rejected e | Inr _ \<Rightarrow> if view s k = None then 404 else 200)" for k
  proof (cases "ns_Get st k s")
    case (Inl e)
    then show ?thesis using update_missing[OF Inl]
      by (simp add: handle_def updateNote_def w writeJSON_def view_def rejected_def split: sum.split)
  next
    case (Inr n)
    show ?thesis using update_found[OF Inr] Inr
      by (auto simp: handle_def updateNote_def w writeJSON_def view_def split: sum.split prod.split) (metis Inl_Inr_False fst_conv)
  qed
  have d: "status (fst (handle (deleteNote st k s))) = (if view s k = None then 404 else 204)" for k
  proof (cases "ns_Get st k s")
    case (Inl e)
    then show ?thesis using delete_missing[OF Inl] by (simp add: handle_def deleteNote_def w view_def rejected_def)
  next
    case (Inr n)
    show ?thesis using delete_found[OF Inr] Inr
      by (auto simp: handle_def deleteNote_def w view_def split: prod.split option.split)
  qed
  show ?thesis using assms unfolding mux_def spec_status_def
    by (simp add: c g u d methodNotAllowed_def w rejected_def errMethodNotAllowed_def split: target.split)
      (auto simp: handle_def healthz_def listNotes_def writeJSON_def w rejected_def errRouteNotFound_def)
qed

lemma ServeHTTP_mux:
  "snd (ServeHTTP check st r s) = snd (mux check st r s)"
  "status (fst (ServeHTTP check st r s)) = (if timed_out r then 503 else status (fst (mux check st r s)))"
  "body (fst (ServeHTTP check st r s)) = (if timed_out r then ErrorBody ''timeout'' ''request timed out'' [] else body (fst (mux check st r s)))"
  by (simp_all add: ServeHTTP_def withRequestID_def withTimeout_def recoverPanics_def Let_def split: prod.split)

lemma serveAll_after: "view (serveAll check st rs s) = after_all check rs (view s)"
  by (induction rs arbitrary: s) (simp_all add: ServeHTTP_mux mux_after)

lemma serveAll_wf: "wf s \<Longrightarrow> wf (serveAll check st rs s)"
  by (induction rs arbitrary: s) (simp_all add: ServeHTTP_mux mux_wf)

lemma status_ServeHTTP: "status (fst (ServeHTTP check st r s)) = spec_status check r (view s)"
  by (cases "timed_out r") (simp_all add: ServeHTTP_mux status_mux spec_status_def[of check r])

lemma writeError_eq:
  "writeError hs e = \<lparr>status = rejected e, headers = (''Content-Type'', ''application/json'') # hs, body = error_body e\<rparr>"
  by (simp add: writeError_def rejected_def error_body_def he_response_def writeJSON_def errNoteNotFound_def errInternal_def
      split: api_error.split store_error.split)

lemma decode_rejected: "decodeNoteRequest check r = Inl e \<Longrightarrow> rejected e \<in> {400, 413, 422}"
  by (auto simp: decodeNoteRequest_def decodeJSON_def decodeError_def badRequest_def rejected_def
      split: sum.splits if_splits json_error.splits)

lemma create_response:
  "fst (handle (createNote check st r s)) =
     (case decodeNoteRequest check r of
        Inl e \<Rightarrow> writeError [] e
      | Inr req \<Rightarrow> writeJSON 201 [(''Location'', ''/notes/'' @ uuid r)]
          (NoteBody (newNoteResponse \<lparr>ID = uuid r, Title = rq_Title req, Body = rq_Body req, Tags = rq_Tags req, CreatedAt = now r, UpdatedAt = now r\<rparr>)))"
proof (cases "decodeNoteRequest check r")
  case (Inr req)
  obtain n s' where n: "ns_Create st (now r) (uuid r) (rq_input req) s = (n, s')" by force
  show ?thesis using create_note[OF n] Inr n by (simp add: handle_def createNote_def rq_input_def)
qed (simp add: handle_def createNote_def)

lemma get_response:
  "fst (handle (getNote st k s)) = (case view s k of None \<Rightarrow> writeError [] (StoreError ErrNotFound) | Some n \<Rightarrow> writeJSON 200 [] (NoteBody (newNoteResponse n)))"
  by (simp add: handle_def getNote_def view_def split: sum.split) (metis store_error.exhaust)

lemma update_response:
  "fst (handle (updateNote check st k r s)) =
     (case decodeNoteRequest check r of
        Inl e \<Rightarrow> writeError [] e
      | Inr req \<Rightarrow>
          (case view s k of
             None \<Rightarrow> writeError [] (StoreError ErrNotFound)
           | Some n \<Rightarrow> writeJSON 200 []
               (NoteBody (newNoteResponse (n\<lparr>Title := rq_Title req, Body := rq_Body req, Tags := rq_Tags req, UpdatedAt := now r\<rparr>)))))"
proof (cases "decodeNoteRequest check r")
  case (Inr req)
  show ?thesis
  proof (cases "ns_Get st k s")
    case (Inl e)
    then show ?thesis using update_missing[OF Inl] Inr by (cases e) (simp add: handle_def updateNote_def view_def)
  next
    case found: (Inr n)
    obtain s' where "ns_Update st (now r) k (rq_input req) s
        = (Inr (n\<lparr>Title := rq_Title req, Body := rq_Body req, Tags := rq_Tags req, UpdatedAt := now r\<rparr>), s')"
      using update_found[OF found, of "now r" "rq_input req"] by (cases "ns_Update st (now r) k (rq_input req) s") (simp add: rq_input_def)
    then show ?thesis using Inr found by (simp add: handle_def updateNote_def view_def)
  qed
qed (simp add: handle_def updateNote_def)

lemma delete_response:
  "fst (handle (deleteNote st k s)) = (case view s k of None \<Rightarrow> writeError [] (StoreError ErrNotFound) | Some n \<Rightarrow> \<lparr>status = 204, headers = [], body = NoBody\<rparr>)"
proof (cases "ns_Get st k s")
  case (Inl e)
  then show ?thesis using delete_missing[OF Inl] by (cases e) (simp add: handle_def deleteNote_def view_def)
next
  case (Inr n)
  obtain s' where "ns_Delete st k s = (None, s')" using delete_found[OF Inr] by (metis prod.collapse)
  then show ?thesis using Inr by (simp add: handle_def deleteNote_def view_def)
qed

lemma list_response:
  assumes "wf s" shows "is_listing (view s) (body (fst (handle (listNotes st s))))"
proof -
  have g: "ns_Get st k s = Inr n \<longleftrightarrow> view s k = Some n" for k n by (simp add: view_def split: sum.split)
  show ?thesis unfolding is_listing_def using list_all[OF assms] list_sorted[of s]
    by (intro exI[of _ "ns_List st s"]) (simp add: handle_def listNotes_def writeJSON_def g)
qed

lemma mux_body:
  assumes "wf s" and "\<not> timed_out r"
  shows "spec_body check r (view s) (body (fst (mux check st r s)))"
proof (cases "target_of (path r)")
  case Collection
  then show ?thesis using assms list_response[OF assms(1)]
    by (simp add: spec_body_def mux_def create_response writeError_eq writeJSON_def after_def methodNotAllowed_def error_body_def
        errMethodNotAllowed_def split: sum.split)
next
  case (Item k)
  then show ?thesis using assms
    by (simp add: spec_body_def mux_def get_response update_response delete_response writeError_eq writeJSON_def after_def
        methodNotAllowed_def error_body_def errMethodNotAllowed_def isGet_def split: sum.split option.split)
qed (use assms in \<open>simp_all add: spec_body_def mux_def handle_def healthz_def writeJSON_def writeError_eq error_body_def errRouteNotFound_def\<close>)

lemma mux_headers:
  assumes "\<not> timed_out r"
  shows "spec_headers check r (view s) =
    (''X-Request-ID'', if validRequestID (given_id r) then given_id r else fresh_id r) # headers (fst (mux check st r s))"
proof (cases "target_of (path r)")
  case Collection
  have "headers (fst (handle (listNotes st s))) = [(''Content-Type'', ''application/json'')]"
    by (simp add: handle_def listNotes_def writeJSON_def)
  then show ?thesis using assms Collection decode_rejected[of check r]
    by (auto simp: spec_headers_def spec_status_def mux_def create_response writeError_eq writeJSON_def methodNotAllowed_def
        split: sum.split)
next
  case (Item k)
  then show ?thesis using assms decode_rejected[of check r]
    by (auto simp: spec_headers_def spec_status_def mux_def get_response update_response delete_response writeError_eq writeJSON_def
        methodNotAllowed_def isGet_def split: sum.split option.split)
qed (use assms in \<open>simp_all add: spec_headers_def spec_status_def mux_def handle_def healthz_def writeJSON_def writeError_eq\<close>)

lemma headers_ServeHTTP:
  "headers (fst (ServeHTTP check st r s)) = (''X-Request-ID'', if validRequestID (given_id r) then given_id r else fresh_id r) #
     (if timed_out r then [(''Content-Type'', ''application/json'')] else headers (fst (mux check st r s)))"
  by (simp add: ServeHTTP_def withRequestID_def withTimeout_def recoverPanics_def Let_def split: prod.split)

lemma reply_ServeHTTP:
  assumes "wf s" shows "spec_reply check r (view s) (fst (ServeHTTP check st r s))"
proof (cases "timed_out r")
  case True
  then show ?thesis
    by (simp add: spec_reply_def status_ServeHTTP headers_ServeHTTP ServeHTTP_mux spec_headers_def spec_status_def spec_body_def)
next
  case False
  then show ?thesis
    using mux_headers[OF False, of check s] mux_body[OF assms False, of check]
    by (simp add: spec_reply_def status_ServeHTTP headers_ServeHTTP ServeHTTP_mux)
qed

lemma failed_unchanged: "status (fst (mux check st r s)) < 400 \<or> snd (mux check st r s) = s"
proof -
  have e: "snd (handle (Inl e, s)) = s" for e by (simp add: handle_def)
  have c: "status (fst (handle (createNote check st r s))) < 400 \<or> snd (handle (createNote check st r s)) = s"
    by (simp add: createNote_def handle_def writeJSON_def split: sum.split prod.split)
  have u: "status (fst (handle (updateNote check st k r s))) < 400 \<or> snd (handle (updateNote check st k r s)) = s" for k
  proof (cases "ns_Get st k s")
    case (Inl x)
    then show ?thesis using update_missing[OF Inl] by (simp add: updateNote_def handle_def writeJSON_def split: sum.split)
  next
    case (Inr n)
    then show ?thesis using update_found[OF Inr] by (auto simp: updateNote_def handle_def writeJSON_def split: sum.split prod.split) (metis Inl_Inr_False fst_conv)
  qed
  have d: "status (fst (handle (deleteNote st k s))) < 400 \<or> snd (handle (deleteNote st k s)) = s" for k
  proof (cases "ns_Get st k s")
    case (Inl x)
    then show ?thesis using delete_missing[OF Inl] by (simp add: deleteNote_def handle_def)
  next
    case (Inr n)
    then show ?thesis using delete_found[OF Inr] by (auto simp: deleteNote_def handle_def split: prod.split option.split)
  qed
  have g: "snd (handle (getNote st k s)) = s" for k by (simp add: getNote_def handle_def split: sum.split)
  have l: "snd (handle (listNotes st s)) = s" "snd (handle (healthz s)) = s" by (simp_all add: listNotes_def healthz_def handle_def)
  show ?thesis unfolding mux_def using c u d by (simp add: g l e methodNotAllowed_def split: target.split)
qed

end

section \<open>The store keeps the laws\<close>

definition store_wf :: "Store \<Rightarrow> bool" where
  "store_wf s \<longleftrightarrow> fmpred (\<lambda>k n. ID n = k) (s_notes s)"

lemma store_wf_iff: "store_wf s \<longleftrightarrow> (\<forall>k n. fmlookup (s_notes s) k = Some n \<longrightarrow> ID n = k)"
  by (auto simp: store_wf_def fmpred_iff)

lemma set_List: "set (List s) = {n. \<exists>k. fmlookup (s_notes s) k = Some n}"
proof -
  have "set (List s) = (\<lambda>k. the (fmlookup (s_notes s) k)) ` {k. fmlookup (s_notes s) k \<noteq> None}"
    by (auto simp: List_def Let_def fmlookup_dom_iff)
  then show ?thesis by force
qed

lemma distinct_List:
  assumes "store_wf s" shows "distinct (map ID (List s))"
proof -
  let ?ks = "sorted_list_of_fset (fmdom (s_notes s))"
  have "map ID (map (\<lambda>k. the (fmlookup (s_notes s) k)) ?ks) = ?ks"
    using assms unfolding map_map by (intro map_idI) (auto simp: store_wf_iff fmlookup_dom_iff)
  then have "mset (map ID (List s)) = mset ?ks" unfolding List_def Let_def mset_map mset_sort by (metis mset_map)
  then show ?thesis using mset_eq_imp_distinct_iff[of "map ID (List s)" ?ks] by (simp add: sorted_list_of_fset.rep_eq)
qed

interpretation store: note_store Store_ops store_wf
proof
  fix s s' :: Store and t u k inp n e
  show "ns_Create Store_ops t u inp s = (n, s') \<Longrightarrow>
      n = \<lparr>ID = u, Title = in_Title inp, Body = in_Body inp, Tags = in_Tags inp, CreatedAt = t, UpdatedAt = t\<rparr>"
    by (auto simp: Store_ops_def Create_def Let_def)
  show "ns_Create Store_ops t u inp s = (n, s') \<Longrightarrow> ns_Get Store_ops k s' = (if k = u then Inr n else ns_Get Store_ops k s)"
    by (auto simp: Store_ops_def Create_def Get_def Let_def)
  show "ns_Get Store_ops u s = Inl e \<Longrightarrow> ns_Update Store_ops t u inp s = (Inl e, s)"
    by (auto simp: Store_ops_def Update_def Get_def split: option.splits)
  show "ns_Get Store_ops u s = Inr n \<Longrightarrow>
      fst (ns_Update Store_ops t u inp s) = Inr (n\<lparr>Title := in_Title inp, Body := in_Body inp, Tags := in_Tags inp, UpdatedAt := t\<rparr>)"
    by (auto simp: Store_ops_def Update_def Get_def Let_def split: option.splits)
  show "ns_Update Store_ops t u inp s = (Inr n, s') \<Longrightarrow> ns_Get Store_ops k s' = (if k = u then Inr n else ns_Get Store_ops k s)"
    by (auto simp: Store_ops_def Update_def Get_def Let_def split: option.splits if_splits)
  show "ns_Get Store_ops u s = Inl e \<Longrightarrow> ns_Delete Store_ops u s = (Some e, s)"
    by (auto simp: Store_ops_def Delete_def Get_def split: option.splits)
  show "ns_Get Store_ops u s = Inr n \<Longrightarrow> fst (ns_Delete Store_ops u s) = None"
    by (auto simp: Store_ops_def Delete_def Get_def split: option.splits)
  show "ns_Delete Store_ops u s = (None, s') \<Longrightarrow> ns_Get Store_ops k s' = (if k = u then Inl ErrNotFound else ns_Get Store_ops k s)"
    by (auto simp: Store_ops_def Delete_def Get_def split: option.splits if_splits)
  show "distinct (map ID (ns_List Store_ops s)) \<and> set (ns_List Store_ops s) = {n. ns_Get Store_ops (ID n) s = Inr n}" if "store_wf s"
    using that distinct_List[OF that] by (auto simp: Store_ops_def set_List Get_def store_wf_iff split: option.splits)
  show "sorted (map (\<lambda>n. (CreatedAt n, ID n)) (ns_List Store_ops s))"
    by (simp add: Store_ops_def List_def Let_def)
  show "store_wf s \<Longrightarrow> store_wf (snd (ns_Create Store_ops t u inp s))"
    by (auto simp: Store_ops_def Create_def store_wf_iff Let_def)
  show "store_wf s \<Longrightarrow> store_wf (snd (ns_Update Store_ops t u inp s))"
    by (auto simp: Store_ops_def Update_def store_wf_iff Let_def split: option.split)
  show "store_wf s \<Longrightarrow> store_wf (snd (ns_Delete Store_ops u s))"
    by (auto simp: Store_ops_def Delete_def store_wf_iff split: option.split)
qed

lemma store_view: "store.view s k = (case Get k s of Inl e \<Rightarrow> None | Inr n \<Rightarrow> Some n)"
  unfolding store.view_def by (simp add: Store_ops_def)

text \<open>Visiting the map in any other order gives the same list.\<close>

lemma List_any_order:
  assumes "store_wf s" and "mset ks = mset (sorted_list_of_fset (fmdom (s_notes s)))"
  shows "sort_key (\<lambda>n. (CreatedAt n, ID n)) (map (\<lambda>k. the (fmlookup (s_notes s) k)) ks) = List s"
proof (rule sort_key_inj_key_eq)
  let ?f = "\<lambda>k. the (fmlookup (s_notes s) k)"
  show "mset (map ?f ks) = mset (List s)" unfolding List_def Let_def mset_map mset_sort assms(2) ..
  have "set ks = set (sorted_list_of_fset (fmdom (s_notes s)))" using assms(2) by (rule mset_eq_setD)
  then have "ID (?f k) = k" if "k \<in> set ks" for k using assms(1) that by (auto simp: store_wf_iff fmlookup_dom_iff)
  then show "inj_on (\<lambda>n. (CreatedAt n, ID n)) (set (map ?f ks))" by (auto simp: inj_on_def)
  show "sorted (map (\<lambda>n. (CreatedAt n, ID n)) (List s))" by (simp add: List_def Let_def)
qed

section \<open>Properties\<close>

text \<open>(C7) After any requests, the API is the map of notes of the specification: every status is the one the map calls for (time-outs
  are 503), a note can be read exactly if the map has it, a response of 400 or more left the store as it was unless the
  request timed out, and a listing has the notes of the map, each once, by creation time and
  identifier.\<close>

theorem notes_api_refines_map:
  "let s = serveAll check Store_ops rs NewStore;
       m = after_all check rs Map.empty
   in (\<forall>k. Get k s = (case m k of None \<Rightarrow> Inl ErrNotFound | Some n \<Rightarrow> Inr n))
    \<and> (\<forall>r. status (fst (ServeHTTP check Store_ops r s)) = spec_status check r m)
    \<and> (\<forall>r. status (fst (ServeHTTP check Store_ops r s)) < 400 \<or> timed_out r \<or> snd (ServeHTTP check Store_ops r s) = s)
    \<and> (set (List s) = {n. m (ID n) = Some n} \<and> distinct (map ID (List s)) \<and> sorted (map (\<lambda>n. (CreatedAt n, ID n)) (List s)))"
proof -
  define s where "s = serveAll check Store_ops rs NewStore"
  have "store.view NewStore = Map.empty" by (simp add: fun_eq_iff store_view Get_def NewStore_def)
  then have v: "after_all check rs Map.empty = store.view s" unfolding s_def by (simp add: store.serveAll_after)
  have wf: "store_wf s" unfolding s_def by (rule store.serveAll_wf) (simp add: store_wf_iff NewStore_def)
  have g: "Get k s = (case store.view s k of None \<Rightarrow> Inl ErrNotFound | Some n \<Rightarrow> Inr n)" for k
    by (simp add: store_view Get_def split: option.split)
  have gi: "Get k s = Inr n \<longleftrightarrow> store.view s k = Some n" for k n by (cases "Get k s") (simp_all add: store_view)
  have l: "set (List s) = {n. store.view s (ID n) = Some n}" "distinct (map ID (List s))" "sorted (map (\<lambda>n. (CreatedAt n, ID n)) (List s))"
    using store.list_all[OF wf] store.list_sorted[of s] by (simp_all add: Store_ops_def gi)
  have f: "status (fst (ServeHTTP check Store_ops r s)) < 400 \<or> timed_out r \<or> snd (ServeHTTP check Store_ops r s) = s" for r
    using store.failed_unchanged[of check r s] by (auto simp: store.ServeHTTP_mux)
  show ?thesis unfolding Let_def s_def[symmetric] v
    by (intro conjI allI g store.status_ServeHTTP f l)
qed

text \<open>Requests that concern another note.\<close>

definition spares :: "string \<Rightarrow> request \<Rightarrow> bool" where
  "spares k r \<longleftrightarrow>
     (case target_of (path r) of
        Collection \<Rightarrow> rq_method r \<noteq> ''POST'' \<or> uuid r \<noteq> k
      | Item j \<Rightarrow> j \<noteq> k \<or> rq_method r \<noteq> ''PUT'' \<and> rq_method r \<noteq> ''DELETE''
      | _ \<Rightarrow> True)"

lemma after_spares: "spares k r \<Longrightarrow> after check r m k = m k"
  by (auto simp: spares_def after_def split: target.splits sum.split option.split)

lemma after_all_spares: "\<forall>r\<in>set rs. spares k r \<Longrightarrow> after_all check rs m k = m k"
  by (induction rs arbitrary: m) (simp_all add: after_spares)

text \<open>A note that was created can be read back: the 201 response names its location, and a \<open>GET\<close> of it returns the body of that
  response, after any requests that do not change this very note.\<close>

theorem created_note_reads_back:
  assumes "path r = ''/notes''" and "rq_method r = ''POST''" and "decodeNoteRequest check r = Inr req" and "\<not> timed_out r"
    and "uuid r \<noteq> []" and "CHR ''/'' \<notin> set (uuid r)" and "\<forall>q\<in>set qs. spares (uuid r) q"
    and "isGet (rq_method g)" and "path g = ''/notes/'' @ uuid r" and "\<not> timed_out g"
  shows "let s = serveAll check Store_ops rs NewStore;
             created = fst (ServeHTTP check Store_ops r s);
             got = fst (ServeHTTP check Store_ops g (serveAll check Store_ops qs (snd (ServeHTTP check Store_ops r s))))
    in status created = 201 \<and> map_of (headers created) ''Location'' = Some (path g)
     \<and> status got = 200 \<and> body got = body created
     \<and> (\<exists>n. body created = NoteBody n \<and> rs_ID n = uuid r \<and> rs_Title n = rq_Title req \<and> rs_Body n = rq_Body req \<and> rs_CreatedAt n = now r)"
proof -
  define s where "s = serveAll check Store_ops rs NewStore"
  define s1 where "s1 = snd (ServeHTTP check Store_ops r s)"
  define s2 where "s2 = serveAll check Store_ops qs s1"
  let ?n = "\<lparr>ID = uuid r, Title = rq_Title req, Body = rq_Body req, Tags = rq_Tags req, CreatedAt = now r, UpdatedAt = now r\<rparr>"
  have t: "target_of (path r) = Collection" using assms(1) by (simp add: target_of_def)
  have tg: "target_of (path g) = Item (uuid r)" using assms(5,6,9) by (simp add: target_of_def)
  have "store.view s1 (uuid r) = Some ?n"
    unfolding s1_def store.ServeHTTP_mux store.mux_after after_def using t assms(2,3) by simp
  then have "store.view s2 (uuid r) = Some ?n"
    unfolding s2_def store.serveAll_after using after_all_spares[OF assms(7)] by simp
  then have "Get (uuid r) s2 = Inr ?n" by (simp add: store_view split: sum.splits)
  then have got: "status (fst (ServeHTTP check Store_ops g s2)) = 200" "body (fst (ServeHTTP check Store_ops g s2)) = NoteBody (newNoteResponse ?n)"
    unfolding store.ServeHTTP_mux mux_def tg using assms(8,10) by (simp_all add: getNote_def handle_def writeJSON_def Store_ops_def)
  have m: "fst (mux check Store_ops r s) = writeJSON 201 [(''Location'', ''/notes/'' @ uuid r)] (NoteBody (newNoteResponse ?n))"
    unfolding mux_def t using assms(2,3) by (simp add: createNote_def handle_def Store_ops_def Create_def Let_def rq_input_def)
  have c: "status (fst (ServeHTTP check Store_ops r s)) = 201" "body (fst (ServeHTTP check Store_ops r s)) = NoteBody (newNoteResponse ?n)"
    unfolding store.ServeHTTP_mux m using assms(4) by (simp_all add: writeJSON_def)
  have h: "map_of (headers (fst (ServeHTTP check Store_ops r s))) ''Location'' = Some (path g)"
    using m assms(4,9) by (cases "mux check Store_ops r s") (simp add: ServeHTTP_def withRequestID_def Let_def withTimeout_def recoverPanics_def writeJSON_def)
  show ?thesis unfolding Let_def s_def[symmetric] s1_def[symmetric] s2_def[symmetric] using got c h by (simp add: newNoteResponse_def)
qed

definition demo_request :: request where
  "demo_request = \<lparr>rq_method = ''POST'', path = ''/notes'', decoded = Inr \<lparr>rq_Title = ''t'', rq_Body = ''b'', rq_Tags = None\<rparr>,
     trailing = False, now = 5, uuid = ''u1'', given_id = [], fresh_id = ''r1'', timed_out = False\<rparr>"

theorem created_note_reads_back_witness:
  "let g = demo_request\<lparr>rq_method := ''GET'', path := ''/notes/u1''\<rparr>; other = demo_request\<lparr>uuid := ''u2''\<rparr>;
       created = fst (ServeHTTP (\<lambda>_. []) Store_ops demo_request NewStore);
       got = fst (ServeHTTP (\<lambda>_. []) Store_ops g (serveAll (\<lambda>_. []) Store_ops [other] (snd (ServeHTTP (\<lambda>_. []) Store_ops demo_request NewStore))))
   in status created = 201 \<and> status got = 200 \<and> body got = body created"
proof -
  have "decodeNoteRequest (\<lambda>_. []) demo_request = Inr \<lparr>rq_Title = ''t'', rq_Body = ''b'', rq_Tags = None\<rparr>"
    by (simp add: decodeNoteRequest_def decodeJSON_def demo_request_def)
  moreover have "\<forall>q\<in>set [demo_request\<lparr>uuid := ''u2''\<rparr>]. spares (uuid demo_request) q"
    by (simp add: spares_def target_of_def demo_request_def)
  ultimately show ?thesis
    using created_note_reads_back[of demo_request "\<lambda>_. []" _ "[demo_request\<lparr>uuid := ''u2''\<rparr>]" "demo_request\<lparr>rq_method := ''GET'', path := ''/notes/u1''\<rparr>" "[]"]
    unfolding Let_def by (simp add: demo_request_def isGet_def)
qed

end
