(* ===== verification/Cron_Worker.thy ===== *)
theory Cron_Worker
  imports Go_Prelude "HOL-Library.Word"
begin

unbundle bit_operations_syntax

text \<open>
  App 09: the runner of scheduled jobs (\<^verbatim>\<open>internal/worker\<close>), the advisory locks (\<^verbatim>\<open>internal/pglock/pglock.go\<close>), the three jobs with
  the statements they execute (\<^verbatim>\<open>internal/jobs/jobs.go\<close>) and the checks of the configuration.

  PostgreSQL answers the lock calls: its answers are arguments. The tables are lists of rows and the statements of the
  jobs functions on them. Logging is not modelled; of the metrics, the labels of each observation are kept.
\<close>

section \<open>Lock keys\<close>

text \<open>FNV-1a (\<^verbatim>\<open>hash/fnv\<close>) over 64 bits.\<close>

fun fnv64a :: "64 word \<Rightarrow> string \<Rightarrow> 64 word" where
  "fnv64a h [] = h"
| "fnv64a h (c # cs) = fnv64a ((h XOR word_of_nat (of_char c)) * 1099511628211) cs"

definition Key :: "string \<Rightarrow> int" where
  "Key name = sint (fnv64a 14695981039346656037 name AND 9223372036854775807)"

section \<open>TryLock and unlock\<close>

datatype pg_error = ErrAcquire | ErrQuery | ErrUnlockQuery | ErrNotHeld

text \<open>What becomes of the connection: back in the pool, closed, or kept until the unlock.\<close>

datatype conn_fate = Released | Discarded | CheckedOut | NoConn

datatype 'a answer = Fails | Answers 'a

text \<open>\<open>conn\<close> tells whether the pool gave a connection, \<open>query\<close> is the answer of \<open>pg_try_advisory_lock\<close>.\<close>

definition TryLock :: "bool \<Rightarrow> bool answer \<Rightarrow> (pg_error + bool) \<times> conn_fate" where
  "TryLock conn query =
     (if \<not> conn then (Inl ErrAcquire, NoConn)
      else case query of
        Fails \<Rightarrow> (Inl ErrQuery, Discarded)
      | Answers acquired \<Rightarrow> if \<not> acquired then (Inr False, Released) else (Inr True, CheckedOut))"

definition unlock :: "bool answer \<Rightarrow> pg_error option \<times> conn_fate" where
  "unlock query =
     (case query of
        Fails \<Rightarrow> (Some ErrUnlockQuery, Discarded)
      | Answers released \<Rightarrow> if \<not> released then (Some ErrNotHeld, Released) else (None, Released))"

section \<open>The runner\<close>

datatype 'e job_outcome = Returns "'e option" | Panics string

datatype 'e run_error = LockError pg_error | JobError 'e | JobPanicked string | ReleaseError pg_error

definition runJob :: "'e job_outcome \<Rightarrow> 'e run_error option" where
  "runJob out = (case out of Returns e \<Rightarrow> map_option JobError e | Panics p \<Rightarrow> Some (JobPanicked p))"

text \<open>The metrics of a run, and the actions it took, in order.\<close>

datatype metric = Observed string string duration | Skipped string

datatype action = ATryLock string | ARunJob string | AUnlock string

definition finish :: "string \<Rightarrow> gotime \<Rightarrow> gotime \<Rightarrow> 'e run_error list \<Rightarrow> metric" where
  "finish name start now errs =
     (let elapsed = time_Sub now start;
          outcome = (if errs \<noteq> [] then ''failure'' else ''success'')
      in Observed name outcome elapsed)"

record 'e run_env =
  e_conn :: bool
  e_lock :: "bool answer"
  e_job :: "'e job_outcome"
  e_unlock :: "bool answer"
  e_start :: gotime
  e_end :: gotime

definition run_job :: "string \<Rightarrow> 'e run_env \<Rightarrow> action list \<times> metric list \<times> 'e run_error list \<times> conn_fate" where
  "run_job name env =
     (case TryLock (e_conn env) (e_lock env) of
        (Inl e, fate) \<Rightarrow> ([ATryLock name], [finish name (e_start env) (e_end env) [LockError e :: 'e run_error]], [LockError e], fate)
      | (Inr False, fate) \<Rightarrow> ([ATryLock name], [Skipped name], [], fate)
      | (Inr True, fate) \<Rightarrow>
          (let err = runJob (e_job env);
               (uerr, fate') = unlock (e_unlock env);
               errs = (case err of None \<Rightarrow> [] | Some e \<Rightarrow> [e]) @ (case uerr of None \<Rightarrow> [] | Some e \<Rightarrow> [ReleaseError e])
           in ([ATryLock name, ARunJob name, AUnlock name], [finish name (e_start env) (e_end env) errs], errs, fate')))"

section \<open>Shutdown\<close>

datatype serve_error = ErrShutdownTimeout

text \<open>\<open>done\<close> is how long after the stop the running jobs are done by themselves; the result tells whether they were cancelled.\<close>

definition serve_stop :: "duration \<Rightarrow> duration \<Rightarrow> serve_error option \<times> bool" where
  "serve_stop grace finished = (if finished \<le> grace then (None, False) else (Some ErrShutdownTimeout, True))"

section \<open>The jobs\<close>

record session =
  se_id :: nat
  expires_at :: gotime

text \<open>\<open>purgeSessionsSQL\<close>: the oldest expired rows that no other transaction has locked, at most \<open>n\<close> of them.\<close>

definition purgeRows :: "gotime \<Rightarrow> nat \<Rightarrow> nat set \<Rightarrow> session list \<Rightarrow> session list" where
  "purgeRows cutoff n locked tab = take n (sort_key expires_at (filter (\<lambda>r. expires_at r < cutoff \<and> se_id r \<notin> locked) tab))"

definition purgeSQL :: "gotime \<Rightarrow> nat \<Rightarrow> nat set \<Rightarrow> session list \<Rightarrow> session list \<times> nat" where
  "purgeSQL cutoff n locked tab =
     (let rows = purgeRows cutoff n locked tab
      in (filter (\<lambda>r. se_id r \<notin> se_id ` set rows) tab, length rows))"

datatype job_error = ExecFailed

text \<open>\<open>locked k\<close> are the rows locked by others during statement \<open>k\<close>, \<open>fails k\<close> that it fails. The result is the table, the
  number of rows deleted and the error. With a batch size of 0 the loop would not end, so the loop is a partial
  function.\<close>

partial_function (option) purgeLoop ::
  "gotime \<Rightarrow> nat \<Rightarrow> (nat \<Rightarrow> nat set) \<Rightarrow> (nat \<Rightarrow> bool) \<Rightarrow> nat \<Rightarrow> session list \<Rightarrow> nat \<Rightarrow> (session list \<times> nat \<times> job_error option) option" where
  "purgeLoop cutoff n locked fails k tab tot =
     (if fails k then Some (tab, tot, Some ExecFailed)
      else let (tab', affected) = purgeSQL cutoff n (locked k) tab
           in if affected < n then Some (tab', tot + affected, None)
              else purgeLoop cutoff n locked fails (Suc k) tab' (tot + affected))"

definition purge_run :: "nat \<Rightarrow> (nat \<Rightarrow> nat set) \<Rightarrow> (nat \<Rightarrow> bool) \<Rightarrow> gotime \<Rightarrow> session list \<Rightarrow> (session list \<times> nat \<times> job_error option) option" where
  "purge_run batchSize locked fails now tab = purgeLoop now batchSize locked fails 0 tab 0"

record event =
  ev_type :: string
  ev_user :: nat
  occurred_at :: gotime

abbreviation day :: duration where
  "day \<equiv> 86400000000000"

text \<open>\<open>rollupEventsSQL\<close>: one row per event type of the interval, written over the row there may be.\<close>

definition rollupSQL :: "gotime \<Rightarrow> gotime \<Rightarrow> gotime \<Rightarrow> event list \<Rightarrow> (gotime \<times> string \<rightharpoonup> nat \<times> nat) \<Rightarrow> (gotime \<times> string \<rightharpoonup> nat \<times> nat)" where
  "rollupSQL d from to evs stats =
     (\<lambda>(d', ty).
        let sel = filter (\<lambda>e. from \<le> occurred_at e \<and> occurred_at e < to \<and> ev_type e = ty) evs
        in if d' = d \<and> sel \<noteq> [] then Some (length sel, length (remdups (map ev_user sel))) else stats (d', ty))"

definition rollup_run :: "bool \<Rightarrow> gotime \<Rightarrow> event list \<Rightarrow> (gotime \<times> string \<rightharpoonup> nat \<times> nat) \<Rightarrow> (gotime \<times> string \<rightharpoonup> nat \<times> nat) \<times> job_error option" where
  "rollup_run execFails now evs stats =
     (let to = now - now mod day;
          from = to - day
      in if execFails then (stats, Some ExecFailed) else (rollupSQL from from to evs stats, None))"

record order =
  o_status :: string
  created_at :: gotime

text \<open>\<open>expireOrdersSQL\<close>.\<close>

definition expireSQL :: "gotime \<Rightarrow> order list \<Rightarrow> order list" where
  "expireSQL cutoff tab = map (\<lambda>r. if o_status r = ''pending'' \<and> created_at r < cutoff then r\<lparr>o_status := ''expired''\<rparr> else r) tab"

definition expire_run :: "bool \<Rightarrow> duration \<Rightarrow> gotime \<Rightarrow> order list \<Rightarrow> order list \<times> job_error option" where
  "expire_run execFails ttl now tab =
     (let cutoff = time_Add now (- ttl)
      in if execFails then (tab, Some ExecFailed) else (expireSQL cutoff tab, None))"

section \<open>Configuration and health\<close>

datatype config_error = BadBatchSize | BadTTL | BadShutdownTimeout

record config =
  SessionPurgeBatchSize :: int
  PendingOrderTTL :: duration
  ShutdownTimeout :: duration

definition checkConfig :: "config \<Rightarrow> config_error option" where
  "checkConfig cfg =
     (if SessionPurgeBatchSize cfg < 1 then Some BadBatchSize
      else if PendingOrderTTL cfg \<le> 0 then Some BadTTL
      else if ShutdownTimeout cfg \<le> 0 then Some BadShutdownTimeout
      else None)"

definition cron_healthz :: "bool \<Rightarrow> nat" where
  "cron_healthz pingFails = (if pingFails then 503 else 200)"

definition job_names :: "string list" where
  "job_names = [''purge-expired-sessions'', ''rollup-daily-events'', ''expire-pending-orders'']"

section \<open>Many instances\<close>

text \<open>The runs of all instances, each on a connection of its own, and the locks that PostgreSQL holds for them. A run goes through the
  actions of \<open>run_job\<close>.\<close>

datatype phase = Idle | HasLock | Running | Finished

record world =
  phase_of :: "nat \<Rightarrow> phase"
  locks :: "int \<rightharpoonup> nat"

definition no_runs :: world where
  "no_runs = \<lparr>phase_of = (\<lambda>_. Idle), locks = Map.empty\<rparr>"

text \<open>\<open>pg_try_advisory_lock\<close> answers true only if no other session holds the key.\<close>

definition pg_answer :: "world \<Rightarrow> int \<Rightarrow> bool answer \<Rightarrow> bool" where
  "pg_answer w k q \<longleftrightarrow> (q = Answers True \<longrightarrow> locks w k = None)"

text \<open>\<open>lossy\<close> allows a connection to be lost, upon which the server drops its locks while the job goes on.\<close>

inductive cron_step :: "bool \<Rightarrow> (nat \<Rightarrow> string) \<Rightarrow> world \<Rightarrow> world \<Rightarrow> bool" for lossy name where
  acquire: "phase_of w r = Idle \<Longrightarrow> TryLock c q = (Inr True, fate) \<Longrightarrow> pg_answer w (Key (name r)) q \<Longrightarrow>
    cron_step lossy name w (w\<lparr>phase_of := (phase_of w)(r := HasLock), locks := (locks w)(Key (name r) \<mapsto> r)\<rparr>)"
| skip: "phase_of w r = Idle \<Longrightarrow> TryLock c q = (res, fate) \<Longrightarrow> res \<noteq> Inr True \<Longrightarrow> cron_step lossy name w w"
| start: "phase_of w r = HasLock \<Longrightarrow> cron_step lossy name w (w\<lparr>phase_of := (phase_of w)(r := Running)\<rparr>)"
| ends: "phase_of w r = Running \<Longrightarrow> cron_step lossy name w (w\<lparr>phase_of := (phase_of w)(r := Finished)\<rparr>)"
| release: "phase_of w r = Finished \<Longrightarrow> unlock q = (uerr, fate) \<Longrightarrow>
    cron_step lossy name w (w\<lparr>phase_of := (phase_of w)(r := Idle), locks := (\<lambda>k. if locks w k = Some r then None else locks w k)\<rparr>)"
| lost: "lossy \<Longrightarrow> cron_step lossy name w (w\<lparr>locks := (\<lambda>k. if locks w k = Some r then None else locks w k)\<rparr>)"

inductive_cases cron_stepE: "cron_step lossy name w w'"

definition lock_inv :: "(nat \<Rightarrow> string) \<Rightarrow> world \<Rightarrow> bool" where
  "lock_inv name w \<longleftrightarrow> (\<forall>r. phase_of w r \<noteq> Idle \<longrightarrow> locks w (Key (name r)) = Some r)"

lemma TryLock_True: "TryLock c q = (Inr True, fate) \<Longrightarrow> q = Answers True"
  by (auto simp: TryLock_def split: if_splits answer.splits)

lemma lock_inv_step:
  assumes "cron_step False name w w'" and "lock_inv name w" shows "lock_inv name w'"
  using assms by (elim cron_stepE) (auto simp: lock_inv_def pg_answer_def dest!: TryLock_True)

lemma lock_inv_reachable:
  assumes "(cron_step False name)\<^sup>*\<^sup>* no_runs w" shows "lock_inv name w"
  using assms
proof (induction rule: rtranclp_induct)
  case base
  show ?case by (simp add: lock_inv_def no_runs_def)
next
  case (step y z)
  then show ?case by (blast intro: lock_inv_step)
qed

section \<open>Purging\<close>

lemma purgeRows_set: "set (purgeRows cutoff n L tab) \<subseteq> {r \<in> set tab. expires_at r < cutoff \<and> se_id r \<notin> L}"
  unfolding purgeRows_def using set_take_subset by fastforce

lemma length_filter_split: "length (filter P xs) + length (filter (\<lambda>x. \<not> P x) xs) = length xs"
  by (rule sum_length_filter_compl)

lemma purgeSQL_facts:
  assumes "distinct (map se_id tab)" and "purgeSQL cutoff n L tab = (tab', a)"
  shows "a \<le> n" and "length tab' + a = length tab" and "set tab' \<subseteq> set tab" and "distinct (map se_id tab')"
    and "filter (\<lambda>r. \<not> expires_at r < cutoff) tab' = filter (\<lambda>r. \<not> expires_at r < cutoff) tab"
    and "a < n \<Longrightarrow> r \<in> set tab' \<Longrightarrow> expires_at r < cutoff \<Longrightarrow> se_id r \<in> L"
proof -
  define rows where "rows = purgeRows cutoff n L tab"
  let ?P = "\<lambda>r. expires_at r < cutoff \<and> se_id r \<notin> L"
  have t: "tab' = filter (\<lambda>r. se_id r \<notin> se_id ` set rows) tab" and a: "a = length rows"
    using assms(2) by (auto simp: purgeSQL_def Let_def rows_def)
  have sub: "set rows \<subseteq> {r \<in> set tab. ?P r}" unfolding rows_def by (rule purgeRows_set)
  have inj: "inj_on se_id (set tab)" and dt: "distinct tab" using assms(1) by (simp_all add: distinct_map)
  have mem: "se_id r \<in> se_id ` set rows \<longleftrightarrow> r \<in> set rows" if "r \<in> set tab" for r
    using that sub inj by (auto dest: inj_onD)
  have t2: "tab' = filter (\<lambda>r. r \<notin> set rows) tab" unfolding t by (rule filter_cong) (simp_all add: mem)
  have dr: "distinct rows" unfolding rows_def purgeRows_def using dt by simp
  show "a \<le> n" unfolding a rows_def purgeRows_def by simp
  have "set (filter (\<lambda>r. r \<in> set rows) tab) = set rows" using sub by auto
  then have "length (filter (\<lambda>r. r \<in> set rows) tab) = length rows"
    using dt dr by (metis distinct_card distinct_filter)
  then show "length tab' + a = length tab" using length_filter_split[of "\<lambda>r. r \<in> set rows" tab] unfolding a t2 by simp
  show "set tab' \<subseteq> set tab" unfolding t2 by auto
  show "distinct (map se_id tab')" unfolding t2 using assms(1) by (rule distinct_map_filter)
  show "filter (\<lambda>r. \<not> expires_at r < cutoff) tab' = filter (\<lambda>r. \<not> expires_at r < cutoff) tab"
    unfolding t2 filter_filter by (rule filter_cong) (use sub in auto)
  show "se_id r \<in> L" if "a < n" "r \<in> set tab'" "expires_at r < cutoff"
  proof -
    have "length (filter ?P tab) < n" using that(1) unfolding a rows_def purgeRows_def by simp
    then have "set rows = set (filter ?P tab)" unfolding rows_def purgeRows_def by simp
    then show ?thesis using that(2,3) unfolding t2 by auto
  qed
qed

text \<open>Every statement but the last one deletes \<open>n\<close> rows, so the last one is statement \<open>k + d div n\<close> when the loop started
  with statement \<open>k\<close> and \<open>d\<close> rows were deleted.\<close>

lemma purgeLoop_ends:
  assumes "0 < n" and "distinct (map se_id tab)"
  shows "\<exists>tab' err. purgeLoop cutoff n locked fails k tab tot = Some (tab', tot + (length tab - length tab'), err)
     \<and> length tab' \<le> length tab \<and> set tab' \<subseteq> set tab
     \<and> filter (\<lambda>r. \<not> expires_at r < cutoff) tab' = filter (\<lambda>r. \<not> expires_at r < cutoff) tab
     \<and> (\<forall>i. k \<le> i \<and> i < k + (length tab - length tab') div n \<longrightarrow> \<not> fails i)
     \<and> (err = None \<longleftrightarrow> \<not> fails (k + (length tab - length tab') div n))
     \<and> (err = None \<longrightarrow> (\<forall>r\<in>set tab'. expires_at r < cutoff \<longrightarrow> se_id r \<in> locked (k + (length tab - length tab') div n)))"
  using assms(2)
proof (induction tab arbitrary: k tot rule: length_induct)
  case (1 tab)
  obtain tab1 a where s: "purgeSQL cutoff n (locked k) tab = (tab1, a)" by force
  note f = purgeSQL_facts[OF 1(2) s]
  consider (failed) "fails k" | (short) "\<not> fails k" "a < n" | (full) "\<not> fails k" "a = n" using f(1) by linarith
  then show ?case
  proof cases
    case failed
    have "purgeLoop cutoff n locked fails k tab tot = Some (tab, tot, Some ExecFailed)"
      using failed by (subst purgeLoop.simps) simp
    then show ?thesis using failed by (intro exI[of _ tab] exI[of _ "Some ExecFailed"]) auto
  next
    case short
    have d: "length tab - length tab1 = a" "a div n = 0" using f(2) short(2) by simp_all
    have "purgeLoop cutoff n locked fails k tab tot = Some (tab1, tot + (length tab - length tab1), None)"
      using s short d(1) by (subst purgeLoop.simps) simp
    then show ?thesis using short f(2,3,5) f(6)[OF short(2)] d by (intro exI[of _ tab1] exI[of _ None]) auto
  next
    case full
    have "length tab1 < length tab" using f(2) full assms(1) by simp
    from 1(1)[rule_format, OF this f(4), of "Suc k" "tot + a"] obtain tab' err
      where r: "purgeLoop cutoff n locked fails (Suc k) tab1 (tot + a) = Some (tab', tot + a + (length tab1 - length tab'), err)"
      "length tab' \<le> length tab1" "set tab' \<subseteq> set tab1"
      "filter (\<lambda>r. \<not> expires_at r < cutoff) tab' = filter (\<lambda>r. \<not> expires_at r < cutoff) tab1"
      "\<forall>i. Suc k \<le> i \<and> i < Suc k + (length tab1 - length tab') div n \<longrightarrow> \<not> fails i"
      "err = None \<longleftrightarrow> \<not> fails (Suc k + (length tab1 - length tab') div n)"
      "err = None \<longrightarrow> (\<forall>r\<in>set tab'. expires_at r < cutoff \<longrightarrow> se_id r \<in> locked (Suc k + (length tab1 - length tab') div n))"
      by (elim exE conjE) (rule that, assumption+)
    have "length tab - length tab' = n + (length tab1 - length tab')" using f(2) full(2) r(2) by simp
    then have d: "k + (length tab - length tab') div n = Suc k + (length tab1 - length tab') div n" using assms(1) by (simp add: div_add_self1)
    have "purgeLoop cutoff n locked fails k tab tot = Some (tab', tot + (length tab - length tab'), err)"
      using s full f(2) r(1,2) by (subst purgeLoop.simps) simp
    moreover have "\<not> fails i" if "k \<le> i" "i < Suc k + (length tab1 - length tab') div n" for i
      using that r(5) full(1) by (cases "i = k") simp_all
    moreover have "length tab' \<le> length tab" "set tab' \<subseteq> set tab" using r(2,3) f(2,3) by auto
    ultimately show ?thesis using r(4,6,7) f(5) by (intro exI[of _ tab'] exI[of _ err]) (simp add: d)
  qed
qed

lemma purge_run_ends:
  assumes "0 < n" and "distinct (map se_id tab)"
  shows "\<exists>tab' err. purge_run n locked fails now tab = Some (tab', length tab - length tab', err)
     \<and> set tab' \<subseteq> set tab \<and> filter (\<lambda>r. now \<le> expires_at r) tab' = filter (\<lambda>r. now \<le> expires_at r) tab
     \<and> (\<forall>i < (length tab - length tab') div n. \<not> fails i)
     \<and> (err = None \<longleftrightarrow> \<not> fails ((length tab - length tab') div n))
     \<and> (err = None \<longrightarrow> (\<forall>r\<in>set tab'. expires_at r < now \<longrightarrow> se_id r \<in> locked ((length tab - length tab') div n)))"
proof -
  have e: "filter (\<lambda>r. \<not> expires_at r < now) = filter (\<lambda>r. now \<le> expires_at r)" by (simp add: not_less)
  show ?thesis
    using purgeLoop_ends[OF assms, of now locked fails 0 0] unfolding purge_run_def e add_0
    by (elim exE conjE, intro exI conjI) (assumption | simp)+
qed

section \<open>Properties\<close>

text \<open>The hash over integers, for evaluation.\<close>

fun fnv_int :: "int \<Rightarrow> string \<Rightarrow> int" where
  "fnv_int h [] = h"
| "fnv_int h (c # cs) = fnv_int (take_bit 64 ((h XOR of_char c) * 1099511628211)) cs"

lemma uint_fnv64a: "uint (fnv64a h cs) = fnv_int (uint h) cs"
proof (induction cs arbitrary: h)
  case (Cons c cs)
  have "(of_char c :: nat) < 256" by simp
  then have "(of_char c :: nat) < 2 ^ 64" by (rule order.strict_trans) simp
  then have "take_bit 64 (of_char c :: nat) = of_char c" by (rule take_bit_nat_eq_self)
  then have "uint (word_of_nat (of_char c) :: 64 word) = int (of_char c)" by (simp add: unsigned_of_nat)
  then have "uint (word_of_nat (of_char c) :: 64 word) = of_char c" by (simp only: of_nat_of_char)
  then have "uint ((h XOR word_of_nat (of_char c)) * 1099511628211) = take_bit 64 ((uint h XOR of_char c) * 1099511628211)"
    by (simp add: uint_word_ariths take_bit_eq_mod unsigned_xor_eq)
  then show ?case using Cons.IH by simp
qed simp

lemma Key_int: "Key name = take_bit 63 (fnv_int 14695981039346656037 name)"
proof -
  let ?w = "fnv64a 14695981039346656037 name AND 9223372036854775807"
  have "uint ?w = uint (fnv64a 14695981039346656037 name) AND 9223372036854775807" by (simp add: uint_and)
  also have "\<dots> = take_bit 63 (uint (fnv64a 14695981039346656037 name))" by (simp add: take_bit_eq_mask mask_eq_exp_minus_1)
  finally have u: "uint ?w = take_bit 63 (fnv_int 14695981039346656037 name)" by (simp add: uint_fnv64a)
  have "sint ?w = uint ?w"
    unfolding sint_uint u using take_bit_int_less_exp[of 63 "fnv_int 14695981039346656037 name"]
      order_trans[OF _ take_bit_nonnegative[of 63 "fnv_int 14695981039346656037 name"], of "- (2 ^ 63)"]
    by (simp add: signed_take_bit_int_eq_self)
  then show ?thesis using u by (simp add: Key_def)
qed

lemma Key_bounds: "0 \<le> Key name" "Key name < 2 ^ 63"
  using take_bit_int_less_exp[of 63 "fnv_int 14695981039346656037 name"] by (simp_all add: Key_int)

lemma distinct_job_keys: "distinct (map Key job_names)"
  unfolding Key_int by code_simp

text \<open>(C11) As long as no connection is lost, at most one run of a job is in progress at any time, over all instances; the three jobs have
  different lock keys, so they do not keep each other from running, and every key is a non-negative 64-bit integer.\<close>

theorem cron_mutual_exclusion:
  assumes "(cron_step False name)\<^sup>*\<^sup>* no_runs w" and "phase_of w r = Running" and "phase_of w q = Running" and "name r = name q"
  shows "r = q \<and> distinct (map Key job_names) \<and> 0 \<le> Key (name r) \<and> Key (name r) < 2 ^ 63"
proof -
  have l: "lock_inv name w" by (rule lock_inv_reachable[OF assms(1)])
  then have a: "phase_of w i \<noteq> Idle \<Longrightarrow> locks w (Key (name i)) = Some i" for i unfolding lock_inv_def by blast
  have "locks w (Key (name r)) = Some r" by (rule a) (simp add: assms(2))
  moreover have "locks w (Key (name q)) = Some q" by (rule a) (simp add: assms(3))
  ultimately have e: "r = q" unfolding assms(4) by (simp only: option.inject)
  show ?thesis by (rule conjI[OF e conjI[OF distinct_job_keys conjI[OF Key_bounds]]])
qed

theorem cron_mutual_exclusion_witness:
  "\<exists>w. (cron_step False (\<lambda>_. ''rollup-daily-events''))\<^sup>*\<^sup>* no_runs w \<and> phase_of w 1 = Running \<and> distinct (map Key job_names)"
proof -
  let ?n = "\<lambda>_ :: nat. ''rollup-daily-events''"
  define w1 where "w1 = no_runs\<lparr>phase_of := (phase_of no_runs)(1 := HasLock), locks := (locks no_runs)(Key (?n 1) \<mapsto> 1)\<rparr>"
  define w2 where "w2 = w1\<lparr>phase_of := (phase_of w1)(1 := Running)\<rparr>"
  have "cron_step False ?n no_runs w1" unfolding w1_def
    by (rule acquire[where c = True and q = "Answers True" and fate = CheckedOut]) (simp_all add: no_runs_def TryLock_def pg_answer_def)
  moreover have "cron_step False ?n w1 w2" unfolding w2_def by (rule start) (simp add: w1_def)
  ultimately have r: "(cron_step False ?n)\<^sup>*\<^sup>* no_runs w2" by simp
  have p: "phase_of w2 1 = Running" by (simp add: w2_def)
  show ?thesis using cron_mutual_exclusion[OF r p p refl] r p by blast
qed

text \<open>(C27) Whatever happens, a run takes the lock at most once, runs the job only with the lock and releases it exactly once and
  afterwards, leaves no connection checked out, and ends with exactly one metric: a success exactly if the
  lock was granted, the job returned no error and did not panic, and the lock was still held at the end.\<close>

theorem runner_releases_and_records:
  "case run_job name env of (acts, ms, errs, fate) \<Rightarrow>
     (if e_conn env \<and> e_lock env = Answers True then acts = [ATryLock name, ARunJob name, AUnlock name] else acts = [ATryLock name])
   \<and> fate \<noteq> CheckedOut
   \<and> ms = [if e_conn env \<and> e_lock env = Answers False then Skipped name
           else Observed name (if errs = [] then ''success'' else ''failure'') (time_Sub (e_end env) (e_start env))]
   \<and> (ms = [Observed name ''success'' (time_Sub (e_end env) (e_start env))]
        \<longleftrightarrow> e_conn env \<and> e_lock env = Answers True \<and> e_job env = Returns None \<and> e_unlock env = Answers True)"
  by (auto simp: run_job_def TryLock_def unlock_def runJob_def finish_def Let_def split: answer.splits job_outcome.splits bool.splits option.splits)

text \<open>(C17) A purge ends, whatever rows others have locked and whichever statement fails: it deletes no session that had not
  expired, and the count it reports is the number of rows deleted. Every statement but the last one deletes a whole batch, so the last
  statement executed is number \<open>deleted div batch\<close>. The purge fails exactly when that statement fails, none before it having failed;
  if it does not fail, the expired sessions that are left are among those locked by others during that last statement. So if no
  statement fails and no rows are locked, every expired session is gone.\<close>

theorem purge_ends_and_is_exact:
  assumes "checkConfig cfg = None" and "distinct (map se_id tab)"
  shows "\<exists>tab' err. purge_run (nat (SessionPurgeBatchSize cfg)) locked fails now tab = Some (tab', length tab - length tab', err)
     \<and> filter (\<lambda>r. now \<le> expires_at r) tab' = filter (\<lambda>r. now \<le> expires_at r) tab \<and> set tab' \<subseteq> set tab
     \<and> (let final = (length tab - length tab') div nat (SessionPurgeBatchSize cfg)
        in (\<forall>i<final. \<not> fails i) \<and> (err = None \<longleftrightarrow> \<not> fails final)
           \<and> (err = None \<longrightarrow> (\<forall>r\<in>set tab'. expires_at r < now \<longrightarrow> se_id r \<in> locked final)))
     \<and> ((\<forall>k. \<not> fails k \<and> locked k = {}) \<longrightarrow> err = None \<and> tab' = filter (\<lambda>r. now \<le> expires_at r) tab)"
proof -
  have n: "0 < nat (SessionPurgeBatchSize cfg)" using assms(1) by (simp add: checkConfig_def split: if_splits)
  let ?final = "\<lambda>tab'. (length tab - length tab') div nat (SessionPurgeBatchSize cfg)"
  obtain tab' err where r: "purge_run (nat (SessionPurgeBatchSize cfg)) locked fails now tab = Some (tab', length tab - length tab', err)"
    "set tab' \<subseteq> set tab" "filter (\<lambda>r. now \<le> expires_at r) tab' = filter (\<lambda>r. now \<le> expires_at r) tab"
    "\<forall>i < ?final tab'. \<not> fails i" "err = None \<longleftrightarrow> \<not> fails (?final tab')"
    "err = None \<longrightarrow> (\<forall>r\<in>set tab'. expires_at r < now \<longrightarrow> se_id r \<in> locked (?final tab'))"
    using purge_run_ends[OF n assms(2), of locked fails now] by (elim exE conjE) (rule that, assumption+)
  have "err = None \<and> tab' = filter (\<lambda>r. now \<le> expires_at r) tab" if "\<forall>k. \<not> fails k \<and> locked k = {}"
  proof -
    have e: "err = None" using r(5) that by simp
    then have "filter (\<lambda>r. now \<le> expires_at r) tab' = tab'" using r(6) that by (auto simp: filter_id_conv not_less)
    then show ?thesis using r(3) e by simp
  qed
  then show ?thesis using r unfolding Let_def by blast
qed

definition demo_sessions :: "session list" where
  "demo_sessions = map (\<lambda>(i, t). \<lparr>se_id = i, expires_at = t\<rparr>) [(1, 5), (2, 50), (3, 4), (4, 3)]"

theorem purge_ends_and_is_exact_witness:
  "\<exists>n. purge_run (nat (SessionPurgeBatchSize \<lparr>SessionPurgeBatchSize = 2, PendingOrderTTL = 1, ShutdownTimeout = 1\<rparr>)) (\<lambda>_. {}) (\<lambda>_. False) 10 demo_sessions
     = Some ([\<lparr>se_id = 2, expires_at = 50\<rparr>], n, None)"
proof -
  have "checkConfig \<lparr>SessionPurgeBatchSize = 2, PendingOrderTTL = 1, ShutdownTimeout = 1\<rparr> = None" by (simp add: checkConfig_def)
  from purge_ends_and_is_exact[OF this, of demo_sessions "\<lambda>_. {}" "\<lambda>_. False" 10]
  obtain tab' where "purge_run (nat (SessionPurgeBatchSize \<lparr>SessionPurgeBatchSize = 2, PendingOrderTTL = 1, ShutdownTimeout = 1\<rparr>)) (\<lambda>_. {}) (\<lambda>_. False) 10 demo_sessions
      = Some (tab', length demo_sessions - length tab', None)" "tab' = filter (\<lambda>r. 10 \<le> expires_at r) demo_sessions"
    by (auto simp: demo_sessions_def)
  then show ?thesis by (simp add: demo_sessions_def)
qed

text \<open>The roll-up of a day is exact and repeatable: each event type of yesterday has the number of its events and of its users in
  \<open>[from, to)\<close>, other rows are as before, and running it again on the same day, at any time, changes
  nothing.\<close>

theorem rollup_exact_and_repeatable:
  assumes "now' - now' mod day = now - now mod day"
  shows "let yesterday = now - now mod day - day;
             sel = (\<lambda>ty. filter (\<lambda>e. yesterday \<le> occurred_at e \<and> occurred_at e < yesterday + day \<and> ev_type e = ty) evs);
             stats' = fst (rollup_run False now evs stats)
    in (\<forall>ty. sel ty = [] \<or> stats' (yesterday, ty) = Some (length (sel ty), card (ev_user ` set (sel ty))))
     \<and> (\<forall>d ty. (d = yesterday \<and> sel ty \<noteq> []) \<or> stats' (d, ty) = stats (d, ty))
     \<and> fst (rollup_run False now' evs stats') = stats'"
  using assms by (auto simp: rollup_run_def rollupSQL_def Let_def fun_eq_iff length_remdups_card_conv)

theorem rollup_exact_and_repeatable_witness:
  "let evs = [\<lparr>ev_type = ''click'', ev_user = 7, occurred_at = 5\<rparr>, \<lparr>ev_type = ''click'', ev_user = 7, occurred_at = 6\<rparr>];
       stats = fst (rollup_run False (day + 3) evs Map.empty)
   in stats (0, ''click'') = Some (2, 1) \<and> fst (rollup_run False (day + 9) evs stats) = stats"
proof -
  let ?evs = "[\<lparr>ev_type = ''click'', ev_user = 7, occurred_at = 5\<rparr>, \<lparr>ev_type = ''click'', ev_user = 7, occurred_at = 6\<rparr>] :: event list"
  have "(day + 9) - (day + 9) mod day = (day + 3) - (day + 3) mod (day :: int)" by simp
  then have "fst (rollup_run False (day + 9) ?evs (fst (rollup_run False (day + 3) ?evs Map.empty))) = fst (rollup_run False (day + 3) ?evs Map.empty)"
    using rollup_exact_and_repeatable unfolding Let_def by blast
  moreover have "fst (rollup_run False (day + 3) ?evs Map.empty) (0, ''click'') = Some (2, 1)"
    by (simp add: rollup_run_def rollupSQL_def Let_def)
  ultimately show ?thesis unfolding Let_def by blast
qed

end
