(* ===== verification/Order_Cursor.thy ===== *)
theory Order_Cursor
  imports Go_Prelude
begin

text \<open>
  App 06: the keyset cursor of the order list (\<^verbatim>\<open>internal/store/cursor.go\<close>), with what it uses of the Go library: unpadded URL-safe
  base64 and decimal integers. A time is the number of nanoseconds since the Unix epoch.
\<close>

section \<open>Base64\<close>

text \<open>The alphabet: letters, digits, hyphen and underscore, and back.\<close>

definition b64_char :: "nat \<Rightarrow> char" where
  "b64_char v = char_of (if v < 26 then v + 65 else if v < 52 then v + 71 else if v < 62 then v - 4 else if v = 62 then 45 else 95)"

definition sextet :: "char \<Rightarrow> nat option" where
  "sextet c =
     (let n = of_char c
      in if 65 \<le> n \<and> n \<le> 90 then Some (n - 65)
         else if 97 \<le> n \<and> n \<le> 122 then Some (n - 71)
         else if 48 \<le> n \<and> n \<le> 57 then Some (n + 4)
         else if n = (45::nat) then Some 62
         else if n = 95 then Some 63
         else None)"

fun toSextets :: "nat list \<Rightarrow> nat list" where
  "toSextets [] = []"
| "toSextets [a] = [a div 4, (a mod 4) * 16]"
| "toSextets [a, b] = [a div 4, (a mod 4) * 16 + b div 16, (b mod 16) * 4]"
| "toSextets (a # b # c # r) = a div 4 # ((a mod 4) * 16 + b div 16) # ((b mod 16) * 4 + c div 64) # (c mod 64) # toSextets r"

text \<open>Bits left over at the end are not checked.\<close>

fun fromSextets :: "nat list \<Rightarrow> nat list option" where
  "fromSextets [] = Some []"
| "fromSextets [x] = None"
| "fromSextets [x, y] = Some [x * 4 + y div 16]"
| "fromSextets [x, y, z] = Some [x * 4 + y div 16, (y mod 16) * 16 + z div 4]"
| "fromSextets (x # y # z # w # r) =
     map_option (\<lambda>bs. (x * 4 + y div 16) # ((y mod 16) * 16 + z div 4) # ((z mod 4) * 64 + w) # bs) (fromSextets r)"

fun those :: "'a option list \<Rightarrow> 'a list option" where
  "those [] = Some []"
| "those (x # xs) = (case x of None \<Rightarrow> None | Some a \<Rightarrow> map_option (\<lambda>as. a # as) (those xs))"

definition b64_encode :: "string \<Rightarrow> string" where
  "b64_encode s = map (\<lambda>v. b64_char v) (toSextets (map of_char s))"

text \<open>The decoder skips line breaks.\<close>

definition b64_decode :: "string \<Rightarrow> string option" where
  "b64_decode t =
     (case those (map sextet (filter (\<lambda>c. of_char c \<noteq> (10::nat) \<and> of_char c \<noteq> (13::nat)) t)) of
        None \<Rightarrow> None
      | Some vs \<Rightarrow> map_option (map char_of) (fromSextets vs))"

lemma those_map_Some: "(\<forall>x\<in>set xs. f x = Some (g x)) \<Longrightarrow> those (map f xs) = Some (map g xs)"
  by (induction xs) simp_all

lemma toSextets_bound: "\<forall>b\<in>set bs. b < 256 \<Longrightarrow> \<forall>v\<in>set (toSextets bs). v < 64"
  by (induction bs rule: toSextets.induct) (auto simp: less_mult_imp_div_less)

lemma fromSextets_toSextets: "\<forall>b\<in>set bs. b < 256 \<Longrightarrow> fromSextets (toSextets bs) = Some bs"
proof (induction bs rule: toSextets.induct)
  case (3 a b)
  have "b div 16 < 16" using 3 by auto
  then show ?case by simp
next
  case (4 a b c r)
  have "b div 16 < 16" "c div 64 < 4" using 4 by auto
  then show ?case using 4 by simp
qed simp_all

lemma sextet_alphabet:
  assumes "v < 64" shows "sextet (b64_char v) = Some v \<and> of_char (b64_char v) \<noteq> (10::nat) \<and> of_char (b64_char v) \<noteq> (13::nat)"
proof -
  let ?n = "if v < 26 then v + 65 else if v < 52 then v + 71 else if v < 62 then v - 4 else if v = 62 then 45 else 95"
  have "?n < 256" using assms by simp arith
  then have "of_char (b64_char v) = ?n" unfolding b64_char_def by (simp only: of_char_of mod_less)
  then show ?thesis using assms unfolding sextet_def Let_def by (simp split: if_split) arith
qed

lemma b64_roundtrip: "b64_decode (b64_encode s) = Some s"
proof -
  let ?vs = "toSextets (map of_char s)"
  have b: "\<forall>v\<in>set ?vs. v < 64" by (rule toSextets_bound) simp
  have "filter (\<lambda>c. of_char c \<noteq> (10::nat) \<and> of_char c \<noteq> (13::nat)) (b64_encode s) = b64_encode s"
    unfolding b64_encode_def using b sextet_alphabet by (auto simp: filter_id_conv)
  moreover have "those (map sextet (b64_encode s)) = Some ?vs"
    using those_map_Some[of ?vs "\<lambda>v. sextet (b64_char v)" id] b sextet_alphabet by (simp add: b64_encode_def comp_def)
  moreover have "fromSextets ?vs = Some (map of_char s)" by (rule fromSextets_toSextets) simp
  ultimately show ?thesis by (simp add: b64_decode_def comp_def)
qed

section \<open>Cursors\<close>

datatype cursor_error = ErrInvalidCursor

record Cursor =
  c_CreatedAt :: gotime
  c_ID :: int

definition minCursorMicros :: int where
  "minCursorMicros = - 210866803200000000"

definition UnixMicro :: "gotime \<Rightarrow> int" where
  "UnixMicro t = t div 1000"

text \<open>\<open>strings.Cut\<close> at a colon.\<close>

definition cut_colon :: "string \<Rightarrow> (string \<times> string) option" where
  "cut_colon s =
     (let a = takeWhile (\<lambda>c. c \<noteq> CHR '':'') s
      in if length a < length s then Some (a, drop (length a + 1) s) else None)"

definition Encode :: "Cursor \<Rightarrow> string" where
  "Encode c = b64_encode (itoa (UnixMicro (c_CreatedAt c)) @ '':'' @ itoa (c_ID c))"

definition DecodeCursor :: "string \<Rightarrow> cursor_error + Cursor" where
  "DecodeCursor token =
     (case b64_decode token of
        None \<Rightarrow> Inl ErrInvalidCursor
      | Some raw \<Rightarrow>
          (case cut_colon raw of
             None \<Rightarrow> Inl ErrInvalidCursor
           | Some (micros, i) \<Rightarrow>
               (case atoi micros of
                  None \<Rightarrow> Inl ErrInvalidCursor
                | Some us \<Rightarrow>
                    if us < minCursorMicros then Inl ErrInvalidCursor
                    else (case atoi i of
                            None \<Rightarrow> Inl ErrInvalidCursor
                          | Some n \<Rightarrow>
                              if n \<le> 0 then Inl ErrInvalidCursor
                              else Inr \<lparr>c_CreatedAt = us * 1000, c_ID = n\<rparr>))))"

lemma itoa_no_colon: "CHR '':'' \<notin> set (itoa i)"
proof -
  have "CHR '':'' \<notin> set (digits n)" for n
    using digits_props(1)[of n] by (auto simp: list_all_iff is_digit_def)
  then show ?thesis by (simp add: itoa_def)
qed

lemma cut_colon_join: "CHR '':'' \<notin> set a \<Longrightarrow> cut_colon (a @ '':'' @ b) = Some (a, b)"
proof -
  assume "CHR '':'' \<notin> set a"
  then have "takeWhile (\<lambda>c. c \<noteq> CHR '':'') (a @ '':'' @ b) = a" by (subst takeWhile_append2) auto
  then show ?thesis by (simp add: cut_colon_def)
qed

text \<open>A position that the database can hold: microseconds, in its range, with a positive identifier.\<close>

definition cursor_ok :: "Cursor \<Rightarrow> bool" where
  "cursor_ok c \<longleftrightarrow> c_CreatedAt c mod 1000 = 0 \<and> minCursorMicros \<le> UnixMicro (c_CreatedAt c) \<and> in64 (UnixMicro (c_CreatedAt c))
     \<and> 0 < c_ID c \<and> in64 (c_ID c)"

lemma Decode_Encode:
  assumes "cursor_ok c" shows "DecodeCursor (Encode c) = Inr c"
proof -
  have "c_CreatedAt c div 1000 * 1000 = c_CreatedAt c" using assms by (auto simp: cursor_ok_def)
  then show ?thesis
    using assms cut_colon_join[OF itoa_no_colon]
    by (simp add: DecodeCursor_def Encode_def b64_roundtrip atoi_itoa cursor_ok_def UnixMicro_def)
qed

lemma Encode_nonempty: "Encode c \<noteq> []"
proof -
  have "toSextets bs \<noteq> []" if "bs \<noteq> []" for bs using that by (cases bs rule: toSextets.cases) auto
  then show ?thesis by (simp add: Encode_def b64_encode_def)
qed

end
