(* ===== verification/Order_Service.thy ===== *)
theory Order_Service
  imports Order_Cursor Text_Scan "HOL-Library.Multiset" "HOL-Library.Product_Lexorder"
begin

text \<open>
  App 06: users and orders in PostgreSQL (\<^verbatim>\<open>internal/store/store.go\<close> with the statements of \<^verbatim>\<open>internal/db/queries\<close> and the
  constraints of \<^verbatim>\<open>internal/db/migrations\<close>) and the JSON API over the interface \<open>Store\<close> (\<^verbatim>\<open>internal/httpapi\<close>), a record of
  operations with the laws of the locale \<open>order_store\<close>.

  The database is three tables; a statement may also fail for a reason of its own, which is an argument. New
  identifiers and times are arguments, as are the JSON decoder, \<open>mail.ParseAddress\<close> and the Unicode functions
  \<open>trim\<close> and \<open>lower\<close>.
\<close>

section \<open>Tables and statements\<close>

record User =
  u_ID :: int
  u_Email :: string
  u_Name :: string
  u_CreatedAt :: gotime

record Item =
  SKU :: string
  Quantity :: int
  UnitPriceCents :: int

record Order =
  o_ID :: int
  o_UserID :: int
  TotalCents :: int
  o_CreatedAt :: gotime
  o_Items :: "Item list"

text \<open>Rows of \<open>orders\<close> are orders without items.\<close>

record db =
  t_users :: "User list"
  t_orders :: "Order list"
  t_items :: "(int \<times> Item) list"

datatype pg_error = ErrNoRows | UniqueViolation string | CheckViolation | NumericValueOutOfRange | OtherPg

definition q_CreateUser :: "pg_error option \<Rightarrow> int \<Rightarrow> gotime \<Rightarrow> string \<Rightarrow> string \<Rightarrow> db \<Rightarrow> (pg_error + User) \<times> db" where
  "q_CreateUser fault newID now email name d =
     (case fault of
        Some e \<Rightarrow> (Inl e, d)
      | None \<Rightarrow>
          if list_ex (\<lambda>u. u_Email u = email) (t_users d) then (Inl (UniqueViolation ''users_email_key''), d)
          else let u = \<lparr>u_ID = newID, u_Email = email, u_Name = name, u_CreatedAt = now\<rparr>
               in (Inr u, d\<lparr>t_users := t_users d @ [u]\<rparr>))"

definition q_GetUser :: "pg_error option \<Rightarrow> int \<Rightarrow> db \<Rightarrow> pg_error + User" where
  "q_GetUser fault i d =
     (case fault of
        Some e \<Rightarrow> Inl e
      | None \<Rightarrow> (case find (\<lambda>u. u_ID u = i) (t_users d) of None \<Rightarrow> Inl ErrNoRows | Some u \<Rightarrow> Inr u))"

definition q_CreateOrder :: "pg_error option \<Rightarrow> int \<Rightarrow> gotime \<Rightarrow> int \<Rightarrow> db \<Rightarrow> pg_error + Order \<times> db" where
  "q_CreateOrder fault newID now userID d =
     (case fault of
        Some e \<Rightarrow> Inl e
      | None \<Rightarrow>
          let r = \<lparr>o_ID = newID, o_UserID = userID, TotalCents = 0, o_CreatedAt = now, o_Items = []\<rparr>
          in Inr (r, d\<lparr>t_orders := t_orders d @ [r]\<rparr>))"

definition item_checks :: "Item \<Rightarrow> bool" where
  "item_checks it \<longleftrightarrow> SKU it \<noteq> [] \<and> 0 < Quantity it \<and> 0 \<le> UnitPriceCents it"

definition q_InsertOrderItems :: "pg_error option \<Rightarrow> (int \<times> Item) list \<Rightarrow> db \<Rightarrow> pg_error + db" where
  "q_InsertOrderItems fault params d =
     (case fault of
        Some e \<Rightarrow> Inl e
      | None \<Rightarrow> if \<not> list_all (\<lambda>(oid, it). item_checks it) params then Inl CheckViolation else Inr (d\<lparr>t_items := t_items d @ params\<rparr>))"

text \<open>The products are \<open>bigint\<close>, the sum is \<open>numeric\<close> and assigned to a \<open>bigint\<close>.\<close>

definition q_UpdateOrderTotal :: "pg_error option \<Rightarrow> int \<Rightarrow> db \<Rightarrow> pg_error + Order \<times> db" where
  "q_UpdateOrderTotal fault oid d =
     (let prods = map (\<lambda>(i, it). Quantity it * UnitPriceCents it) (filter (\<lambda>(i, it). i = oid) (t_items d));
          tot = sum_list prods
      in case fault of
           Some e \<Rightarrow> Inl e
         | None \<Rightarrow>
             if \<not> list_all in64 prods \<or> \<not> in64 tot then Inl NumericValueOutOfRange
             else if tot < 0 then Inl CheckViolation
             else case find (\<lambda>r. o_ID r = oid) (t_orders d) of
                    None \<Rightarrow> Inl ErrNoRows
                  | Some r \<Rightarrow>
                      Inr (r\<lparr>TotalCents := tot\<rparr>, d\<lparr>t_orders := map (\<lambda>r. if o_ID r = oid then r\<lparr>TotalCents := tot\<rparr> else r) (t_orders d)\<rparr>))"

text \<open>Newest first. \<open>before_pos\<close> is the row comparison with the cursor.\<close>

definition before_pos :: "Cursor \<Rightarrow> Order \<Rightarrow> bool" where
  "before_pos c r \<longleftrightarrow> o_CreatedAt r < c_CreatedAt c \<or> o_CreatedAt r = c_CreatedAt c \<and> o_ID r < c_ID c"

definition newest_first :: "Order list \<Rightarrow> Order list" where
  "newest_first rs = sort_key (\<lambda>r. (- o_CreatedAt r, - o_ID r)) rs"

definition q_ListOrders :: "pg_error option \<Rightarrow> int \<Rightarrow> int \<Rightarrow> db \<Rightarrow> pg_error + Order list" where
  "q_ListOrders fault userID rowLimit d =
     (case fault of
        Some e \<Rightarrow> Inl e
      | None \<Rightarrow> Inr (take (nat rowLimit) (newest_first (filter (\<lambda>r. o_UserID r = userID) (t_orders d)))))"

definition q_ListOrdersAfter :: "pg_error option \<Rightarrow> int \<Rightarrow> Cursor \<Rightarrow> int \<Rightarrow> db \<Rightarrow> pg_error + Order list" where
  "q_ListOrdersAfter fault userID c rowLimit d =
     (case fault of
        Some e \<Rightarrow> Inl e
      | None \<Rightarrow> Inr (take (nat rowLimit) (newest_first (filter (\<lambda>r. o_UserID r = userID \<and> before_pos c r) (t_orders d)))))"

section \<open>The store\<close>

datatype store_error = ErrUserNotFound | ErrEmailTaken | ErrInvalidOrder | Internal

definition DefaultPageSize :: int where
  "DefaultPageSize = 20"

definition MaxPageSize :: int where
  "MaxPageSize = 100"

record OrderPage =
  Orders :: "Order list"
  Next :: "Cursor option"

definition CreateUser :: "pg_error option \<Rightarrow> int \<Rightarrow> gotime \<Rightarrow> string \<Rightarrow> string \<Rightarrow> db \<Rightarrow> (store_error + User) \<times> db" where
  "CreateUser fault newID now email name d =
     (case q_CreateUser fault newID now email name d of
        (Inl e, d') \<Rightarrow> (Inl (if e = UniqueViolation ''users_email_key'' then ErrEmailTaken else Internal), d')
      | (Inr row, d') \<Rightarrow> (Inr row, d'))"

definition GetUser :: "pg_error option \<Rightarrow> int \<Rightarrow> db \<Rightarrow> store_error + User" where
  "GetUser fault i d =
     (case q_GetUser fault i d of
        Inl e \<Rightarrow> Inl (if e = ErrNoRows then ErrUserNotFound else Internal)
      | Inr row \<Rightarrow> Inr row)"

datatype tx_error = TxUserNotFound | TxPg pg_error

definition orderFromRow :: "Order \<Rightarrow> Order" where
  "orderFromRow row = \<lparr>o_ID = o_ID row, o_UserID = o_UserID row, TotalCents = TotalCents row, o_CreatedAt = o_CreatedAt row, o_Items = []\<rparr>"

text \<open>The function run in the transaction; \<open>faults\<close> are those of its statements, in order. \<open>LockUser\<close> finds the user as \<open>GetUser\<close>
  does, and keeps the row from being deleted until the end of the transaction.\<close>

definition createOrderTx :: "(nat \<Rightarrow> pg_error option) \<Rightarrow> int \<Rightarrow> gotime \<Rightarrow> int \<Rightarrow> Item list \<Rightarrow> db \<Rightarrow> tx_error + Order \<times> db" where
  "createOrderTx faults newID now userID items d =
     (case q_GetUser (faults 0) userID d of
        Inl e \<Rightarrow> Inl (if e = ErrNoRows then TxUserNotFound else TxPg e)
      | Inr _ \<Rightarrow>
          (case q_CreateOrder (faults 1) newID now userID d of
             Inl e \<Rightarrow> Inl (TxPg e)
           | Inr (row, d1) \<Rightarrow>
               (case q_InsertOrderItems (faults 2) (map (\<lambda>it. (o_ID row, it)) items) d1 of
                  Inl e \<Rightarrow> Inl (TxPg e)
                | Inr d2 \<Rightarrow>
                    (case q_UpdateOrderTotal (faults 3) (o_ID row) d2 of
                       Inl e \<Rightarrow> Inl (TxPg e)
                     | Inr (row2, d3) \<Rightarrow> Inr ((orderFromRow row2)\<lparr>o_Items := items\<rparr>, d3)))))"

text \<open>\<open>pgx.BeginFunc\<close> rolls back on an error and commits otherwise.\<close>

definition CreateOrder :: "(nat \<Rightarrow> pg_error option) \<Rightarrow> int \<Rightarrow> gotime \<Rightarrow> int \<Rightarrow> Item list \<Rightarrow> db \<Rightarrow> (store_error + Order) \<times> db" where
  "CreateOrder faults newID now userID items d =
     (if items = [] then (Inl ErrInvalidOrder, d)
      else case (case createOrderTx faults newID now userID items d of
                   Inl e \<Rightarrow> Inl e
                 | Inr res \<Rightarrow> (case faults 4 of Some e \<Rightarrow> Inl (TxPg e) | None \<Rightarrow> Inr res)) of
             Inl TxUserNotFound \<Rightarrow> (Inl ErrUserNotFound, d)
           | Inl (TxPg e) \<Rightarrow> (Inl (if e = CheckViolation \<or> e = NumericValueOutOfRange then ErrInvalidOrder else Internal), d)
           | Inr (order, d') \<Rightarrow> (Inr order, d'))"

definition ListOrders :: "(nat \<Rightarrow> pg_error option) \<Rightarrow> int \<Rightarrow> Cursor option \<Rightarrow> int \<Rightarrow> db \<Rightarrow> store_error + OrderPage" where
  "ListOrders faults userID after limit0 d =
     (case GetUser (faults 0) userID d of
        Inl e \<Rightarrow> Inl e
      | Inr _ \<Rightarrow>
          let limit1 = (if limit0 \<le> 0 then DefaultPageSize else limit0);
              limit = min limit1 MaxPageSize;
              rowLimit = limit + 1
          in case (case after of
                     None \<Rightarrow> q_ListOrders (faults 1) userID rowLimit d
                   | Some c \<Rightarrow> q_ListOrdersAfter (faults 1) userID c rowLimit d) of
               Inl e \<Rightarrow> Inl Internal
             | Inr rows \<Rightarrow>
                 let rows1 = (if limit < int (length rows) then take (nat limit) rows else rows);
                     nxt = (if limit < int (length rows) then Some \<lparr>c_CreatedAt = o_CreatedAt (last rows1), c_ID = o_ID (last rows1)\<rparr> else None)
                 in Inr \<lparr>Orders = map orderFromRow rows1, Next = nxt\<rparr>)"

section \<open>The API\<close>

record 's orderStore =
  os_CreateUser :: "string \<Rightarrow> string \<Rightarrow> 's \<Rightarrow> (store_error + User) \<times> 's"
  os_GetUser :: "int \<Rightarrow> 's \<Rightarrow> store_error + User"
  os_CreateOrder :: "int \<Rightarrow> Item list \<Rightarrow> 's \<Rightarrow> (store_error + Order) \<times> 's"
  os_ListOrders :: "int \<Rightarrow> Cursor option \<Rightarrow> int \<Rightarrow> 's \<Rightarrow> store_error + OrderPage"

datatype item_error = ItemCount | EmptySKU nat | NulSKU nat | BadQuantity nat | NegativePrice nat

datatype resp =
    UserBody User
  | OrderBody Order
  | PageBody "Order list" string
  | ErrorBody string
  | ItemsError item_error

definition fail :: "store_error \<Rightarrow> nat \<times> resp" where
  "fail err =
     (case err of
        ErrUserNotFound \<Rightarrow> (404, ErrorBody ''user not found'')
      | ErrEmailTaken \<Rightarrow> (409, ErrorBody ''email already taken'')
      | ErrInvalidOrder \<Rightarrow> (422, ErrorBody ''order violates constraints'')
      | Internal \<Rightarrow> (500, ErrorBody ''internal error''))"

definition pathID :: "string \<Rightarrow> int option" where
  "pathID v = (case atoi v of None \<Rightarrow> None | Some i \<Rightarrow> if i \<le> 0 then None else Some i)"

text \<open>\<open>parse\<close> is the address found by \<open>mail.ParseAddress\<close>.\<close>

definition normalizeEmail :: "(string \<Rightarrow> string) \<Rightarrow> (string \<Rightarrow> string) \<Rightarrow> (string \<Rightarrow> string option) \<Rightarrow> string \<Rightarrow> string option" where
  "normalizeEmail trim lower parse s0 =
     (let s = trim s0
      in case parse s of None \<Rightarrow> None | Some addr \<Rightarrow> if addr \<noteq> s then None else Some (lower addr))"

definition itemError :: "(string \<Rightarrow> string) \<Rightarrow> nat \<Rightarrow> Item \<Rightarrow> item_error option" where
  "itemError trim i it =
     (if trim (SKU it) = [] then Some (EmptySKU i)
      else if CHR 0x00 \<in> set (SKU it) then Some (NulSKU i)
      else if Quantity it \<le> 0 then Some (BadQuantity i)
      else if UnitPriceCents it < 0 then Some (NegativePrice i)
      else None)"

fun firstItemError :: "(string \<Rightarrow> string) \<Rightarrow> nat \<Rightarrow> Item list \<Rightarrow> item_error option" where
  "firstItemError trim i [] = None"
| "firstItemError trim i (it # its) = (case itemError trim i it of Some e \<Rightarrow> Some e | None \<Rightarrow> firstItemError trim (Suc i) its)"

definition validateItems :: "(string \<Rightarrow> string) \<Rightarrow> Item list \<Rightarrow> item_error option" where
  "validateItems trim items = (if items = [] \<or> 100 < length items then Some ItemCount else firstItemError trim 0 items)"

definition createUser ::
  "(string \<Rightarrow> string) \<Rightarrow> (string \<Rightarrow> string) \<Rightarrow> (string \<Rightarrow> string option) \<Rightarrow> 's orderStore \<Rightarrow> (string + string \<times> string) \<Rightarrow> 's \<Rightarrow> (nat \<times> resp) \<times> 's" where
  "createUser trim lower parse st req s =
     (case req of
        Inl msg \<Rightarrow> ((400, ErrorBody msg), s)
      | Inr (reqEmail, reqName) \<Rightarrow>
          (case normalizeEmail trim lower parse reqEmail of
             None \<Rightarrow> ((422, ErrorBody ''email is invalid''), s)
           | Some email \<Rightarrow>
               let name = trim reqName
               in if name = [] \<or> 200 < length (runes name) then ((422, ErrorBody ''name must be 1 to 200 characters''), s)
                  else if CHR 0x00 \<in> set name then ((422, ErrorBody ''name must not contain NUL characters''), s)
                  else case os_CreateUser st email name s of
                         (Inl e, s') \<Rightarrow> (fail e, s')
                       | (Inr user, s') \<Rightarrow> ((201, UserBody user), s')))"

definition getUser :: "'s orderStore \<Rightarrow> string \<Rightarrow> 's \<Rightarrow> nat \<times> resp" where
  "getUser st i s =
     (case pathID i of
        None \<Rightarrow> (400, ErrorBody ''id must be a positive integer'')
      | Some uid \<Rightarrow> (case os_GetUser st uid s of Inl e \<Rightarrow> fail e | Inr user \<Rightarrow> (200, UserBody user)))"

definition createOrder ::
  "(string \<Rightarrow> string) \<Rightarrow> 's orderStore \<Rightarrow> string \<Rightarrow> (string + Item list) \<Rightarrow> 's \<Rightarrow> (nat \<times> resp) \<times> 's" where
  "createOrder trim st i req s =
     (case pathID i of
        None \<Rightarrow> ((400, ErrorBody ''id must be a positive integer''), s)
      | Some uid \<Rightarrow>
          (case req of
             Inl msg \<Rightarrow> ((400, ErrorBody msg), s)
           | Inr items \<Rightarrow>
               (case validateItems trim items of
                  Some e \<Rightarrow> ((422, ItemsError e), s)
                | None \<Rightarrow>
                    (case os_CreateOrder st uid items s of
                       (Inl e, s') \<Rightarrow> (fail e, s')
                     | (Inr order, s') \<Rightarrow> ((201, OrderBody order), s')))))"

definition newOrderPageResponse :: "OrderPage \<Rightarrow> resp" where
  "newOrderPageResponse p = PageBody (Orders p) (case Next p of None \<Rightarrow> [] | Some c \<Rightarrow> Encode c)"

text \<open>\<open>limit\<close> and \<open>cursor\<close> are the query parameters, empty when absent.\<close>

definition listOrders :: "'s orderStore \<Rightarrow> string \<Rightarrow> string \<Rightarrow> string \<Rightarrow> 's \<Rightarrow> nat \<times> resp" where
  "listOrders st i limit cursor s =
     (case pathID i of
        None \<Rightarrow> (400, ErrorBody ''id must be a positive integer'')
      | Some uid \<Rightarrow>
          (case (if limit = [] then Some 0 else case atoi limit of None \<Rightarrow> None | Some n \<Rightarrow> if n \<le> 0 then None else Some n) of
             None \<Rightarrow> (400, ErrorBody ''limit must be a positive integer'')
           | Some lim \<Rightarrow>
               (case (if cursor = [] then Inr None else case DecodeCursor cursor of Inl e \<Rightarrow> Inl e | Inr c \<Rightarrow> Inr (Some c)) of
                  Inl _ \<Rightarrow> (400, ErrorBody ''invalid cursor'')
                | Inr after \<Rightarrow>
                    (case os_ListOrders st uid after lim s of
                       Inl e \<Rightarrow> fail e
                     | Inr page \<Rightarrow> (200, newOrderPageResponse page)))))"

text \<open>A client that follows the cursors to the end.\<close>

fun follow :: "'s orderStore \<Rightarrow> string \<Rightarrow> string \<Rightarrow> 's \<Rightarrow> nat \<Rightarrow> string \<Rightarrow> Order list option" where
  "follow st i limit s 0 cursor = None"
| "follow st i limit s (Suc n) cursor =
     (case listOrders st i limit cursor s of
        (code, PageBody os nxt) \<Rightarrow>
          if code \<noteq> 200 then None
          else if nxt = [] then Some os else map_option (\<lambda>rest. os @ rest) (follow st i limit s n nxt)
      | _ \<Rightarrow> None)"

section \<open>What the listing relies on\<close>

definition pos :: "Order \<Rightarrow> Cursor" where
  "pos r = \<lparr>c_CreatedAt = o_CreatedAt r, c_ID = o_ID r\<rparr>"

definition page_size :: "int \<Rightarrow> nat" where
  "page_size limit = nat (min (if limit \<le> 0 then 20 else limit) 100)"

lemma before_pos_irrefl: "\<not> before_pos (pos r) r"
  by (simp add: before_pos_def pos_def)

lemma before_pos_asym: "before_pos (pos a) b \<Longrightarrow> \<not> before_pos (pos b) a"
  by (auto simp: before_pos_def pos_def)

lemma filter_before_pos:
  assumes "sorted_wrt (\<lambda>a b. before_pos (pos a) b) os" and "k < length os"
  shows "filter (before_pos (pos (os ! k))) os = drop (Suc k) os"
proof -
  have s: "j < i \<Longrightarrow> i < length os \<Longrightarrow> before_pos (pos (os ! j)) (os ! i)" for i j
    using assms(1) by (simp add: sorted_wrt_iff_nth_less)
  have "filter (before_pos (pos (os ! k))) (take (Suc k) os) = []"
  proof -
    have "\<not> before_pos (pos (os ! k)) (os ! j)" if "j \<le> k" for j
      using s[of j k] that assms(2) before_pos_irrefl before_pos_asym by (cases "j = k") auto
    then show ?thesis using assms(2) by (auto simp: filter_empty_conv in_set_conv_nth less_Suc_eq_le)
  qed
  moreover have "filter (before_pos (pos (os ! k))) (drop (Suc k) os) = drop (Suc k) os"
    using s by (auto simp: filter_id_conv in_set_conv_nth)
  ultimately show ?thesis by (metis append_Nil append_take_drop_id filter_append)
qed

text \<open>The contract of \<open>ListOrders\<close>: \<open>orders_of\<close> are the orders of an existing user, newest first, and a page is the next of them
  after the cursor, with a cursor exactly if more follow.\<close>

locale order_store =
  fixes st :: "'s orderStore" and orders_of :: "'s \<Rightarrow> int \<Rightarrow> Order list option" and wf :: "'s \<Rightarrow> bool"
  assumes list_missing: "orders_of s u = None \<Longrightarrow> os_ListOrders st u c lim s = Inl ErrUserNotFound"
    and list_page: "orders_of s u = Some os \<Longrightarrow> os_ListOrders st u c lim s =
      (let rest = (case c of None \<Rightarrow> os | Some p \<Rightarrow> filter (before_pos p) os); l = page_size lim
       in Inr \<lparr>Orders = take l rest, Next = (if l < length rest then Some (pos (rest ! (l - 1))) else None)\<rparr>)"
    and newest: "wf s \<Longrightarrow> orders_of s u = Some os \<Longrightarrow> sorted_wrt (\<lambda>a b. before_pos (pos a) b) os"
    and positions: "wf s \<Longrightarrow> orders_of s u = Some os \<Longrightarrow> r \<in> set os \<Longrightarrow> cursor_ok (pos r)"
begin

lemma follow_from:
  assumes "wf s" and "orders_of s u = Some os" and "pathID i = Some u"
    and "limit = [] \<and> lim = 0 \<or> limit \<noteq> [] \<and> atoi limit = Some lim \<and> 0 < lim"
  shows "k \<le> length os \<Longrightarrow> tok = (if k = 0 then [] else Encode (pos (os ! (k - 1)))) \<Longrightarrow> length os - k < fuel
    \<Longrightarrow> follow st i limit s fuel tok = Some (drop k os)"
proof (induction fuel arbitrary: k tok)
  case (Suc fuel)
  let ?l = "page_size lim" and ?rest = "drop k os"
  have l: "0 < ?l" using assms(4) by (auto simp: page_size_def)
  have after: "(if tok = [] then Inr None else case DecodeCursor tok of Inl e \<Rightarrow> Inl e | Inr c \<Rightarrow> Inr (Some c))
      = (Inr (if k = 0 then None else Some (pos (os ! (k - 1)))) :: cursor_error + Cursor option)"
  proof (cases "k = 0")
    case False
    then have "os ! (k - 1) \<in> set os" using Suc.prems(1) by simp
    then have "DecodeCursor (Encode (pos (os ! (k - 1)))) = Inr (pos (os ! (k - 1)))"
      by (intro Decode_Encode positions[OF assms(1,2)])
    then show ?thesis unfolding Suc.prems(2) using False Encode_nonempty by (simp only: if_False sum.case)
  qed (simp add: Suc.prems(2))
  have rest: "(case (if k = 0 then None else Some (pos (os ! (k - 1)))) of None \<Rightarrow> os | Some p \<Rightarrow> filter (before_pos p) os) = ?rest"
  proof (cases "k = 0")
    case False
    then have "k - 1 < length os" "Suc (k - 1) = k" using Suc.prems(1) by simp_all
    then show ?thesis using filter_before_pos[OF newest[OF assms(1,2)], of "k - 1"] False by (simp only: if_False option.case)
  qed simp
  have lim: "(if limit = [] then Some 0 else case atoi limit of None \<Rightarrow> None | Some n \<Rightarrow> if n \<le> 0 then None else Some n) = Some lim"
    using assms(4) by auto
  have list: "listOrders st i limit tok s = (200, PageBody (take ?l ?rest) (if ?l < length ?rest then Encode (pos (?rest ! (?l - 1))) else []))"
    unfolding listOrders_def assms(3) option.case lim after sum.case list_page[OF assms(2)] rest Let_def newOrderPageResponse_def
    by (simp only: OrderPage.select_convs if_distrib[of "case_option _ _"] option.case)
  show ?case
  proof (cases "?l < length ?rest")
    case True
    have e: "?rest ! (?l - 1) = os ! (k + ?l - 1)" using True l by (simp add: nth_drop)
    have "follow st i limit s fuel (Encode (pos (?rest ! (?l - 1)))) = Some (drop (k + ?l) os)"
    proof (rule Suc.IH)
      show "k + ?l \<le> length os" using True by simp
      show "Encode (pos (?rest ! (?l - 1))) = (if k + ?l = 0 then [] else Encode (pos (os ! (k + ?l - 1))))" unfolding e using l by simp
      show "length os - (k + ?l) < fuel" using Suc.prems(3) l True by simp
    qed
    moreover have "take ?l ?rest @ drop (k + ?l) os = ?rest" by (metis append_take_drop_id drop_drop add.commute)
    ultimately show ?thesis using list True Encode_nonempty by simp
  next
    case False
    then show ?thesis using list by simp
  qed
qed simp

lemma follow_all:
  assumes "wf s" and "orders_of s u = Some os" and "pathID i = Some u"
    and "limit = [] \<or> limit \<noteq> [] \<and> (\<exists>lim. atoi limit = Some lim \<and> 0 < lim)" and "length os < fuel"
  shows "follow st i limit s fuel [] = Some os"
proof -
  obtain lim where "limit = [] \<and> lim = 0 \<or> limit \<noteq> [] \<and> atoi limit = Some lim \<and> 0 < lim" using assms(4) by auto
  from follow_from[OF assms(1-3) this, of 0 "[]" fuel] show ?thesis using assms(5) by simp
qed

end

section \<open>The store keeps the contract\<close>

definition Store_ops :: "int \<Rightarrow> gotime \<Rightarrow> db orderStore" where
  "Store_ops newID now =
     \<lparr>os_CreateUser = CreateUser None newID now, os_GetUser = GetUser None,
      os_CreateOrder = CreateOrder (\<lambda>_. None) newID now, os_ListOrders = ListOrders (\<lambda>_. None)\<rparr>"

definition user_orders :: "db \<Rightarrow> int \<Rightarrow> Order list option" where
  "user_orders d u =
     (if list_ex (\<lambda>x. u_ID x = u) (t_users d)
      then Some (map orderFromRow (newest_first (filter (\<lambda>r. o_UserID r = u) (t_orders d)))) else None)"

definition db_wf :: "db \<Rightarrow> bool" where
  "db_wf d \<longleftrightarrow> distinct (map o_ID (t_orders d)) \<and> (\<forall>r\<in>set (t_orders d). cursor_ok (pos r))"

lemma pos_orderFromRow [simp]: "pos (orderFromRow r) = pos r" "before_pos c (orderFromRow r) = before_pos c r"
  "o_CreatedAt (orderFromRow r) = o_CreatedAt r" "o_ID (orderFromRow r) = o_ID r"
  by (simp_all add: pos_def orderFromRow_def before_pos_def)

lemma newest_first_sorted:
  assumes "distinct (map o_ID rs)" shows "sorted_wrt (\<lambda>a b. before_pos (pos a) b) (newest_first rs)"
proof -
  let ?k = "\<lambda>r. (- o_CreatedAt r, - o_ID r)"
  have "mset (map o_ID (newest_first rs)) = mset (map o_ID rs)" unfolding newest_first_def mset_map mset_sort ..
  then have "distinct (map o_ID (newest_first rs))" using assms mset_eq_imp_distinct_iff by blast
  then have "distinct (newest_first rs)" "inj_on ?k (set (newest_first rs))" unfolding distinct_map inj_on_def by auto
  then have "sorted_wrt (<) (map ?k (newest_first rs))"
    unfolding strict_sorted_iff distinct_map using sorted_sort_key[of ?k rs] by (simp add: newest_first_def)
  then have "sorted_wrt (\<lambda>a b. ?k a < ?k b) (newest_first rs)" unfolding sorted_wrt_map .
  then show ?thesis by (rule sorted_wrt_mono_rel[rotated]) (auto simp: before_pos_def pos_def less_prod_def')
qed

lemma list_query:
  "(case c of None \<Rightarrow> q_ListOrders None u n d | Some p \<Rightarrow> q_ListOrdersAfter None u p n d) =
   Inr (take (nat n) (case c of None \<Rightarrow> newest_first (filter (\<lambda>r. o_UserID r = u) (t_orders d))
      | Some p \<Rightarrow> filter (before_pos p) (newest_first (filter (\<lambda>r. o_UserID r = u) (t_orders d)))))"
  by (simp add: q_ListOrders_def q_ListOrdersAfter_def newest_first_def filter_sort conj_commute split: option.split)

lemma GetUser_found: "(\<exists>x. GetUser None u d = Inr x) \<longleftrightarrow> list_ex (\<lambda>x. u_ID x = u) (t_users d)"
  "GetUser None u d = Inl e \<Longrightarrow> e = ErrUserNotFound"
  by (auto simp: GetUser_def q_GetUser_def find_None_iff find_Some_iff list_ex_iff split: option.splits)

interpretation pg: order_store "Store_ops newID now" user_orders db_wf for newID now
proof
  fix d :: db and u c lim os r
  show "os_ListOrders (Store_ops newID now) u c lim d = Inl ErrUserNotFound" if "user_orders d u = None"
  proof -
    have "\<not> (\<exists>x. GetUser None u d = Inr x)" using that GetUser_found(1)[of u d] by (simp add: user_orders_def split: if_splits)
    then obtain e where "GetUser None u d = Inl e" by (cases "GetUser None u d") auto
    then show ?thesis using GetUser_found(2) by (simp add: Store_ops_def ListOrders_def)
  qed
  show "os_ListOrders (Store_ops newID now) u c lim d =
      (let rest = (case c of None \<Rightarrow> os | Some p \<Rightarrow> filter (before_pos p) os); l = page_size lim
       in Inr \<lparr>Orders = take l rest, Next = (if l < length rest then Some (pos (rest ! (l - 1))) else None)\<rparr>)" if o: "user_orders d u = Some os"
  proof -
    define full where "full = (case c of None \<Rightarrow> newest_first (filter (\<lambda>r. o_UserID r = u) (t_orders d))
      | Some p \<Rightarrow> filter (before_pos p) (newest_first (filter (\<lambda>r. o_UserID r = u) (t_orders d))))"
    define L where "L = min (if lim \<le> 0 then DefaultPageSize else lim) MaxPageSize"
    have os: "os = map orderFromRow (newest_first (filter (\<lambda>r. o_UserID r = u) (t_orders d)))"
      and ex: "list_ex (\<lambda>x. u_ID x = u) (t_users d)" using o by (simp_all add: user_orders_def split: if_splits)
    obtain x where g: "GetUser None u d = Inr x" using ex GetUser_found(1) by blast
    have l: "0 < L" "page_size lim = nat L" by (simp_all add: L_def page_size_def DefaultPageSize_def MaxPageSize_def)
    have rest: "(case c of None \<Rightarrow> os | Some p \<Rightarrow> filter (before_pos p) os) = map orderFromRow full"
      by (simp add: os full_def filter_map comp_def split: option.split)
    obtain m where m: "L = int m" "0 < m" using l(1) zero_less_imp_eq_int by blast
    have "nat (L + 1) = Suc m" "nat L = m" using m by simp_all
    then have rows: "L < int (length (take (nat (L + 1)) full)) \<longleftrightarrow> nat L < length full" "take (nat L) (take (nat (L + 1)) full) = take (nat L) full"
      using m by (auto simp: min_def)
    have last: "last (take (nat L) full) = full ! (nat L - 1)" if "nat L < length full"
      using that l(1) by (subst last_conv_nth) auto
    have short: "take (nat (L + 1)) full = take (nat L) full" if "\<not> nat L < length full" using that l(1) by simp
    show ?thesis
      unfolding rest Let_def l(2) using l(1)
      by (auto simp: Store_ops_def ListOrders_def g Let_def list_query full_def[symmetric] L_def[symmetric] rows last pos_def take_map short)
  qed
  show "sorted_wrt (\<lambda>a b. before_pos (pos a) b) os" if "db_wf d" "user_orders d u = Some os"
  proof -
    have "distinct (map o_ID (filter (\<lambda>r. o_UserID r = u) (t_orders d)))" using that(1) by (simp add: db_wf_def distinct_map_filter)
    from newest_first_sorted[OF this] show ?thesis using that(2) by (auto simp: user_orders_def sorted_wrt_map split: if_splits)
  qed
  show "cursor_ok (pos r)" if "db_wf d" "user_orders d u = Some os" "r \<in> set os"
    using that by (auto simp: db_wf_def user_orders_def newest_first_def split: if_splits)
qed

section \<open>Properties\<close>

text \<open>(C6) A client that follows the cursors sees every order of a user exactly once and newest first, whatever page size it asks for:
  each page is answered with 200, the tokens decode to the positions they encode, and the listing ends after at
  most one request more than there are orders.\<close>

theorem pagination_lists_every_order:
  assumes "db_wf d" and "list_ex (\<lambda>x. u_ID x = u) (t_users d)" and "pathID i = Some u"
    and "limit = [] \<or> limit \<noteq> [] \<and> (\<exists>lim. atoi limit = Some lim \<and> 0 < lim)" and "length (t_orders d) < fuel"
  shows "\<exists>os. follow (Store_ops newID now) i limit d fuel [] = Some os
    \<and> sorted_wrt (\<lambda>a b. before_pos (pos a) b) os
    \<and> mset os = mset (map orderFromRow (filter (\<lambda>r. o_UserID r = u) (t_orders d)))"
proof -
  let ?rows = "filter (\<lambda>r. o_UserID r = u) (t_orders d)"
  have o: "user_orders d u = Some (map orderFromRow (newest_first ?rows))" using assms(2) by (simp add: user_orders_def)
  have "length (map orderFromRow (newest_first ?rows)) < fuel"
    using assms(5) le_less_trans[OF length_filter_le[of "\<lambda>r. o_UserID r = u" "t_orders d"]] by (simp add: newest_first_def)
  from pg.follow_all[OF assms(1) o assms(3,4) this] pg.newest[OF assms(1) o]
  show ?thesis by (intro exI[of _ "map orderFromRow (newest_first ?rows)"]) (simp add: newest_first_def)
qed

definition demo_db :: db where
  "demo_db = \<lparr>t_users = [\<lparr>u_ID = 3, u_Email = ''a@b'', u_Name = ''A'', u_CreatedAt = 0\<rparr>],
     t_orders = map (\<lambda>(n, t). \<lparr>o_ID = n, o_UserID = 3, TotalCents = 5, o_CreatedAt = t, o_Items = []\<rparr>) [(1, 2000), (2, 9000), (4, 2000)],
     t_items = []\<rparr>"

theorem pagination_lists_every_order_witness:
  "\<exists>os. follow (Store_ops 9 9) ''3'' ''1'' demo_db 4 [] = Some os \<and> length os = 3 \<and> sorted_wrt (\<lambda>a b. before_pos (pos a) b) os"
proof -
  have "db_wf demo_db" by (simp add: db_wf_def demo_db_def cursor_ok_def pos_def UnixMicro_def minCursorMicros_def in64_iff)
  moreover have "list_ex (\<lambda>x. u_ID x = 3) (t_users demo_db)" by (simp add: demo_db_def)
  moreover have "atoi ''3'' = Some 3" "atoi ''1'' = Some 1"
    by (simp_all add: atoi_def is_digit_def digits_value_def in64_iff)
  ultimately obtain os where os: "follow (Store_ops 9 9) ''3'' ''1'' demo_db 4 [] = Some os" "sorted_wrt (\<lambda>a b. before_pos (pos a) b) os"
    "mset os = mset (map orderFromRow (filter (\<lambda>r. o_UserID r = 3) (t_orders demo_db)))"
    using pagination_lists_every_order[of demo_db 3 "''3''" "''1''" 4 9 9] by (auto simp: pathID_def demo_db_def)
  have "length os = 3" using arg_cong[OF os(3), of size] by (simp add: demo_db_def)
  then show ?thesis using os by blast
qed

text \<open>The row and the database in the middle of the transaction.\<close>

definition new_row :: "int \<Rightarrow> int \<Rightarrow> int \<Rightarrow> gotime \<Rightarrow> Order" where
  "new_row i u tot t = \<lparr>o_ID = i, o_UserID = u, TotalCents = tot, o_CreatedAt = t, o_Items = []\<rparr>"

definition with_order :: "int \<Rightarrow> gotime \<Rightarrow> int \<Rightarrow> Item list \<Rightarrow> int \<Rightarrow> db \<Rightarrow> db" where
  "with_order i t u items tot d = d\<lparr>t_orders := t_orders d @ [new_row i u tot t], t_items := t_items d @ map (Pair i) items\<rparr>"

definition order_total :: "Item list \<Rightarrow> int" where
  "order_total items = (\<Sum>it\<leftarrow>items. Quantity it * UnitPriceCents it)"

lemma UpdateOrderTotal_new:
  assumes "\<forall>r\<in>set (t_orders d). o_ID r \<noteq> i" and "\<forall>p\<in>set (t_items d). fst p \<noteq> i"
  shows "q_UpdateOrderTotal None i (with_order i t u items 0 d) =
    (if \<not> list_all (\<lambda>it. in64 (Quantity it * UnitPriceCents it)) items \<or> \<not> in64 (order_total items) then Inl NumericValueOutOfRange
     else if order_total items < 0 then Inl CheckViolation
     else Inr (new_row i u (order_total items) t, with_order i t u items (order_total items) d))"
proof -
  have fi: "filter (\<lambda>(j, it). j = i) (t_items (with_order i t u items 0 d)) = map (Pair i) items"
    using assms(2) by (auto simp: with_order_def filter_empty_conv)
  have fo: "find (\<lambda>r. o_ID r = i) (t_orders (with_order i t u items 0 d)) = Some (new_row i u 0 t)"
  proof -
    have "find (\<lambda>r. o_ID r = i) (rs @ [x]) = Some x" if "\<forall>r\<in>set rs. o_ID r \<noteq> i" "o_ID x = i" for rs and x :: Order
      using that by (induction rs) auto
    then show ?thesis using assms(1) by (simp add: with_order_def new_row_def)
  qed
  have mo: "map (\<lambda>r. if o_ID r = i then r\<lparr>TotalCents := x\<rparr> else r) (t_orders d) = t_orders d" for x
    using assms(1) by (intro map_idI) auto
  have pr: "map (\<lambda>(j, it). Quantity it * UnitPriceCents it) (map (Pair i) items) = map (\<lambda>it. Quantity it * UnitPriceCents it) items" by simp
  show ?thesis
    unfolding q_UpdateOrderTotal_def fi fo pr Let_def order_total_def[symmetric]
    by (simp add: with_order_def new_row_def mo list.pred_map comp_def)
qed

lemma createOrderTx_new:
  assumes "faults 1 = None" and "faults 2 = None" and "q_GetUser (faults 0) userID d = Inr x"
  shows "createOrderTx faults newID now userID items d =
      (if \<not> list_all item_checks items then Inl (TxPg CheckViolation)
       else case q_UpdateOrderTotal (faults 3) newID (with_order newID now userID items 0 d) of
              Inl e \<Rightarrow> Inl (TxPg e)
            | Inr (row2, d3) \<Rightarrow> Inr ((orderFromRow row2)\<lparr>o_Items := items\<rparr>, d3))"
  using assms by (simp add: createOrderTx_def q_CreateOrder_def q_InsertOrderItems_def Let_def with_order_def new_row_def list.pred_map comp_def)

lemma createOrderTx_fault:
  "faults 1 \<noteq> None \<or> faults 2 \<noteq> None \<Longrightarrow> \<exists>e. createOrderTx faults newID now userID items d = Inl e"
  by (auto simp: createOrderTx_def q_CreateOrder_def q_InsertOrderItems_def Let_def split: sum.split)

lemma createOrderTx_cases:
  assumes "\<forall>r\<in>set (t_orders d). o_ID r \<noteq> newID" and "\<forall>p\<in>set (t_items d). fst p \<noteq> newID"
  shows "(\<exists>e. createOrderTx faults newID now userID items d = Inl e
      \<and> ((\<exists>k. faults k \<noteq> None) \<or> \<not> list_ex (\<lambda>x. u_ID x = userID) (t_users d) \<or> \<not> list_all item_checks items
          \<or> \<not> list_all (\<lambda>it. in64 (Quantity it * UnitPriceCents it)) items \<or> \<not> in64 (order_total items)))
    \<or> createOrderTx faults newID now userID items d =
      Inr ((new_row newID userID (order_total items) now)\<lparr>o_Items := items\<rparr>, with_order newID now userID items (order_total items) d)"
proof (cases "faults 0 = None \<and> faults 1 = None \<and> faults 2 = None")
  case False
  have "\<exists>e. createOrderTx faults newID now userID items d = Inl e"
  proof (cases "faults 0")
    case None
    with False show ?thesis using createOrderTx_fault by metis
  qed (simp add: createOrderTx_def q_GetUser_def)
  then show ?thesis using False by blast
next
  case True
  then have f: "faults 0 = None" "faults 1 = None" "faults 2 = None" by auto
  have nn: "list_all item_checks items \<Longrightarrow> \<not> order_total items < 0"
    unfolding order_total_def not_less by (intro sum_list_nonneg) (auto simp: list_all_iff item_checks_def)
  show ?thesis
  proof (cases "q_GetUser None userID d")
    case (Inl e)
    then have "\<not> list_ex (\<lambda>x. u_ID x = userID) (t_users d)"
      by (auto simp: q_GetUser_def find_None_iff list_ex_iff split: option.splits)
    then show ?thesis using Inl f(1) by (simp add: createOrderTx_def)
  next
    case (Inr x)
    then have g: "q_GetUser (faults 0) userID d = Inr x" using f(1) by simp
    show ?thesis
    proof (cases "faults 3")
      case None
      show ?thesis unfolding createOrderTx_new[where faults = faults, OF f(2,3) g] None UpdateOrderTotal_new[OF assms]
        using nn by (simp add: orderFromRow_def new_row_def)
    next
      case (Some e)
      then have "\<exists>e. createOrderTx faults newID now userID items d = Inl e"
        unfolding createOrderTx_new[where faults = faults, OF f(2,3) g] by (simp add: q_UpdateOrderTotal_def)
      then show ?thesis using Some by blast
    qed
  qed
qed

text \<open>(C14) Placing an order is atomic: with any error, wherever it comes from, the database is as before; otherwise the order has the
  given items and the exact total of their prices, and the order and its items are all that was added. It
  succeeds if nothing fails, the user exists, the items satisfy the constraints and the amounts fit in 64
  bits.\<close>

theorem create_order_atomic:
  assumes "\<forall>r\<in>set (t_orders d). o_ID r \<noteq> newID" and "\<forall>p\<in>set (t_items d). fst p \<noteq> newID"
    and "CreateOrder faults newID now userID items d = (res, d')"
  shows "case res of
     Inl e \<Rightarrow> d' = d
       \<and> (items = [] \<or> (\<exists>k. faults k \<noteq> None) \<or> \<not> list_ex (\<lambda>x. u_ID x = userID) (t_users d) \<or> \<not> list_all item_checks items
          \<or> \<not> list_all (\<lambda>it. in64 (Quantity it * UnitPriceCents it)) items \<or> \<not> in64 (order_total items))
   | Inr order \<Rightarrow>
       order = \<lparr>o_ID = newID, o_UserID = userID, TotalCents = order_total items, o_CreatedAt = now, o_Items = items\<rparr>
       \<and> d' = d\<lparr>t_orders := t_orders d @ [order\<lparr>o_Items := []\<rparr>], t_items := t_items d @ map (Pair newID) items\<rparr>"
  using createOrderTx_cases[OF assms(1,2), of faults now userID items] assms(3)
  by (auto simp: CreateOrder_def with_order_def new_row_def split: if_splits option.splits tx_error.splits)

theorem create_order_atomic_witness:
  "\<exists>order d'. CreateOrder (\<lambda>_. None) 7 100 3 [\<lparr>SKU = ''x'', Quantity = 2, UnitPriceCents = 150\<rparr>] demo_db = (Inr order, d')
     \<and> TotalCents order = 300 \<and> length (t_orders d') = 4"
proof -
  let ?its = "[\<lparr>SKU = ''x'', Quantity = 2, UnitPriceCents = 150\<rparr>] :: Item list"
  obtain res d' where c: "CreateOrder (\<lambda>_. None) 7 100 3 ?its demo_db = (res, d')" by force
  have "\<forall>r\<in>set (t_orders demo_db). o_ID r \<noteq> 7" "\<forall>p\<in>set (t_items demo_db). fst p \<noteq> 7" by (simp_all add: demo_db_def)
  from create_order_atomic[OF this c] show ?thesis
    using c by (cases res) (auto simp: demo_db_def item_checks_def order_total_def in64_iff)
qed

end
