(* ===== verification/Service_Run.thy ===== *)
theory Service_Run
  imports Go_Prelude
begin

text \<open>
  What the \<^verbatim>\<open>main\<close> packages of the services share: reading the environment, joined errors, and the resources a \<^verbatim>\<open>run\<close>
  function opens and closes.

  A \<^verbatim>\<open>run\<close> is a function to its error and a trace: what it opened, used and closed, in order. A \<^verbatim>\<open>defer\<close> right
  after a successful opening is \<open>deferred\<close>; \<open>steps\<close> replays a trace on the set of open resources, and \<open>keeps\<close> says that a
  trace uses and closes only what is open and leaves open what it found open. The failures of libraries are texts (\<open>gerr\<close>).
\<close>

section \<open>Errors\<close>

text \<open>The text of an error that comes from a library; an \<^verbatim>\<open>errors.Join\<close> is the list of its errors, nil the empty list.\<close>

type_synonym gerr = string

definition Join :: "'e option list \<Rightarrow> 'e list" where
  "Join es = List.map_filter (\<lambda>e. e) es"

lemma Join_simps [simp]:
  "Join [] = []" "Join (None # es) = Join es" "Join (Some e # es) = e # Join es"
  by (simp_all add: Join_def List.map_filter_simps)

lemma Join_Nil_iff: "Join es = [] \<longleftrightarrow> list_all (\<lambda>e. e = None) es"
proof (induction es)
  case (Cons e es)
  then show ?case by (cases e) simp_all
qed simp

lemma check_None: "((if P then Some x else None) = None) = (\<not> P)"
  by simp

text \<open>How a \<^verbatim>\<open>run\<close> ends: with a panic, which runs its deferred calls; with the panic of another goroutine, which ends
  the process at once; or returning an error or nil.\<close>

datatype 'e outcome = Panic | Crashed | Returned "'e option"

text \<open>Registering collectors in order, up to the first error.\<close>

fun registerAll :: "(nat \<Rightarrow> gerr option) \<Rightarrow> nat \<Rightarrow> nat \<Rightarrow> gerr option" where
  "registerAll reg i 0 = None"
| "registerAll reg i (Suc n) = (case reg i of Some e \<Rightarrow> Some e | None \<Rightarrow> registerAll reg (Suc i) n)"

section \<open>Environment\<close>

text \<open>The loop over the parameters of the configuration struct: a variable that is unset or empty is left out, so that
  it takes its default.\<close>

fun environ :: "(string \<Rightarrow> string) \<Rightarrow> string list \<Rightarrow> (string \<times> string) list" where
  "environ getenv [] = []"
| "environ getenv (p # ps) =
     (let v = getenv p in if v \<noteq> [] then (p, v) # environ getenv ps else environ getenv ps)"

lemma environ_lookup:
  "map_of (environ getenv ps) k = (if k \<in> set ps \<and> getenv k \<noteq> [] then Some (getenv k) else None)"
  by (induction ps) (auto simp: Let_def)

text \<open>The two calls into \<^verbatim>\<open>caarlos0/env\<close>: the keys of the struct's fields, and parsing into it.\<close>

record 'c env_lib =
  GetFieldParams :: "gerr + string list"
  ParseEnv :: "(string \<times> string) list \<Rightarrow> gerr + 'c"

datatype 'e config_error = InspectConfig gerr | ParseConfig gerr | InvalidConfig 'e

text \<open>Reading a configuration is these two calls and a check of the values.\<close>

definition load :: "'c env_lib \<Rightarrow> ('c \<Rightarrow> 'e option) \<Rightarrow> (string \<Rightarrow> string) \<Rightarrow> 'e config_error + 'c" where
  "load lib check getenv =
     (case GetFieldParams lib of
        Inl e \<Rightarrow> Inl (InspectConfig e)
      | Inr params \<Rightarrow>
          (case ParseEnv lib (environ getenv params) of
             Inl e \<Rightarrow> Inl (ParseConfig e)
           | Inr cfg \<Rightarrow> (case check cfg of Some e \<Rightarrow> Inl (InvalidConfig e) | None \<Rightarrow> Inr cfg)))"

lemma load_Inr: "load lib check getenv = Inr cfg \<Longrightarrow> check cfg = None"
  by (auto simp: load_def split: sum.splits option.splits)

section \<open>Resources\<close>

datatype 'r action = Opened 'r | Used 'r | Closed 'r

fun step :: "'r action \<Rightarrow> 'r set \<Rightarrow> 'r set option" where
  "step (Opened r) st = (if r \<in> st then None else Some (insert r st))"
| "step (Used r) st = (if r \<in> st then Some st else None)"
| "step (Closed r) st = (if r \<in> st then Some (st - {r}) else None)"

fun steps :: "'r action list \<Rightarrow> 'r set \<Rightarrow> 'r set option" where
  "steps [] st = Some st"
| "steps (a # as) st = (case step a st of None \<Rightarrow> None | Some st' \<Rightarrow> steps as st')"

definition keeps :: "'r set \<Rightarrow> 'r action list \<Rightarrow> bool" where
  "keeps st tr \<longleftrightarrow> steps tr st = Some st"

text \<open>The rest of a function after a successful opening and its \<^verbatim>\<open>defer\<close>; \<open>tr\<close> are the actions of the opening.\<close>

definition deferred :: "'r action list \<Rightarrow> 'r \<Rightarrow> 'a \<times> 'r action list \<Rightarrow> 'a \<times> 'r action list" where
  "deferred tr r rest = (fst rest, tr @ snd rest @ [Closed r])"

definition after :: "'r action list \<Rightarrow> 'a \<times> 'r action list \<Rightarrow> 'a \<times> 'r action list" where
  "after tr rest = (fst rest, tr @ snd rest)"

lemma steps_append: "steps (xs @ ys) st = (case steps xs st of None \<Rightarrow> None | Some st' \<Rightarrow> steps ys st')"
  by (induction xs arbitrary: st) (auto split: option.splits)

named_theorems resource_intros \<open>composition of traces that keep the open resources\<close>

lemma keeps_Nil [resource_intros]: "keeps st []"
  by (simp add: keeps_def)

lemma keeps_append [resource_intros]: "keeps st xs \<Longrightarrow> keeps st ys \<Longrightarrow> keeps st (xs @ ys)"
  by (simp add: keeps_def steps_append)

lemma keeps_Used [resource_intros]: "r \<in> st \<Longrightarrow> keeps st tr \<Longrightarrow> keeps st (Used r # tr)"
  by (simp add: keeps_def)

lemma keeps_uses [resource_intros]: "r \<in> st \<Longrightarrow> keeps st (replicate n (Used r))"
  by (induction n) (simp_all add: keeps_def)

lemma keeps_deferred [resource_intros]:
  "steps tr st = Some (insert r st) \<Longrightarrow> r \<notin> st \<Longrightarrow> keeps (insert r st) (snd rest) \<Longrightarrow> keeps st (snd (deferred tr r rest))"
  by (simp add: keeps_def deferred_def steps_append)

lemma keeps_after [resource_intros]: "keeps st tr \<Longrightarrow> keeps st (snd rest) \<Longrightarrow> keeps st (snd (after tr rest))"
  by (simp add: after_def keeps_append)

lemma keeps_pair [resource_intros]: "keeps st tr \<Longrightarrow> keeps st (snd (e, tr))"
  by simp

lemma fst_deferred [simp]: "fst (deferred tr r rest) = fst rest"
  by (simp add: deferred_def)

lemma fst_after [simp]: "fst (after tr rest) = fst rest"
  by (simp add: after_def)

text \<open>In a trace that replays, what is used has been opened before and not closed since.\<close>

lemma steps_Used:
  "steps tr st = Some st' \<Longrightarrow> tr = xs @ Used r # ys \<Longrightarrow>
    r \<in> st \<and> Closed r \<notin> set xs \<or> (\<exists>us vs. xs = us @ Opened r # vs \<and> Closed r \<notin> set vs)"
proof (induction xs arbitrary: tr st)
  case Nil
  then show ?case by (auto split: if_splits)
next
  case (Cons a xs)
  obtain st1 where s: "step a st = Some st1" "steps (xs @ Used r # ys) st1 = Some st'"
    using Cons.prems by (auto split: option.splits)
  from Cons.IH[OF s(2) refl] show ?case
  proof
    assume r: "r \<in> st1 \<and> Closed r \<notin> set xs"
    show ?thesis
    proof (cases "a = Opened r")
      case True
      then show ?thesis using r by (intro disjI2 exI[of _ "[]"] exI[of _ xs]) simp
    next
      case False
      then have "r \<in> st \<and> a \<noteq> Closed r" using s(1) r by (cases a) (auto split: if_splits)
      then show ?thesis using r by auto
    qed
  next
    assume "\<exists>us vs. xs = us @ Opened r # vs \<and> Closed r \<notin> set vs"
    then obtain us vs where "xs = us @ Opened r # vs" "Closed r \<notin> set vs" by blast
    then show ?thesis by (intro disjI2 exI[of _ "a # us"] exI[of _ vs]) simp
  qed
qed

text \<open>A trace from nothing to nothing closes every resource as often as it opens it.\<close>

lemma steps_balanced:
  "steps tr st = Some st' \<Longrightarrow>
    int (count_list tr (Opened r)) + of_bool (r \<in> st) = int (count_list tr (Closed r)) + of_bool (r \<in> st')"
proof (induction tr arbitrary: st)
  case (Cons a tr)
  obtain st1 where s: "step a st = Some st1" "steps tr st1 = Some st'"
    using Cons.prems by (auto split: option.splits)
  show ?case using Cons.IH[OF s(2)] s(1) by (cases a) (auto split: if_splits)
qed simp

section \<open>Schema migrations\<close>

text \<open>The answers of goose and of \<^verbatim>\<open>database/sql\<close> to one migration, in the order of the calls.\<close>

record goose_io =
  gs_Sub :: "gerr option"
  gs_Locker :: "gerr option"
  gs_Provider :: "gerr option"
  gs_Up :: "gerr + int list"
  gs_Version :: "gerr + int"
  gs_CloseDB :: "gerr option"

datatype migrate_error =
    OpenMigrations gerr | CreateLocker gerr | CreateProvider gerr | ApplyMigrations gerr | ReadVersion gerr | CloseDB gerr

end
