(* ===== verification/Http_Server.thy ===== *)
theory Http_Server
  imports Service_Run
begin

text \<open>
  What the services use of \<^verbatim>\<open>http.Server\<close>: requests are accepted, handled and answered concurrently, and \<^verbatim>\<open>Shutdown\<close> returns nil
  only when no connection has an unanswered request.

  A handler works on a state behind one mutex, so handling a request is one step; its response is sent in another. A
  middleware may answer before the handler has run (\<open>early\<close>). Requests are numbered as they arrive.
\<close>

record ('q, 's, 'p) server =
  hs_state :: 's
  hs_reqs :: "'q list"
  hs_ran :: "(nat \<times> 'p) list"
  hs_sent :: "(nat \<times> 'p) list"

datatype 'q server_event = Accept 'q | Handle nat | Reply nat

definition start :: "'s \<Rightarrow> ('q, 's, 'p) server" where
  "start s = \<lparr>hs_state = s, hs_reqs = [], hs_ran = [], hs_sent = []\<rparr>"

fun server_step :: "('q \<Rightarrow> 's \<Rightarrow> 'p \<times> 's) \<Rightarrow> ('q \<Rightarrow> 'p option) \<Rightarrow> 'q server_event \<Rightarrow> ('q, 's, 'p) server \<Rightarrow> ('q, 's, 'p) server option" where
  "server_step h early (Accept q) s = Some (s\<lparr>hs_reqs := hs_reqs s @ [q]\<rparr>)"
| "server_step h early (Handle n) s =
     (if length (hs_reqs s) \<le> n \<or> n \<in> fst ` set (hs_ran s) then None
      else let r = h (hs_reqs s ! n) (hs_state s)
           in Some (s\<lparr>hs_state := snd r, hs_ran := hs_ran s @ [(n, fst r)]\<rparr>))"
| "server_step h early (Reply n) s =
     (if length (hs_reqs s) \<le> n \<or> n \<in> fst ` set (hs_sent s) then None
      else case map_of (hs_ran s) n of
        Some p \<Rightarrow> Some (s\<lparr>hs_sent := hs_sent s @ [(n, p)]\<rparr>)
      | None \<Rightarrow> (case early (hs_reqs s ! n) of Some p \<Rightarrow> Some (s\<lparr>hs_sent := hs_sent s @ [(n, p)]\<rparr>) | None \<Rightarrow> None))"

fun server_run :: "('q \<Rightarrow> 's \<Rightarrow> 'p \<times> 's) \<Rightarrow> ('q \<Rightarrow> 'p option) \<Rightarrow> 'q server_event list \<Rightarrow> ('q, 's, 'p) server \<Rightarrow> ('q, 's, 'p) server option" where
  "server_run h early [] s = Some s"
| "server_run h early (e # es) s = (case server_step h early e s of None \<Rightarrow> None | Some s' \<Rightarrow> server_run h early es s')"

text \<open>Every request has been answered, as \<^verbatim>\<open>Shutdown\<close> waits for.\<close>

definition quiet_server :: "('q, 's, 'p) server \<Rightarrow> bool" where
  "quiet_server s \<longleftrightarrow> list_all (\<lambda>n. n \<in> fst ` set (hs_sent s)) [0..<length (hs_reqs s)]"

section \<open>Concurrent handling is sequential handling in some order\<close>

fun handle_all :: "('q \<Rightarrow> 's \<Rightarrow> 'p \<times> 's) \<Rightarrow> 'q list \<Rightarrow> 's \<Rightarrow> 's" where
  "handle_all h [] s = s"
| "handle_all h (q # qs) s = handle_all h qs (snd (h q s))"

lemma handle_all_append: "handle_all h (xs @ ys) s = handle_all h ys (handle_all h xs s)"
  by (induction xs arbitrary: s) simp_all

text \<open>The requests handled before the \<open>i\<close>-th.\<close>

definition handled_before :: "('q, 's, 'p) server \<Rightarrow> nat \<Rightarrow> 'q list" where
  "handled_before s i = map (\<lambda>(n, _). hs_reqs s ! n) (take i (hs_ran s))"

definition linear :: "('q \<Rightarrow> 's \<Rightarrow> 'p \<times> 's) \<Rightarrow> ('q \<Rightarrow> 'p option) \<Rightarrow> 's \<Rightarrow> ('q, 's, 'p) server \<Rightarrow> bool" where
  "linear h early s0 s \<longleftrightarrow>
     distinct (map fst (hs_ran s)) \<and> distinct (map fst (hs_sent s))
     \<and> (\<forall>(n, _)\<in>set (hs_ran s) \<union> set (hs_sent s). n < length (hs_reqs s))
     \<and> hs_state s = handle_all h (handled_before s (length (hs_ran s))) s0
     \<and> (\<forall>i<length (hs_ran s). snd (hs_ran s ! i) = fst (h (hs_reqs s ! fst (hs_ran s ! i)) (handle_all h (handled_before s i) s0)))
     \<and> (\<forall>(n, p)\<in>set (hs_sent s). (n, p) \<in> set (hs_ran s) \<or> early (hs_reqs s ! n) = Some p)"

lemma linear_start: "linear h early s0 (start s0)"
  by (simp add: linear_def start_def handled_before_def)

lemma handled_before_accept:
  assumes "\<forall>n\<in>fst ` set (hs_ran s). n < length (hs_reqs s)"
  shows "handled_before (s\<lparr>hs_reqs := hs_reqs s @ [q]\<rparr>) i = handled_before s i"
  using assms by (auto simp: handled_before_def nth_append dest!: in_set_takeD)

lemma handled_before_ran:
  assumes "n < length (hs_reqs s)"
  shows "i \<le> length (hs_ran s) \<Longrightarrow> handled_before (s\<lparr>hs_state := t, hs_ran := hs_ran s @ [(n, p)]\<rparr>) i = handled_before s i"
    and "handled_before (s\<lparr>hs_state := t, hs_ran := hs_ran s @ [(n, p)]\<rparr>) (Suc (length (hs_ran s))) =
      handled_before s (length (hs_ran s)) @ [hs_reqs s ! n]"
  by (simp_all add: handled_before_def)

lemma linearD:
  assumes "linear h early s0 s"
  shows "distinct (map fst (hs_ran s))" and "distinct (map fst (hs_sent s))"
    and "(n, p) \<in> set (hs_ran s) \<Longrightarrow> n < length (hs_reqs s)" and "(n, p) \<in> set (hs_sent s) \<Longrightarrow> n < length (hs_reqs s)"
    and "hs_state s = handle_all h (handled_before s (length (hs_ran s))) s0"
    and "i < length (hs_ran s) \<Longrightarrow> snd (hs_ran s ! i) = fst (h (hs_reqs s ! fst (hs_ran s ! i)) (handle_all h (handled_before s i) s0))"
    and "(n, p) \<in> set (hs_sent s) \<Longrightarrow> (n, p) \<in> set (hs_ran s) \<or> early (hs_reqs s ! n) = Some p"
  using assms by (auto simp: linear_def)

lemma linearI:
  assumes "distinct (map fst (hs_ran s))" and "distinct (map fst (hs_sent s))"
    and "\<And>n p. (n, p) \<in> set (hs_ran s) \<Longrightarrow> n < length (hs_reqs s)" and "\<And>n p. (n, p) \<in> set (hs_sent s) \<Longrightarrow> n < length (hs_reqs s)"
    and "hs_state s = handle_all h (handled_before s (length (hs_ran s))) s0"
    and "\<And>i. i < length (hs_ran s) \<Longrightarrow> snd (hs_ran s ! i) = fst (h (hs_reqs s ! fst (hs_ran s ! i)) (handle_all h (handled_before s i) s0))"
    and "\<And>n p. (n, p) \<in> set (hs_sent s) \<Longrightarrow> (n, p) \<in> set (hs_ran s) \<or> early (hs_reqs s ! n) = Some p"
  shows "linear h early s0 s"
  unfolding linear_def using assms by fast

lemma linear_accept:
  assumes l: "linear h early s0 s"
  shows "linear h early s0 (s\<lparr>hs_reqs := hs_reqs s @ [q]\<rparr>)"
proof -
  note d = linearD[OF l]
  have b: "\<forall>n\<in>fst ` set (hs_ran s). n < length (hs_reqs s)" using d(3) by auto
  have n: "(hs_reqs s @ [q]) ! n = hs_reqs s ! n" if "n < length (hs_reqs s)" for n using that by (simp add: nth_append)
  have m: "fst (hs_ran s ! i) < length (hs_reqs s)" if "i < length (hs_ran s)" for i
    using d(3)[of "fst (hs_ran s ! i)" "snd (hs_ran s ! i)"] that by simp
  show ?thesis
    by (rule linearI; simp add: handled_before_accept[OF b] d(1,2,5,6) n m) (use d(3,4,7) n less_SucI in metis)+
qed

lemma linear_handle:
  assumes l: "linear h early s0 s" and n: "n < length (hs_reqs s)" "n \<notin> fst ` set (hs_ran s)"
  shows "linear h early s0 (s\<lparr>hs_state := snd (h (hs_reqs s ! n) (hs_state s)), hs_ran := hs_ran s @ [(n, fst (h (hs_reqs s ! n) (hs_state s)))]\<rparr>)"
    (is "linear _ _ _ ?s")
proof -
  note d = linearD[OF l]
  have snd: "snd (hs_ran ?s ! i) = fst (h (hs_reqs ?s ! fst (hs_ran ?s ! i)) (handle_all h (handled_before ?s i) s0))"
    if "i < length (hs_ran ?s)" for i
  proof (cases "i < length (hs_ran s)")
    case True
    then show ?thesis using d(6)[OF True] by (simp add: handled_before_ran(1)[OF n(1)] nth_append)
  next
    case False
    then have "i = length (hs_ran s)" using that by simp
    then show ?thesis using d(5) by (simp add: handled_before_ran(1)[OF n(1)] nth_append)
  qed
  have st: "hs_state ?s = handle_all h (handled_before ?s (length (hs_ran ?s))) s0"
    using d(5) by (simp add: handled_before_ran(2)[OF n(1)] handle_all_append)
  show ?thesis by (rule linearI[OF _ _ _ _ st snd]) (use n d(1,2,3,4,7) in auto)
qed

lemma server_step_linear:
  assumes l: "linear h early s0 s" and st: "server_step h early e s = Some s'"
  shows "linear h early s0 s'"
proof (cases e)
  case (Accept q)
  then show ?thesis using st linear_accept[OF l, of q] by simp
next
  case (Handle n)
  then show ?thesis using st linear_handle[OF l, of n] by (auto simp: Let_def split: if_splits)
next
  case (Reply n)
  note d = linearD[OF l]
  have n: "n < length (hs_reqs s)" "n \<notin> fst ` set (hs_sent s)" using st Reply by (auto split: if_splits)
  obtain p where s': "s' = s\<lparr>hs_sent := hs_sent s @ [(n, p)]\<rparr>" and p: "(n, p) \<in> set (hs_ran s) \<or> early (hs_reqs s ! n) = Some p"
    using st Reply by (auto split: if_splits option.splits dest: map_of_SomeD)
  have b: "handled_before (s\<lparr>hs_sent := hs_sent s @ [(n, p)]\<rparr>) i = handled_before s i" for i by (simp add: handled_before_def)
  have r: "(m, x) \<in> set (hs_ran s) \<or> early (hs_reqs s ! m) = Some x" if "(m, x) \<in> set (hs_sent s @ [(n, p)])" for m x
    using d(7)[of m x] p that by auto
  show ?thesis unfolding s' by (rule linearI) (use n d(1-6) r in \<open>auto simp: b\<close>)
qed

lemma server_run_linear: "linear h early s0 s \<Longrightarrow> server_run h early es s = Some s' \<Longrightarrow> linear h early s0 s'"
  by (induction es arbitrary: s) (auto dest: server_step_linear split: option.splits)

text \<open>What the \<open>i\<close>-th handler did, and invariants of the state.\<close>

lemma linear_at:
  assumes l: "linear h early s0 s" and i: "i < length (hs_ran s)" "hs_ran s ! i = (n, p)"
  shows "h (hs_reqs s ! n) (handle_all h (handled_before s i) s0) = (p, handle_all h (handled_before s (Suc i)) s0)"
proof -
  have "handled_before s (Suc i) = handled_before s i @ [hs_reqs s ! n]"
    using i by (simp add: handled_before_def take_Suc_conv_app_nth)
  then show ?thesis using linearD(6)[OF l i(1)] i(2) by (simp add: handle_all_append prod_eq_iff)
qed

lemma handle_all_keeps: "(\<And>q t. P t \<Longrightarrow> P (snd (h q t))) \<Longrightarrow> P t \<Longrightarrow> P (handle_all h qs t)"
  by (induction qs arbitrary: t) simp_all

section \<open>Real time\<close>

text \<open>Requests are numbered as they arrive, so the request that arrives after the events \<open>xs\<close> has the number \<open>arrivals xs\<close>.
  \<open>answered_first es n m\<close>: the reply to request \<open>n\<close> was sent before request \<open>m\<close> arrived.\<close>

fun arrivals :: "'q server_event list \<Rightarrow> nat" where
  "arrivals [] = 0"
| "arrivals (Accept q # es) = Suc (arrivals es)"
| "arrivals (e # es) = arrivals es"

definition answered_first :: "'q server_event list \<Rightarrow> nat \<Rightarrow> nat \<Rightarrow> bool" where
  "answered_first es n m \<longleftrightarrow> (\<exists>xs ys. es = xs @ ys \<and> Reply n \<in> set xs \<and> arrivals xs \<le> m)"

text \<open>What has arrived, has been handled and has been sent only grows.\<close>

definition grows :: "('q, 's, 'p) server \<Rightarrow> ('q, 's, 'p) server \<Rightarrow> bool" where
  "grows s s' \<longleftrightarrow> (\<exists>qs rs ps. hs_reqs s' = hs_reqs s @ qs \<and> hs_ran s' = hs_ran s @ rs \<and> hs_sent s' = hs_sent s @ ps)"

lemma grows_refl: "grows s s"
  by (simp add: grows_def)

lemma grows_trans: "grows s t \<Longrightarrow> grows t u \<Longrightarrow> grows s u"
  by (auto simp: grows_def)

lemma server_step_grows: "server_step h early e s = Some s' \<Longrightarrow> grows s s'"
  by (cases e) (auto simp: grows_def Let_def split: if_splits option.splits)

lemma server_run_grows: "server_run h early es s = Some s' \<Longrightarrow> grows s s'"
proof (induction es arbitrary: s)
  case (Cons e es)
  then show ?case by (auto split: option.splits intro: grows_trans[OF server_step_grows])
qed (simp add: grows_refl)

lemma server_run_append:
  "server_run h early (xs @ ys) s = (case server_run h early xs s of None \<Rightarrow> None | Some s' \<Rightarrow> server_run h early ys s')"
  by (induction xs arbitrary: s) (auto split: option.split)

lemma server_run_arrivals: "server_run h early es s = Some s' \<Longrightarrow> length (hs_reqs s') = length (hs_reqs s) + arrivals es"
proof (induction es arbitrary: s)
  case (Cons e es)
  obtain s1 where s1: "server_step h early e s = Some s1" "server_run h early es s1 = Some s'" using Cons.prems by (auto split: option.splits)
  have "length (hs_reqs s1) + arrivals es = length (hs_reqs s) + arrivals (e # es)"
    using s1(1) by (cases e) (auto simp: Let_def split: if_splits option.splits)
  then show ?case using Cons.IH[OF s1(2)] by simp
qed simp

lemma server_run_replied: "server_run h early es s = Some s' \<Longrightarrow> Reply n \<in> set es \<Longrightarrow> n \<in> fst ` set (hs_sent s')"
proof (induction es arbitrary: s)
  case (Cons e es)
  obtain s1 where s1: "server_step h early e s = Some s1" "server_run h early es s1 = Some s'" using Cons.prems(1) by (auto split: option.splits)
  show ?case
  proof (cases "e = Reply n")
    case True
    then have "n \<in> fst ` set (hs_sent s1)" using s1(1) by (auto split: if_splits option.splits)
    then show ?thesis using server_run_grows[OF s1(2)] by (auto simp: grows_def)
  next
    case False
    then show ?thesis using Cons.IH[OF s1(2)] Cons.prems(2) by auto
  qed
qed simp

text \<open>A request that was answered by its handler before another one arrived was handled before it.\<close>

lemma real_time:
  assumes r: "server_run h early es (start s0) = Some s" and b: "answered_first es n m"
    and e: "early (hs_reqs s ! n) = None" and j: "j < length (hs_ran s)" "fst (hs_ran s ! j) = m"
  shows "\<exists>i<j. fst (hs_ran s ! i) = n"
proof -
  obtain xs ys where x: "es = xs @ ys" "Reply n \<in> set xs" "arrivals xs \<le> m" using b unfolding answered_first_def by blast
  obtain s1 where s1: "server_run h early xs (start s0) = Some s1" "server_run h early ys s1 = Some s"
    using r unfolding x(1) server_run_append by (auto split: option.splits)
  note d = linearD[OF server_run_linear[OF linear_start s1(1)]]
  obtain qs rs where g: "hs_reqs s = hs_reqs s1 @ qs" "hs_ran s = hs_ran s1 @ rs" using server_run_grows[OF s1(2)] by (auto simp: grows_def)
  obtain p where p: "(n, p) \<in> set (hs_sent s1)" using server_run_replied[OF s1(1) x(2)] by auto
  then have "early (hs_reqs s1 ! n) = None" using e d(4) by (simp add: g(1) nth_append)
  then have "(n, p) \<in> set (hs_ran s1)" using d(7)[OF p] by simp
  then obtain i where i: "i < length (hs_ran s1)" "fst (hs_ran s1 ! i) = n" by (auto simp: in_set_conv_nth)
  have "\<not> j < length (hs_ran s1)"
  proof
    assume "j < length (hs_ran s1)"
    then have "(m, snd (hs_ran s1 ! j)) \<in> set (hs_ran s1)" using j(2) by (auto simp: g(2) nth_append in_set_conv_nth prod_eq_iff)
    then have "m < length (hs_reqs s1)" by (rule d(3))
    then show False using server_run_arrivals[OF s1(1)] x(3) by (simp add: start_def)
  qed
  then show ?thesis using i by (intro exI[of _ i]) (simp add: g(2) nth_append)
qed

lemma quiet_all: "quiet_server s \<longleftrightarrow> {0..<length (hs_reqs s)} \<subseteq> fst ` set (hs_sent s)"
  by (auto simp: quiet_server_def list_all_iff)

end
