(* ===== verification/Clickhouse_Driver.thy ===== *)
theory Clickhouse_Driver
  imports Service_Run
begin

text \<open>
  The ClickHouse driver as apps 11 and 12 use it: the answers to one batch insert, and how the blocks that reach a
  table relate to the batches that were flushed.
\<close>

section \<open>One insert\<close>

text \<open>One insert: the answers of \<^verbatim>\<open>PrepareBatch\<close>, of each \<^verbatim>\<open>Append\<close>, of \<^verbatim>\<open>Send\<close> and \<^verbatim>\<open>Close\<close>. A \<^verbatim>\<open>Send\<close> that fails may or may
  not have reached the table (\<open>io_applied\<close>).\<close>

record batch_io =
  io_prepare :: "gerr option"
  io_append :: "nat \<Rightarrow> gerr option"
  io_send :: "gerr option"
  io_applied :: bool
  io_close :: "gerr option"

section \<open>Flushed batches and the blocks in the table\<close>

text \<open>The table holds, in the order of the flushes, each batch up to \<open>m\<close> times, and at least once unless its flush failed.\<close>

definition stored_as :: "('a \<Rightarrow> 'r) \<Rightarrow> nat \<Rightarrow> ('a list \<times> 'x option) list \<Rightarrow> 'r list list \<Rightarrow> bool" where
  "stored_as row m fl table \<longleftrightarrow>
     (\<exists>ns. list_all2 (\<lambda>f n. n \<le> m \<and> (snd f = None \<longrightarrow> 1 \<le> n)) fl ns
        \<and> table = concat (map2 (\<lambda>f n. replicate n (map row (fst f))) fl ns))"

lemma stored_as_Nil: "stored_as row m [] []"
  by (simp add: stored_as_def)

lemma stored_as_snoc:
  assumes "stored_as row m fl table" and "n \<le> m" and "snd f = None \<longrightarrow> 1 \<le> n"
  shows "stored_as row m (fl @ [f]) (table @ replicate n (map row (fst f)))"
proof -
  obtain ns where ns: "list_all2 (\<lambda>f n. n \<le> m \<and> (snd f = None \<longrightarrow> 1 \<le> n)) fl ns"
    "table = concat (map2 (\<lambda>f n. replicate n (map row (fst f))) fl ns)"
    using assms(1) unfolding stored_as_def by blast
  have "list_all2 (\<lambda>f n. n \<le> m \<and> (snd f = None \<longrightarrow> 1 \<le> n)) (fl @ [f]) (ns @ [n])"
    using ns(1) assms(2,3) by (intro list_all2_appendI) simp_all
  moreover have "length fl = length ns" using ns(1) by (rule list_all2_lengthD)
  ultimately show ?thesis unfolding stored_as_def
    by (intro exI[of _ "ns @ [n]"]) (simp add: ns(2))
qed

lemma stored_as_blocks:
  assumes "stored_as row m fl table"
  shows "(\<forall>f\<in>set fl. snd f = None \<longrightarrow> map row (fst f) \<in> set table) \<and> (\<forall>b\<in>set table. \<exists>f\<in>set fl. b = map row (fst f))"
proof -
  obtain ns where "list_all2 (\<lambda>f n. n \<le> m \<and> (snd f = None \<longrightarrow> 1 \<le> n)) fl ns"
    "table = concat (map2 (\<lambda>f n. replicate n (map row (fst f))) fl ns)"
    using assms unfolding stored_as_def by blast
  then show ?thesis
  proof (induction fl ns arbitrary: table rule: list_all2_induct)
    case (Cons f fl n ns)
    note ih = Cons.IH[OF refl]
    have "set (replicate n (map row (fst f))) \<subseteq> {map row (fst f)}" by auto
    moreover have "snd f = None \<Longrightarrow> map row (fst f) \<in> set (replicate n (map row (fst f)))" using Cons.hyps(1) by simp
    ultimately show ?case using ih unfolding Cons.prems by auto
  qed simp
qed

end
