(* ===== verification/Sink_Service.thy ===== *)
theory Sink_Service
  imports Clickhouse_Sink Clickhouse_Driver
begin

text \<open>
  App 11: the ClickHouse store (\<^verbatim>\<open>internal/storage/storage.go\<close>) and the service around the batcher
  (\<^verbatim>\<open>cmd/clickhouse-sink/main.go\<close>).

  The driver is a script of its answers. The batcher relies on the store through the locale \<open>inserter\<close>; \<open>serve\<close>
  and \<open>run\<close> put the parts together, up to the rows in the table.
\<close>

section \<open>Store\<close>

record storage_Config =
  st_Addr :: string
  st_Database :: string
  st_Username :: string
  st_Password :: string

datatype storage_error =
    OpenClickHouse gerr | PingClickHouse gerr | CloseConn gerr | CreateTable gerr
  | PrepareBatch gerr | AppendEvent nat gerr | SendBatch nat gerr | CloseBatch gerr | CloseClickHouse gerr

datatype sink_resource = Conn | Listener | BatcherLoop

text \<open>The driver's answers outside of inserts.\<close>

record ch_driver =
  ch_open :: "storage_Config \<Rightarrow> gerr option"
  ch_ping :: "gerr option"
  ch_exec :: "gerr option"
  ch_close :: "gerr option"

definition Open :: "ch_driver \<Rightarrow> storage_Config \<Rightarrow> storage_error list \<times> sink_resource action list" where
  "Open d cfg =
     (case ch_open d cfg of
        Some e \<Rightarrow> ([OpenClickHouse e], [])
      | None \<Rightarrow>
          (case ch_ping d of
             Some e \<Rightarrow> (Join [Some (PingClickHouse e), map_option CloseConn (ch_close d)], [Opened Conn, Used Conn, Closed Conn])
           | None \<Rightarrow> ([], [Opened Conn, Used Conn])))"

definition Migrate :: "ch_driver \<Rightarrow> storage_error list" where
  "Migrate d = Join [map_option CreateTable (ch_exec d)]"

definition Ping :: "ch_driver \<Rightarrow> storage_error list" where
  "Ping d = Join [map_option PingClickHouse (ch_ping d)]"

definition Close :: "ch_driver \<Rightarrow> storage_error list" where
  "Close d = Join [map_option CloseClickHouse (ch_close d)]"

text \<open>The table is the list of the blocks it received.\<close>

type_synonym row = "nat \<times> string \<times> string \<times> gotime \<times> string"

definition eventRow :: "Event \<Rightarrow> row" where
  "eventRow e = (ID e, Type e, UserID e, Timestamp e, PropertiesJSON e)"

fun appendLoop :: "(nat \<Rightarrow> gerr option) \<Rightarrow> nat \<Rightarrow> Event list \<Rightarrow> row list \<Rightarrow> storage_error option \<times> row list" where
  "appendLoop app i [] rows = (None, rows)"
| "appendLoop app i (e # es) rows =
     (case app i of
        Some x \<Rightarrow> (Some (AppendEvent (ID e) x), rows)
      | None \<Rightarrow> appendLoop app (Suc i) es (rows @ [eventRow e]))"

definition InsertEvents :: "batch_io \<Rightarrow> Event list \<Rightarrow> row list list \<Rightarrow> storage_error list \<times> row list list" where
  "InsertEvents io events table =
     (case io_prepare io of
        Some e \<Rightarrow> ([PrepareBatch e], table)
      | None \<Rightarrow>
          let cerr = map_option CloseBatch (io_close io)
          in case appendLoop (io_append io) 0 events [] of
               (Some e, rows) \<Rightarrow> (Join [Some e, cerr], table)
             | (None, rows) \<Rightarrow>
                 (case io_send io of
                    Some e \<Rightarrow> (Join [Some (SendBatch (length events) e), cerr], if io_applied io then table @ [rows] else table)
                  | None \<Rightarrow> (Join [cerr], table @ [rows])))"

lemma sink_appendLoop_rows: "appendLoop app i es rows = (None, rows') \<Longrightarrow> rows' = rows @ map eventRow es"
proof (induction es arbitrary: i rows)
  case (Cons e es)
  then have "appendLoop app (Suc i) es (rows @ [eventRow e]) = (None, rows')" by (simp split: option.splits)
  then show ?case using Cons.IH by fastforce
qed simp

section \<open>The store as the batcher's inserter\<close>

text \<open>A flush as the batcher sees it: each attempt is a call of the inserter.\<close>

definition attempts :: "('io \<Rightarrow> Event list \<Rightarrow> 's \<Rightarrow> bool \<times> 's) \<Rightarrow> (int \<Rightarrow> 'io) \<Rightarrow> (int \<Rightarrow> ctx_error option) \<Rightarrow> 's insert_env" where
  "attempts ins ios ctx_cut = \<lparr>insert_try = (\<lambda>k. ins (ios k)), insert_cut = ctx_cut\<rparr>"

locale inserter =
  fixes ins :: "'io \<Rightarrow> Event list \<Rightarrow> 's \<Rightarrow> bool \<times> 's" and table :: "'s \<Rightarrow> 'r list list" and row :: "Event \<Rightarrow> 'r"
  assumes ins_ok: "ins io es s = (True, s') \<Longrightarrow> table s' = table s @ [map row es]"
    and ins_failed: "ins io es s = (False, s') \<Longrightarrow> table s' = table s \<or> table s' = table s @ [map row es]"
begin

lemma retry_blocks:
  "insertLoop cfg (attempts ins ios ctx_cut) batch a delay s = (err, s') \<Longrightarrow>
    \<exists>n. table s' = table s @ replicate n (map row batch) \<and> n \<le> nat (MaxAttempts cfg - a) + 1 \<and> (err = None \<longrightarrow> 1 \<le> n)"
proof (induction "nat (MaxAttempts cfg - a)" arbitrary: a delay s rule: less_induct)
  case less
  let ?env = "attempts ins ios ctx_cut"
  obtain ok s1 where t: "insert_try ?env a batch s = (ok, s1)" by force
  then have i: "ins (ios a) batch s = (ok, s1)" by (simp add: attempts_def)
  have one: "\<exists>k\<le>1. table s1 = table s @ replicate k (map row batch) \<and> (ok \<longrightarrow> k = 1)"
  proof (cases ok)
    case True
    then show ?thesis using ins_ok[of "ios a" batch s s1] i by (intro exI[of _ 1]) simp
  next
    case False
    then consider "table s1 = table s" | "table s1 = table s @ [map row batch]" using ins_failed[of "ios a" batch s s1] i by auto
    then show ?thesis
    proof cases
      case 1
      then show ?thesis using False by (intro exI[of _ 0]) simp
    next
      case 2
      then show ?thesis by (intro exI[of _ 1]) simp
    qed
  qed
  then obtain k where k: "k \<le> 1" "table s1 = table s @ replicate k (map row batch)" "ok \<longrightarrow> k = 1" by blast
  note e = less.prems[unfolded insertLoop.simps[of cfg ?env batch a delay s] t Let_def prod.case]
  show ?case
  proof (cases "ok \<or> MaxAttempts cfg \<le> a \<or> insert_cut ?env a \<noteq> None")
    case True
    then have "s' = s1" "err = None \<longrightarrow> ok" using e by (auto split: if_splits option.splits)
    then show ?thesis using k by (intro exI[of _ k]) auto
  next
    case False
    then have r: "insertLoop cfg ?env batch (a + 1) (min (wrap64 (delay * 2)) maxRetryBackoff) s1 = (err, s')"
      and m: "nat (MaxAttempts cfg - (a + 1)) < nat (MaxAttempts cfg - a)" using e by auto
    obtain n where "table s' = table s1 @ replicate n (map row batch)" "n \<le> nat (MaxAttempts cfg - (a + 1)) + 1" "err = None \<longrightarrow> 1 \<le> n"
      using less.hyps[OF m r] by blast
    then show ?thesis using k m by (intro exI[of _ "k + n"]) (auto simp: replicate_add)
  qed
qed

lemma flush_stored:
  assumes "stored_as row (nat (MaxAttempts cfg - 1) + 1) (bc_flushed b) (table (bc_store b))"
  shows "let b' = flush cfg (attempts ins ios ctx_cut) batch b
    in stored_as row (nat (MaxAttempts cfg - 1) + 1) (bc_flushed b') (table (bc_store b'))"
proof -
  obtain err s' where r: "insertLoop cfg (attempts ins ios ctx_cut) batch 1 (RetryBackoff cfg) (bc_store b) = (err, s')" by force
  from retry_blocks[OF r] obtain n where "table s' = table (bc_store b) @ replicate n (map row batch)"
    "n \<le> nat (MaxAttempts cfg - 1) + 1" "err = None \<longrightarrow> 1 \<le> n" by blast
  then show ?thesis using stored_as_snoc[OF assms, of n "(batch, err)"] r
    by (simp add: flush_def insertWithRetry_def Let_def)
qed

lemma drain_stored:
  "stored_as row (nat (MaxAttempts cfg - 1) + 1) (bc_flushed b) (table (bc_store b)) \<Longrightarrow>
    let b' = drainLoop cfg (\<lambda>n. attempts ins (ios n) (cuts n)) n batch es b
    in stored_as row (nat (MaxAttempts cfg - 1) + 1) (bc_flushed b') (table (bc_store b'))"
proof (induction es arbitrary: n batch b)
  case Nil
  then show ?case using flush_stored[OF Nil] by simp
next
  case (Cons e es)
  show ?case
    using Cons.IH[OF Cons.prems] Cons.IH[OF flush_stored[OF Cons.prems, unfolded Let_def]] by (simp add: Let_def)
qed

end

definition tryInsert :: "batch_io \<Rightarrow> Event list \<Rightarrow> row list list \<Rightarrow> bool \<times> row list list" where
  "tryInsert io es table = (let (err, table') = InsertEvents io es table in (err = [], table'))"

interpretation ch: inserter tryInsert "\<lambda>t. t" eventRow
  by unfold_locales
    (auto simp: tryInsert_def InsertEvents_def Let_def dest!: sink_appendLoop_rows split: option.splits prod.splits if_splits)

section \<open>Configuration\<close>

record sink_config =
  sk_Addr :: string
  sk_ClickHouseAddr :: string
  sk_ClickHouseDB :: string
  sk_ClickHouseUser :: string
  sk_ClickHousePassword :: string
  sk_BufferSize :: int
  sk_BatchSize :: int
  sk_FlushInterval :: duration
  sk_FlushMaxAttempts :: int
  sk_FlushRetryBackoff :: duration
  sk_ShutdownTimeout :: duration

definition checkConfig :: "sink_config \<Rightarrow> string option" where
  "checkConfig cfg =
     (if sk_BatchSize cfg \<le> 0 then Some ''BATCH_SIZE must be positive''
      else if sk_BufferSize cfg < sk_BatchSize cfg then Some ''BUFFER_SIZE must be at least BATCH_SIZE''
      else if sk_FlushInterval cfg \<le> 0 then Some ''FLUSH_INTERVAL must be positive''
      else if sk_FlushMaxAttempts cfg \<le> 0 then Some ''FLUSH_MAX_ATTEMPTS must be positive''
      else None)"

definition loadConfig :: "sink_config env_lib \<Rightarrow> (string \<Rightarrow> string) \<Rightarrow> string config_error + sink_config" where
  "loadConfig lib getenv = load lib checkConfig getenv"

section \<open>Serving\<close>

text \<open>What happens besides \<open>serve\<close>: requests, and the loop of the batcher, whose flushes carry the answers of the driver.\<close>

datatype sink_step =
    Request gotime body
  | Receive "int \<Rightarrow> batch_io" "int \<Rightarrow> ctx_error option"
  | TickerFires "int \<Rightarrow> batch_io" "int \<Rightarrow> ctx_error option"

type_synonym sink_batcher = "row list list Batcher"

fun bstepOf :: "sink_step \<Rightarrow> row list list bstep" where
  "bstepOf (Request now b) = Ingest now b"
| "bstepOf (Receive ios ctx_cut) = Recv (attempts tryInsert ios ctx_cut)"
| "bstepOf (TickerFires ios ctx_cut) = Tick (attempts tryInsert ios ctx_cut)"

definition sinkSteps :: "Config \<Rightarrow> sink_step list \<Rightarrow> sink_batcher \<times> Event list \<Rightarrow> sink_batcher \<times> Event list" where
  "sinkSteps cfg sts = fold (bstep_run cfg) (map bstepOf sts)"

text \<open>\<open>sv_before\<close> happens until the select of \<open>serve\<close> fires, \<open>sv_during\<close> while \<^verbatim>\<open>Shutdown\<close> waits, \<open>sv_late\<close> until the batcher sees
  that it is to stop. \<open>sv_serve\<close> is the error of \<^verbatim>\<open>srv.Serve\<close> if it returned first.\<close>

record serve_io =
  sv_before :: "sink_step list"
  sv_serve :: "gerr option"
  sv_during :: "sink_step list"
  sv_shutdown :: "gerr option"
  sv_late :: "sink_step list"
  sv_drain :: "nat \<Rightarrow> int \<Rightarrow> batch_io"
  sv_cuts :: "nat \<Rightarrow> int \<Rightarrow> ctx_error option"

datatype serve_error = ServeHTTP gerr | ShutdownHTTP gerr | DrainFailed

definition stopBatcher :: "Config \<Rightarrow> serve_io \<Rightarrow> sink_batcher \<Rightarrow> sink_batcher \<times> serve_error option" where
  "stopBatcher cfg io b =
     (let (b', failed) = drain cfg (\<lambda>n. attempts tryInsert (sv_drain io n) (sv_cuts io n)) b
      in (b', if failed then Some DrainFailed else None))"

definition flushUses :: "sink_batcher \<Rightarrow> sink_batcher \<Rightarrow> sink_resource action list" where
  "flushUses b b' = replicate (length (bc_flushed b') - length (bc_flushed b)) (Used Conn)"

text \<open>The batcher at the end, the accepted events and the number of batches flushed before the drain.\<close>

record sink_end =
  se_batcher :: sink_batcher
  se_accepted :: "Event list"
  se_running :: nat

text \<open>The goroutine of the batcher, \<^verbatim>\<open>Run\<close>, panics on a ticker without a positive interval and on a batch that cannot be made
  (\<open>limit\<close>); \<open>None\<close>. The listener is closed when \<^verbatim>\<open>Serve\<close> returns, or by \<^verbatim>\<open>Shutdown\<close>.\<close>

definition serve :: "int \<Rightarrow> Config \<Rightarrow> duration \<Rightarrow> serve_io \<Rightarrow> sink_batcher \<Rightarrow> (serve_error list \<times> sink_end) option \<times> sink_resource action list" where
  "serve limit cfg interval io b0 =
     (if interval \<le> 0 \<or> \<not> makeable limit (BatchSize cfg) then (None, [])
      else
        let (b1, acc1) = sinkSteps cfg (sv_before io) (b0, [])
        in case sv_serve io of
             Some e \<Rightarrow>
               let (b2, acc2) = sinkSteps cfg (sv_late io) (b1, acc1);
                   (b3, derr) = stopBatcher cfg io b2
               in (Some (Join [Some (ServeHTTP e), derr], \<lparr>se_batcher = b3, se_accepted = acc2, se_running = length (bc_flushed b2)\<rparr>),
                   [Opened BatcherLoop] @ flushUses b0 b1 @ [Closed Listener] @ flushUses b1 b3 @ [Closed BatcherLoop])
           | None \<Rightarrow>
               let (b2, acc2) = sinkSteps cfg (sv_during io) (b1, acc1);
                   (b3, acc3) = sinkSteps cfg (sv_late io) (b2, acc2);
                   (b4, derr) = stopBatcher cfg io b3
               in (Some (Join [map_option ShutdownHTTP (sv_shutdown io), derr],
                         \<lparr>se_batcher = b4, se_accepted = acc3, se_running = length (bc_flushed b3)\<rparr>),
                   [Opened BatcherLoop] @ flushUses b0 b1 @ [Closed Listener] @ flushUses b1 b4 @ [Closed BatcherLoop]))"

section \<open>Run\<close>

text \<open>\<open>r_maxBuffer\<close> and \<open>r_maxBatch\<close> are the limits of \<open>make\<close> for the channel and for a batch of events.\<close>

record run_io =
  r_maxBuffer :: int
  r_maxBatch :: int
  r_env :: "sink_config env_lib"
  r_driver :: ch_driver
  r_runtime :: "nat \<Rightarrow> gerr option"
  r_batcher :: "nat \<Rightarrow> gerr option"
  r_server :: "nat \<Rightarrow> gerr option"
  r_listen :: "gerr option"
  r_serve :: serve_io

datatype sink_error =
    LoadConfig "string config_error" | Storage "storage_error list" | RegisterRuntime gerr | RegisterBatcher gerr
  | RegisterServer gerr | Listen gerr | Serve "serve_error list"

definition storageConfig :: "sink_config \<Rightarrow> storage_Config" where
  "storageConfig cfg =
     \<lparr>st_Addr = sk_ClickHouseAddr cfg, st_Database = sk_ClickHouseDB cfg,
      st_Username = sk_ClickHouseUser cfg, st_Password = sk_ClickHousePassword cfg\<rparr>"

definition batcherConfig :: "sink_config \<Rightarrow> Config" where
  "batcherConfig cfg =
     \<lparr>BufferSize = sk_BufferSize cfg, BatchSize = sk_BatchSize cfg,
      MaxAttempts = sk_FlushMaxAttempts cfg, RetryBackoff = sk_FlushRetryBackoff cfg\<rparr>"

type_synonym sink_exit = "sink_error outcome \<times> sink_end option"

definition fails :: "sink_error \<Rightarrow> sink_exit \<times> sink_resource action list" where
  "fails e = ((Returned (Some e), None), [])"

text \<open>\<open>run\<close> once the configuration is loaded and the store is open; the batcher has five metrics, the server two.\<close>

definition runWithStore :: "run_io \<Rightarrow> sink_config \<Rightarrow> sink_exit \<times> sink_resource action list" where
  "runWithStore io cfg =
     after [Used Conn]
       (case Migrate (r_driver io) of
          e # es \<Rightarrow> fails (Storage (e # es))
        | [] \<Rightarrow>
       (case registerAll (r_runtime io) 0 2 of
          Some e \<Rightarrow> fails (RegisterRuntime e)
        | None \<Rightarrow>
       (case New (r_maxBuffer io) (batcherConfig cfg) [] of
          None \<Rightarrow> ((Panic, None), [])
        | Some buf \<Rightarrow>
       (case registerAll (r_batcher io) 0 5 of
          Some e \<Rightarrow> fails (RegisterBatcher e)
        | None \<Rightarrow>
       (case registerAll (r_server io) 0 2 of
          Some e \<Rightarrow> fails (RegisterServer e)
        | None \<Rightarrow>
       (case r_listen io of
          Some e \<Rightarrow> fails (Listen e)
        | None \<Rightarrow>
       (case serve (r_maxBatch io) (batcherConfig cfg) (sk_FlushInterval cfg) (r_serve io) buf of
          (None, tr) \<Rightarrow> ((Crashed, None), Opened Listener # tr)
        | (Some (errs, fin), tr) \<Rightarrow>
            ((Returned (if errs = [] then None else Some (Serve errs)), Some fin), Opened Listener # tr))))))))"

definition run :: "run_io \<Rightarrow> (string \<Rightarrow> string) \<Rightarrow> sink_exit \<times> sink_resource action list" where
  "run io getenv =
     (case loadConfig (r_env io) getenv of
        Inl e \<Rightarrow> fails (LoadConfig e)
      | Inr cfg \<Rightarrow>
          (case Open (r_driver io) (storageConfig cfg) of
             (e # es, tr) \<Rightarrow> after tr (fails (Storage (e # es)))
           | ([], tr) \<Rightarrow>
               (if fst (fst (runWithStore io cfg)) = Crashed then after tr (runWithStore io cfg)
                else deferred tr Conn (runWithStore io cfg))))"

section \<open>Lemmas\<close>

lemma sinkSteps_append: "sinkSteps cfg ys (sinkSteps cfg xs s) = sinkSteps cfg (xs @ ys) s"
  by (simp add: sinkSteps_def)

lemma serve_outcome:
  assumes "serve limit cfg iv io b0 = (Some (errs, fin), tr)"
  shows "\<exists>sts b failed. sinkSteps cfg sts (b0, []) = (b, se_accepted fin)
    \<and> drain cfg (\<lambda>n. attempts tryInsert (sv_drain io n) (sv_cuts io n)) b = (se_batcher fin, failed)
    \<and> se_running fin = length (bc_flushed b) \<and> (errs = [] \<longrightarrow> \<not> failed)"
proof -
  obtain b1 acc1 where s1: "sinkSteps cfg (sv_before io) (b0, []) = (b1, acc1)" by force
  note u = assms[unfolded serve_def s1 Let_def prod.case]
  show ?thesis
  proof (cases "sv_serve io")
    case (Some e)
    obtain b2 acc2 where s2: "sinkSteps cfg (sv_late io) (b1, acc1) = (b2, acc2)" by force
    have "sinkSteps cfg (sv_before io @ sv_late io) (b0, []) = (b2, acc2)"
      using sinkSteps_append[of cfg "sv_late io" "sv_before io" "(b0, [])"] s1 s2 by simp
    then show ?thesis using u Some s2
      by (auto simp: stopBatcher_def split: if_splits prod.splits intro!: exI[of _ "sv_before io @ sv_late io"])
  next
    case None
    obtain b2 acc2 where s2: "sinkSteps cfg (sv_during io) (b1, acc1) = (b2, acc2)" by force
    obtain b3 acc3 where s3: "sinkSteps cfg (sv_late io) (b2, acc2) = (b3, acc3)" by force
    have "sinkSteps cfg (sv_before io @ sv_during io @ sv_late io) (b0, []) = (b3, acc3)"
      using sinkSteps_append[of cfg "sv_during io" "sv_before io" "(b0, [])"] sinkSteps_append[of cfg "sv_late io" "sv_before io @ sv_during io" "(b0, [])"]
        s1 s2 s3 by simp
    then show ?thesis using u None s2 s3
      by (auto simp: stopBatcher_def Join_Nil_iff split: if_splits prod.splits intro!: exI[of _ "sv_before io @ sv_during io @ sv_late io"])
  qed
qed

abbreviation stored :: "Config \<Rightarrow> sink_batcher \<Rightarrow> bool" where
  "stored cfg b \<equiv> stored_as eventRow (nat (MaxAttempts cfg - 1) + 1) (bc_flushed b) (bc_store b)"

lemma sinkSteps_stored: "stored cfg (fst s) \<Longrightarrow> stored cfg (fst (sinkSteps cfg sts s))"
proof (induction sts arbitrary: s)
  case Nil
  then show ?case by (simp add: sinkSteps_def)
next
  case (Cons st sts)
  obtain b acc where s: "s = (b, acc)" by force
  note fl = ch.flush_stored[unfolded Let_def]
  have "stored cfg (fst (bstep_run cfg (bstepOf st) s))"
  proof (cases st)
    case (Request now bd)
    obtain r b' where h: "handleIngest (Enqueue cfg) now bd b = (r, b')" by force
    have "bc_flushed b' = bc_flushed b \<and> bc_store b' = bc_store b"
      using h by (auto simp: handleIngest_def Enqueue_def split: body.splits option.splits prod.splits if_splits)
    then show ?thesis using Cons.prems h by (cases r) (simp_all add: s Request)
  next
    case (Receive ios ctx_cut)
    have "stored cfg (b\<lparr>bc_events := es, bc_batch := x\<rparr>)" for es x using Cons.prems by (simp add: s)
    from fl[OF this] show ?thesis using Cons.prems by (cases "bc_events b") (simp_all add: s Receive recv_def Let_def)
  next
    case (TickerFires ios ctx_cut)
    have "stored cfg b" using Cons.prems by (simp add: s)
    from fl[OF this] show ?thesis using Cons.prems by (simp add: s TickerFires tick_def)
  qed
  from Cons.IH[OF this] show ?case by (simp add: sinkSteps_def)
qed

lemma drain_keeps_stored: "stored cfg b \<Longrightarrow> drain cfg (\<lambda>n. attempts tryInsert (ios n) (cuts n)) b = (b', failed) \<Longrightarrow> stored cfg b'"
  using ch.drain_stored[of cfg "b\<lparr>bc_closed := True\<rparr>" ios cuts 0 "bc_batch b" "bc_events b"] by (auto simp: drain_def Let_def)

lemma run_serves:
  assumes "run io getenv = ((out, Some fin), tr)"
  shows "\<exists>cfg buf errs tr'. loadConfig (r_env io) getenv = Inr cfg \<and> New (r_maxBuffer io) (batcherConfig cfg) [] = Some buf
    \<and> serve (r_maxBatch io) (batcherConfig cfg) (sk_FlushInterval cfg) (r_serve io) buf = (Some (errs, fin), tr')
    \<and> out = Returned (if errs = [] then None else Some (Serve errs))"
proof -
  obtain cfg where c: "loadConfig (r_env io) getenv = Inr cfg"
    using assms by (auto simp: run_def fails_def split: sum.splits)
  have r: "fst (runWithStore io cfg) = (out, Some fin)"
    using assms by (auto simp: run_def c fails_def after_def deferred_def split: prod.splits list.splits if_splits)
  have "New (r_maxBuffer io) (batcherConfig cfg) ([] :: row list list) \<noteq> None"
    using r by (auto simp: runWithStore_def fails_def split: list.splits option.splits)
  then obtain buf where b: "New (r_maxBuffer io) (batcherConfig cfg) ([] :: row list list) = Some buf" by auto
  obtain res tr' where s: "serve (r_maxBatch io) (batcherConfig cfg) (sk_FlushInterval cfg) (r_serve io) buf = (res, tr')" by force
  have q: "res \<noteq> None \<and> snd (the res) = fin \<and> out = Returned (if fst (the res) = [] then None else Some (Serve (fst (the res))))"
    using r unfolding runWithStore_def fst_after
    by (cases res) (auto simp: b s fails_def split: list.split_asm option.split_asm prod.split_asm)
  then obtain errs where "res = Some (errs, fin)" by (cases res) auto
  then show ?thesis using q c b s by simp
qed

lemma steps_flushUses: "Conn \<in> st \<Longrightarrow> steps (flushUses b b' @ tr) st = steps tr st"
proof -
  assume c: "Conn \<in> st"
  have "steps (replicate n (Used Conn) @ tr) st = steps tr st" for n by (induction n) (simp_all add: c)
  then show ?thesis by (simp add: flushUses_def)
qed

lemma serve_steps:
  "serve limit cfg iv io b0 = (Some r, tr) \<Longrightarrow> steps (Opened Listener # tr) {Conn} = Some {Conn}"
  by (auto simp: serve_def Let_def steps_flushUses split: if_splits option.splits prod.splits)

text \<open>What a loaded configuration guarantees to the parts.\<close>

lemma sink_loadConfig_valid:
  assumes "loadConfig lib getenv = Inr cfg"
  shows "1 \<le> BatchSize (batcherConfig cfg)" "0 \<le> BufferSize (batcherConfig cfg)" "0 < sk_FlushInterval cfg"
    "1 \<le> MaxAttempts (batcherConfig cfg)"
  using load_Inr[OF assms[unfolded loadConfig_def]] by (auto simp: checkConfig_def batcherConfig_def split: if_splits)

lemma runWithStore_panics:
  assumes "loadConfig lib getenv = Inr cfg"
  shows "fst (fst (runWithStore io cfg)) = Panic \<Longrightarrow> r_maxBuffer io < sk_BufferSize cfg"
    "fst (fst (runWithStore io cfg)) = Crashed \<Longrightarrow> r_maxBatch io < sk_BatchSize cfg"
proof -
  note v = sink_loadConfig_valid[OF assms]
  assume "fst (fst (runWithStore io cfg)) = Panic"
  then have "New (r_maxBuffer io) (batcherConfig cfg) ([] :: row list list) = None"
    by (auto simp: runWithStore_def fails_def split: list.split_asm option.split_asm prod.split_asm)
  then show "r_maxBuffer io < sk_BufferSize cfg" using v(2) by (simp add: New_def makeable_def batcherConfig_def split: if_splits)
next
  note v = sink_loadConfig_valid[OF assms]
  assume "fst (fst (runWithStore io cfg)) = Crashed"
  then obtain buf tr where "serve (r_maxBatch io) (batcherConfig cfg) (sk_FlushInterval cfg) (r_serve io) buf = (None, tr)"
    by (auto simp: runWithStore_def fails_def split: list.split_asm option.split_asm prod.split_asm)
  then show "r_maxBatch io < sk_BatchSize cfg" using v(1,3)
    by (auto simp: serve_def Let_def makeable_def batcherConfig_def split: if_splits option.splits prod.splits)
qed

lemma runWithStore_keeps:
  assumes "fst (fst (runWithStore io cfg)) \<noteq> Crashed"
  shows "keeps {Conn} (snd (runWithStore io cfg))"
proof -
  have "keeps {Conn} (Opened Listener # tr)"
    if "serve (r_maxBatch io) (batcherConfig cfg) (sk_FlushInterval cfg) (r_serve io) buf = (Some r, tr)" for buf r tr
    using serve_steps[OF that] by (simp add: keeps_def)
  then show ?thesis using assms
    by (auto simp: runWithStore_def fails_def intro!: resource_intros split: list.splits option.splits prod.splits)
qed

section \<open>Properties\<close>

text \<open>Whatever the environment, the driver, the listener, the requests and the signals do, the service panics only when the
  configured buffer or batch is larger than \<open>make\<close> allows, which the configuration does not check. And its
  trace replays: every insert and ping falls between the opening of the connection and its
  closing, and when \<open>run\<close> ends, whichever error it returns, the connection and the listener are closed
  and the batcher has ended.\<close>

theorem sink_run_releases_everything:
  "case run io getenv of ((out, fin), tr) \<Rightarrow>
     (out = Panic \<longrightarrow> (\<exists>cfg. loadConfig (r_env io) getenv = Inr cfg \<and> r_maxBuffer io < sk_BufferSize cfg))
     \<and> (out = Crashed \<longrightarrow> (\<exists>cfg. loadConfig (r_env io) getenv = Inr cfg \<and> r_maxBatch io < sk_BatchSize cfg))
     \<and> (out \<noteq> Crashed \<longrightarrow> steps tr {} = Some {})"
proof (cases "loadConfig (r_env io) getenv")
  case (Inl e)
  then show ?thesis by (simp add: run_def fails_def)
next
  case (Inr cfg)
  note s = runWithStore_panics[OF Inr, of io] runWithStore_keeps[of io cfg]
  obtain es tr where o: "Open (r_driver io) (storageConfig cfg) = (es, tr)" by force
  show ?thesis
  proof (cases es)
    case Nil
    then have t: "steps tr {} = Some {Conn}" using o by (auto simp: Open_def Join_Nil_iff split: option.splits)
    have k: "keeps {} (snd (deferred tr Conn (runWithStore io cfg)))" if "fst (fst (runWithStore io cfg)) \<noteq> Crashed"
      using s(3)[OF that] t by (intro resource_intros) simp_all
    obtain out fin tr' where r: "runWithStore io cfg = ((out, fin), tr')" by (metis surj_pair)
    show ?thesis using s(1,2) k o Inr Nil by (cases out) (simp_all add: run_def r deferred_def after_def keeps_def)
  next
    case (Cons x xs)
    then have "steps tr {} = Some {}" using o by (auto simp: Open_def split: option.splits)
    then show ?thesis using o Inr Cons by (simp add: run_def after_def fails_def)
  qed
qed

text \<open>(C10) From the request to the table. When the service ends, the batches it flushed hold, in order, exactly the
  events it had answered with 202. The table consists of these batches in that order, each a whole number of
  times: at least once unless its flush was given up, and at most once per attempt. So every row comes
  from an accepted event, every event of a batch that was not given up is in the table, and if \<open>run\<close> returns nil
  no batch was given up during the shutdown.\<close>

theorem sink_stores_what_it_accepts:
  assumes "run io getenv = ((out, Some fin), tr)" and "loadConfig (r_env io) getenv = Inr cfg"
  shows "se_accepted fin = concat (map fst (bc_flushed (se_batcher fin)))
    \<and> stored_as eventRow (nat (sk_FlushMaxAttempts cfg)) (bc_flushed (se_batcher fin)) (bc_store (se_batcher fin))
    \<and> (\<forall>b\<in>set (bc_store (se_batcher fin)). set b \<subseteq> eventRow ` set (se_accepted fin))
    \<and> ((\<forall>f\<in>set (bc_flushed (se_batcher fin)). snd f = None) \<longrightarrow>
        (\<forall>e\<in>set (se_accepted fin). \<exists>b\<in>set (bc_store (se_batcher fin)). eventRow e \<in> set b))
    \<and> (out = Returned None \<longrightarrow> (\<forall>f\<in>set (drop (se_running fin) (bc_flushed (se_batcher fin))). snd f = None))"
proof -
  let ?c = "batcherConfig cfg" and ?b = "se_batcher fin" and ?acc = "se_accepted fin"
  note v = sink_loadConfig_valid[OF assms(2)]
  obtain buf errs tr' where s: "New (r_maxBuffer io) ?c [] = Some buf" "serve (r_maxBatch io) ?c (sk_FlushInterval cfg) (r_serve io) buf = (Some (errs, fin), tr')"
    "out = Returned (if errs = [] then None else Some (Serve errs))"
    using run_serves[OF assms(1)] assms(2) by auto
  obtain sts b failed where f: "sinkSteps ?c sts (buf, []) = (b, ?acc)"
    "drain ?c (\<lambda>n. attempts tryInsert (sv_drain (r_serve io) n) (sv_cuts (r_serve io) n)) b = (?b, failed)"
    "se_running fin = length (bc_flushed b)" "errs = [] \<longrightarrow> \<not> failed"
    using serve_outcome[OF s(2)] by blast
  note a = accepted_events_all_flushed[OF s(1) v(1) f(1)[unfolded sinkSteps_def] f(2)]
  have "stored ?c buf" using s(1) by (auto simp: New_def stored_as_Nil split: if_splits)
  then have st: "stored ?c ?b"
    using drain_keeps_stored[OF _ f(2)] sinkSteps_stored[of ?c "(buf, [])" sts] f(1) by simp
  have m: "nat (MaxAttempts ?c - 1) + 1 = nat (sk_FlushMaxAttempts cfg)" using v(4) by (simp add: batcherConfig_def)
  have acc: "?acc = concat (map fst (bc_flushed ?b))" using a by blast
  note bl = stored_as_blocks[OF st]
  have "\<forall>x\<in>set (bc_store ?b). set x \<subseteq> eventRow ` set ?acc" using bl unfolding acc by fastforce
  moreover have "\<exists>x\<in>set (bc_store ?b). eventRow e \<in> set x"
    if ok: "\<forall>f\<in>set (bc_flushed ?b). snd f = None" and e: "e \<in> set ?acc" for e
  proof -
    obtain f where "f \<in> set (bc_flushed ?b)" "e \<in> set (fst f)" using e unfolding acc by auto
    then show ?thesis using bl ok by (intro bexI[of _ "map eventRow (fst f)"]) auto
  qed
  moreover have "out = Returned None \<longrightarrow> (\<forall>f\<in>set (drop (se_running fin) (bc_flushed ?b)). snd f = None)"
    using a s(3) f(3,4) by (auto split: if_splits)
  ultimately show ?thesis using acc st m by simp
qed

definition demo_config :: sink_config where
  "demo_config = \<lparr>sk_Addr = '':8080'', sk_ClickHouseAddr = ''localhost:9000'', sk_ClickHouseDB = ''sink'', sk_ClickHouseUser = ''sink'',
     sk_ClickHousePassword = ''sink'', sk_BufferSize = 3, sk_BatchSize = 2, sk_FlushInterval = 1, sk_FlushMaxAttempts = 2,
     sk_FlushRetryBackoff = 1, sk_ShutdownTimeout = 1\<rparr>"

definition demo_io :: "gerr option \<Rightarrow> batch_io" where
  "demo_io e = \<lparr>io_prepare = None, io_append = (\<lambda>_. None), io_send = e, io_applied = True, io_close = None\<rparr>"

text \<open>The first \<^verbatim>\<open>Send\<close> of the first batch fails after the server has applied it.\<close>

definition demo_run :: run_io where
  "demo_run = \<lparr>r_maxBuffer = 1000, r_maxBatch = 1000, r_env = \<lparr>GetFieldParams = Inr [''ADDR''], ParseEnv = (\<lambda>_. Inr demo_config)\<rparr>,
     r_driver = \<lparr>ch_open = (\<lambda>_. None), ch_ping = None, ch_exec = None, ch_close = None\<rparr>,
     r_runtime = (\<lambda>_. None), r_batcher = (\<lambda>_. None), r_server = (\<lambda>_. None), r_listen = None,
     r_serve = \<lparr>sv_before = [Request 1000 (Decoded (map demo_event [1, 2, 3])), Receive (\<lambda>_. demo_io None) (\<lambda>_. None),
         Receive (\<lambda>k. demo_io (if k = 1 then Some ''timeout'' else None)) (\<lambda>_. None)],
       sv_serve = None, sv_during = [], sv_shutdown = None, sv_late = [],
       sv_drain = (\<lambda>_ _. demo_io None), sv_cuts = (\<lambda>_ _. None)\<rparr>\<rparr>"

theorem sink_stores_what_it_accepts_witness:
  "\<exists>fin tr. run demo_run (\<lambda>_. []) = ((Returned None, Some fin), tr)
    \<and> se_accepted fin = map demo_event [1, 2, 3]
    \<and> bc_store (se_batcher fin) = [map (eventRow \<circ> demo_event) [1, 2], map (eventRow \<circ> demo_event) [1, 2], [eventRow (demo_event 3)]]
    \<and> concat (map fst (bc_flushed (se_batcher fin))) = map demo_event [1, 2, 3]"
proof -
  obtain out f tr where r: "run demo_run (\<lambda>_. []) = ((out, f), tr)" by (metis surj_pair)
  have "fst (fst (run demo_run (\<lambda>_. []))) = Returned None" by code_simp
  moreover have "map_option se_accepted (snd (fst (run demo_run (\<lambda>_. [])))) = Some (map demo_event [1, 2, 3])" by code_simp
  moreover have "map_option (\<lambda>f. bc_store (se_batcher f)) (snd (fst (run demo_run (\<lambda>_. []))))
      = Some [map (eventRow \<circ> demo_event) [1, 2], map (eventRow \<circ> demo_event) [1, 2], [eventRow (demo_event 3)]]" by code_simp
  moreover have "loadConfig (r_env demo_run) (\<lambda>_. []) = Inr demo_config" by code_simp
  ultimately show ?thesis using sink_stores_what_it_accepts[of demo_run "\<lambda>_. []" out _ tr demo_config] r by auto
qed

end
