(* ===== verification/Eventsink_Service.thy ===== *)
theory Eventsink_Service
  imports Pipeline Clickhouse_Driver "HOL-Library.Multiset"
begin

text \<open>
  App 12 around its pipeline: the ClickHouse store (\<^verbatim>\<open>internal/warehouse/warehouse.go\<close>), the batch log's schema
  (\<^verbatim>\<open>internal/ledger/ledger.go\<close>), the health endpoint (\<^verbatim>\<open>internal/server/server.go\<close>) and \<^verbatim>\<open>cmd/eventsink/main.go\<close>.
\<close>

section \<open>Warehouse\<close>

datatype es_resource = SqlDB | PgPool | Warehouse | KafkaClient | Listener

text \<open>\<^verbatim>\<open>ParseDSN\<close> fails with an error of \<^verbatim>\<open>net/url\<close>, which quotes the DSN, or with another one.\<close>

datatype dsn_error = UrlError gerr | OtherError gerr

datatype warehouse_error =
    InvalidDSN | ParseDSN gerr | OpenClickHouse gerr | CreateTable gerr | CloseConn gerr
  | PrepareBatch gerr | AppendEvent string gerr | SendBatch nat gerr | CloseBatch gerr | PingClickHouse gerr

record wh_driver =
  wh_parse :: "string \<Rightarrow> dsn_error option"
  wh_open :: "gerr option"
  wh_exec :: "gerr option"
  wh_close :: "gerr option"

definition wh_Open :: "wh_driver \<Rightarrow> string \<Rightarrow> warehouse_error list \<times> es_resource Service_Run.action list" where
  "wh_Open d dsn =
     (case wh_parse d dsn of
        Some (UrlError e) \<Rightarrow> ([InvalidDSN], [])
      | Some (OtherError e) \<Rightarrow> ([ParseDSN e], [])
      | None \<Rightarrow>
          (case wh_open d of
             Some e \<Rightarrow> ([OpenClickHouse e], [])
           | None \<Rightarrow>
               (case wh_exec d of
                  Some e \<Rightarrow> (Join [Some (CreateTable e), map_option CloseConn (wh_close d)], [Opened Warehouse, Used Warehouse, Closed Warehouse])
                | None \<Rightarrow> ([], [Opened Warehouse, Used Warehouse]))))"

type_synonym row = "string \<times> string \<times> string \<times> gotime \<times> string"

definition eventRow :: "Event \<Rightarrow> row" where
  "eventRow e = (ID e, Type e, Source e, OccurredAt e, Payload e)"

fun appendLoop :: "(nat \<Rightarrow> gerr option) \<Rightarrow> nat \<Rightarrow> Event list \<Rightarrow> row list \<Rightarrow> warehouse_error option \<times> row list" where
  "appendLoop app i [] rows = (None, rows)"
| "appendLoop app i (e # es) rows =
     (case app i of
        Some x \<Rightarrow> (Some (AppendEvent (ID e) x), rows)
      | None \<Rightarrow> appendLoop app (Suc i) es (rows @ [eventRow e]))"

definition wh_InsertEvents :: "batch_io \<Rightarrow> Event list \<Rightarrow> row list list \<Rightarrow> warehouse_error list \<times> row list list" where
  "wh_InsertEvents io events table =
     (if length events = 0 then ([], table)
      else
        case io_prepare io of
          Some e \<Rightarrow> ([PrepareBatch e], table)
        | None \<Rightarrow>
            let cerr = map_option CloseBatch (io_close io)
            in case appendLoop (io_append io) 0 events [] of
                 (Some e, rows) \<Rightarrow> (Join [Some e, cerr], table)
               | (None, rows) \<Rightarrow>
                   (case io_send io of
                      Some e \<Rightarrow> (Join [Some (SendBatch (length events) e), cerr], if io_applied io then table @ [rows] else table)
                    | None \<Rightarrow> (Join [cerr], table @ [rows])))"

lemma eventsink_appendLoop_rows: "appendLoop app i es rows = (None, rows') \<Longrightarrow> rows' = rows @ map eventRow es"
proof (induction es arbitrary: i rows)
  case (Cons e es)
  then have "appendLoop app (Suc i) es (rows @ [eventRow e]) = (None, rows')" by (simp split: option.splits)
  then show ?case using Cons.IH by fastforce
qed simp

text \<open>An insert is atomic: it stores its events as one block or nothing, and it stores them if it returns nil.\<close>

lemma insert_atomic:
  assumes "wh_InsertEvents io es table = (err, table')"
  shows "(table' = table \<or> table' = table @ [map eventRow es]) \<and> (err = [] \<and> es \<noteq> [] \<longrightarrow> table' = table @ [map eventRow es])
    \<and> (es = [] \<longrightarrow> err = [] \<and> table' = table)"
  using assms
  by (auto simp: wh_InsertEvents_def Let_def dest!: eventsink_appendLoop_rows split: option.splits prod.splits if_splits)

text \<open>The pipeline's view of the store: whether an attempt succeeds.\<close>

definition accepts :: "batch_io \<Rightarrow> nat \<Rightarrow> bool" where
  "accepts io n \<longleftrightarrow> io_prepare io = None \<and> (\<forall>i<n. io_append io i = None) \<and> io_send io = None \<and> io_close io = None"

lemma appendLoop_ok: "fst (appendLoop app i es rows) = None \<longleftrightarrow> (\<forall>k<length es. app (i + k) = None)"
proof (induction es arbitrary: i rows)
  case (Cons e es)
  have "(\<forall>k<Suc (length es). app (i + k) = None) \<longleftrightarrow> app i = None \<and> (\<forall>k<length es. app (Suc i + k) = None)"
    by (simp add: all_conj_distrib less_Suc_eq_0_disj) (metis add_Suc_right add_Suc_shift)
  then show ?case using Cons.IH by (simp split: option.splits)
qed simp

lemma insert_refines:
  "Pipeline.InsertEvents (accepts io (length es)) es \<longleftrightarrow> fst (wh_InsertEvents io es table) = []"
  using appendLoop_ok[of "io_append io" 0 es "[]"]
  by (cases "io_close io")
    (auto simp: Pipeline.InsertEvents_def accepts_def wh_InsertEvents_def Let_def split: option.splits prod.splits)

text \<open>A \<^verbatim>\<open>SELECT ... FINAL\<close> on the table: one row per sorting key, the one inserted last (\<^verbatim>\<open>ReplacingMergeTree(inserted_at)\<close>,
  \<^verbatim>\<open>ORDER BY (event_type, occurred_at, event_id)\<close>).
  \<open>ms\<close> is the driver's conversion of a time to \<^verbatim>\<open>DateTime64(3)\<close>.\<close>

definition sortKey :: "(gotime \<Rightarrow> int) \<Rightarrow> row \<Rightarrow> string \<times> int \<times> string" where
  "sortKey ms r = (case r of (eid, ty, src, at, pl) \<Rightarrow> (ty, ms at, eid))"

definition finalView :: "(gotime \<Rightarrow> int) \<Rightarrow> row list list \<Rightarrow> (string \<times> int \<times> string) \<rightharpoonup> row" where
  "finalView ms table = foldl (\<lambda>v r. v(sortKey ms r \<mapsto> r)) Map.empty (concat table)"

text \<open>Inserting a batch again does not change the view, if rows of the same key are the same event.\<close>

lemma finalView_Some:
  assumes "inj_on (sortKey ms) (set (concat table))"
  shows "finalView ms table k = Some r \<longleftrightarrow> r \<in> set (concat table) \<and> sortKey ms r = k"
proof -
  have "foldl (\<lambda>v r. v(sortKey ms r \<mapsto> r)) Map.empty rows k = Some r \<longleftrightarrow> r \<in> set rows \<and> sortKey ms r = k"
    if "inj_on (sortKey ms) (set rows)" for rows
    using that
  proof (induction rows rule: rev_induct)
    case (snoc x rows)
    have "inj_on (sortKey ms) (set rows)" using snoc.prems by (auto simp: inj_on_def)
    note ih = snoc.IH[OF this]
    show ?case using snoc.prems ih by (auto simp: inj_on_def)
  qed simp
  then show ?thesis using assms unfolding finalView_def by blast
qed

lemma finalView_replay:
  assumes "inj_on (sortKey ms) (set (concat table))" and "set (concat table') = set (concat table)"
  shows "finalView ms table' = finalView ms table"
proof
  fix k
  have "finalView ms table' k = Some r \<longleftrightarrow> finalView ms table k = Some r" for r
    unfolding finalView_Some[OF assms(1)] finalView_Some[OF assms(1)[folded assms(2)]] assms(2) ..
  then show "finalView ms table' k = finalView ms table k" by (metis not_None_eq)
qed

section \<open>Batch log\<close>

datatype ledger_error = InsertBatch gerr

definition ledger_Migrate :: "goose_io \<Rightarrow> migrate_error list \<times> es_resource Service_Run.action list" where
  "ledger_Migrate g =
     (case gs_Sub g of
        Some e \<Rightarrow> ([OpenMigrations e], [])
      | None \<Rightarrow>
     (case gs_Locker g of
        Some e \<Rightarrow> ([CreateLocker e], [])
      | None \<Rightarrow>
          let (err, tr) =
            (case gs_Provider g of
               Some e \<Rightarrow> (Some (CreateProvider e), [])
             | None \<Rightarrow> (case gs_Up g of Inl e \<Rightarrow> (Some (ApplyMigrations e), [Used SqlDB]) | Inr applied \<Rightarrow> (None, [Used SqlDB])))
          in (Join [err, map_option CloseDB (gs_CloseDB g)], Opened SqlDB # tr @ [Closed SqlDB])))"

text \<open>The rows of the table \<^verbatim>\<open>batches\<close>.\<close>

definition ledger_Record :: "gerr option \<Rightarrow> Batch \<Rightarrow> Batch list \<Rightarrow> ledger_error option \<times> Batch list" where
  "ledger_Record exec b rows = (case exec of Some e \<Rightarrow> (Some (InsertBatch e), rows) | None \<Rightarrow> (None, rows @ [b]))"

section \<open>Health endpoint\<close>

record healthResponse =
  hr_Status :: string
  hr_Dependencies :: "string \<rightharpoonup> string"

text \<open>The loop over the results in the order in which the pings end.\<close>

fun collectHealth :: "(string \<times> gerr option) list \<Rightarrow> int \<Rightarrow> healthResponse \<Rightarrow> int \<times> healthResponse" where
  "collectHealth [] code resp = (code, resp)"
| "collectHealth ((name, err) # rest) code resp =
     (case err of
        Some e \<Rightarrow> collectHealth rest 503 \<lparr>hr_Status = ''unavailable'', hr_Dependencies = (hr_Dependencies resp)(name \<mapsto> e)\<rparr>
      | None \<Rightarrow> collectHealth rest code (resp\<lparr>hr_Dependencies := (hr_Dependencies resp)(name \<mapsto> ''ok'')\<rparr>))"

definition handleHealth :: "(string \<times> gerr option) list \<Rightarrow> int \<times> healthResponse" where
  "handleHealth results = collectHealth results 200 \<lparr>hr_Status = ''ok'', hr_Dependencies = Map.empty\<rparr>"

definition failed :: "(string \<times> gerr option) list \<Rightarrow> bool" where
  "failed results \<longleftrightarrow> list_ex (\<lambda>r. snd r \<noteq> None) results"

definition pingText :: "gerr option \<Rightarrow> string" where
  "pingText err = (case err of None \<Rightarrow> ''ok'' | Some e \<Rightarrow> e)"

lemma collectHealth_result:
  "distinct (map fst rs) \<Longrightarrow> collectHealth rs code resp =
    (if failed rs then 503 else code,
     \<lparr>hr_Status = (if failed rs then ''unavailable'' else hr_Status resp),
      hr_Dependencies = hr_Dependencies resp ++ (map_option pingText \<circ> map_of rs)\<rparr>)"
proof (induction rs code resp rule: collectHealth.induct)
  case (1 code resp)
  show ?case by (cases resp) (simp add: failed_def map_add_def fun_eq_iff)
next
  case (2 name err rest code resp)
  have d: "distinct (map fst rest)" "name \<notin> fst ` set rest" using "2.prems" by auto
  have m: "(M(name \<mapsto> t)) ++ (map_option pingText \<circ> map_of rest) = M ++ (map_option pingText \<circ> map_of ((name, err) # rest))"
    if "t = pingText err" for M t
    using d(2) that by (auto simp: map_add_def fun_eq_iff split: option.splits) (metis map_of_SomeD image_eqI fst_conv)
  obtain s0 M where r: "resp = \<lparr>hr_Status = s0, hr_Dependencies = M\<rparr>" by (cases resp)
  show ?case
  proof (cases err)
    case None
    have f: "failed ((name, err) # rest) = failed rest" by (simp add: failed_def None)
    have t: "''ok'' = pingText err" by (simp add: pingText_def None)
    have "collectHealth ((name, err) # rest) code resp
        = collectHealth rest code (resp\<lparr>hr_Dependencies := (hr_Dependencies resp)(name \<mapsto> ''ok'')\<rparr>)" by (simp add: None)
    then show ?thesis unfolding "2.IH"(1)[OF None d(1)] by (simp only: f r healthResponse.simps m[OF t])
  next
    case (Some e)
    have f: "failed ((name, err) # rest)" by (simp add: failed_def Some)
    have t: "e = pingText err" by (simp add: pingText_def Some)
    have "collectHealth ((name, err) # rest) code resp
        = collectHealth rest 503 \<lparr>hr_Status = ''unavailable'', hr_Dependencies = (hr_Dependencies resp)(name \<mapsto> e)\<rparr>" by (simp add: Some)
    then show ?thesis unfolding "2.IH"(2)[OF Some d(1)] using f by (simp only: healthResponse.simps m[OF t] if_True if_cancel)
  qed
qed

section \<open>Configuration\<close>

record es_config =
  es_Addr :: string
  es_KafkaBrokers :: "string list"
  es_KafkaGroup :: string
  es_KafkaTopic :: string
  es_KafkaDLQTopic :: string
  es_ClickHouseURL :: string
  es_DatabaseURL :: string
  es_BatchSize :: int
  es_BatchTimeout :: duration
  es_MaxAttempts :: int
  es_RetryBackoff :: duration
  es_AttemptTimeout :: duration
  es_ShutdownTimeout :: duration

definition checkConfig :: "es_config \<Rightarrow> string option" where
  "checkConfig cfg =
     (if length (es_KafkaBrokers cfg) = 0 then Some ''KAFKA_BROKERS is empty''
      else if es_KafkaTopic cfg = es_KafkaDLQTopic cfg then Some ''KAFKA_DLQ_TOPIC must differ from KAFKA_TOPIC''
      else if es_BatchSize cfg < 1 then Some ''BATCH_SIZE must be positive''
      else if es_BatchTimeout cfg \<le> 0 then Some ''BATCH_TIMEOUT must be positive''
      else if es_MaxAttempts cfg < 1 then Some ''MAX_ATTEMPTS must be positive''
      else if es_AttemptTimeout cfg \<le> 0 then Some ''ATTEMPT_TIMEOUT must be positive''
      else None)"

definition loadConfig :: "es_config env_lib \<Rightarrow> (string \<Rightarrow> string) \<Rightarrow> string config_error + es_config" where
  "loadConfig lib getenv = load lib checkConfig getenv"

section \<open>Run\<close>

datatype dependency = DepClickhouse | DepPostgres | DepKafka

fun pinged :: "dependency \<Rightarrow> es_resource" where
  "pinged DepClickhouse = Warehouse"
| "pinged DepPostgres = PgPool"
| "pinged DepKafka = KafkaClient"

text \<open>What the pipeline uses for each of its effects.\<close>

fun usedBy :: "(Event, Batch) At_Least_Once.action \<Rightarrow> es_resource" where
  "usedBy (Polled rs) = KafkaClient"
| "usedBy (Stored es) = Warehouse"
| "usedBy (DeadLettered rs) = KafkaClient"
| "usedBy (Recorded b) = PgPool"
| "usedBy (CommitTried rs ok) = KafkaClient"
| "usedBy AllowRebalance = KafkaClient"

text \<open>\<open>ri_serve\<close> is the error of \<^verbatim>\<open>srv.Serve\<close> other than \<^verbatim>\<open>ErrServerClosed\<close>; \<open>ri_its\<close> are the turns of the pipeline until its context
  is done, by a signal or because the server failed.\<close>

record run_io =
  ri_env :: "es_config env_lib"
  ri_pool :: "gerr option"
  ri_migrate :: goose_io
  ri_warehouse :: wh_driver
  ri_client :: "gerr option"
  ri_register :: "nat \<Rightarrow> gerr option"
  ri_listen :: "gerr option"
  ri_unmarshal :: "string \<Rightarrow> Event option"
  ri_msg :: "cause \<Rightarrow> string"
  ri_its :: "iteration list"
  ri_final :: flush_env
  ri_pings :: "dependency list"
  ri_shutdown :: "gerr option"
  ri_serve :: "gerr option"

datatype serve_error = RunPipeline run_result | ShutdownHTTP gerr | ServeHTTP gerr

datatype es_error =
    LoadConfig "string config_error" | CreatePool gerr | MigrateLedger "migrate_error list" | OpenWarehouse "warehouse_error list"
  | CreateClient gerr | RegisterMetric gerr | Listen gerr | Served "serve_error list"

definition pipelineConfig :: "es_config \<Rightarrow> Config" where
  "pipelineConfig cfg =
     \<lparr>DeadLetterTopic = es_KafkaDLQTopic cfg, BatchSize = es_BatchSize cfg, BatchTimeout = es_BatchTimeout cfg,
      MaxAttempts = es_MaxAttempts cfg, RetryBackoff = es_RetryBackoff cfg\<rparr>"

type_synonym es_exit = "es_error option \<times> plog"

definition fails :: "es_error \<Rightarrow> es_exit \<times> es_resource Service_Run.action list" where
  "fails e = ((Some e, []), [])"

text \<open>From the pipeline's start to the end of the server; the pings of the health endpoint end with the server.\<close>

definition serve :: "run_io \<Rightarrow> es_config \<Rightarrow> es_exit \<times> es_resource Service_Run.action list" where
  "serve io cfg =
     (let (res, log) = Run (ri_unmarshal io) (ri_msg io) (pipelineConfig cfg) (ri_final io) (ri_its io) \<lparr>pp_pending = [], pp_deadline = 0\<rparr> [];
          errs = Join [case res of Stopped \<Rightarrow> None | _ \<Rightarrow> Some (RunPipeline res),
                       map_option ShutdownHTTP (ri_shutdown io), map_option ServeHTTP (ri_serve io)]
      in ((if length errs > 0 then Some (Served errs) else None, log),
          [Opened Listener] @ map (Used \<circ> pinged) (ri_pings io) @ map (Used \<circ> usedBy) log @ [Closed Listener]))"

definition runWithClient :: "run_io \<Rightarrow> es_config \<Rightarrow> es_exit \<times> es_resource Service_Run.action list" where
  "runWithClient io cfg =
     (case registerAll (ri_register io) 0 5 of
        Some e \<Rightarrow> fails (RegisterMetric e)
      | None \<Rightarrow> (case ri_listen io of Some e \<Rightarrow> fails (Listen e) | None \<Rightarrow> serve io cfg))"

definition runWithWarehouse :: "run_io \<Rightarrow> es_config \<Rightarrow> es_exit \<times> es_resource Service_Run.action list" where
  "runWithWarehouse io cfg =
     (case ri_client io of
        Some e \<Rightarrow> fails (CreateClient e)
      | None \<Rightarrow> deferred [Opened KafkaClient] KafkaClient (runWithClient io cfg))"

definition runWithPool :: "run_io \<Rightarrow> es_config \<Rightarrow> es_exit \<times> es_resource Service_Run.action list" where
  "runWithPool io cfg =
     (case ledger_Migrate (ri_migrate io) of
        (e # es, tr) \<Rightarrow> after tr (fails (MigrateLedger (e # es)))
      | ([], tr) \<Rightarrow>
          after tr
            (case wh_Open (ri_warehouse io) (es_ClickHouseURL cfg) of
               (e # es, tr2) \<Rightarrow> after tr2 (fails (OpenWarehouse (e # es)))
             | ([], tr2) \<Rightarrow> deferred tr2 Warehouse (runWithWarehouse io cfg)))"

definition run :: "run_io \<Rightarrow> (string \<Rightarrow> string) \<Rightarrow> es_exit \<times> es_resource Service_Run.action list" where
  "run io getenv =
     (case loadConfig (ri_env io) getenv of
        Inl e \<Rightarrow> fails (LoadConfig e)
      | Inr cfg \<Rightarrow>
          (case ri_pool io of
             Some e \<Rightarrow> fails (CreatePool e)
           | None \<Rightarrow> deferred [Opened PgPool] PgPool (runWithPool io cfg)))"

section \<open>Resources\<close>

lemma steps_uses: "f ` set xs \<subseteq> st \<Longrightarrow> steps (map (Used \<circ> f) xs @ tr) st = steps tr st"
  by (induction xs) auto

lemma keeps_fails [resource_intros]: "keeps st (snd (fails e))"
  by (simp add: fails_def keeps_def)

lemma usedBy_open: "usedBy a \<in> {KafkaClient, Warehouse, PgPool}"
  by (cases a) simp_all

lemma pinged_open: "pinged d \<in> {KafkaClient, Warehouse, PgPool}"
  by (cases d) simp_all

lemma serve_keeps: "keeps {KafkaClient, Warehouse, PgPool} (snd (serve io cfg))"
proof -
  obtain res log where r: "Run (ri_unmarshal io) (ri_msg io) (pipelineConfig cfg) (ri_final io) (ri_its io) \<lparr>pp_pending = [], pp_deadline = 0\<rparr> [] = (res, log)" by force
  have "usedBy ` set log \<subseteq> {Listener, KafkaClient, Warehouse, PgPool}" "pinged ` set (ri_pings io) \<subseteq> {Listener, KafkaClient, Warehouse, PgPool}"
    using usedBy_open pinged_open by blast+
  then show ?thesis by (auto simp: serve_def r keeps_def steps_uses Let_def)
qed

lemma eventsink_run_keeps: "keeps {} (snd (run io getenv))"
proof -
  have c: "keeps {KafkaClient, Warehouse, PgPool} (snd (runWithClient io cfg))" for cfg
    by (auto simp: runWithClient_def intro!: resource_intros serve_keeps split: option.splits)
  have w: "keeps {Warehouse, PgPool} (snd (runWithWarehouse io cfg))" for cfg
    by (auto simp: runWithWarehouse_def intro!: resource_intros c split: option.splits)
  have p: "keeps {PgPool} (snd (runWithPool io cfg))" for cfg
  proof -
    obtain es tr where m: "ledger_Migrate (ri_migrate io) = (es, tr)" by force
    obtain es2 tr2 where o: "wh_Open (ri_warehouse io) (es_ClickHouseURL cfg) = (es2, tr2)" by force
    have tr: "keeps {PgPool} tr" using m by (auto simp: ledger_Migrate_def keeps_def Let_def split: option.splits sum.splits)
    have tr2: "if es2 = [] then steps tr2 {PgPool} = Some {Warehouse, PgPool} else keeps {PgPool} tr2"
      using o by (auto simp: wh_Open_def keeps_def Join_Nil_iff split: option.splits dsn_error.splits)
    show ?thesis
      using tr tr2 w[of cfg] by (auto simp: runWithPool_def m o intro!: resource_intros split: list.splits)
  qed
  show ?thesis
    by (auto simp: run_def intro!: resource_intros p split: sum.splits option.splits)
qed

section \<open>Dead letters and clean stops\<close>

lemma eventsink_deadLetter_topic [simp]: "k_Topic (deadLetter msg cfg r c) = DeadLetterTopic cfg"
  by (simp add: deadLetter_def)

lemma eventsink_flush_to_dlq: "dead_letters_to (DeadLetterTopic cfg) log \<Longrightarrow> dead_letters_to (DeadLetterTopic cfg) (snd (flush msg cfg env its log))"
proof -
  assume l: "dead_letters_to (DeadLetterTopic cfg) log"
  have inv: "k_Topic d = DeadLetterTopic cfg"
    if "d \<in> set (List.map_filter (\<lambda>it. case p_event it of Inl x \<Rightarrow> Some (deadLetter msg cfg (p_record it) (InvalidEvent x)) | Inr _ \<Rightarrow> None) its)" for d
    using that unfolding set_map_filter by clarify (case_tac "p_event x"; auto)
  have ins: "k_Topic d = DeadLetterTopic cfg"
    if "d \<in> set (List.map_filter (\<lambda>it. case p_event it of Inl _ \<Rightarrow> None | Inr _ \<Rightarrow> Some (deadLetter msg cfg (p_record it) (InsertFailed e))) its)" for d e
    using that unfolding set_map_filter by clarify (case_tac "p_event x"; auto)
  show ?thesis using l
    by (auto simp: flush_def Let_def dest: inv ins split: option.split retry_error.split if_split)
qed

lemma eventsink_Run_to_dlq:
  "dead_letters_to (DeadLetterTopic cfg) log \<Longrightarrow> dead_letters_to (DeadLetterTopic cfg) (snd (Run unmarshal msg cfg final its p log))"
proof (induction its arbitrary: p log)
  case Nil
  obtain e l where f: "flush msg cfg final (pp_pending p) log = (e, l)" by force
  then show ?case using eventsink_flush_to_dlq[OF Nil, of msg final "pp_pending p"] by (cases e) auto
next
  case (Cons it its)
  obtain b p1 l1 where q: "poll unmarshal cfg it p log = (b, p1, l1)" by (metis surj_pair)
  have l1: "dead_letters_to (DeadLetterTopic cfg) l1" using q Cons.prems by (auto simp: poll_def split: prod.splits if_splits)
  obtain e l2 where f: "flush msg cfg (it_flush it) (pp_pending p1) l1 = (e, l2)" by force
  have l2: "dead_letters_to (DeadLetterTopic cfg) l2" using eventsink_flush_to_dlq[OF l1, of msg "it_flush it" "pp_pending p1"] f by simp
  show ?case using q f l1 l2 Cons.IH by (auto split: bool.splits option.splits)
qed

lemma eventsink_Run_Stopped: "fst (Run unmarshal msg cfg final its p log) = Stopped \<Longrightarrow>
    \<exists>l. snd (Run unmarshal msg cfg final its p log) = l @ [AllowRebalance]"
proof (induction its arbitrary: p log)
  case Nil
  then show ?case by (auto split: prod.splits option.splits)
next
  case (Cons it its)
  then show ?case by (auto split: prod.splits option.splits bool.splits if_splits)
qed

section \<open>Properties\<close>

text \<open>(C28) A clean exit loses nothing: if \<open>run\<close> returns nil, then, whatever failures it met on the way, every record it
  ever polled has been stored in ClickHouse or produced to the dead-letter topic, the log of effects was safe
  all along, and no dead letter went to the topic the service itself consumes.\<close>

theorem eventsink_clean_exit:
  assumes "run io getenv = ((None, log), tr)"
  shows "\<exists>cfg. loadConfig (ri_env io) getenv = Inr cfg
    \<and> (\<forall>r\<in>set (polled_of log). handled (event_of (ri_unmarshal io)) (is_dead_letter (ri_msg io) (pipelineConfig cfg)) log r)
    \<and> safe_log (event_of (ri_unmarshal io)) (is_dead_letter (ri_msg io) (pipelineConfig cfg)) log
    \<and> (\<forall>ds. DeadLettered ds \<in> set log \<longrightarrow> (\<forall>d\<in>set ds. k_Topic d \<noteq> es_KafkaTopic cfg))"
proof -
  obtain cfg where c: "loadConfig (ri_env io) getenv = Inr cfg"
    using assms by (auto simp: run_def fails_def split: sum.splits)
  have s: "fst (serve io cfg) = (None, log)"
    using assms c
    by (auto simp: run_def runWithPool_def runWithWarehouse_def runWithClient_def fails_def deferred_def after_def
        split: option.splits prod.splits list.splits)
  let ?run = "Run (ri_unmarshal io) (ri_msg io) (pipelineConfig cfg) (ri_final io) (ri_its io) \<lparr>pp_pending = [], pp_deadline = 0\<rparr> []"
  have r: "fst ?run = Stopped" "snd ?run = log"
    using s by (auto simp: serve_def Let_def Join_Nil_iff split: prod.splits run_result.splits)
  let ?ev = "event_of (ri_unmarshal io)" and ?dl = "is_dead_letter (ri_msg io) (pipelineConfig cfg)"
  have safe: "safe_log ?ev ?dl log" unfolding r(2)[symmetric] by (rule pipeline_Run_safe[where rs = "[]"]) simp_all
  obtain l where l: "log = l @ [AllowRebalance]" using eventsink_Run_Stopped[OF r(1)] r(2) by auto
  have "\<forall>x\<in>set (polled_of log). handled ?ev ?dl log x" by (rule safe_log_end[OF safe l])
  moreover have "dead_letters_to (DeadLetterTopic (pipelineConfig cfg)) log" unfolding r(2)[symmetric] by (rule eventsink_Run_to_dlq) simp
  moreover have "es_KafkaTopic cfg \<noteq> es_KafkaDLQTopic cfg"
    using load_Inr[OF c[unfolded loadConfig_def]] by (auto simp: checkConfig_def split: if_splits)
  ultimately show ?thesis using c safe by (auto simp: dead_letters_to_def pipelineConfig_def)
qed

definition demo_config :: es_config where
  "demo_config = \<lparr>es_Addr = '':8012'', es_KafkaBrokers = [''localhost:19012''], es_KafkaGroup = ''eventsink'', es_KafkaTopic = ''t'',
     es_KafkaDLQTopic = ''dlq'', es_ClickHouseURL = ''clickhouse://localhost'', es_DatabaseURL = ''postgres://localhost'', es_BatchSize = 2,
     es_BatchTimeout = 10, es_MaxAttempts = 3, es_RetryBackoff = 1, es_AttemptTimeout = 1, es_ShutdownTimeout = 1\<rparr>"

text \<open>One full batch is polled and stored at the second attempt; nothing is pending when the context ends.\<close>

definition demo_run :: run_io where
  "demo_run = \<lparr>ri_env = \<lparr>GetFieldParams = Inr [], ParseEnv = (\<lambda>_. Inr demo_config)\<rparr>, ri_pool = None,
     ri_migrate = \<lparr>gs_Sub = None, gs_Locker = None, gs_Provider = None, gs_Up = Inr [1], gs_Version = Inr 1, gs_CloseDB = None\<rparr>,
     ri_warehouse = \<lparr>wh_parse = (\<lambda>_. None), wh_open = None, wh_exec = None, wh_close = None\<rparr>,
     ri_client = None, ri_register = (\<lambda>_. None), ri_listen = None, ri_unmarshal = demo_unmarshal, ri_msg = (\<lambda>_. []),
     ri_its = [demo_iter], ri_final = demo_flush, ri_pings = [DepKafka], ri_shutdown = None, ri_serve = None\<rparr>"

theorem eventsink_clean_exit_witness:
  "\<exists>log tr. run demo_run (\<lambda>_. []) = ((None, log), tr) \<and> polled_of log = [demo_record 7, demo_record 8]
    \<and> handled (event_of demo_unmarshal) (is_dead_letter (\<lambda>_. []) (pipelineConfig demo_config)) log (demo_record 8)"
proof -
  obtain err log tr where r: "run demo_run (\<lambda>_. []) = ((err, log), tr)" by (metis surj_pair)
  have "fst (fst (run demo_run (\<lambda>_. []))) = None" by code_simp
  then have r: "run demo_run (\<lambda>_. []) = ((None, log), tr)" using r by simp
  have "polled_of (snd (fst (run demo_run (\<lambda>_. [])))) = [demo_record 7, demo_record 8]" by code_simp
  then have p: "polled_of log = [demo_record 7, demo_record 8]" using r by simp
  have c: "loadConfig (ri_env demo_run) (\<lambda>_. []) = Inr demo_config" by code_simp
  have "handled (event_of demo_unmarshal) (is_dead_letter (\<lambda>_. []) (pipelineConfig demo_config)) log (demo_record 8)"
    using eventsink_clean_exit[OF r] c p by (auto simp: demo_run_def)
  then show ?thesis using r p by blast
qed

text \<open>The health endpoint reports every dependency exactly once, with its error or ok, whatever the order in which
  the concurrent pings end, and answers 200 exactly if all of them succeed.\<close>

theorem health_reports_every_dependency:
  assumes "distinct (map fst results)" and "mset results' = mset results"
  shows "handleHealth results' = handleHealth results
    \<and> (fst (handleHealth results) = 200 \<longleftrightarrow> (\<forall>r\<in>set results. snd r = None))
    \<and> fst (handleHealth results) \<in> {200, 503}
    \<and> (hr_Status (snd (handleHealth results)) = ''ok'' \<longleftrightarrow> fst (handleHealth results) = 200)
    \<and> hr_Dependencies (snd (handleHealth results)) = map_option pingText \<circ> map_of results"
proof -
  have st: "set results' = set results" using assms(2) by (rule mset_eq_setD)
  have d: "distinct (map fst results')"
    using assms mset_map[of fst] by (metis mset_eq_imp_distinct_iff)
  have m: "map_of results' = map_of results" using d assms(1) st by (rule map_of_inject_set[THEN iffD2])
  have f: "failed results' = failed results" "failed results \<longleftrightarrow> \<not> (\<forall>r\<in>set results. snd r = None)"
    by (simp_all add: failed_def list_ex_iff st)
  show ?thesis
    unfolding handleHealth_def collectHealth_result[OF d] collectHealth_result[OF assms(1)] m f(1) using f(2) by simp
qed

theorem health_reports_every_dependency_witness:
  "fst (handleHealth [(''kafka'', None), (''postgres'', Some ''refused''), (''clickhouse'', None)]) = 503
    \<and> handleHealth [(''clickhouse'', None), (''kafka'', None), (''postgres'', Some ''refused'')]
      = handleHealth [(''kafka'', None), (''postgres'', Some ''refused''), (''clickhouse'', None)]"
proof -
  let ?a = "[(''kafka'', None), (''postgres'', Some ''refused''), (''clickhouse'', None)]"
  let ?b = "[(''clickhouse'', None), (''kafka'', None), (''postgres'', Some ''refused'')]"
  have h: "distinct (map fst ?a)" "mset ?b = mset ?a" by simp_all
  show ?thesis using health_reports_every_dependency[OF h] by auto
qed

end
