(* ===== verification/Pool_Service.thy ===== *)
theory Pool_Service
  imports Delivery Service_Run
begin

text \<open>
  App 04: \<^verbatim>\<open>cmd/worker-pool/main.go\<close>. The configuration and what it guarantees, the HTTP client, and \<open>run\<close>: it serves
  until a signal or an error, closes the queue, and waits for the pool and the recorder.

  The goroutines are the events of \<open>sys_step\<close>; a run is given by the events up to the closing of the queue and those
  after it. \<open>Exited\<close> is only reached when the pool and the recorder have ended.
\<close>

section \<open>Configuration\<close>

record wp_config =
  wp_Addr :: string
  wp_Workers :: int
  wp_QueueSize :: int
  wp_MaxAttempts :: int
  wp_BackoffBase :: duration
  wp_BackoffMax :: duration
  wp_AttemptTimeout :: duration
  wp_DrainTimeout :: duration
  wp_ShutdownTimeout :: duration
  wp_ResultRetention :: duration
  wp_MaxBodyBytes :: int

datatype invalid =
    BadWorkers int | BadQueueSize int | BadMaxAttempts int | BadBackoff duration duration
  | BadAttemptTimeout duration | BadResultRetention duration | BadMaxBodyBytes int

definition validate :: "wp_config \<Rightarrow> invalid list" where
  "validate c = Join
     [if wp_Workers c < 1 then Some (BadWorkers (wp_Workers c)) else None,
      if wp_QueueSize c < 1 then Some (BadQueueSize (wp_QueueSize c)) else None,
      if wp_MaxAttempts c < 1 then Some (BadMaxAttempts (wp_MaxAttempts c)) else None,
      if wp_BackoffBase c \<le> 0 \<or> wp_BackoffMax c < wp_BackoffBase c then Some (BadBackoff (wp_BackoffBase c) (wp_BackoffMax c)) else None,
      if wp_AttemptTimeout c \<le> 0 then Some (BadAttemptTimeout (wp_AttemptTimeout c)) else None,
      if wp_ResultRetention c \<le> 0 then Some (BadResultRetention (wp_ResultRetention c)) else None,
      if wp_MaxBodyBytes c < 1 then Some (BadMaxBodyBytes (wp_MaxBodyBytes c)) else None]"

definition loadConfig :: "wp_config env_lib \<Rightarrow> (string \<Rightarrow> string) \<Rightarrow> invalid list config_error + wp_config" where
  "loadConfig lib getenv = load lib (\<lambda>c. if validate c \<noteq> [] then Some (validate c) else None) getenv"

section \<open>HTTP client\<close>

text \<open>\<open>CheckRedirect\<close> decides after a redirect response; \<^verbatim>\<open>ErrUseLastResponse\<close> makes the client return that response.
  \<open>hops\<close> are the status codes along the chain of redirects; 301, 302, 303, 307 and 308 are redirects.\<close>

datatype redirect = UseLastResponse | FollowRedirect

definition newClient :: redirect where
  "newClient = UseLastResponse"

fun httpDo :: "redirect \<Rightarrow> int \<Rightarrow> int list \<Rightarrow> http_outcome" where
  "httpDo c code [] = Code code"
| "httpDo c code (next # hops) =
     (if code \<in> {301, 302, 303, 307, 308} \<and> c = FollowRedirect then httpDo c next hops else Code code)"

section \<open>Serve and run\<close>

text \<open>\<open>wp_serve\<close> is the error with which \<^verbatim>\<open>srv.Serve\<close> ended before the context, if it did;
  \<open>wp_maxTasks\<close> and \<open>wp_maxResults\<close> are the limits of \<open>make\<close> for the channel of tasks and of results.\<close>

record run_io =
  wp_env :: "wp_config env_lib"
  wp_maxTasks :: int
  wp_maxResults :: int
  wp_listen :: "gerr option"
  wp_rand :: "int \<Rightarrow> int"
  wp_msg :: "deliver_error \<Rightarrow> string"
  wp_serving :: "sys_event list"
  wp_serve :: "gerr option"
  wp_shutdown :: "gerr option"
  wp_draining :: "sys_event list"

datatype serve_error = ServeHTTP gerr | ShutdownHTTP gerr

definition serve :: "run_io \<Rightarrow> serve_error list" where
  "serve io = Join [map_option ServeHTTP (wp_serve io), map_option ShutdownHTTP (wp_shutdown io)]"

datatype wp_error = LoadConfig "invalid list config_error" | Listen gerr | Serve "serve_error list"

datatype wp_exit = Exited "wp_error option" "sys option" | Panicked | Draining sys | NotAnExecution

definition poolConfig :: "run_io \<Rightarrow> wp_config \<Rightarrow> Config" where
  "poolConfig io cfg =
     \<lparr>Workers = wp_Workers cfg, MaxAttempts = wp_MaxAttempts cfg, AttemptTimeout = wp_AttemptTimeout cfg,
      Backoff = \<lparr>p_Base = wp_BackoffBase cfg, p_Max = wp_BackoffMax cfg, p_Rand = wp_rand io\<rparr>\<rparr>"

fun runEvents :: "Config \<Rightarrow> (deliver_error \<Rightarrow> string) \<Rightarrow> sys_event list \<Rightarrow> sys \<Rightarrow> sys option" where
  "runEvents cfg msg [] s = Some s"
| "runEvents cfg msg (e # es) s = (case sys_step cfg msg e s of None \<Rightarrow> None | Some s' \<Rightarrow> runEvents cfg msg es s')"

text \<open>The pool has ended and its results are recorded: \<^verbatim>\<open>poolDone\<close> and \<^verbatim>\<open>recorderDone\<close>.\<close>

definition drained :: "sys \<Rightarrow> bool" where
  "drained s \<longleftrightarrow> q_closed (s_queue s) \<and> q_tasks (s_queue s) = [] \<and> s_picked s = None \<and> s_active s = [] \<and> s_results s = []"

text \<open>The queue and the channel of results panic when they cannot be made, the recorder's ticker when its period is not
  positive.\<close>

definition run :: "run_io \<Rightarrow> (string \<Rightarrow> string) \<Rightarrow> wp_exit" where
  "run io getenv =
     (case loadConfig (wp_env io) getenv of
        Inl e \<Rightarrow> Exited (Some (LoadConfig e)) None
      | Inr cfg \<Rightarrow>
     (case wp_listen io of
        Some e \<Rightarrow> Exited (Some (Listen e)) None
      | None \<Rightarrow>
     (case NewQueue (wp_maxTasks io) (wp_QueueSize cfg) of
        None \<Rightarrow> Panicked
      | Some queue \<Rightarrow>
          if \<not> makeable (wp_maxResults io) (wp_Workers cfg) \<or> min (wp_ResultRetention cfg) 60000000000 \<le> 0 then Panicked
          else
            (case runEvents (poolConfig io cfg) (wp_msg io) (wp_serving io @ EvClose # wp_draining io) (sys_init queue (wp_ResultRetention cfg)) of
               None \<Rightarrow> NotAnExecution
             | Some s \<Rightarrow>
                 if drained s then Exited (if serve io = [] then None else Some (Serve (serve io))) (Some s)
                 else Draining s))))"

section \<open>Lemmas\<close>

lemma runEvents_steps: "runEvents cfg msg es s = Some s' \<longleftrightarrow> sys_steps cfg msg s es s'"
proof (induction es arbitrary: s)
  case Nil
  show ?case by (auto intro: sys_steps.nil elim: sys_steps.cases)
next
  case (Cons e es)
  show ?case
  proof
    assume "runEvents cfg msg (e # es) s = Some s'"
    then obtain s1 where "sys_step cfg msg e s = Some s1" "runEvents cfg msg es s1 = Some s'" by (cases "sys_step cfg msg e s") auto
    then show "sys_steps cfg msg s (e # es) s'" using Cons.IH by (blast intro: sys_steps.step)
  next
    assume "sys_steps cfg msg s (e # es) s'"
    then obtain s1 where "sys_step cfg msg e s = Some s1" "sys_steps cfg msg s1 es s'" by (rule sys_steps_ConsE)
    then show "runEvents cfg msg (e # es) s = Some s'" using Cons.IH by simp
  qed
qed

lemma runEvents_append: "runEvents cfg msg (xs @ ys) s = (case runEvents cfg msg xs s of None \<Rightarrow> None | Some s' \<Rightarrow> runEvents cfg msg ys s')"
  by (induction xs arbitrary: s) (auto split: option.splits)

text \<open>What a loaded configuration guarantees.\<close>

lemma pool_loadConfig_valid:
  assumes "loadConfig lib getenv = Inr cfg"
  shows "1 \<le> wp_Workers cfg" "1 \<le> wp_QueueSize cfg" "1 \<le> wp_MaxAttempts cfg" "0 < wp_BackoffBase cfg"
    "wp_BackoffBase cfg \<le> wp_BackoffMax cfg" "0 < wp_AttemptTimeout cfg" "0 < wp_ResultRetention cfg" "1 \<le> wp_MaxBodyBytes cfg"
proof -
  have "validate cfg = []" using load_Inr[OF assms[unfolded loadConfig_def]] by (simp split: if_splits)
  then show "1 \<le> wp_Workers cfg" "1 \<le> wp_QueueSize cfg" "1 \<le> wp_MaxAttempts cfg" "0 < wp_BackoffBase cfg"
    "wp_BackoffBase cfg \<le> wp_BackoffMax cfg" "0 < wp_AttemptTimeout cfg" "0 < wp_ResultRetention cfg" "1 \<le> wp_MaxBodyBytes cfg"
    unfolding validate_def Join_Nil_iff list.pred_inject check_None by linarith+
qed

lemma step_keeps_closed:
  assumes "sys_step cfg msg e s = Some s'" and "q_closed (s_queue s)"
  shows "q_closed (s_queue s')"
proof (cases e)
  case (EvTrack t now)
  then show ?thesis using assms by (auto split: if_splits)
next
  case (EvPush t)
  then show ?thesis using assms by (auto simp: Push_def split: if_splits)
next
  case EvRecv
  then show ?thesis using assms by (auto simp: queue_recv_def split: if_splits list.splits)
next
  case EvSpawn
  then show ?thesis using assms by (auto split: if_splits option.splits)
next
  case (EvDeliver t c0 env)
  then show ?thesis using assms by (auto split: if_splits option.splits)
next
  case (EvApply now)
  then show ?thesis using assms by (auto split: list.splits)
next
  case (EvEvict now)
  then show ?thesis using assms by auto
next
  case EvClose
  then show ?thesis using assms by (auto simp: queue_Close_def)
qed

lemma runEvents_closed: "runEvents cfg msg es s = Some s' \<Longrightarrow> q_closed (s_queue s) \<Longrightarrow> q_closed (s_queue s')"
proof (induction es arbitrary: s)
  case (Cons e es)
  obtain s1 where "sys_step cfg msg e s = Some s1" "runEvents cfg msg es s1 = Some s'" using Cons.prems(1) by (auto split: option.splits)
  then show ?case using Cons.IH Cons.prems(2) step_keeps_closed by blast
qed simp

lemma pending_empty_drained: "pending s = {#} \<Longrightarrow> q_closed (s_queue s) \<Longrightarrow> drained s"
  by (auto simp: pending_def drained_def split: option.splits)

lemma drained_pending: "drained s \<Longrightarrow> pending s = {#}"
  by (simp add: pending_def drained_def)

lemma service_inv:
  assumes "loadConfig lib getenv = Inr cfg" and "NewQueue limit (wp_QueueSize cfg) = Some q"
    and "runEvents (poolConfig io cfg) msg es (sys_init q ret) = Some s"
  shows "sys_inv (poolConfig io cfg) s \<and> final_inv s"
proof -
  have w: "0 \<le> Workers (poolConfig io cfg)" using pool_loadConfig_valid(1)[OF assms(1)] by (simp add: poolConfig_def)
  note r = assms(3)[unfolded runEvents_steps] and i = sys_init_inv[OF assms(2) w]
  have "final_inv (sys_init q ret)" by (simp add: final_inv_def sys_init_def)
  then show ?thesis using sys_steps_inv[OF r i] sys_steps_final[OF r i] by blast
qed

lemma accepted_distinct:
  assumes "sys_inv cfg s"
  shows "distinct (s_accepted s)"
proof (rule distinct_count_le1)
  fix x
  have "mset (s_accepted s) = pending s + mset (s_applied s)" using assms by (simp add: sys_inv_def)
  then have "count (mset (s_accepted s)) x \<le> count (open_ids s + mset (s_applied s)) x" by (simp add: open_ids_def)
  also have "\<dots> \<le> (if x \<in> set (s_used s) then 1 else 0)" using assms unfolding sys_inv_def ids_ok_def by blast
  also have "\<dots> \<le> 1" by simp
  finally show "count (mset (s_accepted s)) x \<le> 1" .
qed

lemma pool_run_panics:
  assumes "loadConfig (wp_env io) getenv = Inr cfg" and "wp_listen io = None"
  shows "run io getenv = Panicked \<longleftrightarrow> wp_maxTasks io < wp_QueueSize cfg \<or> wp_maxResults io < wp_Workers cfg"
  using assms pool_loadConfig_valid[OF assms(1)]
  by (auto simp: run_def NewQueue_def makeable_def split: option.splits)

lemma pool_run_drains:
  assumes "loadConfig (wp_env io) getenv = Inr cfg" and "wp_listen io = None"
    and "NewQueue (wp_maxTasks io) (wp_QueueSize cfg) = Some q" and "wp_Workers cfg \<le> wp_maxResults io"
    and "runEvents (poolConfig io cfg) (wp_msg io) (wp_serving io @ EvClose # wp_draining io) (sys_init q (wp_ResultRetention cfg)) = Some s"
  shows "run io getenv = (if drained s then Exited (if serve io = [] then None else Some (Serve (serve io))) (Some s) else Draining s)"
  using assms pool_loadConfig_valid[OF assms(1)] by (simp add: run_def makeable_def)

lemma drained_recorded:
  assumes "sys_inv cfg s" and "final_inv s" and "drained s"
  shows "mset (s_applied s) = mset (s_accepted s) \<and> distinct (s_accepted s) \<and> (\<forall>i\<in>set (s_accepted s). \<not> queued_rec (s_rec s) i)"
proof -
  have m: "mset (s_applied s) = mset (s_accepted s)" using assms(1) drained_pending[OF assms(3)] by (simp add: sys_inv_def)
  then have "set (s_applied s) = set (s_accepted s)" by (rule mset_eq_setD)
  then show ?thesis using m accepted_distinct[OF assms(1)] assms(2) by (simp add: final_inv_def)
qed

section \<open>Properties\<close>

text \<open>(C29) Shutdown loses no delivery. With a configuration that loads, \<open>run\<close> panics exactly when QUEUE_SIZE or WORKERS, which
  have no upper bound, is more than \<open>make\<close> can allocate for a channel. Otherwise, when it returns, every delivery
  accepted since the start has its result recorded, exactly once, and no record still reads queued for it. And it
  does return: however the requests and workers were interleaved until the queue was closed, at most \<open>distance\<close>
  steps of the pool and the recorder remain, while the pool has not ended one of them is possible, and once none is
  possible \<open>run\<close> has returned.\<close>

theorem worker_pool_shutdown:
  assumes "loadConfig (wp_env io) getenv = Inr cfg" and "wp_listen io = None"
  shows "(run io getenv = Panicked \<longleftrightarrow> wp_maxTasks io < wp_QueueSize cfg \<or> wp_maxResults io < wp_Workers cfg)
    \<and> (\<forall>q s1 s2. NewQueue (wp_maxTasks io) (wp_QueueSize cfg) = Some q \<and> wp_Workers cfg \<le> wp_maxResults io
        \<and> runEvents (poolConfig io cfg) (wp_msg io) (wp_serving io @ [EvClose]) (sys_init q (wp_ResultRetention cfg)) = Some s1
        \<and> runEvents (poolConfig io cfg) (wp_msg io) (wp_draining io) s1 = Some s2 \<longrightarrow>
          run io getenv \<noteq> Panicked \<and> run io getenv \<noteq> NotAnExecution
          \<and> (\<forall>err s. run io getenv = Exited err (Some s) \<longrightarrow> s = s2 \<and> mset (s_applied s2) = mset (s_accepted s2) \<and> distinct (s_accepted s2)
                \<and> (\<forall>i\<in>set (s_accepted s2). \<not> queued_rec (s_rec s2) i))
          \<and> (list_all pool_event (wp_draining io) \<longrightarrow> length (wp_draining io) \<le> distance s1)
          \<and> ((\<forall>e. pool_event e \<longrightarrow> sys_step (poolConfig io cfg) (wp_msg io) e s2 = None) \<longrightarrow> (\<exists>err. run io getenv = Exited err (Some s2))))"
proof (intro conjI[OF pool_run_panics[OF assms]] allI impI, elim conjE)
  fix q s1 s2
  let ?pc = "poolConfig io cfg"
  assume q: "NewQueue (wp_maxTasks io) (wp_QueueSize cfg) = Some q" and w: "wp_Workers cfg \<le> wp_maxResults io"
    and s1: "runEvents ?pc (wp_msg io) (wp_serving io @ [EvClose]) (sys_init q (wp_ResultRetention cfg)) = Some s1"
    and s2: "runEvents ?pc (wp_msg io) (wp_draining io) s1 = Some s2"
  have e: "runEvents ?pc (wp_msg io) (wp_serving io @ EvClose # wp_draining io) (sys_init q (wp_ResultRetention cfg)) = Some s2"
    using s1 s2 runEvents_append[of ?pc "wp_msg io" "wp_serving io @ [EvClose]" "wp_draining io"] by simp
  note r = pool_run_drains[OF assms q w e] and i = service_inv[OF assms(1) q e]
  have "q_closed (s_queue s1)"
    using s1 by (auto simp: runEvents_append queue_Close_def split: option.splits)
  then have cl: "q_closed (s_queue s2)" by (rule runEvents_closed[OF s2])
  have stuck: "drained s2" if "\<forall>e. pool_event e \<longrightarrow> sys_step ?pc (wp_msg io) e s2 = None"
  proof (rule pending_empty_drained[OF _ cl], rule ccontr)
    assume p: "pending s2 \<noteq> {#}"
    have "1 \<le> Workers ?pc" using pool_loadConfig_valid(1)[OF assms(1)] by (simp add: poolConfig_def)
    from pool_not_stuck[OF this sys_inv_bounds[OF conjunct1[OF i]] p, of "wp_msg io"] obtain e
      where "pool_event e" "sys_step ?pc (wp_msg io) e s2 \<noteq> None" by blast
    then show False using that by simp
  qed
  have "length (wp_draining io) \<le> distance s1" if "list_all pool_event (wp_draining io)"
    using pool_run_length[OF s2[unfolded runEvents_steps] that] by simp
  then show "run io getenv \<noteq> Panicked \<and> run io getenv \<noteq> NotAnExecution
      \<and> (\<forall>err s. run io getenv = Exited err (Some s) \<longrightarrow> s = s2 \<and> mset (s_applied s2) = mset (s_accepted s2) \<and> distinct (s_accepted s2)
            \<and> (\<forall>i\<in>set (s_accepted s2). \<not> queued_rec (s_rec s2) i))
      \<and> (list_all pool_event (wp_draining io) \<longrightarrow> length (wp_draining io) \<le> distance s1)
      \<and> ((\<forall>e. pool_event e \<longrightarrow> sys_step ?pc (wp_msg io) e s2 = None) \<longrightarrow> (\<exists>err. run io getenv = Exited err (Some s2)))"
    using r drained_recorded[OF conjunct1[OF i] conjunct2[OF i]] stuck by simp
qed

definition demo_config :: wp_config where
  "demo_config = \<lparr>wp_Addr = '':8080'', wp_Workers = 1, wp_QueueSize = 1, wp_MaxAttempts = 2, wp_BackoffBase = 1, wp_BackoffMax = 4,
     wp_AttemptTimeout = 1, wp_DrainTimeout = 1, wp_ShutdownTimeout = 1, wp_ResultRetention = 10, wp_MaxBodyBytes = 100\<rparr>"

definition demo_run :: run_io where
  "demo_run = \<lparr>wp_env = \<lparr>GetFieldParams = Inr [''WORKERS''], ParseEnv = (\<lambda>_. Inr demo_config)\<rparr>, wp_maxTasks = 1000, wp_maxResults = 1000, wp_listen = None, wp_rand = (\<lambda>_. 0),
     wp_msg = (\<lambda>_. []), wp_serving = [EvTrack demo_task 0, EvPush demo_task], wp_serve = None, wp_shutdown = Some ''timeout'',
     wp_draining = [EvRecv, EvSpawn, EvDeliver demo_task None (\<lambda>_. \<lparr>sleep_cut = None, outcome = httpDo newClient 200 [], ctx_after = None\<rparr>), EvApply 3]\<rparr>"

theorem worker_pool_shutdown_witness:
  "\<exists>s. run demo_run (\<lambda>_. []) = Exited (Some (Serve [ShutdownHTTP ''timeout''])) (Some s)
    \<and> s_applied s = [''a''] \<and> mset (s_accepted s) = {#''a''#}"
proof -
  let ?c = "poolConfig demo_run demo_config" and ?m = "wp_msg demo_run"
  let ?es = "wp_serving demo_run @ [EvClose]" and ?s0 = "sys_init demo_queue (wp_ResultRetention demo_config)"
  have c: "loadConfig (wp_env demo_run) (\<lambda>_. []) = Inr demo_config" by code_simp
  have q: "NewQueue (wp_maxTasks demo_run) (wp_QueueSize demo_config) = Some demo_queue" "wp_Workers demo_config \<le> wp_maxResults demo_run"
    by (simp_all add: NewQueue_def makeable_def demo_queue_def demo_config_def demo_run_def)
  have "case run demo_run (\<lambda>_. []) of Exited err (Some s) \<Rightarrow> err = Some (Serve [ShutdownHTTP ''timeout'']) \<and> s_applied s = [''a''] | _ \<Rightarrow> False"
    by code_simp
  then obtain s where r: "run demo_run (\<lambda>_. []) = Exited (Some (Serve [ShutdownHTTP ''timeout''])) (Some s)" "s_applied s = [''a'']"
    by (auto split: wp_exit.splits option.splits)
  have "(case runEvents ?c ?m ?es ?s0 of None \<Rightarrow> None | Some s1 \<Rightarrow> map_option s_applied (runEvents ?c ?m (wp_draining demo_run) s1)) \<noteq> None"
    by code_simp
  then obtain s1 s2 where e: "runEvents ?c ?m ?es ?s0 = Some s1" "runEvents ?c ?m (wp_draining demo_run) s1 = Some s2"
    by (auto split: option.splits)
  have "wp_listen demo_run = None" by (simp add: demo_run_def)
  from worker_pool_shutdown[OF c this] q e r show ?thesis by auto
qed

end
