(* ===== verification/Proxy_Flights.thy ===== *)
theory Proxy_Flights
  imports Lru_Proxy "HOL-Library.Multiset"
begin

text \<open>
  Concurrent requests of the proxy of app 05 (\<^verbatim>\<open>internal/proxy/proxy.go\<close>).

  \<open>Lru_Proxy\<close> follows one request at a time. Here the requests, the flights of \<^verbatim>\<open>singleflight\<close> and the janitor interleave: a
  request looks its key up, joins or starts the flight of the key, and is answered when the flight returns or leaves when its
  context ends; a flight peeks, fetches, stores and returns. Each of these is one event, atomic because the cache and
  the group of flights each have a mutex. Of \<^verbatim>\<open>singleflight\<close> the model has the documented contract: a call for a key in flight
  waits for that flight, and all its callers get the one result; \<open>gw_step\<close> is undefined on an event that is not possible. The locale
  \<open>timed_cache\<close> extends \<open>ttl_cache\<close> by the age of what a cache shows.
\<close>

section \<open>The gateway\<close>

text \<open>A flight has been started, has missed in its own look at the cache, or has its result.\<close>

datatype flight_state = Started | Fetching | Ended "fetch_error + Response"

text \<open>Requests are numbered in the order they arrive; \<open>g_missed\<close> have not reached \<open>DoChan\<close> yet.\<close>

record gateway =
  g_cache :: proxy_cache
  g_next :: nat
  g_missed :: "(nat \<times> string) list"
  g_waiting :: "(nat \<times> string) list"
  g_flights :: "string \<Rightarrow> flight_state option"

definition gw_init :: "proxy_cache \<Rightarrow> gateway" where
  "gw_init c = \<lparr>g_cache = c, g_next = 0, g_missed = [], g_waiting = [], g_flights = (\<lambda>_. None)\<rparr>"

datatype gw_event =
    Lookup url gotime
  | DoChan nat
  | FlightPeek string gotime
  | FlightFetched string upstream gotime
  | FlightReturn string
  | Leave nat bool
  | PurgeRequest url
  | StatsRequest
  | SweepTick gotime

datatype gw_out = ToRequest nat proxy_reply | ToPurge proxy_reply | ToStats statsResponse | Swept int

definition flight_reply :: "fetch_error + Response \<Rightarrow> proxy_reply" where
  "flight_reply res = (case res of Inl err \<Rightarrow> proxy_writeError err | Inr resp \<Rightarrow> serve resp False)"

fun gw_step :: "int \<Rightarrow> gw_event \<Rightarrow> gateway \<Rightarrow> (gw_out list \<times> gateway) option" where
  "gw_step maxBody (Lookup u now) g =
     (case Get (g_cache g) (requestKey u) now of
        (c, Some resp, _) \<Rightarrow> Some ([ToRequest (g_next g) (serve resp True)], g\<lparr>g_cache := c, g_next := Suc (g_next g)\<rparr>)
      | (c, None, _) \<Rightarrow>
          Some ([], g\<lparr>g_cache := c, g_next := Suc (g_next g), g_missed := g_missed g @ [(g_next g, requestKey u)]\<rparr>))"
| "gw_step maxBody (DoChan n) g =
     (case map_of (g_missed g) n of
        None \<Rightarrow> None
      | Some key \<Rightarrow>
          Some ([], g\<lparr>g_missed := filter (\<lambda>(i, _). i \<noteq> n) (g_missed g), g_waiting := g_waiting g @ [(n, key)],
                      g_flights := (if g_flights g key = None then (g_flights g)(key \<mapsto> Started) else g_flights g)\<rparr>))"
| "gw_step maxBody (FlightPeek key now) g =
     (if g_flights g key \<noteq> Some Started then None
      else Some ([], g\<lparr>g_flights := (g_flights g)(key \<mapsto>
              (case Peek (g_cache g) key now of Some resp \<Rightarrow> Ended (Inr resp) | None \<Rightarrow> Fetching))\<rparr>))"
| "gw_step maxBody (FlightFetched key up now) g =
     (if g_flights g key \<noteq> Some Fetching then None
      else case fetch maxBody up of
        Inl err \<Rightarrow> Some ([], g\<lparr>g_flights := (g_flights g)(key \<mapsto> Ended (Inl err))\<rparr>)
      | Inr resp \<Rightarrow>
          Some ([], g\<lparr>g_cache := (if r_status resp = 200 then fst (Set (g_cache g) key resp now now) else g_cache g),
                      g_flights := (g_flights g)(key \<mapsto> Ended (Inr resp))\<rparr>))"
| "gw_step maxBody (FlightReturn key) g =
     (case g_flights g key of
        Some (Ended res) \<Rightarrow>
          Some (map (\<lambda>(n, _). ToRequest n (flight_reply res)) (filter (\<lambda>(_, k). k = key) (g_waiting g)),
                g\<lparr>g_waiting := filter (\<lambda>(_, k). k \<noteq> key) (g_waiting g), g_flights := (g_flights g)(key := None)\<rparr>)
      | _ \<Rightarrow> None)"
| "gw_step maxBody (Leave n canceled) g =
     (case map_of (g_waiting g) n of
        None \<Rightarrow> None
      | Some _ \<Rightarrow>
          Some ([ToRequest n (proxy_writeError \<lparr>fe_stage = WaitForUpstream, fe_canceled = canceled, fe_timeout = \<not> canceled\<rparr>)],
                g\<lparr>g_waiting := filter (\<lambda>(i, _). i \<noteq> n) (g_waiting g)\<rparr>))"
| "gw_step maxBody (PurgeRequest u) g =
     (case handlePurge (g_cache g) u of (reply, c) \<Rightarrow> Some ([ToPurge reply], g\<lparr>g_cache := c\<rparr>))"
| "gw_step maxBody StatsRequest g = Some ([ToStats (handleStats (g_cache g))], g)"
| "gw_step maxBody (SweepTick now) g =
     (case DeleteExpired (g_cache g) now of (c, n, _) \<Rightarrow> Some ([Swept n], g\<lparr>g_cache := c\<rparr>))"

fun gw_run :: "int \<Rightarrow> gw_event list \<Rightarrow> gateway \<Rightarrow> (gw_out list list \<times> gateway) option" where
  "gw_run maxBody [] g = Some ([], g)"
| "gw_run maxBody (e # es) g =
     (case gw_step maxBody e g of
        None \<Rightarrow> None
      | Some (out, g1) \<Rightarrow> (case gw_run maxBody es g1 of None \<Rightarrow> None | Some (outs, g2) \<Rightarrow> Some (out # outs, g2)))"

section \<open>What may be served\<close>

text \<open>Who asks for which key, and what the flights have stored and the purges not removed since, with the time of storing.\<close>

fun requests :: "gw_event list \<Rightarrow> string list" where
  "requests [] = []"
| "requests (Lookup u _ # es) = requestKey u # requests es"
| "requests (_ # es) = requests es"

fun store_event :: "int \<Rightarrow> gw_event \<Rightarrow> (string \<rightharpoonup> Response \<times> gotime) \<Rightarrow> (string \<rightharpoonup> Response \<times> gotime)" where
  "store_event maxBody (FlightFetched key up now) m =
     (case fetch maxBody up of Inr resp \<Rightarrow> if r_status resp = 200 then m(key \<mapsto> (resp, now)) else m | Inl _ \<Rightarrow> m)"
| "store_event maxBody (PurgeRequest u) m = m(requestKey u := None)"
| "store_event maxBody _ m = m"

definition stored :: "int \<Rightarrow> gw_event list \<Rightarrow> (string \<rightharpoonup> Response \<times> gotime)" where
  "stored maxBody es = fold (store_event maxBody) es Map.empty"

text \<open>The event gives the response for the key: it fetches it, or sees it stored and younger than the time to live \<open>d\<close>.\<close>

fun gives :: "int \<Rightarrow> duration \<Rightarrow> gw_event list \<Rightarrow> gw_event \<Rightarrow> string \<Rightarrow> Response \<Rightarrow> bool" where
  "gives maxBody d past (Lookup u now) key resp \<longleftrightarrow> requestKey u = key \<and>
     (case stored maxBody past key of None \<Rightarrow> False | Some (r, t) \<Rightarrow> r = resp \<and> (0 < d \<longrightarrow> now < t + d))"
| "gives maxBody d past (FlightPeek k now) key resp \<longleftrightarrow> k = key \<and>
     (case stored maxBody past key of None \<Rightarrow> False | Some (r, t) \<Rightarrow> r = resp \<and> (0 < d \<longrightarrow> now < t + d))"
| "gives maxBody d past (FlightFetched k up now) key resp \<longleftrightarrow> k = key \<and> fetch maxBody up = Inr resp"
| "gives maxBody d past _ key resp \<longleftrightarrow> False"

section \<open>Caches that show nothing old\<close>

locale timed_cache = ttl_cache inv fresh peek cget cset cremove
  for inv :: "'c \<Rightarrow> bool"
    and fresh :: "'c \<Rightarrow> gotime \<Rightarrow> gotime \<Rightarrow> bool"
    and peek :: "'c \<Rightarrow> 'k \<Rightarrow> gotime \<Rightarrow> 'v option"
    and cget :: "'c \<Rightarrow> 'k \<Rightarrow> gotime \<Rightarrow> 'c \<times> 'v option \<times> 'n"
    and cset :: "'c \<Rightarrow> 'k \<Rightarrow> 'v \<Rightarrow> gotime \<Rightarrow> gotime \<Rightarrow> 'c \<times> 'n"
    and cremove :: "'c \<Rightarrow> 'k \<Rightarrow> 'c \<times> bool \<times> 'n" +
  fixes csweep :: "'c \<Rightarrow> gotime \<Rightarrow> 'c \<times> 'm"
  assumes sweep_inv: "inv c \<Longrightarrow> inv (fst (csweep c t))"
    and sweep_only: "inv c \<Longrightarrow> peek (fst (csweep c t)) k t' = Some w \<Longrightarrow> peek c k t' = Some w"
    and set_fresh: "inv c \<Longrightarrow> peek (fst (cset c k v t t2)) k t' = Some w \<Longrightarrow> fresh c t t'"
    and fresh_get: "inv c \<Longrightarrow> fresh (fst (cget c k t)) = fresh c"
    and fresh_set: "inv c \<Longrightarrow> fresh (fst (cset c k v t t2)) = fresh c"
    and fresh_remove: "inv c \<Longrightarrow> fresh (fst (cremove c k)) = fresh c"
    and fresh_sweep: "inv c \<Longrightarrow> fresh (fst (csweep c t)) = fresh c"
begin

text \<open>What the cache shows at any time is in \<open>m\<close> and was stored recently enough.\<close>

definition shows_only :: "'c \<Rightarrow> ('k \<rightharpoonup> 'v \<times> gotime) \<Rightarrow> bool" where
  "shows_only c m \<longleftrightarrow> inv c \<and> (\<forall>k now v. peek c k now = Some v \<longrightarrow> (\<exists>t. m k = Some (v, t) \<and> fresh c t now))"

lemma shows_inv: "shows_only c m \<Longrightarrow> inv c"
  by (simp add: shows_only_def)

lemma shows_peek: "shows_only c m \<Longrightarrow> peek c k now = Some v \<Longrightarrow> \<exists>t. m k = Some (v, t) \<and> fresh c t now"
  by (simp add: shows_only_def)

lemma shows_get: "shows_only c m \<Longrightarrow> shows_only (fst (cget c k t)) m"
  using get_inv get_only fresh_get unfolding shows_only_def by metis

lemma shows_set:
  assumes "shows_only c m"
  shows "shows_only (fst (cset c k v t t2)) (m(k \<mapsto> (v, t)))"
proof -
  note i = shows_inv[OF assms]
  have "\<exists>s. (m(k \<mapsto> (v, t))) k' = Some (w, s) \<and> fresh c s now" if "peek (fst (cset c k v t t2)) k' now = Some w" for k' now w
  proof (cases "k' = k")
    case True
    then show ?thesis using set_same_only[OF i, of k v t t2 now w] set_fresh[OF i, of k v t t2 now w] that by simp
  next
    case False
    then show ?thesis using shows_peek[OF assms set_other[OF i False that]] by simp
  qed
  then show ?thesis using set_inv[OF i] by (simp add: shows_only_def fresh_set[OF i])
qed

lemma shows_remove: "shows_only c m \<Longrightarrow> shows_only (fst (cremove c k)) (m(k := None))"
  using remove_inv remove_peek fresh_remove unfolding shows_only_def by auto

lemma shows_sweep: "shows_only c m \<Longrightarrow> shows_only (fst (csweep c t)) m"
  using sweep_inv sweep_only fresh_sweep unfolding shows_only_def by metis

end

lemma DeleteExpired_entries:
  assumes "cache_inv c"
  shows "cache_inv (fst (DeleteExpired c t))" and "params (fst (DeleteExpired c t)) = params c"
    and "entries (fst (DeleteExpired c t)) = filter (\<lambda>e. \<not> spec_expired (params c) t e) (entries c)"
    and "fst (snd (DeleteExpired c t)) = int (length (filter (spec_expired (params c) t) (entries c)))"
  using lru_step_simulates[OF assms, of "OpDeleteExpired t"] by (auto simp: simulates_def split_beta Let_def)

lemma fresh_for_params: "params c' = params c \<Longrightarrow> fresh_for c' = fresh_for c"
  unfolding fresh_for_def fun_eq_iff using params_sel(2)[of c] params_sel(2)[of c'] by metis

interpretation lru_swept: timed_cache cache_inv fresh_for Peek Get Set Remove DeleteExpired
proof unfold_locales
  fix c :: "('k, 'v) Cache" and k :: 'k and v w :: 'v and t t' t2 :: gotime
  assume inv: "cache_inv c"
  note ds = DeleteExpired_entries[OF inv, of t]
  show "cache_inv (fst (DeleteExpired c t))" by (rule ds)
  show "fresh_for (fst (Get c k t)) = fresh_for c" "fresh_for (fst (Set c k v t t2)) = fresh_for c"
    "fresh_for (fst (Remove c k)) = fresh_for c" "fresh_for (fst (DeleteExpired c t)) = fresh_for c"
    by (intro fresh_for_params Get_entries[OF inv] Set_entries[OF inv] Remove_entries[OF inv] ds)+
  show "Peek (fst (DeleteExpired c t)) k t' = Some w \<Longrightarrow> Peek c k t' = Some w"
    using ds find_key_filter[OF entries_distinct_keys[OF inv], of k]
    by (auto simp: Peek_entries inv split: option.splits if_splits)
  obtain es where es: "entries (fst (Set c k v t t2)) =
      \<lparr>e_key = k, e_value = v, e_expiresAt = (if 0 < ttl c then t + ttl c else 0)\<rparr> # es"
    using set_head[OF inv, of k v t t2] Set_entries(3)[OF inv, of k v t t2] by auto
  show "Peek (fst (Set c k v t t2)) k t' = Some w \<Longrightarrow> fresh_for c t t'"
    using Set_entries(1,2)[OF inv, of k v t t2]
    by (auto simp: Peek_entries es find_Cons spec_expired_def expiredAt_def fresh_for_def params_def split: if_splits)
qed

section \<open>Invariants\<close>

text \<open>After the events \<open>es\<close>: the cache shows only what the flights stored, what a flight brings back has been given by an
  event for its key, and each request in progress belongs to a lookup of its key; one that waits has a flight.\<close>

definition asked :: "gw_event list \<Rightarrow> nat \<Rightarrow> string \<Rightarrow> bool" where
  "asked es n k \<longleftrightarrow> n < length (requests es) \<and> requests es ! n = k"

definition given :: "int \<Rightarrow> duration \<Rightarrow> gw_event list \<Rightarrow> string \<Rightarrow> Response \<Rightarrow> bool" where
  "given maxBody d es k resp \<longleftrightarrow> (\<exists>j<length es. gives maxBody d (take j es) (es ! j) k resp)"

definition gw_ok :: "int \<Rightarrow> duration \<Rightarrow> gw_event list \<Rightarrow> gateway \<Rightarrow> bool" where
  "gw_ok maxBody d es g \<longleftrightarrow>
     lru_swept.shows_only (g_cache g) (stored maxBody es) \<and> ttl (g_cache g) = d \<and> g_next g = length (requests es)
     \<and> (\<forall>n k. (n, k) \<in> set (g_missed g) \<longrightarrow> asked es n k)
     \<and> (\<forall>n k. (n, k) \<in> set (g_waiting g) \<longrightarrow> asked es n k \<and> g_flights g k \<noteq> None)
     \<and> (\<forall>k resp. g_flights g k = Some (Ended (Inr resp)) \<longrightarrow> given maxBody d es k resp)"

definition reply_ok :: "int \<Rightarrow> duration \<Rightarrow> gw_event list \<Rightarrow> nat \<Rightarrow> proxy_reply \<Rightarrow> bool" where
  "reply_ok maxBody d es n reply \<longleftrightarrow>
     (\<exists>k. asked es n k \<and> (\<forall>st hdr body. reply = Served st hdr body \<longrightarrow>
        (\<exists>resp. given maxBody d es k resp \<and> st = r_status resp \<and> body = r_body resp)))"

lemma requests_append [simp]: "requests (xs @ ys) = requests xs @ requests ys"
  by (induction xs rule: requests.induct) simp_all

lemma stored_snoc [simp]: "stored maxBody (es @ [e]) = store_event maxBody e (stored maxBody es)"
  by (simp add: stored_def)

lemma asked_append: "asked es n k \<Longrightarrow> asked (es @ es') n k"
  by (auto simp: asked_def nth_append)

lemma asked_last: "asked (es @ [Lookup u t]) (length (requests es)) (requestKey u)"
  by (simp add: asked_def)

lemma given_append: "given mb d es k r \<Longrightarrow> given mb d (es @ es') k r"
  unfolding given_def by (metis length_append nth_append take_append take_all_iff append_Nil2 diff_is_0_eq' less_imp_le_nat take_0 trans_less_add1)

lemma given_last: "gives mb d es e k r \<Longrightarrow> given mb d (es @ [e]) k r"
  unfolding given_def by (intro exI[of _ "length es"]) simp

lemmas gw_intros = asked_append asked_last given_append given_last

lemma gw_okD:
  assumes "gw_ok mb d es g"
  shows "cache_inv (g_cache g)" and "lru_swept.shows_only (g_cache g) (stored mb es)" and "ttl (g_cache g) = d"
    and "g_next g = length (requests es)"
    and "(n, k) \<in> set (g_missed g) \<Longrightarrow> asked es n k"
    and "(n, k) \<in> set (g_waiting g) \<Longrightarrow> asked es n k \<and> g_flights g k \<noteq> None"
    and "g_flights g k = Some (Ended (Inr resp)) \<Longrightarrow> given mb d es k resp"
  using assms lru_swept.shows_inv unfolding gw_ok_def by blast+

lemma shows_stored:
  assumes "gw_ok mb d es g" and "Peek (g_cache g) k now = Some resp"
  shows "\<exists>t. stored mb es k = Some (resp, t) \<and> (0 < d \<longrightarrow> now < t + d)"
  using lru_swept.shows_peek[OF gw_okD(2)[OF assms(1)] assms(2)] gw_okD(3)[OF assms(1)] by (simp add: fresh_for_def)

lemma ttl_ops:
  assumes "cache_inv c"
  shows "ttl (fst (Get c k t)) = ttl c" "ttl (fst (Set c k v t t2)) = ttl c" "ttl (fst (Remove c k)) = ttl c"
    "ttl (fst (DeleteExpired c t)) = ttl c"
  using Get_entries(2)[OF assms, of k t] Set_entries(2)[OF assms, of k v t t2] Remove_entries(2)[OF assms, of k]
    DeleteExpired_entries(2)[OF assms, of t] by (metis params_sel(2))+

lemma serve_Served [simp]: "serve resp hit = Served st hdr body \<longleftrightarrow> st = r_status resp \<and> body = r_body resp
    \<and> hdr = r_header resp @ [(''X-Cache'', if hit then ''HIT'' else ''MISS''),
         (''Content-Length'', itoa (int (length (r_body resp)))), (''X-Content-Type-Options'', ''nosniff'')]"
  by (auto simp: serve_def)

lemma writeError_not_Served [simp]: "proxy_writeError err \<noteq> Served st hdr body"
  by (simp add: proxy_writeError_def)

lemma gw_step_ok:
  assumes ok: "gw_ok mb d es g" and st: "gw_step mb e g = Some (out, g')"
  shows "gw_ok mb d (es @ [e]) g' \<and> (\<forall>n r. ToRequest n r \<in> set out \<longrightarrow> reply_ok mb d (es @ [e]) n r)"
proof (cases e)
  case (Lookup u now)
  let ?r = "Get (g_cache g) (requestKey u) now"
  note c = lru_swept.shows_get[OF gw_okD(2)[OF ok], of "requestKey u" now] ttl_ops(1)[OF gw_okD(1)[OF ok], of "requestKey u" now]
  have res: "fst (snd ?r) = Peek (g_cache g) (requestKey u) now" by (rule lru.get_result[OF gw_okD(1)[OF ok]])
  show ?thesis
  proof (cases "fst (snd ?r)")
    case None
    then have o: "out = []" "g' = g\<lparr>g_cache := fst ?r, g_next := Suc (g_next g), g_missed := g_missed g @ [(g_next g, requestKey u)]\<rparr>"
      using st Lookup by (auto simp: split_beta split: option.splits)
    show ?thesis using c gw_okD(3-)[OF ok] unfolding o gw_ok_def Lookup
      by (auto intro: gw_intros)
  next
    case (Some resp)
    then have o: "out = [ToRequest (g_next g) (serve resp True)]" "g' = g\<lparr>g_cache := fst ?r, g_next := Suc (g_next g)\<rparr>"
      using st Lookup by (auto simp: split_beta split: option.splits)
    have "gives mb d es e (requestKey u) resp"
      using shows_stored[OF ok, of "requestKey u" now resp] Some res Lookup by auto
    then have r: "reply_ok mb d (es @ [e]) (g_next g) (serve resp True)"
      unfolding reply_ok_def using given_last[of mb d es e "requestKey u" resp] gw_okD(4)[OF ok] asked_last[of es u now] Lookup by auto
    have "gw_ok mb d (es @ [e]) g'" using c gw_okD(3-)[OF ok] unfolding o gw_ok_def Lookup
      by (auto intro: gw_intros)
    then show ?thesis using r by (simp add: o)
  qed
next
  case (DoChan n)
  then obtain key where k: "map_of (g_missed g) n = Some key" and o: "out = []"
      "g' = g\<lparr>g_missed := filter (\<lambda>(i, _). i \<noteq> n) (g_missed g), g_waiting := g_waiting g @ [(n, key)],
              g_flights := (if g_flights g key = None then (g_flights g)(key \<mapsto> Started) else g_flights g)\<rparr>"
    using st by (auto split: option.splits)
  have m: "(n, key) \<in> set (g_missed g)" using map_of_SomeD[OF k] .
  show ?thesis using gw_okD(2-)[OF ok] gw_okD(5)[OF ok m] unfolding o gw_ok_def DoChan
    by (auto intro: gw_intros split: if_splits)
next
  case (FlightPeek key now)
  then have o: "out = []" "g' = g\<lparr>g_flights := (g_flights g)(key \<mapsto>
      (case Peek (g_cache g) key now of Some resp \<Rightarrow> Ended (Inr resp) | None \<Rightarrow> Fetching))\<rparr>"
    using st by (auto split: if_splits)
  have "gives mb d es e key resp" if "Peek (g_cache g) key now = Some resp" for resp
    using shows_stored[OF ok that] FlightPeek by auto
  then show ?thesis using gw_okD(2-)[OF ok] given_last[of mb d es e key] unfolding o gw_ok_def FlightPeek
    by (auto intro: gw_intros split: if_splits option.splits)
next
  case (FlightFetched key up now)
  then have f: "g_flights g key = Some Fetching" using st by (auto split: if_splits)
  show ?thesis
  proof (cases "fetch mb up")
    case (Inl err)
    then have o: "out = []" "g' = g\<lparr>g_flights := (g_flights g)(key \<mapsto> Ended (Inl err))\<rparr>" using st f FlightFetched by auto
    show ?thesis using gw_okD(2-)[OF ok] Inl unfolding o gw_ok_def FlightFetched
      by (auto intro: gw_intros split: if_splits)
  next
    case (Inr resp)
    then have o: "out = []" "g' = g\<lparr>g_cache := (if r_status resp = 200 then fst (Set (g_cache g) key resp now now) else g_cache g),
        g_flights := (g_flights g)(key \<mapsto> Ended (Inr resp))\<rparr>" using st f FlightFetched by auto
    have "gives mb d es e key resp" using Inr FlightFetched by simp
    note g = given_last[OF this]
    have c: "lru_swept.shows_only (g_cache g') (stored mb (es @ [e]))" "ttl (g_cache g') = d"
      using gw_okD(2,3)[OF ok] lru_swept.shows_set[OF gw_okD(2)[OF ok], of key resp now now] ttl_ops(2)[OF gw_okD(1)[OF ok]] Inr FlightFetched
      by (auto simp: o)
    have "gw_ok mb d (es @ [e]) g'" unfolding gw_ok_def
      using c gw_okD(4-)[OF ok] g by (auto simp: o FlightFetched intro: gw_intros split: if_splits)
    then show ?thesis by (simp add: o)
  qed
next
  case (FlightReturn key)
  then obtain res where f: "g_flights g key = Some (Ended res)"
    and o: "out = map (\<lambda>(n, _). ToRequest n (flight_reply res)) (filter (\<lambda>(_, k). k = key) (g_waiting g))"
      "g' = g\<lparr>g_waiting := filter (\<lambda>(_, k). k \<noteq> key) (g_waiting g), g_flights := (g_flights g)(key := None)\<rparr>"
    using st by (auto split: option.splits flight_state.splits)
  have "gw_ok mb d (es @ [e]) g'" using gw_okD(2-)[OF ok] unfolding o gw_ok_def FlightReturn
    by (auto intro: gw_intros split: if_splits)
  moreover have "reply_ok mb d (es @ [e]) n (flight_reply res)" if "(n, key) \<in> set (g_waiting g)" for n
    using gw_okD(6)[OF ok that] gw_okD(7)[OF ok, of key] f given_append[of mb d es key _ "[e]"] asked_append[of es n key "[e]"]
    by (auto simp: reply_ok_def flight_reply_def split: sum.splits)
  ultimately show ?thesis by (auto simp: o(1))
next
  case (Leave n canceled)
  then obtain key where k: "map_of (g_waiting g) n = Some key"
    and o: "out = [ToRequest n (proxy_writeError \<lparr>fe_stage = WaitForUpstream, fe_canceled = canceled, fe_timeout = \<not> canceled\<rparr>)]"
      "g' = g\<lparr>g_waiting := filter (\<lambda>(i, _). i \<noteq> n) (g_waiting g)\<rparr>"
    using st by (auto split: option.splits)
  have "gw_ok mb d (es @ [e]) g'" using gw_okD(2-)[OF ok] unfolding o gw_ok_def Leave by (auto intro: gw_intros)
  then show ?thesis using gw_okD(6)[OF ok map_of_SomeD[OF k]] asked_append[of es n key "[e]"] by (auto simp: o(1) reply_ok_def)
next
  case (PurgeRequest u)
  then have o: "g' = g\<lparr>g_cache := fst (Remove (g_cache g) (requestKey u))\<rparr>" "\<And>n r. ToRequest n r \<notin> set out"
    using st by (auto simp: handlePurge_def split_beta)
  have "gw_ok mb d (es @ [e]) g'" unfolding o gw_ok_def PurgeRequest
    using gw_okD(3-)[OF ok] lru_swept.shows_remove[OF gw_okD(2)[OF ok], of "requestKey u"] ttl_ops(3)[OF gw_okD(1)[OF ok]]
    by (auto intro: gw_intros)
  then show ?thesis using o(2) by simp
next
  case StatsRequest
  then show ?thesis using st gw_okD(2-)[OF ok] by (auto simp: gw_ok_def intro: gw_intros)
next
  case (SweepTick now)
  then have o: "g' = g\<lparr>g_cache := fst (DeleteExpired (g_cache g) now)\<rparr>" "\<And>n r. ToRequest n r \<notin> set out"
    using st by (auto simp: split_beta)
  have "gw_ok mb d (es @ [e]) g'" unfolding o gw_ok_def SweepTick
    using gw_okD(3-)[OF ok] lru_swept.shows_sweep[OF gw_okD(2)[OF ok], of now] ttl_ops(4)[OF gw_okD(1)[OF ok]]
    by (auto intro: gw_intros)
  then show ?thesis using o(2) by simp
qed

lemma gw_run_ok:
  "gw_ok mb d past g \<Longrightarrow> gw_run mb es g = Some (outs, g') \<Longrightarrow>
    gw_ok mb d (past @ es) g' \<and> length outs = length es
    \<and> (\<forall>i<length es. \<forall>n r. ToRequest n r \<in> set (outs ! i) \<longrightarrow> reply_ok mb d (past @ take (Suc i) es) n r)"
proof (induction es arbitrary: past g outs)
  case (Cons e es)
  obtain out g1 outs1 where st: "gw_step mb e g = Some (out, g1)" "gw_run mb es g1 = Some (outs1, g')" and o: "outs = out # outs1"
    using Cons.prems(2) by (auto split: option.splits)
  note s = gw_step_ok[OF Cons.prems(1) st(1)]
  note i = Cons.IH[OF conjunct1[OF s] st(2)]
  show ?case using s i by (auto simp: o nth_Cons split: nat.splits)
qed simp

lemma New_cache:
  assumes "New cap [WithTTL d, WithOnEvict b] = Inr c"
  shows "cache_inv c" "entries c = []" "ttl c = d" "capacity c = cap"
proof -
  have o: "\<forall>f\<in>set [WithTTL d, WithOnEvict b]. is_option f" by (auto simp: is_option_def WithTTL_def WithOnEvict_def)
  show "cache_inv c" "entries c = []" using New_inv(1,2)[OF assms o] by blast+
  show "ttl c = d" "capacity c = cap" using assms by (auto simp: New_def WithTTL_def WithOnEvict_def split: if_splits)
qed

lemma gw_init_ok:
  assumes "New cap [WithTTL d, WithOnEvict b] = Inr c"
  shows "gw_ok mb d [] (gw_init c)"
  using New_cache[OF assms]
  by (simp add: gw_ok_def gw_init_def lru_swept.shows_only_def Peek_entries find_key_def)

section \<open>Where responses come from\<close>

text \<open>A response within the limit is the whole body of an answer: the reader stops one byte beyond the limit, and the
  incomplete bodies are longer than the limit or end in an error. This needs \<open>maxBody + 1\<close> not to wrap around.\<close>

lemma fetch_complete:
  assumes "fetch mb up = Inr resp" and "mb < max64" and "0 \<le> mb"
  shows "\<exists>hdr. up = Answer (r_status resp) hdr (r_body resp) None" and "int (length (r_body resp)) \<le> mb"
proof -
  have w: "wrap64 (mb + 1) = mb + 1" using assms(2,3) by (simp add: wrap64_def max64_def)
  obtain st hdr body err where up: "up = Answer st hdr body err"
    using assms(1) by (auto simp: fetch_def split: upstream.splits)
  have r: "r_status resp = st" "readLimited (mb + 1) body err = Inr (r_body resp)"
    using assms(1) by (auto simp: fetch_def up w split: sum.splits if_splits prod.splits)
  show s: "int (length (r_body resp)) \<le> mb" using fetch_Inr[OF assms(1)] .
  have "\<not> mb + 1 \<le> int (length body)"
  proof
    assume l: "mb + 1 \<le> int (length body)"
    then have "r_body resp = take (nat (mb + 1)) body" using r(2) by (simp add: readLimited_def)
    then show False using s l assms(3) by simp
  qed
  then show "\<exists>hdr. up = Answer (r_status resp) hdr (r_body resp) None"
    using r by (auto simp: up readLimited_def split: option.splits)
qed

text \<open>At the largest limit that the flag can hold the sum does wrap around, and every body is cut to nothing.\<close>

lemma largest_limit_serves_nothing:
  "\<exists>resp. fetch max64 (Answer st hdr body err) = Inr resp \<and> r_status resp = st \<and> r_body resp = []"
  by (simp add: fetch_def readLimited_def wrap64_def max64_def)

lemma stored_fetched:
  "stored mb es k = Some (resp, t) \<Longrightarrow> r_status resp = 200 \<and> (\<exists>l<length es. \<exists>up. es ! l = FlightFetched k up t \<and> fetch mb up = Inr resp)"
proof (induction es rule: rev_induct)
  case (snoc e es)
  show ?case
  proof (cases "stored mb es k = Some (resp, t)")
    case True
    then show ?thesis using snoc.IH by (auto simp: nth_append intro: less_SucI)
  next
    case False
    then have "r_status resp = 200 \<and> (\<exists>up. e = FlightFetched k up t \<and> fetch mb up = Inr resp)"
      using snoc.prems by (cases e) (auto split: sum.splits if_splits)
    then show ?thesis by (auto intro!: exI[of _ "length es"])
  qed
qed (simp add: stored_def)

lemma gives_fetched:
  assumes "gives mb d (take j es) (es ! j) k resp" and "j < length es"
  shows "\<exists>l\<le>j. \<exists>up now. es ! l = FlightFetched k up now \<and> fetch mb up = Inr resp"
proof (cases "\<exists>t. stored mb (take j es) k = Some (resp, t)")
  case True
  then obtain t l up where "l < length (take j es)" "take j es ! l = FlightFetched k up t" "fetch mb up = Inr resp"
    using stored_fetched by blast
  then show ?thesis using assms(2) by (intro exI[of _ l]) auto
next
  case False
  then show ?thesis using assms(1) by (cases "es ! j") (auto split: option.splits)
qed

section \<open>Every request is answered once\<close>

definition replied :: "gw_out list \<Rightarrow> nat list" where
  "replied out = List.map_filter (\<lambda>x. case x of ToRequest n _ \<Rightarrow> Some n | _ \<Rightarrow> None) out"

definition in_progress :: "gateway \<Rightarrow> nat list" where
  "in_progress g = map fst (g_missed g) @ map fst (g_waiting g)"

lemma replied_simps [simp]:
  "replied [] = []" "replied (ToRequest n r # out) = n # replied out" "replied (ToPurge r # out) = replied out"
  "replied (ToStats s # out) = replied out" "replied (Swept m # out) = replied out"
  by (simp_all add: replied_def List.map_filter_simps)

lemma replied_append [simp]: "replied (xs @ ys) = replied xs @ replied ys"
  by (simp add: replied_def List.map_filter_def)

lemma replied_map: "replied (map (\<lambda>(n, _). ToRequest n r) xs) = map fst xs"
  by (induction xs) auto

lemma mset_filter_key:
  "distinct (map fst xs) \<Longrightarrow> map_of xs n = Some k \<Longrightarrow> mset (map fst xs) = add_mset n (mset (map fst (filter (\<lambda>(i, _). i \<noteq> n) xs)))"
proof (induction xs)
  case (Cons x xs)
  then show ?case
  proof (cases "fst x = n")
    case True
    then have "filter (\<lambda>(i, _). i \<noteq> n) xs = xs" using Cons.prems(1) by (auto simp: filter_id_conv rev_image_eqI)
    then have "filter (\<lambda>(i, _). i \<noteq> n) (x # xs) = xs" using True by (simp add: split_beta)
    then show ?thesis using True by (simp only: list.map mset.simps)
  qed (auto simp: split_beta)
qed simp

lemma gw_step_count:
  assumes "gw_step mb e g = Some (out, g')" and "distinct (in_progress g)" and "\<forall>n\<in>set (in_progress g). n < g_next g"
  shows "mset (replied out) + mset (in_progress g') = mset (in_progress g) + mset [g_next g..<g_next g'] \<and> g_next g \<le> g_next g'"
proof (cases e)
  case (Lookup u now)
  then show ?thesis using assms(1) by (auto simp: in_progress_def split: prod.splits option.splits)
next
  case (DoChan n)
  then show ?thesis using assms(1,2) mset_filter_key[of "g_missed g" n] by (auto simp: in_progress_def split: option.splits)
next
  case (FlightReturn key)
  have p: "mset (map fst (filter (\<lambda>(_, k). k = key) xs)) + mset (map fst (filter (\<lambda>(_, k). k \<noteq> key) xs)) = mset (map fst xs)"
    for xs :: "(nat \<times> string) list" by (induction xs) auto
  show ?thesis using FlightReturn assms(1) p[of "g_waiting g"]
    by (auto simp: in_progress_def replied_map split: option.splits flight_state.splits)
next
  case (Leave n canceled)
  then show ?thesis using assms(1,2) mset_filter_key[of "g_waiting g" n] by (auto simp: in_progress_def split: option.splits)
qed (use assms(1) in \<open>auto simp: in_progress_def split: if_splits sum.splits prod.splits\<close>)

lemma gw_run_count:
  "gw_run mb es g = Some (outs, g') \<Longrightarrow> mset done + mset (in_progress g) = mset [0..<g_next g] \<Longrightarrow>
    mset done + mset (replied (concat outs)) + mset (in_progress g') = mset [0..<g_next g']"
proof (induction es arbitrary: g outs "done")
  case (Cons e es)
  obtain out g1 outs1 where st: "gw_step mb e g = Some (out, g1)" "gw_run mb es g1 = Some (outs1, g')" and o: "outs = out # outs1"
    using Cons.prems(1) by (auto split: option.splits)
  have m: "mset (done @ in_progress g) = mset [0..<g_next g]" using Cons.prems(2) by simp
  then have d: "distinct (in_progress g)" using mset_eq_imp_distinct_iff[OF m] by simp
  have b: "\<forall>n\<in>set (in_progress g). n < g_next g" using mset_eq_setD[OF m] by auto
  note c = gw_step_count[OF st(1) d b]
  have "[0..<g_next g1] = [0..<g_next g] @ [g_next g..<g_next g1]" using c upt_add_eq_append[of 0 "g_next g" "g_next g1 - g_next g"] by simp
  then have "mset (done @ replied out) + mset (in_progress g1) = mset [0..<g_next g1]"
    using c Cons.prems(2) by (simp add: ac_simps)
  from Cons.IH[OF st(2) this] show ?case by (simp add: o ac_simps)
qed simp

text \<open>The events a waiting request still needs, whatever the upstream answers.\<close>

lemma flight_finishes:
  assumes "(n, k) \<in> set (g_waiting g)" and "g_flights g k \<noteq> None"
  shows "\<exists>es outs g'. set es \<subseteq> {FlightPeek k now, FlightFetched k up now, FlightReturn k} \<and> length es \<le> 3
    \<and> gw_run mb es g = Some (outs, g') \<and> n \<in> set (replied (concat outs))"
proof -
  have ret: "\<exists>outs g'. gw_run mb [FlightReturn k] h = Some (outs, g') \<and> n \<in> set (replied (concat outs))"
    if "g_flights h k = Some (Ended res)" "(n, k) \<in> set (g_waiting h)" for h res
    using that by (force simp: replied_map)
  have fet: "\<exists>outs g'. gw_run mb [FlightFetched k up now, FlightReturn k] h = Some (outs, g') \<and> n \<in> set (replied (concat outs))"
    if w: "g_flights h k = Some Fetching" "(n, k) \<in> set (g_waiting h)" for h
  proof -
    have "\<exists>h' res. gw_step mb (FlightFetched k up now) h = Some ([], h') \<and> g_flights h' k = Some (Ended res) \<and> g_waiting h' = g_waiting h"
      using w(1) by (cases "fetch mb up") simp_all
    then obtain h' res where s: "gw_step mb (FlightFetched k up now) h = Some ([], h')" "g_flights h' k = Some (Ended res)" "g_waiting h' = g_waiting h"
      by blast
    obtain outs g' where "gw_run mb [FlightReturn k] h' = Some (outs, g')" "n \<in> set (replied (concat outs))"
      using ret[OF s(2)] w(2) s(3) by auto
    then show ?thesis by (simp only: gw_run.simps s(1) option.case prod.case) (auto split: option.splits)
  qed
  show ?thesis
  proof (cases "the (g_flights g k)")
    case Started
    then have f: "g_flights g k = Some Started" using assms(2) by auto
    show ?thesis
    proof (cases "Peek (g_cache g) k now")
      case None
      let ?h = "g\<lparr>g_flights := (g_flights g)(k \<mapsto> Fetching)\<rparr>"
      obtain outs g' where "gw_run mb [FlightFetched k up now, FlightReturn k] ?h = Some (outs, g')" "n \<in> set (replied (concat outs))"
        using fet[of ?h] assms(1) by auto
      then show ?thesis using f None
        by (intro exI[of _ "[FlightPeek k now, FlightFetched k up now, FlightReturn k]"] exI[of _ "[] # outs"] exI[of _ g']) simp
    next
      case (Some resp)
      let ?h = "g\<lparr>g_flights := (g_flights g)(k \<mapsto> Ended (Inr resp))\<rparr>"
      obtain outs g' where "gw_run mb [FlightReturn k] ?h = Some (outs, g')" "n \<in> set (replied (concat outs))"
        using ret[of ?h "Inr resp"] assms(1) by auto
      then show ?thesis using f Some
        by (intro exI[of _ "[FlightPeek k now, FlightReturn k]"] exI[of _ "[] # outs"] exI[of _ g']) simp
    qed
  next
    case Fetching
    then have "g_flights g k = Some Fetching" using assms(2) by auto
    from fet[OF this assms(1)] show ?thesis by (intro exI[of _ "[FlightFetched k up now, FlightReturn k]"]) auto
  next
    case (Ended res)
    then have "g_flights g k = Some (Ended res)" using assms(2) by auto
    from ret[OF this assms(1)] show ?thesis by (intro exI[of _ "[FlightReturn k]"]) auto
  qed
qed

lemma request_finishes:
  assumes "gw_ok mb d past g" and "n \<in> set (in_progress g)"
  shows "\<exists>es outs g'. set es \<subseteq> {DoChan n, FlightPeek (requests past ! n) now, FlightFetched (requests past ! n) up now, FlightReturn (requests past ! n)}
    \<and> length es \<le> 4 \<and> gw_run mb es g = Some (outs, g') \<and> n \<in> set (replied (concat outs))"
proof (cases "\<exists>k. (n, k) \<in> set (g_waiting g)")
  case True
  then obtain k where w: "(n, k) \<in> set (g_waiting g)" by blast
  have k: "k = requests past ! n" "g_flights g k \<noteq> None" using gw_okD(6)[OF assms(1) w] by (auto simp: asked_def)
  from flight_finishes[OF w k(2), of now up mb] show ?thesis unfolding k(1) by (elim exE conjE) (intro exI conjI; (assumption | fastforce))
next
  case False
  then obtain k0 where "(n, k0) \<in> set (g_missed g)" using assms(2) by (auto simp: in_progress_def)
  then obtain k where m: "map_of (g_missed g) n = Some k" by (cases "map_of (g_missed g) n") (auto simp: map_of_eq_None_iff rev_image_eqI)
  have k: "k = requests past ! n" using gw_okD(5)[OF assms(1) map_of_SomeD[OF m]] by (auto simp: asked_def)
  obtain h where h: "gw_step mb (DoChan n) g = Some ([], h)" "(n, k) \<in> set (g_waiting h)" "g_flights h k \<noteq> None"
    using m by (auto split: if_splits)
  from flight_finishes[OF h(2,3), of now up mb] obtain es outs g'
    where "set es \<subseteq> {FlightPeek k now, FlightFetched k up now, FlightReturn k}" "length es \<le> 3"
      "gw_run mb es h = Some (outs, g')" "n \<in> set (replied (concat outs))" by blast
  moreover have "gw_run mb (DoChan n # es) g = Some ([] # outs, g')" using calculation(3) by (simp only: gw_run.simps h(1) option.case prod.case)
  ultimately show ?thesis unfolding k[symmetric]
    by (intro exI[of _ "DoChan n # es"] exI[of _ "[] # outs"] exI[of _ g'] conjI) (auto simp del: gw_run.simps)
qed

text \<open>\<open>handleGet\<close> is a request that nothing interrupts.\<close>

lemma uninterrupted_request:
  assumes "g_missed g = []" and "g_waiting g = []" and "g_flights g = (\<lambda>_. None)"
    and "handleGet mb None (g_cache g) u t0 t1 t2 up = (reply, c)"
  shows "\<exists>es outs. set es \<subseteq> {DoChan (g_next g), FlightPeek (requestKey u) t1, FlightFetched (requestKey u) up t2, FlightReturn (requestKey u)}
    \<and> gw_run mb (Lookup u t0 # es) g = Some (outs, g\<lparr>g_cache := c, g_next := Suc (g_next g)\<rparr>)
    \<and> concat outs = [ToRequest (g_next g) reply]"
proof -
  obtain c1 hit ev where g: "Get (g_cache g) (requestKey u) t0 = (c1, hit, ev)" by (cases "Get (g_cache g) (requestKey u) t0")
  have upd: "(\<lambda>_. None) = (\<lambda>_. None)(requestKey u := None)" by auto
  show ?thesis
  proof (cases hit)
    case (Some resp)
    then show ?thesis using assms(4) g by (intro exI[of _ "[]"] exI[of _ "[[ToRequest (g_next g) reply]]"]) (auto simp: handleGet_def)
  next
    case None
    show ?thesis
    proof (cases "Peek c1 (requestKey u) t1")
      case (Some resp)
      then show ?thesis using assms g None upd
        by (intro exI[of _ "[DoChan (g_next g), FlightPeek (requestKey u) t1, FlightReturn (requestKey u)]"])
           (auto simp: handleGet_def load_def flight_def flight_reply_def)
    next
      case miss: None
      then show ?thesis using assms g None upd
        by (intro exI[of _ "[DoChan (g_next g), FlightPeek (requestKey u) t1, FlightFetched (requestKey u) up t2, FlightReturn (requestKey u)]"])
           (auto simp: handleGet_def load_def flight_def flight_reply_def split: sum.splits if_splits)
    qed
  qed
qed

section \<open>Properties\<close>

text \<open>(C30) No request of the proxy is lost or answered twice, and none waits forever. However requests, flights, purges and
  sweeps interleave, every request that arrived has exactly one reply or is still in progress; and each request in
  progress needs at most four more events of its own flight to be answered, whatever the upstream answers.\<close>

theorem proxy_answers_each_request:
  assumes "New cap [WithTTL d, WithOnEvict b] = Inr c" and "gw_run mb es (gw_init c) = Some (outs, g)"
  shows "mset (replied (concat outs)) + mset (in_progress g) = mset [0..<length (requests es)]
    \<and> (\<forall>n\<in>set (in_progress g). \<exists>es' outs' g'.
          set es' \<subseteq> {DoChan n, FlightPeek (requests es ! n) now, FlightFetched (requests es ! n) up now, FlightReturn (requests es ! n)}
          \<and> length es' \<le> 4 \<and> gw_run mb es' g = Some (outs', g') \<and> n \<in> set (replied (concat outs')))"
proof -
  have ok: "gw_ok mb d es g" using gw_run_ok[OF gw_init_ok[OF assms(1)] assms(2)] by simp
  have "mset [] + mset (in_progress (gw_init c)) = mset [0..<g_next (gw_init c)]" by (simp add: in_progress_def gw_init_def)
  from gw_run_count[OF assms(2) this] show ?thesis
    using gw_okD(4)[OF ok] request_finishes[OF ok, of _ now up] by auto
qed

text \<open>Two requests for one key: the second joins the flight of the first, which leaves.\<close>

definition demo_events :: "gw_event list" where
  "demo_events = [Lookup demo_url 0, DoChan 0, FlightPeek (requestKey demo_url) 1, Lookup demo_url 2, DoChan 1, Leave 0 True]"

definition demo_flight :: "gw_event list" where
  "demo_flight = [FlightFetched (requestKey demo_url) (Answer 200 [] ''hi'' None) 3, FlightReturn (requestKey demo_url)]"

theorem proxy_answers_each_request_witness:
  "\<exists>c outs g. New 1 [WithTTL 5, WithOnEvict True] = Inr c \<and> gw_run 10 demo_events (gw_init c) = Some (outs, g)
    \<and> mset (replied (concat outs)) + mset (in_progress g) = {#0, 1#} \<and> in_progress g = [1]"
proof -
  obtain c :: proxy_cache where c: "New 1 [WithTTL 5, WithOnEvict True] = Inr c" by (simp add: New_def)
  have "map_option (in_progress \<circ> snd) (gw_run 10 demo_events (gw_init c)) = Some [1]"
    using c by (auto simp: New_def WithTTL_def WithOnEvict_def demo_events_def gw_init_def Get_def getLocked_def Peek_def in_progress_def)
  then obtain outs g where r: "gw_run 10 demo_events (gw_init c) = Some (outs, g)" "in_progress g = [1]" by auto
  have q: "[0..<length (requests demo_events)] = [0, 1]" by (simp add: demo_events_def upt_rec)
  from proxy_answers_each_request[OF c r(1), of 0 BadRequest] have "mset (replied (concat outs)) + mset (in_progress g) = {#0, 1#}"
    unfolding q by simp
  then show ?thesis using c r by blast
qed

end
