(* ===== verification/Cache_Service.thy ===== *)
theory Cache_Service
  imports Proxy_Flights Service_Run
begin

text \<open>
  App 05: \<^verbatim>\<open>cmd/lru-cache/main.go\<close>. The configuration, the cache and proxy built from it, the janitor and \<open>run\<close>.

  A run is given by the events of its requests, flights and janitor ticks, as in \<open>Proxy_Flights\<close>; without a time to
  live there is no janitor. What holds for the proxy holds for the service with the limits of its configuration.
\<close>

section \<open>Configuration\<close>

record cs_config =
  cs_Addr :: string
  cs_UpstreamURL :: url
  cs_UpstreamTimeout :: duration
  cs_MaxBodyBytes :: int
  cs_CacheSize :: int
  cs_CacheTTL :: duration
  cs_JanitorInterval :: duration
  cs_ShutdownTimeout :: duration
  cs_LogLevel :: int

datatype cs_invalid =
    BadUpstreamTimeout | BadMaxBodyBytes | BadCacheSize | BadCacheTTL | BadJanitorInterval | BadShutdownTimeout

definition validate :: "cs_config \<Rightarrow> cs_invalid option" where
  "validate c =
     (if cs_UpstreamTimeout c \<le> 0 then Some BadUpstreamTimeout
      else if cs_MaxBodyBytes c \<le> 0 then Some BadMaxBodyBytes
      else if cs_CacheSize c \<le> 0 then Some BadCacheSize
      else if cs_CacheTTL c < 0 then Some BadCacheTTL
      else if cs_JanitorInterval c \<le> 0 then Some BadJanitorInterval
      else if cs_ShutdownTimeout c \<le> 0 then Some BadShutdownTimeout
      else None)"

definition loadConfig :: "cs_config env_lib \<Rightarrow> (string \<Rightarrow> string) \<Rightarrow> cs_invalid config_error + cs_config" where
  "loadConfig lib getenv = Service_Run.load lib validate getenv"

section \<open>Run\<close>

text \<open>The janitor: \<open>NewTicker\<close> panics on a period that is not positive; every tick removes what has expired. It is started only
  with a positive time to live, so without one no tick is a possible event.\<close>

definition sweep_panics :: "duration \<Rightarrow> bool" where
  "sweep_panics every \<longleftrightarrow> every \<le> 0"

definition is_tick :: "gw_event \<Rightarrow> bool" where
  "is_tick e = (case e of SweepTick _ \<Rightarrow> True | _ \<Rightarrow> False)"

datatype serve_error = ServeHTTP gerr | ShutdownHTTP gerr

text \<open>\<open>cs_wait\<close> is what \<^verbatim>\<open>Wait\<close> of the error group returned: the error of one of the server's two goroutines, or nil.\<close>

record run_io =
  cs_env :: "cs_config env_lib"
  cs_listen :: "gerr option"
  cs_events :: "gw_event list"
  cs_wait :: "serve_error option"

datatype cs_error =
    LoadConfig "cs_invalid config_error" | CreateCache lru_error | ErrInvalidUpstream | Listen gerr | Server serve_error

datatype cs_exit =
    Exited "cs_error option" "(gw_out list list \<times> gateway) option"
  | Panicked
  | NotAnExecution

definition run :: "run_io \<Rightarrow> (string \<Rightarrow> string) \<Rightarrow> cs_exit" where
  "run io getenv =
     (case loadConfig (cs_env io) getenv of
        Inl e \<Rightarrow> Exited (Some (LoadConfig e)) None
      | Inr cfg \<Rightarrow>
     (case New (cs_CacheSize cfg) [WithTTL (cs_CacheTTL cfg), WithOnEvict True] of
        Inl e \<Rightarrow> Exited (Some (CreateCache e)) None
      | Inr cache \<Rightarrow>
          if \<not> validUpstream (cs_UpstreamURL cfg) then Exited (Some ErrInvalidUpstream) None
          else
     (case cs_listen io of
        Some e \<Rightarrow> Exited (Some (Listen e)) None
      | None \<Rightarrow>
          if 0 < cs_CacheTTL cfg \<and> sweep_panics (cs_JanitorInterval cfg) then Panicked
          else if \<not> 0 < cs_CacheTTL cfg \<and> list_ex is_tick (cs_events io) then NotAnExecution
          else
            (case gw_run (cs_MaxBodyBytes cfg) (cs_events io) (gw_init cache) of
               None \<Rightarrow> NotAnExecution
             | Some served \<Rightarrow> Exited (map_option Server (cs_wait io)) (Some served)))))"

section \<open>Lemmas\<close>

lemma cache_loadConfig_valid:
  assumes "loadConfig lib getenv = Inr cfg"
  shows "0 < cs_MaxBodyBytes cfg" "0 < cs_CacheSize cfg" "0 \<le> cs_CacheTTL cfg" "0 < cs_JanitorInterval cfg"
  using load_Inr[OF assms[unfolded loadConfig_def]] by (simp_all add: validate_def split: if_splits)

lemma cache_run_served:
  assumes "run io getenv = Exited err (Some (outs, g))" and "loadConfig (cs_env io) getenv = Inr cfg"
  shows "\<exists>cache. New (cs_CacheSize cfg) [WithTTL (cs_CacheTTL cfg), WithOnEvict True] = Inr cache
    \<and> gw_run (cs_MaxBodyBytes cfg) (cs_events io) (gw_init cache) = Some (outs, g)"
  using assms by (auto simp: run_def split: sum.splits if_splits option.splits)

lemma run_not_panicked: "run io getenv \<noteq> Panicked"
proof (cases "loadConfig (cs_env io) getenv")
  case (Inr cfg)
  then show ?thesis using cache_loadConfig_valid(4)[OF Inr]
    by (auto simp: run_def sweep_panics_def split: sum.splits if_splits option.splits)
qed (simp add: run_def)

lemma run_error:
  assumes "run io getenv = Exited err None"
  shows "\<exists>e. err = Some e \<and> (\<forall>x. e \<noteq> CreateCache x)"
proof (cases "loadConfig (cs_env io) getenv")
  case (Inl e)
  then show ?thesis using assms by (auto simp: run_def)
next
  case (Inr cfg)
  then have "\<exists>c :: proxy_cache. New (cs_CacheSize cfg) [WithTTL (cs_CacheTTL cfg), WithOnEvict True] = Inr c"
    using cache_loadConfig_valid(2)[OF Inr] by (simp add: New_def)
  then show ?thesis using assms Inr by (auto simp: run_def split: if_splits option.splits)
qed

lemma capacity_gw_run:
  "cache_inv (g_cache g) \<Longrightarrow> gw_run mb es g = Some (outs, g') \<Longrightarrow> cache_inv (g_cache g') \<and> capacity (g_cache g') = capacity (g_cache g)"
proof (induction es arbitrary: g outs)
  case (Cons e es)
  obtain out g1 outs1 where st: "gw_step mb e g = Some (out, g1)" "gw_run mb es g1 = Some (outs1, g')"
    using Cons.prems(2) by (auto split: option.splits)
  note i = Cons.prems(1)
  have c: "cache_inv c \<Longrightarrow> params c = params (g_cache g) \<Longrightarrow> cache_inv c \<and> capacity c = capacity (g_cache g)" for c
    by (metis params_sel(1))
  have "cache_inv (g_cache g1) \<and> capacity (g_cache g1) = capacity (g_cache g)"
  proof (cases e)
    case (Lookup u now)
    then show ?thesis using st(1) c[OF Get_entries(1,2)[OF i], of "requestKey u" now] by (auto split: prod.splits option.splits)
  next
    case (FlightFetched k up now)
    then show ?thesis using st(1) i c[OF Set_entries(1,2)[OF i], of k _ now now] by (auto split: if_splits sum.splits)
  next
    case (PurgeRequest u)
    then show ?thesis using st(1) c[OF Remove_entries(1,2)[OF i], of "requestKey u"] by (auto simp: handlePurge_def split_beta)
  next
    case (SweepTick now)
    then show ?thesis using st(1) c[OF DeleteExpired_entries(1,2)[OF i], of now] by (auto simp: split_beta)
  qed (use st(1) i in \<open>auto split: option.splits if_splits flight_state.splits\<close>)
  then show ?case using Cons.IH[OF _ st(2)] by simp
qed simp

lemma Len_capacity: "cache_inv c \<Longrightarrow> Len c \<le> capacity c"
  by (simp add: cache_inv_def Len_def)

section \<open>Properties\<close>

text \<open>(C31) The service serves only whole, live answers of the upstream. With a configuration that loads and whose body limit is not
  the largest 64-bit integer, however requests, flights, purges and janitor ticks interleave: the cache never holds more
  entries than configured, and each response sent has the status and the complete body, within the limit, of one answer of the
  upstream for the same path and query; if it comes from the cache it was stored with status 200, has not been purged since, and is
  younger than the time to live when the cache is read.\<close>

theorem service_serves_live_answers:
  assumes "loadConfig (cs_env io) getenv = Inr cfg" and "cs_MaxBodyBytes cfg < max64"
    and "run io getenv = Exited err (Some (outs, g))" and "i < length (cs_events io)" and "ToRequest n (Served st hdr body) \<in> set (outs ! i)"
  shows "Len (g_cache g) \<le> cs_CacheSize cfg \<and> int (length body) \<le> cs_MaxBodyBytes cfg
    \<and> (\<exists>j\<le>i. \<exists>resp. gives (cs_MaxBodyBytes cfg) (cs_CacheTTL cfg) (take j (cs_events io)) (cs_events io ! j) (requests (cs_events io) ! n) resp
          \<and> st = r_status resp \<and> body = r_body resp
          \<and> (\<exists>l\<le>j. \<exists>h now. cs_events io ! l = FlightFetched (requests (cs_events io) ! n) (Answer st h body None) now))"
proof -
  let ?es = "cs_events io" and ?mb = "cs_MaxBodyBytes cfg" and ?d = "cs_CacheTTL cfg"
  obtain cache where c: "New (cs_CacheSize cfg) [WithTTL ?d, WithOnEvict True] = Inr cache"
    and r: "gw_run ?mb ?es (gw_init cache) = Some (outs, g)" using cache_run_served[OF assms(3,1)] by blast
  have "reply_ok ?mb ?d (take (Suc i) ?es) n (Served st hdr body)"
    using gw_run_ok[OF gw_init_ok[OF c] r] assms(4,5) by simp
  then obtain resp where q: "asked (take (Suc i) ?es) n (requests ?es ! n)"
    and gv: "given ?mb ?d (take (Suc i) ?es) (requests ?es ! n) resp" and s: "st = r_status resp" "body = r_body resp"
    unfolding reply_ok_def asked_def
    by (metis append_take_drop_id requests_append nth_append)
  obtain j where j: "j \<le> i" "gives ?mb ?d (take j ?es) (?es ! j) (requests ?es ! n) resp"
  proof -
    obtain j where j: "j < min (length ?es) (Suc i)" "gives ?mb ?d (take j (take (Suc i) ?es)) (take (Suc i) ?es ! j) (requests ?es ! n) resp"
      using gv unfolding given_def length_take by blast
    then show ?thesis using that[of j] by (simp add: min_def split: if_splits)
  qed
  obtain l up now where l: "l \<le> j" "?es ! l = FlightFetched (requests ?es ! n) up now" "fetch ?mb up = Inr resp"
    using gives_fetched[OF j(2)] j(1) assms(4) by auto
  note f = fetch_complete[OF l(3) assms(2) less_imp_le[OF cache_loadConfig_valid(1)[OF assms(1)]]]
  have "Len (g_cache g) \<le> cs_CacheSize cfg"
    using capacity_gw_run[OF _ r] New_cache[OF c] Len_capacity[of "g_cache g"] by (simp add: gw_init_def)
  moreover have "\<exists>l\<le>j. \<exists>h now. ?es ! l = FlightFetched (requests ?es ! n) (Answer st h body None) now" using l(1,2) f(1) s by auto
  ultimately show ?thesis using f(2) j s by blast
qed

definition demo_config :: cs_config where
  "demo_config = \<lparr>cs_Addr = '':8080'', cs_UpstreamURL = demo_url\<lparr>u_RawQuery := []\<rparr>, cs_UpstreamTimeout = 1, cs_MaxBodyBytes = 10,
     cs_CacheSize = 1, cs_CacheTTL = 5, cs_JanitorInterval = 1, cs_ShutdownTimeout = 1, cs_LogLevel = 0\<rparr>"

definition demo_run :: run_io where
  "demo_run = \<lparr>cs_env = \<lparr>GetFieldParams = Inr [''ADDR''], ParseEnv = (\<lambda>_. Inr demo_config)\<rparr>, cs_listen = None,
     cs_events = demo_events @ demo_flight @ [SweepTick 4, Lookup demo_url 7], cs_wait = Some (ShutdownHTTP ''timeout'')\<rparr>"

theorem service_serves_live_answers_witness:
  "\<exists>outs g hdr. run demo_run (\<lambda>_. []) = Exited (Some (Server (ShutdownHTTP ''timeout''))) (Some (outs, g))
    \<and> ToRequest 2 (Served 200 hdr ''hi'') \<in> set (outs ! 9) \<and> Len (g_cache g) \<le> 1"
proof -
  have l: "loadConfig (cs_env demo_run) (\<lambda>_. []) = Inr demo_config" by code_simp
  have "case run demo_run (\<lambda>_. []) of Exited err (Some (outs, g)) \<Rightarrow> err = Some (Server (ShutdownHTTP ''timeout''))
      \<and> outs ! 9 = [ToRequest 2 (serve \<lparr>r_status = 200, r_header = [], r_body = ''hi''\<rparr> True)] | _ \<Rightarrow> False"
    by code_simp
  then obtain outs g where r: "run demo_run (\<lambda>_. []) = Exited (Some (Server (ShutdownHTTP ''timeout''))) (Some (outs, g))"
    and o: "outs ! 9 = [ToRequest 2 (serve \<lparr>r_status = 200, r_header = [], r_body = ''hi''\<rparr> True)]"
    by (auto split: cs_exit.splits option.splits)
  obtain hdr where h: "ToRequest 2 (Served 200 hdr ''hi'') \<in> set (outs ! 9)" using o by (simp add: serve_def)
  have "cs_MaxBodyBytes demo_config < max64" "9 < length (cs_events demo_run)"
    by (simp_all add: demo_config_def demo_run_def demo_events_def demo_flight_def max64_def)
  from service_serves_live_answers[OF l this(1) r this(2) h] have "Len (g_cache g) \<le> 1" by (simp add: demo_config_def)
  then show ?thesis using r h by blast
qed

end
