(* ===== verification/Consumer_Service.thy ===== *)
theory Consumer_Service
  imports Kafka_Consumer Service_Run
begin

text \<open>
  App 07: \<^verbatim>\<open>cmd/kafka-consumer/main.go\<close>. The configuration, the creation of the topics and \<open>run\<close>, which consumes until its context
  ends. A run is its result, the log of its effects and the trace of its client.
\<close>

section \<open>Configuration\<close>

record kc_config =
  kf_Brokers :: "string list"
  kf_Group :: string
  kf_Topic :: string
  kf_DeadLetterTopic :: string
  kf_BatchSize :: int
  kf_BatchTimeout :: duration
  kf_MaxAttempts :: int
  kf_ShutdownTimeout :: duration

definition checkConfig :: "kc_config \<Rightarrow> string option" where
  "checkConfig cfg =
     (if length (kf_Brokers cfg) = 0 then Some ''KAFKA_BROKERS is empty''
      else if kf_Topic cfg = kf_DeadLetterTopic cfg then Some ''KAFKA_DLQ_TOPIC must differ from KAFKA_TOPIC''
      else if kf_BatchSize cfg < 1 then Some ''BATCH_SIZE must be positive''
      else if kf_BatchTimeout cfg \<le> 0 then Some ''BATCH_TIMEOUT must be positive''
      else if kf_MaxAttempts cfg < 1 then Some ''MAX_ATTEMPTS must be positive''
      else None)"

definition loadConfig :: "kc_config env_lib \<Rightarrow> (string \<Rightarrow> string) \<Rightarrow> string config_error + kc_config" where
  "loadConfig lib getenv = load lib checkConfig getenv"

definition retryBaseDelay :: duration where
  "retryBaseDelay = 200000000"

definition retryMaxDelay :: duration where
  "retryMaxDelay = 5000000000"

section \<open>Topics\<close>

text \<open>The answers of the broker, in the order of \<^verbatim>\<open>Sorted\<close>. A topic that exists or that the service may not create is not an error.\<close>

datatype topic_error = TopicAlreadyExists | TopicAuthorizationFailed | OtherTopicError gerr

datatype topics_error = CreateTopics gerr | CreateTopic string topic_error

fun firstTopicError :: "(string \<times> topic_error option) list \<Rightarrow> topics_error option" where
  "firstTopicError [] = None"
| "firstTopicError ((topic, err) # rs) =
     (if err \<noteq> None \<and> err \<noteq> Some TopicAlreadyExists \<and> err \<noteq> Some TopicAuthorizationFailed
      then Some (CreateTopic topic (the err)) else firstTopicError rs)"

definition createTopics :: "gerr + (string \<times> topic_error option) list \<Rightarrow> topics_error option" where
  "createTopics resps = (case resps of Inl e \<Rightarrow> Some (CreateTopics e) | Inr rs \<Rightarrow> firstTopicError rs)"

section \<open>Run\<close>

text \<open>\<open>kr_maxBatch\<close> is the limit of \<open>make\<close> for a batch.\<close>

datatype kc_resource = KafkaClient

record run_io =
  kr_env :: "kc_config env_lib"
  kr_client :: "gerr option"
  kr_topics :: "gerr + (string \<times> topic_error option) list"
  kr_unmarshal :: "string \<Rightarrow> Event option"
  kr_msg :: "cause \<Rightarrow> string"
  kr_rand :: "duration \<Rightarrow> duration"
  kr_its :: "iteration list"
  kr_final :: flush_env
  kr_maxBatch :: int

datatype kc_error = LoadConfig "string config_error" | CreateClient gerr | Topics topics_error | Consume run_result

type_synonym kc_exit = "kc_error outcome \<times> clog"

definition consumerConfig :: "kc_config \<Rightarrow> Config" where
  "consumerConfig cfg = \<lparr>DeadLetterTopic = kf_DeadLetterTopic cfg, BatchSize = kf_BatchSize cfg, BatchTimeout = kf_BatchTimeout cfg\<rparr>"

text \<open>The actions that go through the client are its uses; writing to the sink does not.\<close>

fun usesClient :: "(Event, unit) At_Least_Once.action \<Rightarrow> bool" where
  "usesClient (Stored _) = False"
| "usesClient _ = True"

definition consume :: "run_io \<Rightarrow> kc_config \<Rightarrow> kc_exit \<times> kc_resource Service_Run.action list" where
  "consume io cfg =
     (case batch_New (kr_maxBatch io) (BatchSize (consumerConfig cfg)) (BatchTimeout (consumerConfig cfg)) of
        None \<Rightarrow> ((Panic, []), [])
      | Some batch \<Rightarrow>
          (case Run (kr_unmarshal io) (kr_msg io) (retry_New (kf_MaxAttempts cfg) retryBaseDelay retryMaxDelay (kr_rand io))
                  (consumerConfig cfg) (kr_final io) (kr_its io) batch [] of
             (res, log) \<Rightarrow>
               ((case res of Stopped \<Rightarrow> Returned None | Panicked \<Rightarrow> Panic | _ \<Rightarrow> Returned (Some (Consume res)), log),
                map (\<lambda>_. Used KafkaClient) (filter usesClient log))))"

definition runWithClient :: "run_io \<Rightarrow> kc_config \<Rightarrow> kc_exit \<times> kc_resource Service_Run.action list" where
  "runWithClient io cfg =
     after [Used KafkaClient]
       (case createTopics (kr_topics io) of
          Some e \<Rightarrow> ((Returned (Some (Topics e)), []), [])
        | None \<Rightarrow> consume io cfg)"

definition run :: "run_io \<Rightarrow> (string \<Rightarrow> string) \<Rightarrow> kc_exit \<times> kc_resource Service_Run.action list" where
  "run io getenv =
     (case loadConfig (kr_env io) getenv of
        Inl e \<Rightarrow> ((Returned (Some (LoadConfig e)), []), [])
      | Inr cfg \<Rightarrow>
          (case kr_client io of
             Some e \<Rightarrow> ((Returned (Some (CreateClient e)), []), [])
           | None \<Rightarrow> deferred [Opened KafkaClient] KafkaClient (runWithClient io cfg)))"

section \<open>Lemmas\<close>

lemma consumer_loadConfig_valid:
  assumes "loadConfig lib getenv = Inr cfg"
  shows "kf_Topic cfg \<noteq> kf_DeadLetterTopic cfg" "1 \<le> kf_BatchSize cfg" "0 < kf_BatchTimeout cfg" "1 \<le> kf_MaxAttempts cfg"
  using load_Inr[OF assms[unfolded loadConfig_def]] by (auto simp: checkConfig_def split: if_splits)

lemma createTopics_None:
  "createTopics resps = None \<longleftrightarrow> (\<exists>rs. resps = Inr rs \<and> (\<forall>(topic, err)\<in>set rs. \<forall>e. err = Some e \<longrightarrow> e \<in> {TopicAlreadyExists, TopicAuthorizationFailed}))"
proof -
  have "firstTopicError rs = None \<longleftrightarrow> (\<forall>(topic, err)\<in>set rs. \<forall>e. err = Some e \<longrightarrow> e \<in> {TopicAlreadyExists, TopicAuthorizationFailed})" for rs
    by (induction rs rule: firstTopicError.induct) auto
  then show ?thesis by (cases resps) (simp_all add: createTopics_def)
qed

lemma consumer_run_keeps: "keeps {} (snd (run io getenv))"
proof -
  have u: "keeps {KafkaClient} (map (\<lambda>_. Used KafkaClient) xs)" for xs :: "'x list"
    by (induction xs) (simp_all add: keeps_def)
  have "keeps {KafkaClient} (snd (consume io cfg))" for cfg
    by (auto simp: consume_def intro!: resource_intros u split: option.splits prod.splits)
  then show ?thesis
    by (auto simp: run_def runWithClient_def intro!: resource_intros split: sum.splits option.splits)
qed

lemma consumer_deadLetter_topic [simp]: "k_Topic (deadLetter msg cfg r c) = DeadLetterTopic cfg"
  by (simp add: deadLetter_def)

lemma splitItems_dead: "splitItems msg cfg its = (records, valid, events, dead) \<Longrightarrow> \<forall>d\<in>set dead. k_Topic d = DeadLetterTopic cfg"
  by (induction its arbitrary: records valid events dead) (auto split: prod.splits sum.splits)

lemma consumer_flush_to_dlq:
  assumes "dead_letters_to (DeadLetterTopic cfg) log" and "flush msg pol cfg env b log = Some (e, b', log')"
  shows "dead_letters_to (DeadLetterTopic cfg) log'"
proof -
  obtain records valid events dead where sp: "splitItems msg cfg (bt_items b) = (records, valid, events, dead)" by (metis prod_cases4)
  show ?thesis using assms splitItems_dead[OF sp]
    by (auto simp: flush_def Drain_def flushItems_def sp Let_def split: if_splits option.splits retry_error.splits)
qed

lemma consumer_Run_to_dlq:
  "dead_letters_to (DeadLetterTopic cfg) log \<Longrightarrow> dead_letters_to (DeadLetterTopic cfg) (snd (Run unmarshal msg pol cfg final its b log))"
proof (induction its arbitrary: b log)
  case Nil
  then show ?case using consumer_flush_to_dlq[OF Nil, of msg pol final b] by (auto split: option.splits)
next
  case (Cons it its)
  obtain ok b1 l1 where q: "poll unmarshal it b log = (ok, b1, l1)" by (metis surj_pair)
  have l1: "dead_letters_to (DeadLetterTopic cfg) l1" using q Cons.prems by (auto simp: poll_def Let_def split: prod.splits if_splits)
  show ?case
  proof (cases "\<not> ok")
    case True
    then show ?thesis using q l1 by simp
  next
    case False
    show ?thesis
    proof (cases "if Due b1 (it_test it) then flush msg pol cfg (it_flush it) b1 l1 else Some (None, b1, l1)")
      case None
      then show ?thesis using q l1 False by simp
    next
      case (Some r)
      obtain e b2 l2 where r: "r = (e, b2, l2)" by (metis surj_pair)
      have l2: "dead_letters_to (DeadLetterTopic cfg) l2" using Some consumer_flush_to_dlq[OF l1] l1 by (auto simp: r split: if_splits)
      then show ?thesis using q False Some Cons.IH by (cases e) (simp_all add: r)
    qed
  qed
qed

lemma consumer_Run_Stopped: "fst (Run unmarshal msg pol cfg final its b log) = Stopped \<Longrightarrow>
    \<exists>l. snd (Run unmarshal msg pol cfg final its b log) = l @ [AllowRebalance]"
proof (induction its arbitrary: b log)
  case Nil
  then show ?case by (auto split: option.splits)
next
  case (Cons it its)
  then show ?case by (auto split: prod.splits option.splits bool.splits if_splits)
qed

lemma flush_total: "flush msg pol cfg env b log \<noteq> None"
  by (cases rule: flushItems_shape[of "bt_items b" msg pol cfg env log]) (simp_all add: flush_def Drain_def)

lemma Run_no_panic: "fst (Run unmarshal msg pol cfg final its b log) \<noteq> Panicked"
proof (induction its arbitrary: b log)
  case Nil
  then show ?case using flush_total[of msg pol cfg final b log] by (auto split: option.splits)
next
  case (Cons it its)
  obtain ok b1 l1 where q: "poll unmarshal it b log = (ok, b1, l1)" by (metis surj_pair)
  show ?case using q flush_total[of msg pol cfg "it_flush it" b1 l1] Cons.IH
    by (cases ok; cases "Due b1 (it_test it)") (auto split: option.splits)
qed

section \<open>Properties\<close>

text \<open>(C32) Starting and stopping the consumer loses nothing. Whatever the environment, Kafka and the sink do, \<open>run\<close> has closed
  its client when it ends; no dead letter ever goes to the topic it consumes; and if it returns nil,
  every record it polled is in the sink or in the dead-letter topic. The process crashes in one case only, and then before
  the first record is polled: the configuration is accepted, the client and the topics are there, and BATCH_SIZE, which has
  no upper bound, is more than \<open>make\<close> can allocate.\<close>

theorem consumer_service_stops_cleanly:
  assumes "run io getenv = ((out, log), tr)"
  shows "steps tr {} = Some {} \<and> out \<noteq> Crashed
    \<and> (out = Panic \<longleftrightarrow> kr_client io = None \<and> createTopics (kr_topics io) = None
        \<and> (\<exists>cfg. loadConfig (kr_env io) getenv = Inr cfg \<and> kr_maxBatch io < kf_BatchSize cfg))
    \<and> (out = Panic \<longrightarrow> log = [])
    \<and> (\<forall>cfg. loadConfig (kr_env io) getenv = Inr cfg \<longrightarrow>
        (\<forall>ds. DeadLettered ds \<in> set log \<longrightarrow> (\<forall>d\<in>set ds. k_Topic d = kf_DeadLetterTopic cfg \<and> k_Topic d \<noteq> kf_Topic cfg))
        \<and> (out = Returned None \<longrightarrow> (\<forall>r\<in>set (polled_of log).
              handled (event_of (kr_unmarshal io)) (is_dead_letter (kr_msg io) (consumerConfig cfg)) log r)))"
proof (cases "loadConfig (kr_env io) getenv")
  case (Inl e)
  then show ?thesis using assms by (auto simp: run_def)
next
  case (Inr cfg)
  note v = consumer_loadConfig_valid[OF Inr]
  show ?thesis
  proof (cases "kr_maxBatch io < kf_BatchSize cfg")
    case True
    then have c: "consume io cfg = ((Panic, []), [])"
      by (simp add: consume_def consumerConfig_def batch_New_def makeable_def)
    have tr: "steps tr {} = Some {}" using consumer_run_keeps[of io getenv] assms by (simp add: keeps_def)
    have o: "log = [] \<and> out \<noteq> Crashed \<and> out \<noteq> Returned None
        \<and> (out = Panic \<longleftrightarrow> kr_client io = None \<and> createTopics (kr_topics io) = None)"
      using assms Inr c by (auto simp: run_def runWithClient_def deferred_def after_def split: option.splits)
    show ?thesis using tr o Inr True by simp
  next
    case False
    obtain batch :: "pending Batcher"
      where b: "batch_New (kr_maxBatch io) (kf_BatchSize cfg) (kf_BatchTimeout cfg) = Some batch" "bt_items batch = []"
      using v(2,3) False by (auto simp: batch_New_def makeable_def)
    let ?run = "Run (kr_unmarshal io) (kr_msg io) (retry_New (kf_MaxAttempts cfg) retryBaseDelay retryMaxDelay (kr_rand io))
        (consumerConfig cfg) (kr_final io) (kr_its io) batch []"
    have c: "fst (consume io cfg) = ((case fst ?run of Stopped \<Rightarrow> Returned None | Panicked \<Rightarrow> Panic | r \<Rightarrow> Returned (Some (Consume r))), snd ?run)"
      using b(1) by (cases ?run; cases "fst ?run") (simp_all add: consume_def consumerConfig_def)
    have o: "(\<exists>e. out = Returned (Some e)) \<and> log = [] \<or> (out, log) = fst (consume io cfg)"
      using assms Inr by (auto simp: run_def runWithClient_def deferred_def after_def split: option.splits prod.splits)
    have np: "out \<noteq> Panic \<and> out \<noteq> Crashed"
      using o c Run_no_panic[of "kr_unmarshal io" "kr_msg io" _ "consumerConfig cfg" "kr_final io" "kr_its io" batch "[]"]
      by (auto split: run_result.splits)
    have tr: "steps tr {} = Some {}" using consumer_run_keeps[of io getenv] assms by (simp add: keeps_def)
    have dl: "dead_letters_to (DeadLetterTopic (consumerConfig cfg)) log"
      using o c consumer_Run_to_dlq[of "consumerConfig cfg" "[]"] by auto
    have h: "\<forall>r\<in>set (polled_of log). handled (event_of (kr_unmarshal io)) (is_dead_letter (kr_msg io) (consumerConfig cfg)) log r"
      if "out = Returned None"
    proof -
      have r: "fst ?run = Stopped" "snd ?run = log" using o c that by (auto split: run_result.splits)
      obtain l where "snd ?run = l @ [AllowRebalance]" using consumer_Run_Stopped[OF r(1)] by blast
      moreover have "safe_log (event_of (kr_unmarshal io)) (is_dead_letter (kr_msg io) (consumerConfig cfg)) (snd ?run)"
        by (rule consumer_Run_safe[where rs = "[]"]) (simp_all add: b(2))
      ultimately show ?thesis unfolding r(2) by (intro safe_log_end)
    qed
    show ?thesis using np tr dl h v(1) Inr False by (auto simp: dead_letters_to_def consumerConfig_def)
  qed
qed

definition demo_config :: kc_config where
  "demo_config = \<lparr>kf_Brokers = [''localhost:9092''], kf_Group = ''events-sink'', kf_Topic = ''t'', kf_DeadLetterTopic = ''dlq'',
     kf_BatchSize = 1, kf_BatchTimeout = 10, kf_MaxAttempts = 3, kf_ShutdownTimeout = 1\<rparr>"

definition demo_run :: run_io where
  "demo_run = \<lparr>kr_env = \<lparr>GetFieldParams = Inr [''KAFKA_TOPIC''], ParseEnv = (\<lambda>_. Inr demo_config)\<rparr>, kr_client = None,
     kr_topics = Inr [(''dlq'', None), (''t'', Some TopicAlreadyExists)], kr_unmarshal = demo_unmarshal, kr_msg = (\<lambda>_. []),
     kr_rand = (\<lambda>n. n - 1), kr_its = [demo_iter], kr_final = demo_env, kr_maxBatch = 1000\<rparr>"

theorem consumer_service_stops_cleanly_witness:
  "\<exists>log tr. run demo_run (\<lambda>_. []) = ((Returned None, log), tr) \<and> polled_of log = [demo_record]
    \<and> handled (event_of demo_unmarshal) (is_dead_letter (\<lambda>_. []) (consumerConfig demo_config)) log demo_record"
proof -
  obtain err log tr where r: "run demo_run (\<lambda>_. []) = ((err, log), tr)" by (metis surj_pair)
  have "fst (fst (run demo_run (\<lambda>_. []))) = Returned None" by code_simp
  then have e: "err = Returned None" using r by simp
  have "polled_of (snd (fst (run demo_run (\<lambda>_. [])))) = [demo_record]" by code_simp
  then have p: "polled_of log = [demo_record]" using r by simp
  have c: "loadConfig (kr_env demo_run) (\<lambda>_. []) = Inr demo_config" by code_simp
  have "handled (event_of demo_unmarshal) (is_dead_letter (\<lambda>_. []) (consumerConfig demo_config)) log demo_record"
    using consumer_service_stops_cleanly[OF r] c p e by (auto simp: demo_run_def)
  then show ?thesis using r p e by blast
qed

end
