(* ===== verification/Notes_Service.thy ===== *)
theory Notes_Service
  imports Notes Http_Server
begin

text \<open>
  App 02: \<^verbatim>\<open>cmd/http-notes/main.go\<close>. The configuration and \<open>run\<close>: the API served over an empty store until a signal or an error,
  then shut down. Requests overlap as in \<open>Http_Server\<close>; the time-out middleware may answer before the handler has run.
\<close>

section \<open>Configuration\<close>

record ns_config =
  nc_Addr :: string
  nc_LogLevel :: int
  nc_ReadHeaderTimeout :: duration
  nc_ReadTimeout :: duration
  nc_WriteTimeout :: duration
  nc_IdleTimeout :: duration
  nc_HandlerTimeout :: duration
  nc_ShutdownTimeout :: duration

datatype ns_invalid = BadHandlerTimeout duration duration

definition checkTimeouts :: "ns_config \<Rightarrow> ns_invalid option" where
  "checkTimeouts cfg =
     (if nc_HandlerTimeout cfg \<le> 0 \<or> nc_WriteTimeout cfg \<le> nc_HandlerTimeout cfg
      then Some (BadHandlerTimeout (nc_HandlerTimeout cfg) (nc_WriteTimeout cfg)) else None)"

definition loadConfig :: "ns_config env_lib \<Rightarrow> (string \<Rightarrow> string) \<Rightarrow> ns_invalid config_error + ns_config" where
  "loadConfig lib getenv = load lib checkTimeouts getenv"

section \<open>Run\<close>







section \<open>Lemmas\<close>

text \<open>A time-out can always be answered: the handler's limit is below the server's limit for writing.\<close>

lemma loadConfig_timeouts:
  "loadConfig lib getenv = Inr cfg \<Longrightarrow> 0 < nc_HandlerTimeout cfg \<and> nc_HandlerTimeout cfg < nc_WriteTimeout cfg"
  unfolding loadConfig_def by (drule load_Inr) (simp add: checkTimeouts_def split: if_splits)









section \<open>Properties\<close>







end
