(* ===== verification/Order_Server.thy ===== *)
theory Order_Server
  imports Order_Service Http_Server
begin

text \<open>
  App 06: the service around the orders API (\<^verbatim>\<open>cmd/pg-service/main.go\<close>), its migrations (\<^verbatim>\<open>internal/db/db.go\<close>), its routes and the
  choice of the client's address (\<^verbatim>\<open>internal/httpapi/handler.go\<close>).

  A run is its result, the server with the database at its end, and the trace of the pool and the migration connection.
  Identifiers and times that the database assigns, and the failures of statements, come with each request.
\<close>

section \<open>Configuration\<close>

record pg_config =
  pc_Addr :: string
  pc_DatabaseURL :: string
  pc_ShutdownTimeout :: duration
  pc_TrustedProxies :: "string list"

text \<open>All keys are passed on here, with an empty value if unset.\<close>

definition loadConfig :: "pg_config env_lib \<Rightarrow> (string \<Rightarrow> string) \<Rightarrow> unit config_error + pg_config" where
  "loadConfig lib getenv =
     (case GetFieldParams lib of
        Inl e \<Rightarrow> Inl (InspectConfig e)
      | Inr params \<Rightarrow>
          (case ParseEnv lib (map (\<lambda>p. (p, getenv p)) params) of
             Inl e \<Rightarrow> Inl (ParseConfig e)
           | Inr cfg \<Rightarrow> Inr cfg))"

section \<open>Migrations\<close>

datatype pg_resource = PgPool | SqlDB

text \<open>The errors, joined, and the versions applied.\<close>

definition Migrate :: "goose_io \<Rightarrow> (migrate_error list \<times> int list) \<times> pg_resource action list" where
  "Migrate g =
     (case gs_Sub g of
        Some e \<Rightarrow> (([OpenMigrations e], []), [])
      | None \<Rightarrow>
     (case gs_Locker g of
        Some e \<Rightarrow> (([CreateLocker e], []), [])
      | None \<Rightarrow>
          let ((err, applied), tr) =
            (case gs_Provider g of
               Some e \<Rightarrow> ((Some (CreateProvider e), []), [])
             | None \<Rightarrow>
                 (case gs_Up g of
                    Inl e \<Rightarrow> ((Some (ApplyMigrations e), []), [Used SqlDB])
                  | Inr results \<Rightarrow> ((None, results), [Used SqlDB])))
          in ((Join [err, map_option CloseDB (gs_CloseDB g)], applied), Opened SqlDB # tr @ [Closed SqlDB])))"

section \<open>Client addresses\<close>

text \<open>\<open>parse\<close> is \<^verbatim>\<open>netip.ParseAddrPort\<close> followed by taking the address, \<open>plain\<close> unmaps it and drops its zone; a prefix is the set it contains.\<close>

definition fromTrustedProxy :: "(string \<Rightarrow> 'a option) \<Rightarrow> ('a \<Rightarrow> 'a) \<Rightarrow> string \<Rightarrow> ('a \<Rightarrow> bool) list \<Rightarrow> bool" where
  "fromTrustedProxy parse plain remoteAddr trustedProxies =
     (case parse remoteAddr of
        None \<Rightarrow> False
      | Some peer \<Rightarrow> list_ex (\<lambda>p. p (plain peer)) trustedProxies)"

datatype address_source = ClientIPFromXFF | ClientIPFromRemoteAddr

definition clientIP :: "(string \<Rightarrow> 'a option) \<Rightarrow> ('a \<Rightarrow> 'a) \<Rightarrow> ('a \<Rightarrow> bool) list \<Rightarrow> string \<Rightarrow> address_source" where
  "clientIP parse plain trustedProxies remoteAddr =
     (if trustedProxies = [] then ClientIPFromRemoteAddr
      else if fromTrustedProxy parse plain remoteAddr trustedProxies then ClientIPFromXFF else ClientIPFromRemoteAddr)"

text \<open>The forwarded header counts only when the peer itself is a trusted proxy.\<close>

lemma clientIP_XFF: "clientIP parse plain trusted remote = ClientIPFromXFF \<longleftrightarrow> (\<exists>peer p. parse remote = Some peer \<and> p \<in> set trusted \<and> p (plain peer))"
  by (auto simp: clientIP_def fromTrustedProxy_def list_ex_iff split: option.splits)

section \<open>Routes\<close>

text \<open>\<^verbatim>\<open>strings.TrimSpace\<close>, \<^verbatim>\<open>strings.ToLower\<close> and \<^verbatim>\<open>mail.ParseAddress\<close>.\<close>

record text_lib =
  tl_trim :: "string \<Rightarrow> string"
  tl_lower :: "string \<Rightarrow> string"
  tl_parse :: "string \<Rightarrow> string option"

datatype api_call =
    PostUser int gotime "pg_error option" "string + string \<times> string"
  | GetUserByID "pg_error option" string
  | PostOrder int gotime "nat \<Rightarrow> pg_error option" string "string + Item list"
  | GetOrders "nat \<Rightarrow> pg_error option" string string string

definition callStore :: "int \<Rightarrow> gotime \<Rightarrow> pg_error option \<Rightarrow> (nat \<Rightarrow> pg_error option) \<Rightarrow> db orderStore" where
  "callStore newID now fault faults =
     \<lparr>os_CreateUser = CreateUser fault newID now, os_GetUser = GetUser fault,
      os_CreateOrder = CreateOrder faults newID now, os_ListOrders = ListOrders faults\<rparr>"

fun routes :: "text_lib \<Rightarrow> api_call \<Rightarrow> db \<Rightarrow> (nat \<times> resp) \<times> db" where
  "routes t (PostUser newID now fault req) d =
     createUser (tl_trim t) (tl_lower t) (tl_parse t) (callStore newID now fault (\<lambda>_. None)) req d"
| "routes t (GetUserByID fault i) d = (getUser (callStore 0 0 fault (\<lambda>_. None)) i d, d)"
| "routes t (PostOrder newID now faults i req) d = createOrder (tl_trim t) (callStore newID now None faults) i req d"
| "routes t (GetOrders faults i limit cursor) d = (listOrders (callStore 0 0 None faults) i limit cursor d, d)"

section \<open>Run\<close>

text \<open>\<open>or_serve\<close>: \<^verbatim>\<open>Serve\<close> failed before the signal; \<open>or_served\<close>: its error after the shutdown, other than \<^verbatim>\<open>ErrServerClosed\<close>.\<close>

record run_io =
  or_env :: "pg_config env_lib"
  or_pool :: "gerr option"
  or_ping :: "gerr option"
  or_migrate :: goose_io
  or_db :: db
  or_text :: text_lib
  or_listen :: "gerr option"
  or_serving :: "api_call server_event list"
  or_serve :: "gerr option"
  or_draining :: "api_call server_event list"
  or_shutdown :: "gerr option"
  or_close :: "gerr option"
  or_served :: "gerr option"

datatype or_error =
    LoadConfig "unit config_error" | CreatePool gerr | PingDatabase gerr | MigrateDB "migrate_error list"
  | Listen gerr | ServeHTTP gerr | ShutdownHTTP "gerr list"

type_synonym order_server = "(api_call, db, nat \<times> resp) server"

datatype or_exit = Exited "or_error option" "order_server option" | NotAnExecution

text \<open>Every request that was handled may have used the pool.\<close>

definition poolUses :: "order_server \<Rightarrow> pg_resource action list" where
  "poolUses s = replicate (length (hs_ran s)) (Used PgPool)"

definition serve :: "run_io \<Rightarrow> or_exit \<times> pg_resource action list" where
  "serve io =
     (case server_run (routes (or_text io)) (\<lambda>_. None) (or_serving io) (start (or_db io)) of
        None \<Rightarrow> (NotAnExecution, [])
      | Some s1 \<Rightarrow>
     (case or_serve io of
        Some e \<Rightarrow> (Exited (Some (ServeHTTP e)) (Some s1), poolUses s1)
      | None \<Rightarrow>
     (case server_run (routes (or_text io)) (\<lambda>_. None) (or_draining io) s1 of
        None \<Rightarrow> (NotAnExecution, [])
      | Some s2 \<Rightarrow>
     (case or_shutdown io of
        Some e \<Rightarrow> (Exited (Some (ShutdownHTTP (Join [Some e, or_close io]))) (Some s2), poolUses s2)
      | None \<Rightarrow>
          if \<not> quiet_server s2 then (NotAnExecution, [])
          else (Exited (map_option ServeHTTP (or_served io)) (Some s2), poolUses s2)))))"

definition runWithPool :: "run_io \<Rightarrow> or_exit \<times> pg_resource action list" where
  "runWithPool io =
     after [Used PgPool]
       (case or_ping io of
          Some e \<Rightarrow> (Exited (Some (PingDatabase e)) None, [])
        | None \<Rightarrow>
       (case Migrate (or_migrate io) of
          ((e # es, _), tr) \<Rightarrow> after tr (Exited (Some (MigrateDB (e # es))) None, [])
        | (([], _), tr) \<Rightarrow>
            after tr
              (case or_listen io of
                 Some e \<Rightarrow> (Exited (Some (Listen e)) None, [])
               | None \<Rightarrow> serve io)))"

definition run :: "run_io \<Rightarrow> (string \<Rightarrow> string) \<Rightarrow> or_exit \<times> pg_resource action list" where
  "run io getenv =
     (case loadConfig (or_env io) getenv of
        Inl e \<Rightarrow> (Exited (Some (LoadConfig e)) None, [])
      | Inr cfg \<Rightarrow>
          (case or_pool io of
             Some e \<Rightarrow> (Exited (Some (CreatePool e)) None, [])
           | None \<Rightarrow> deferred [Opened PgPool] PgPool (runWithPool io)))"

section \<open>Resources\<close>

lemma Migrate_keeps: "keeps {PgPool} (snd (Migrate g))"
  by (auto simp: Migrate_def keeps_def Let_def split: option.splits sum.splits)

lemma orders_run_keeps: "keeps {} (snd (run io getenv))"
proof -
  have s: "keeps {PgPool} (snd (serve io))"
    by (auto simp: serve_def poolUses_def intro!: resource_intros split: option.splits)
  obtain es vs tr where m: "Migrate (or_migrate io) = ((es, vs), tr)" by (metis surj_pair)
  have tr: "keeps {PgPool} tr" using Migrate_keeps[of "or_migrate io"] m by simp
  have "keeps {PgPool} (snd (runWithPool io))"
    using tr s by (auto simp: runWithPool_def m intro!: resource_intros split: option.splits list.splits)
  then show ?thesis by (auto simp: run_def intro!: resource_intros split: sum.splits option.splits)
qed

section \<open>A sound database\<close>

text \<open>Identifiers are unique, every order has a user, at least one item, only valid items, and the exact total of its items, and
  no item is without its order.\<close>

definition order_sound :: "db \<Rightarrow> Order \<Rightarrow> bool" where
  "order_sound d r \<longleftrightarrow>
     (\<exists>its. its \<noteq> [] \<and> list_all item_checks its \<and> filter (\<lambda>p. fst p = o_ID r) (t_items d) = map (Pair (o_ID r)) its
        \<and> TotalCents r = order_total its) \<and> (\<exists>u\<in>set (t_users d). u_ID u = o_UserID r)"

definition db_sound :: "db \<Rightarrow> bool" where
  "db_sound d \<longleftrightarrow>
     distinct (map o_ID (t_orders d)) \<and> distinct (map u_ID (t_users d)) \<and> distinct (map u_Email (t_users d))
     \<and> (\<forall>r\<in>set (t_orders d). order_sound d r) \<and> fst ` set (t_items d) \<subseteq> o_ID ` set (t_orders d)"

fun newUserID :: "api_call \<Rightarrow> int option" where
  "newUserID (PostUser i _ _ _) = Some i"
| "newUserID _ = None"

fun newOrderID :: "api_call \<Rightarrow> int option" where
  "newOrderID (PostOrder i _ _ _ _) = Some i"
| "newOrderID _ = None"

text \<open>The identity columns: the identifiers of a sequence of calls are new and pairwise different.\<close>

definition fresh_ids :: "api_call list \<Rightarrow> db \<Rightarrow> bool" where
  "fresh_ids qs d \<longleftrightarrow>
     distinct (List.map_filter newUserID qs) \<and> distinct (List.map_filter newOrderID qs)
     \<and> set (List.map_filter newUserID qs) \<inter> u_ID ` set (t_users d) = {}
     \<and> set (List.map_filter newOrderID qs) \<inter> o_ID ` set (t_orders d) = {}"

definition db_grows :: "db \<Rightarrow> db \<Rightarrow> bool" where
  "db_grows d d' \<longleftrightarrow> set (t_orders d) \<subseteq> set (t_orders d')
     \<and> (\<forall>i\<in>o_ID ` set (t_orders d). filter (\<lambda>p. fst p = i) (t_items d') = filter (\<lambda>p. fst p = i) (t_items d))"

lemma db_grows_refl [simp]: "db_grows d d"
  by (simp add: db_grows_def)

lemma db_grows_trans: "db_grows a b \<Longrightarrow> db_grows b c \<Longrightarrow> db_grows a c"
  unfolding db_grows_def by (metis image_mono subset_iff subset_trans)

text \<open>What one call can do to the tables: nothing, add a user, or add a whole order.\<close>

lemma CreateUser_cases:
  "snd (CreateUser fault i now email name d) = d
   \<or> (\<exists>u. snd (CreateUser fault i now email name d) = d\<lparr>t_users := t_users d @ [u]\<rparr> \<and> u_ID u = i \<and> u_Email u \<notin> u_Email ` set (t_users d))"
proof (cases "fault = None \<and> \<not> list_ex (\<lambda>u. u_Email u = email) (t_users d)")
  case True
  then show ?thesis
    by (intro disjI2 exI[of _ "\<lparr>u_ID = i, u_Email = email, u_Name = name, u_CreatedAt = now\<rparr>"])
       (auto simp: CreateUser_def q_CreateUser_def Let_def list_ex_iff)
qed (auto simp: CreateUser_def q_CreateUser_def split: option.splits)

lemma CreateOrder_cases:
  assumes "db_sound d" and "i \<notin> o_ID ` set (t_orders d)"
  shows "(\<exists>e. CreateOrder faults i now u items d = (Inl e, d))
    \<or> CreateOrder faults i now u items d = (Inr ((new_row i u (order_total items) now)\<lparr>o_Items := items\<rparr>), with_order i now u items (order_total items) d)
      \<and> items \<noteq> [] \<and> list_all item_checks items \<and> (\<exists>x\<in>set (t_users d). u_ID x = u)"
proof -
  have f: "\<forall>r\<in>set (t_orders d). o_ID r \<noteq> i" "\<forall>p\<in>set (t_items d). fst p \<noteq> i" using assms unfolding db_sound_def by auto
  have ok: "list_all item_checks items \<and> (\<exists>x\<in>set (t_users d). u_ID x = u)" if "createOrderTx faults i now u items d = Inr res" for res
    using that
    by (auto simp: createOrderTx_def q_GetUser_def q_CreateOrder_def q_InsertOrderItems_def find_Some_iff list.pred_map comp_def
        split: sum.splits option.splits if_splits)
  show ?thesis using createOrderTx_cases[OF f, of faults now u items] ok
    by (auto simp: CreateOrder_def split: option.splits tx_error.splits)
qed

lemma add_user_sound:
  assumes "db_sound d" and "u_ID u \<notin> u_ID ` set (t_users d)" and "u_Email u \<notin> u_Email ` set (t_users d)"
  shows "db_sound (d\<lparr>t_users := t_users d @ [u]\<rparr>)" and "db_grows d (d\<lparr>t_users := t_users d @ [u]\<rparr>)"
  using assms by (auto simp: db_sound_def order_sound_def db_grows_def)

lemma add_order_sound:
  assumes s: "db_sound d" and i: "i \<notin> o_ID ` set (t_orders d)" and its: "items \<noteq> []" "list_all item_checks items"
    and u: "\<exists>x\<in>set (t_users d). u_ID x = u"
  shows "db_sound (with_order i now u items (order_total items) d)" and "db_grows d (with_order i now u items (order_total items) d)"
proof -
  let ?d = "with_order i now u items (order_total items) d"
  have fi: "filter (\<lambda>p. fst p = i) (t_items d) = []" using s i unfolding db_sound_def by (auto simp: filter_empty_conv)
  have fo: "filter (\<lambda>p. fst p = j) (map (Pair i) items) = []" if "j \<noteq> i" for j using that by (simp add: filter_empty_conv)
  have old: "filter (\<lambda>p. fst p = o_ID r) (t_items ?d) = filter (\<lambda>p. fst p = o_ID r) (t_items d)" if "r \<in> set (t_orders d)" for r
    
  proof -
    have "o_ID r \<noteq> i" using i that by auto
    then show ?thesis using fo[of "o_ID r"] by (simp add: with_order_def)
  qed
  show "db_grows d ?d" using old by (auto simp: db_grows_def with_order_def)
  have "order_sound ?d r" if "r \<in> set (t_orders d)" for r
    using s that old[OF that] unfolding db_sound_def order_sound_def by (auto simp: with_order_def)
  moreover have "order_sound ?d (new_row i u (order_total items) now)"
    unfolding order_sound_def using its u fi by (intro conjI exI[of _ items]) (simp_all add: with_order_def new_row_def filter_True)
  ultimately show "db_sound ?d" using s i unfolding db_sound_def by (auto simp: with_order_def new_row_def)
qed

lemma createUser_state:
  "snd (createUser trim lower parse st req d) = d \<or> (\<exists>email name. snd (createUser trim lower parse st req d) = snd (os_CreateUser st email name d))"
  by (auto simp: createUser_def Let_def split: sum.splits option.splits prod.splits) (metis snd_conv)+

lemma createOrder_state:
  "snd (createOrder trim st i req d) = d \<or> (\<exists>u items. snd (createOrder trim st i req d) = snd (os_CreateOrder st u items d))"
  by (auto simp: createOrder_def split: sum.splits option.splits prod.splits) (metis snd_conv)+

lemma routes_sound:
  assumes s: "db_sound d" and f: "fresh_ids [c] d"
  shows "db_sound (snd (routes t c d)) \<and> db_grows d (snd (routes t c d))
    \<and> u_ID ` set (t_users (snd (routes t c d))) \<subseteq> u_ID ` set (t_users d) \<union> set (List.map_filter newUserID [c])
    \<and> o_ID ` set (t_orders (snd (routes t c d))) \<subseteq> o_ID ` set (t_orders d) \<union> set (List.map_filter newOrderID [c])"
proof (cases c)
  case (PostUser i now fault req)
  have "snd (routes t c d) = d \<or> (\<exists>email name. snd (routes t c d) = snd (CreateUser fault i now email name d))"
    using createUser_state[of "tl_trim t" "tl_lower t" "tl_parse t" "callStore i now fault (\<lambda>_. None)" req d] by (simp add: PostUser callStore_def)
  then have "snd (routes t c d) = d \<or> (\<exists>u. snd (routes t c d) = d\<lparr>t_users := t_users d @ [u]\<rparr> \<and> u_ID u = i \<and> u_Email u \<notin> u_Email ` set (t_users d))"
    using CreateUser_cases by metis
  then show ?thesis using s f add_user_sound[OF s] by (auto simp: PostUser fresh_ids_def List.map_filter_simps)
next
  case (PostOrder i now faults pid req)
  have n: "i \<notin> o_ID ` set (t_orders d)" using f by (simp add: PostOrder fresh_ids_def List.map_filter_simps)
  have "snd (routes t c d) = d \<or> (\<exists>u items. snd (routes t c d) = snd (CreateOrder faults i now u items d))"
    using createOrder_state[of "tl_trim t" "callStore i now None faults" pid req d] by (simp add: PostOrder callStore_def)
  then consider "snd (routes t c d) = d"
    | u items where "snd (routes t c d) = with_order i now u items (order_total items) d"
        "items \<noteq> []" "list_all item_checks items" "\<exists>x\<in>set (t_users d). u_ID x = u"
    using CreateOrder_cases[OF s n] by (metis snd_conv)
  then show ?thesis
  proof cases
    case 1
    then show ?thesis using s by simp
  next
    case 2
    show ?thesis unfolding 2(1)
      by (intro conjI add_order_sound[OF s n 2(2-4)]) (auto simp: PostOrder with_order_def new_row_def List.map_filter_simps)
  qed
qed (use s in auto)

lemma map_filter_Cons: "List.map_filter f (x # xs) = List.map_filter f [x] @ List.map_filter f xs"
  by (simp add: List.map_filter_simps split: option.split)

lemma fresh_rest:
  "distinct (as @ bs) \<Longrightarrow> set (as @ bs) \<inter> U = {} \<Longrightarrow> U' \<subseteq> U \<union> set as \<Longrightarrow> distinct bs \<and> set bs \<inter> U' = {}"
  by auto

lemma fresh_ids_append_iff:
  "fresh_ids (qs @ rs) d \<longleftrightarrow>
     distinct (List.map_filter newUserID qs @ List.map_filter newUserID rs) \<and> distinct (List.map_filter newOrderID qs @ List.map_filter newOrderID rs)
     \<and> set (List.map_filter newUserID qs @ List.map_filter newUserID rs) \<inter> u_ID ` set (t_users d) = {}
     \<and> set (List.map_filter newOrderID qs @ List.map_filter newOrderID rs) \<inter> o_ID ` set (t_orders d) = {}"
  by (simp only: fresh_ids_def List.map_filter_def filter_append map_append)

lemma fresh_ids_first: "fresh_ids (c # qs) d \<Longrightarrow> fresh_ids [c] d"
  using fresh_ids_append_iff[of "[c]" qs d] unfolding fresh_ids_def by auto

lemma fresh_ids_rest:
  assumes f: "fresh_ids (c # qs) d" and s: "db_sound d"
  shows "fresh_ids qs (snd (routes t c d))"
proof -
  have q: "fresh_ids ([c] @ qs) d" using f by simp
  note q = q[unfolded fresh_ids_append_iff]
  have r: "u_ID ` set (t_users (snd (routes t c d))) \<subseteq> u_ID ` set (t_users d) \<union> set (List.map_filter newUserID [c])"
    "o_ID ` set (t_orders (snd (routes t c d))) \<subseteq> o_ID ` set (t_orders d) \<union> set (List.map_filter newOrderID [c])"
    using routes_sound[OF s fresh_ids_first[OF f], of t] by blast+
  have "distinct (List.map_filter newUserID qs) \<and> set (List.map_filter newUserID qs) \<inter> u_ID ` set (t_users (snd (routes t c d))) = {}"
    using q by (intro fresh_rest[OF _ _ r(1)]) blast+
  moreover have "distinct (List.map_filter newOrderID qs) \<and> set (List.map_filter newOrderID qs) \<inter> o_ID ` set (t_orders (snd (routes t c d))) = {}"
    using q by (intro fresh_rest[OF _ _ r(2)]) blast+
  ultimately show ?thesis unfolding fresh_ids_def by blast
qed

lemma handle_all_sound:
  "db_sound d \<Longrightarrow> fresh_ids qs d \<Longrightarrow> db_sound (handle_all (routes t) qs d) \<and> db_grows d (handle_all (routes t) qs d)"
proof (induction qs arbitrary: d)
  case (Cons c qs)
  note r = routes_sound[OF Cons.prems(1) fresh_ids_first[OF Cons.prems(2)], of t]
  have "db_sound (snd (routes t c d))" using r by blast
  note i = Cons.IH[OF this fresh_ids_rest[OF Cons.prems(2,1)]]
  show ?case using i r db_grows_trans[of d "snd (routes t c d)"] by simp
qed simp

lemma fresh_ids_append:
  "fresh_ids (qs @ rs) d \<Longrightarrow> db_sound d \<Longrightarrow> fresh_ids rs (handle_all (routes t) qs d) \<and> fresh_ids qs d"
proof (induction qs arbitrary: d)
  case Nil
  then show ?case by (simp add: fresh_ids_def List.map_filter_simps)
next
  case (Cons c qs)
  have f: "fresh_ids (c # qs @ rs) d" using Cons.prems(1) by simp
  have s: "db_sound (snd (routes t c d))" using routes_sound[OF Cons.prems(2) fresh_ids_first[OF f]] by blast
  have "fresh_ids (c # qs) d" using Cons.prems(1) unfolding fresh_ids_append_iff by (auto simp: fresh_ids_def)
  then show ?case using Cons.IH[OF fresh_ids_rest[OF f Cons.prems(2)] s] by simp
qed

lemma distinct_sub:
  assumes "mset xs \<subseteq># mset ys" and "distinct ys"
  shows "distinct xs" and "set xs \<subseteq> set ys"
proof -
  show s: "set xs \<subseteq> set ys" using set_mset_mono[OF assms(1)] by simp
  have c: "count (mset ys) a = (if a \<in> set ys then 1 else 0)" for a
    using assms(2) unfolding distinct_count_atmost_1 by blast
  have "count (mset xs) a \<le> 1" for a
    by (rule order_trans[OF mset_subset_eq_count[OF assms(1)]]) (simp add: c)
  then have "count (mset xs) a = (if a \<in> set xs then 1 else 0)" for a
    using le_antisym[of "count (mset xs) a" 1] by (auto simp: count_mset_0_iff Suc_le_eq count_mset_gt_0 simp flip: One_nat_def)
  then show "distinct xs" by (simp add: distinct_count_atmost_1)
qed

lemma fresh_ids_picked:
  assumes "fresh_ids qs d" and "distinct ns" and "\<forall>n\<in>set ns. n < length qs"
  shows "fresh_ids (map ((!) qs) ns) d"
proof -
  have "mset_set (set ns) \<subseteq># mset_set (set [0..<length qs])" using assms(3) by (intro subset_imp_msubset_mset_set) auto
  then have "mset ns \<subseteq># mset [0..<length qs]" unfolding mset_set_set[OF assms(2)] mset_set_set[OF distinct_upt] .
  then have "image_mset ((!) qs) (mset ns) \<subseteq># image_mset ((!) qs) (mset [0..<length qs])" by (rule image_mset_subseteq_mono)
  then have sub: "mset (map ((!) qs) ns) \<subseteq># mset qs" by (simp only: mset_map[symmetric] map_nth)
  have mf: "mset (List.map_filter f (map ((!) qs) ns)) \<subseteq># mset (List.map_filter f qs)" for f :: "api_call \<Rightarrow> int option"
    unfolding List.map_filter_def mset_map mset_filter
    by (intro image_mset_subseteq_mono multiset_filter_mono) (use sub in simp)
  note u = distinct_sub[OF mf[of newUserID]] and o = distinct_sub[OF mf[of newOrderID]]
  show ?thesis
    using assms(1) u o unfolding fresh_ids_def by blast
qed

lemma routes_OrderBody:
  assumes "db_sound d" and "fresh_ids [c] d" and "fst (routes t c d) = (code, OrderBody order)"
  shows "code = 201 \<and> order\<lparr>o_Items := []\<rparr> \<in> set (t_orders (snd (routes t c d)))
    \<and> filter (\<lambda>p. fst p = o_ID order) (t_items (snd (routes t c d))) = map (Pair (o_ID order)) (o_Items order)
    \<and> TotalCents order = order_total (o_Items order)"
proof (cases c)
  case (PostUser i now fault req)
  then show ?thesis using assms(3)
    by (auto simp: createUser_def Let_def fail_def split: sum.splits option.splits prod.splits if_splits store_error.splits)
next
  case (GetUserByID fault i)
  then show ?thesis using assms(3) by (auto simp: getUser_def fail_def split: sum.splits option.splits store_error.splits)
next
  case (GetOrders faults i limit cursor)
  then show ?thesis using assms(3)
    by (auto simp: listOrders_def fail_def newOrderPageResponse_def split: sum.splits option.splits store_error.splits if_splits)
next
  case (PostOrder i now faults pid req)
  have n: "i \<notin> o_ID ` set (t_orders d)" using assms(2) by (simp add: PostOrder fresh_ids_def List.map_filter_simps)
  obtain u items where r: "CreateOrder faults i now u items d = (Inr order, snd (routes t c d))" "code = 201"
    using assms(3) by (auto simp: PostOrder createOrder_def callStore_def fail_def split: sum.splits option.splits prod.splits store_error.splits)
  have fi: "filter (\<lambda>p. fst p = i) (t_items d) = []" using assms(1) n unfolding db_sound_def by (auto simp: filter_empty_conv)
  have o: "order = (new_row i u (order_total items) now)\<lparr>o_Items := items\<rparr>" "snd (routes t c d) = with_order i now u items (order_total items) d"
    using CreateOrder_cases[OF assms(1) n, of faults now u items] r(1) by auto
  show ?thesis using fi by (simp add: o r(2) with_order_def new_row_def filter_True)
qed

lemma runWithPool_served:
  assumes "fst (runWithPool io) = Exited err (Some s)"
  shows "fst (serve io) = Exited err (Some s)"
proof -
  obtain es vs tr where m: "Migrate (or_migrate io) = ((es, vs), tr)" by (metis surj_pair)
  show ?thesis using assms by (cases "or_ping io"; cases es; cases "or_listen io") (simp_all add: runWithPool_def m)
qed

lemma orders_run_served:
  assumes "run io getenv = (Exited err (Some s), tr)"
  shows "fst (serve io) = Exited err (Some s)"
proof -
  have "fst (run io getenv) = Exited err (Some s)" using assms by simp
  then show ?thesis
    by (cases "loadConfig (or_env io) getenv"; cases "or_pool io") (simp_all add: run_def runWithPool_served)
qed

lemma serve_linear:
  assumes "fst (serve io) = Exited err (Some s)"
  shows "linear (routes (or_text io)) (\<lambda>_. None) (or_db io) s" and "err = None \<Longrightarrow> quiet_server s"
  using assms
  by (auto simp: serve_def intro: server_run_linear[OF linear_start] server_run_linear[OF server_run_linear[OF linear_start]]
      split: option.splits if_splits)

lemma order_books_served:
  assumes "run io getenv = (Exited err (Some s), tr)" and "db_sound (or_db io)" and "fresh_ids (hs_reqs s) (or_db io)"
  shows "db_sound (hs_state s)
    \<and> (\<forall>n code order. (n, (code, OrderBody order)) \<in> set (hs_ran s) \<longrightarrow>
          code = 201 \<and> order\<lparr>o_Items := []\<rparr> \<in> set (t_orders (hs_state s)) \<and> TotalCents order = order_total (o_Items order)
          \<and> filter (\<lambda>p. fst p = o_ID order) (t_items (hs_state s)) = map (Pair (o_ID order)) (o_Items order))
    \<and> (err = None \<longrightarrow> fst ` set (hs_sent s) = {0..<length (hs_reqs s)})"
proof -
  let ?h = "routes (or_text io)" and ?all = "handled_before s (length (hs_ran s))"
  note v = orders_run_served[OF assms(1)]
  note l = serve_linear[OF v]
  note d = linearD[OF l(1)]
  have all: "?all = map ((!) (hs_reqs s)) (map fst (hs_ran s))" by (simp add: handled_before_def split_beta comp_def)
  have f: "fresh_ids ?all (or_db io)"
    unfolding all by (rule fresh_ids_picked[OF assms(3) d(1)]) (use d(3) in auto)
  have fin: "hs_state s = handle_all ?h ?all (or_db io)" by (rule d(5))
  have sound: "db_sound (hs_state s)" unfolding fin using handle_all_sound[OF assms(2) f] by blast
  have conf: "code = 201 \<and> order\<lparr>o_Items := []\<rparr> \<in> set (t_orders (hs_state s)) \<and> TotalCents order = order_total (o_Items order)
      \<and> filter (\<lambda>p. fst p = o_ID order) (t_items (hs_state s)) = map (Pair (o_ID order)) (o_Items order)"
    if np: "(n, (code, OrderBody order)) \<in> set (hs_ran s)" for n code order
  proof -
    obtain i where i: "i < length (hs_ran s)" "hs_ran s ! i = (n, (code, OrderBody order))" using np unfolding in_set_conv_nth by blast
    define xs c rest where "xs = handled_before s i" and "c = hs_reqs s ! n"
      and "rest = map (\<lambda>(n, _). hs_reqs s ! n) (drop (Suc i) (hs_ran s))"
    have sp: "?all = xs @ [c] @ rest"
      using arg_cong[OF id_take_nth_drop[OF i(1)], of "map (\<lambda>(n, _). hs_reqs s ! n)"] i(2)
      by (simp add: xs_def c_def rest_def handled_before_def)
    define d1 where "d1 = handle_all ?h xs (or_db io)"
    have f1: "fresh_ids ([c] @ rest) d1" "fresh_ids xs (or_db io)"
      using fresh_ids_append[of xs "[c] @ rest" "or_db io"] f assms(2) unfolding sp d1_def by blast+
    have s1: "db_sound d1" unfolding d1_def using handle_all_sound[OF assms(2) f1(2)] by blast
    have f2: "fresh_ids rest (snd (?h c d1))" "fresh_ids [c] d1"
      using fresh_ids_append[OF f1(1) s1, of "or_text io"] by simp_all
    have s2: "db_sound (snd (?h c d1))" using routes_sound[OF s1 f2(2)] by blast
    have g: "db_grows (snd (?h c d1)) (hs_state s)"
      using handle_all_sound[OF s2 f2(1)] unfolding fin sp by (simp add: handle_all_append d1_def)
    have "fst (?h c d1) = (code, OrderBody order)" using d(6)[OF i(1)] i(2) by (simp add: c_def d1_def xs_def)
    note b = routes_OrderBody[OF s1 f2(2) this]
    note b1 = b[THEN conjunct1] and b2 = b[THEN conjunct2, THEN conjunct1] and b3 = b[THEN conjunct2, THEN conjunct2, THEN conjunct1]
      and b4 = b[THEN conjunct2, THEN conjunct2, THEN conjunct2]
    have "o_ID (order\<lparr>o_Items := []\<rparr>) \<in> o_ID ` set (t_orders (snd (?h c d1)))" by (rule imageI[OF b2])
    from bspec[OF conjunct2[OF g[unfolded db_grows_def]] this]
    have "filter (\<lambda>p. fst p = o_ID order) (t_items (hs_state s)) = filter (\<lambda>p. fst p = o_ID order) (t_items (snd (?h c d1)))" by simp
    moreover have "order\<lparr>o_Items := []\<rparr> \<in> set (t_orders (hs_state s))" using g b2 unfolding db_grows_def by (elim conjE) (rule subsetD)
    ultimately show ?thesis using b1 b3 b4 by (intro conjI) simp_all
  qed
  have "fst ` set (hs_sent s) = {0..<length (hs_reqs s)}" if "err = None"
    using l(2)[OF that] d(4) by (auto simp: quiet_all)
  then show ?thesis using sound conf by blast
qed

lemma not_served_error: "fst (run io getenv) \<noteq> Exited None None"
proof -
  have s: "fst (serve io) \<noteq> Exited None None" by (simp add: serve_def split: option.split)
  obtain es vs tr where m: "Migrate (or_migrate io) = ((es, vs), tr)" by (metis surj_pair)
  have "fst (runWithPool io) \<noteq> Exited None None"
    using s by (cases "or_ping io"; cases es; cases "or_listen io") (simp_all add: runWithPool_def m)
  then show ?thesis by (cases "loadConfig (or_env io) getenv"; cases "or_pool io") (simp_all add: run_def)
qed

section \<open>Properties\<close>

text \<open>(C34) The books add up, and a confirmed order is never lost. Whatever fails and wherever \<open>run\<close> stops (a bad configuration,
  a failed ping, migration or listen, the server, the shutdown), the pool, if it was opened, was used only while open and
  has been closed; without a server the result is an error. Once it has served, on a database that was sound and whose
  identifiers are new, whatever statements failed and however requests overlapped: the database is sound (each
  order has a user, items that satisfy the constraints and their exact total), and every order that was
  confirmed is stored with exactly its items. If \<open>run\<close> returns nil, every request was answered.\<close>

theorem order_service_books_add_up:
  assumes "run io getenv = (out, tr)"
  shows "steps tr {} = Some {} \<and> out \<noteq> Exited None None
    \<and> (\<forall>err s. out = Exited err (Some s) \<and> db_sound (or_db io) \<and> fresh_ids (hs_reqs s) (or_db io) \<longrightarrow>
    db_sound (hs_state s)
    \<and> (\<forall>n code order. (n, (code, OrderBody order)) \<in> set (hs_ran s) \<longrightarrow>
          code = 201 \<and> order\<lparr>o_Items := []\<rparr> \<in> set (t_orders (hs_state s)) \<and> TotalCents order = order_total (o_Items order)
          \<and> filter (\<lambda>p. fst p = o_ID order) (t_items (hs_state s)) = map (Pair (o_ID order)) (o_Items order))
    \<and> (err = None \<longrightarrow> fst ` set (hs_sent s) = {0..<length (hs_reqs s)}))"
proof -
  have "steps tr {} = Some {}" using orders_run_keeps[of io getenv] assms by (simp add: keeps_def)
  moreover have "out \<noteq> Exited None None" using not_served_error[of io getenv] assms by simp
  ultimately show ?thesis using order_books_served assms by blast
qed

definition empty_shop :: db where
  "empty_shop = \<lparr>t_users = [\<lparr>u_ID = 3, u_Email = ''a@b'', u_Name = ''A'', u_CreatedAt = 1\<rparr>], t_orders = [], t_items = []\<rparr>"

text \<open>An order is placed while the server stops; reading the user fails in the database.\<close>

definition demo_run :: run_io where
  "demo_run = \<lparr>or_env = \<lparr>GetFieldParams = Inr [''ADDR''],
       ParseEnv = (\<lambda>_. Inr \<lparr>pc_Addr = '':8080'', pc_DatabaseURL = ''postgres://localhost'', pc_ShutdownTimeout = 15, pc_TrustedProxies = []\<rparr>)\<rparr>,
     or_pool = None, or_ping = None,
     or_migrate = \<lparr>gs_Sub = None, gs_Locker = None, gs_Provider = None, gs_Up = Inr [1, 2], gs_Version = Inr 2, gs_CloseDB = None\<rparr>,
     or_db = empty_shop, or_text = \<lparr>tl_trim = (\<lambda>s. s), tl_lower = (\<lambda>s. s), tl_parse = Some\<rparr>, or_listen = None,
     or_serving = [Accept (GetUserByID (Some OtherPg) ''3''), Accept (PostOrder 7 100 (\<lambda>_. None) ''3'' (Inr [\<lparr>SKU = ''x'', Quantity = 2, UnitPriceCents = 150\<rparr>]))],
     or_serve = None, or_draining = [Handle 1, Reply 1, Handle 0, Reply 0], or_shutdown = None, or_close = None, or_served = None\<rparr>"

lemma orders_demo_served:
  "\<exists>s tr. run demo_run (\<lambda>_. []) = (Exited None (Some s), tr) \<and> fresh_ids (hs_reqs s) empty_shop
    \<and> (1, (201, OrderBody \<lparr>o_ID = 7, o_UserID = 3, TotalCents = 300, o_CreatedAt = 100, o_Items = [\<lparr>SKU = ''x'', Quantity = 2, UnitPriceCents = 150\<rparr>]\<rparr>)) \<in> set (hs_ran s)"
proof -
  obtain out tr where r: "run demo_run (\<lambda>_. []) = (out, tr)" by force
  have "case fst (run demo_run (\<lambda>_. [])) of
      Exited None (Some s) \<Rightarrow> map newUserID (hs_reqs s) = [None, None] \<and> map newOrderID (hs_reqs s) = [None, Some 7]
        \<and> hs_ran s = [(1, (201, OrderBody \<lparr>o_ID = 7, o_UserID = 3, TotalCents = 300, o_CreatedAt = 100, o_Items = [\<lparr>SKU = ''x'', Quantity = 2, UnitPriceCents = 150\<rparr>]\<rparr>)),
            (0, (500, ErrorBody ''internal error''))]
    | _ \<Rightarrow> False"
    by code_simp
  then obtain s where s: "out = Exited None (Some s)" "map newUserID (hs_reqs s) = [None, None]" "map newOrderID (hs_reqs s) = [None, Some 7]"
    "hs_ran s = [(1, (201, OrderBody \<lparr>o_ID = 7, o_UserID = 3, TotalCents = 300, o_CreatedAt = 100, o_Items = [\<lparr>SKU = ''x'', Quantity = 2, UnitPriceCents = 150\<rparr>]\<rparr>)),
      (0, (500, ErrorBody ''internal error''))]"
    unfolding r fst_conv by (auto split: or_exit.splits option.splits)
  have mf: "List.map_filter f qs = List.map_filter (\<lambda>x. x) (map f qs)" for f :: "api_call \<Rightarrow> int option" and qs
    by (induction qs) (simp_all add: List.map_filter_simps split: option.split)
  have "fresh_ids (hs_reqs s) empty_shop"
    unfolding fresh_ids_def mf s(2,3) by (simp add: List.map_filter_simps empty_shop_def)
  then show ?thesis using r s(1,4) by (intro exI conjI) auto
qed

theorem order_service_books_add_up_witness:
  "\<exists>s tr. run demo_run (\<lambda>_. []) = (Exited None (Some s), tr) \<and> steps tr {} = Some {}
    \<and> filter (\<lambda>p. fst p = 7) (t_items (hs_state s)) = [(7, \<lparr>SKU = ''x'', Quantity = 2, UnitPriceCents = 150\<rparr>)]"
  using orders_demo_served
proof (elim exE conjE)
  fix s tr
  let ?o = "\<lparr>o_ID = 7, o_UserID = 3, TotalCents = 300, o_CreatedAt = 100, o_Items = [\<lparr>SKU = ''x'', Quantity = 2, UnitPriceCents = 150\<rparr>]\<rparr>"
  assume r: "run demo_run (\<lambda>_. []) = (Exited None (Some s), tr)" and f: "fresh_ids (hs_reqs s) empty_shop"
    and o: "(1, (201, OrderBody ?o)) \<in> set (hs_ran s)"
  have d: "db_sound (or_db demo_run)" by (simp add: demo_run_def empty_shop_def db_sound_def)
  have f': "fresh_ids (hs_reqs s) (or_db demo_run)" using f by (simp add: demo_run_def)
  note t = order_service_books_add_up[OF r]
  have "filter (\<lambda>p. fst p = o_ID ?o) (t_items (hs_state s)) = map (Pair (o_ID ?o)) (o_Items ?o)"
    using t d f' o by blast
  then show ?thesis using r t[THEN conjunct1] by (intro exI conjI) simp_all
qed

end
