(* ===== verification/Inventory_Service.thy ===== *)
theory Inventory_Service
  imports Inventory_Rpc Http_Server
begin

text \<open>
  App 08: \<^verbatim>\<open>cmd/inventory/main.go\<close> and \<^verbatim>\<open>internal/server/server.go\<close>. The configuration, the seed, and \<open>run\<close>: the RPCs served over the
  seeded store until a signal or an error, then the graceful stop.

  Calls overlap as in \<open>Http_Server\<close>; a call carries its arrival, its deadline and what the transport does with it. A
  unary handler runs under the interceptors of \<open>Inventory_Rpc\<close>; \<open>ctx d\<close> is the state of its context when it has the store's
  lock, under the deadline \<open>d\<close> the interceptors gave it.
\<close>

section \<open>Configuration and seed\<close>

record iv_config =
  ic_Addr :: string
  ic_DefaultTimeout :: duration
  ic_ShutdownTimeout :: duration
  ic_LogLevel :: int

datatype iv_invalid = TimeoutsNotPositive

definition checkTimeouts :: "iv_config \<Rightarrow> iv_invalid option" where
  "checkTimeouts cfg =
     (if ic_DefaultTimeout cfg \<le> 0 \<or> ic_ShutdownTimeout cfg \<le> 0 then Some TimeoutsNotPositive else None)"

definition loadConfig :: "iv_config env_lib \<Rightarrow> (string \<Rightarrow> string) \<Rightarrow> iv_invalid config_error + iv_config" where
  "loadConfig lib getenv = load lib checkTimeouts getenv"

definition seedItems :: "Item list" where
  "seedItems =
     [\<lparr>SKU = ''BOOK-DDIA'', Name = ''Designing Data-Intensive Applications'', Available = 5, Reserved = 0\<rparr>,
      \<lparr>SKU = ''BOOK-GOPL'', Name = ''The Go Programming Language'', Available = 12, Reserved = 0\<rparr>,
      \<lparr>SKU = ''MUG-GOPHER'', Name = ''Gopher mug'', Available = 40, Reserved = 0\<rparr>,
      \<lparr>SKU = ''STICKER-GOPHER'', Name = ''Gopher sticker pack'', Available = 0, Reserved = 0\<rparr>,
      \<lparr>SKU = ''TSHIRT-GOPHER-M'', Name = ''Gopher T-shirt, size M'', Available = 3, Reserved = 0\<rparr>]"

section \<open>The server\<close>

datatype rpc_call =
    CallGetItem gotime "gotime option" "gotime option \<Rightarrow> ctx_error option" string
  | CallListItems "ctx_error option" "nat \<Rightarrow> ctx_error option" "nat \<Rightarrow> bool" "string list" string bool int
  | CallReserve gotime "gotime option" "gotime option \<Rightarrow> ctx_error option" string "(string \<times> int) list" gotime

datatype rpc_reply =
    ReplyItem "rpc_error + ProtoItem"
  | ReplyItems "rpc_error option" "ProtoItem list"
  | ReplyReserve "rpc_error + ProtoReservation"

text \<open>The handlers behind the interceptors that \<open>New\<close> chains.\<close>

fun serveCall :: "duration \<Rightarrow> rpc_call \<Rightarrow> Store \<Rightarrow> rpc_reply \<times> Store" where
  "serveCall timeout (CallGetItem now deadline ctx sku) s =
     (ReplyItem (unaryChain timeout now deadline (\<lambda>d. Returns (GetItem inv_Get s (ctx d) sku))), s)"
| "serveCall timeout (CallListItems ctx ctx_at send_ok order prefix inStock lim) s =
     (let r = ListItems (\<lambda>s. inv_List s order) s ctx ctx_at send_ok prefix inStock lim
      in (ReplyItems (streamRecovery (Returns (fst r))) (snd r), s))"
| "serveCall timeout (CallReserve now deadline ctx i ls created) s =
     (let r = (\<lambda>d. rpcReserve Reserve s (ctx d) i ls created)
      in (ReplyReserve (unaryChain timeout now deadline (\<lambda>d. Returns (fst (r d)))),
          unaryDefaultTimeout timeout now deadline (\<lambda>d. snd (r d))))"

datatype serving_status = SERVING | NOT_SERVING

text \<open>\<open>Serve\<close> hides the error of a server that was stopped.\<close>

datatype grpc_serve_error = ErrServerStopped | ServeFailed gerr

definition Serve :: "grpc_serve_error option \<Rightarrow> gerr option" where
  "Serve res = (case res of Some (ServeFailed e) \<Rightarrow> Some e | _ \<Rightarrow> None)"

text \<open>\<open>Shutdown\<close> with the status it leaves; \<open>expired\<close> is the error of its context if that ended before the graceful stop.\<close>

definition Shutdown :: "ctx_error option \<Rightarrow> ctx_error option \<times> serving_status" where
  "Shutdown expired = (case expired of None \<Rightarrow> (None, NOT_SERVING) | Some e \<Rightarrow> (Some e, NOT_SERVING))"

section \<open>Run\<close>

type_synonym inventory_server = "(rpc_call, Store, rpc_reply) server"

text \<open>\<open>ir_serve\<close>: what \<open>Serve\<close> of grpc returned before the signal, if it did; \<open>ir_served\<close>: what it returned after the shutdown.\<close>

record run_io =
  ir_env :: "iv_config env_lib"
  ir_listen :: "gerr option"
  ir_serving :: "rpc_call server_event list"
  ir_serve :: "grpc_serve_error option"
  ir_draining :: "rpc_call server_event list"
  ir_expired :: "ctx_error option"
  ir_served :: "grpc_serve_error option"

datatype iv_error =
    LoadConfig "iv_invalid config_error" | SeedInventory new_error | Listen gerr | ServeGrpc gerr | ShutdownGrpc ctx_error

datatype iv_exit = Exited "iv_error option" "(inventory_server \<times> serving_status) option" | NotAnExecution

definition serveUntilSignal :: "run_io \<Rightarrow> iv_config \<Rightarrow> Store \<Rightarrow> iv_exit" where
  "serveUntilSignal io cfg store =
     (let h = serveCall (ic_DefaultTimeout cfg)
      in case server_run h (\<lambda>_. None) (ir_serving io) (start store) of
        None \<Rightarrow> NotAnExecution
      | Some s1 \<Rightarrow>
     (case ir_serve io of
        Some ErrServerStopped \<Rightarrow> NotAnExecution
      | Some r \<Rightarrow> Exited (map_option ServeGrpc (Serve (Some r))) (Some (s1, SERVING))
      | None \<Rightarrow>
     (case server_run h (\<lambda>_. None) (ir_draining io) s1 of
        None \<Rightarrow> NotAnExecution
      | Some s2 \<Rightarrow>
     (case Shutdown (ir_expired io) of
        (Some e, st) \<Rightarrow> Exited (Some (ShutdownGrpc e)) (Some (s2, st))
      | (None, st) \<Rightarrow>
          if \<not> quiet_server s2 then NotAnExecution
          else Exited (map_option ServeGrpc (Serve (ir_served io))) (Some (s2, st))))))"

definition run :: "run_io \<Rightarrow> (string \<Rightarrow> string) \<Rightarrow> iv_exit" where
  "run io getenv =
     (case loadConfig (ir_env io) getenv of
        Inl e \<Rightarrow> Exited (Some (LoadConfig e)) None
      | Inr cfg \<Rightarrow>
     (case NewStore seedItems of
        Inl e \<Rightarrow> Exited (Some (SeedInventory e)) None
      | Inr store \<Rightarrow>
     (case ir_listen io of
        Some e \<Rightarrow> Exited (Some (Listen e)) None
      | None \<Rightarrow> serveUntilSignal io cfg store)))"

section \<open>Lemmas\<close>

lemma loadConfig_positive:
  "loadConfig lib getenv = Inr cfg \<Longrightarrow> 0 < ic_DefaultTimeout cfg \<and> 0 < ic_ShutdownTimeout cfg"
  unfolding loadConfig_def by (drule load_Inr) (simp add: checkTimeouts_def split: if_splits)

lemma seed_ok: "\<exists>s0. NewStore seedItems = Inr s0 \<and> reservations s0 = Map.empty"
  by (simp add: NewStore_def seedItems_def)

lemma seed_in64: "\<forall>x\<in>set seedItems. in64 (Available x + Reserved x)"
  by (simp add: seedItems_def in64_iff)

lemma inventory_run_linear:
  assumes r: "run io getenv = Exited err (Some (s, st))"
  obtains t s0 where "NewStore seedItems = Inr s0" "linear (serveCall t) (\<lambda>_. None) s0 s"
    "err = None \<Longrightarrow> quiet_server s \<and> st = NOT_SERVING"
proof -
  obtain cfg s0 where n: "NewStore seedItems = Inr s0" and u: "serveUntilSignal io cfg s0 = Exited err (Some (s, st))"
    using r by (auto simp: run_def split: sum.splits option.splits)
  have "linear (serveCall (ic_DefaultTimeout cfg)) (\<lambda>_. None) s0 s"
    using u by (auto simp: serveUntilSignal_def Let_def split: option.splits prod.splits if_splits grpc_serve_error.splits
        intro: server_run_linear[OF linear_start] server_run_linear[OF server_run_linear[OF linear_start]])
  moreover have "quiet_server s \<and> st = NOT_SERVING" if "err = None"
    using u that by (auto simp: serveUntilSignal_def Serve_def Shutdown_def Let_def split: option.splits prod.splits if_splits grpc_serve_error.splits)
  ultimately show thesis using that[OF n] by blast
qed

text \<open>A call leaves the store alone or is one \<open>Reserve\<close>; then its reply shows the reservation.\<close>

lemma serveCall_cases:
  obtains (same) "snd (serveCall t q s) = s" "\<And>pr. fst (serveCall t q s) \<noteq> ReplyReserve (Inr pr)"
  | (reserve) ctx i lines created where "snd (serveCall t q s) = snd (Reserve s ctx i lines created)"
      "fst (serveCall t q s) = ReplyReserve (map_sum toStatus toProtoReservation (fst (Reserve s ctx i lines created)))"
proof (cases q)
  case (CallReserve now deadline ctx i ls created)
  define d where "d = (case deadline of None \<Rightarrow> Some (time_Add now t) | Some d \<Rightarrow> Some d)"
  have "snd (serveCall t q s) = snd (rpcReserve Reserve s (ctx d) i ls created)"
    "fst (serveCall t q s) = ReplyReserve (fst (rpcReserve Reserve s (ctx d) i ls created))"
    by (simp_all add: CallReserve unaryChain_def unaryRecovery_def unaryDefaultTimeout_def d_def split: option.split)
  then show thesis
    by (intro reserve[of "ctx d" i "map (\<lambda>(sku, n). \<lparr>l_SKU = sku, Quantity = n\<rparr>) ls" created])
       (simp_all add: rpcReserve_def split: prod.splits sum.splits)
qed (use same in \<open>simp_all add: Let_def\<close>)

lemma serveCall_balanced: "good_items its0 \<Longrightarrow> balanced its0 s \<Longrightarrow> balanced its0 (snd (serveCall t q s))"
  by (cases rule: serveCall_cases[of t q s]) (simp_all add: Reserve_balanced)

lemma serveCall_keeps:
  assumes "reservations s i = Some r" shows "reservations (snd (serveCall t q s)) i = Some r"
proof (cases rule: serveCall_cases[of t q s])
  case (reserve ctx j lines created)
  show ?thesis unfolding reserve(1) using assms by (cases rule: Reserve_cases[of s ctx j lines created]) auto
qed (use assms in simp)

text \<open>A reservation is confirmed exactly when the store holds it.\<close>

lemma Reserve_confirms:
  assumes "balanced its0 s" and "fst (Reserve s ctx i ls now) = Inr r"
  shows "reservations (snd (Reserve s ctx i ls now)) (r_ID r) = Some r"
proof -
  have "reservations (snd (Reserve s ctx i ls now)) i = Some r"
    using assms(2) by (auto simp: Reserve_def Let_def split: sum.splits option.splits if_splits)
  moreover have "r_ID r = i"
    using assms by (auto simp: Reserve_def Let_def balanced_def split: sum.splits option.splits if_splits)
  ultimately show ?thesis by simp
qed

lemma serveCall_confirms:
  assumes "balanced its0 s" and "fst (serveCall t q s) = ReplyReserve (Inr pr)"
  shows "\<exists>r. reservations (snd (serveCall t q s)) (pr_Id pr) = Some r \<and> toProtoReservation r = pr"
proof (cases rule: serveCall_cases[of t q s])
  case (reserve ctx j lines created)
  then obtain r where r: "fst (Reserve s ctx j lines created) = Inr r" "pr = toProtoReservation r"
    using assms(2) by (cases "fst (Reserve s ctx j lines created)") auto
  show ?thesis unfolding reserve(1) using Reserve_confirms[OF assms(1) r(1)] r(2) by (intro exI[of _ r]) (simp add: toProtoReservation_def)
next
  case same
  then show ?thesis using assms(2) by blast
qed

lemma serveCall_only_confirmed:
  assumes "reservations (snd (serveCall t q s)) i = Some r" and "reservations s i = None"
  shows "fst (serveCall t q s) = ReplyReserve (Inr (toProtoReservation r))"
proof (cases rule: serveCall_cases[of t q s])
  case (reserve ctx j lines created)
  show ?thesis using assms unfolding reserve
    by (cases rule: Reserve_cases[of s ctx j lines created]) (auto split: if_splits)
qed (use assms in simp)

lemma serve_all_keeps: "reservations s i = Some r \<Longrightarrow> reservations (handle_all (serveCall t) qs s) i = Some r"
  by (rule handle_all_keeps) (rule serveCall_keeps)

lemma handled_kept:
  assumes "reservations (handle_all (serveCall t) (handled_before s k) s0) i = Some r" and "k \<le> length (hs_ran s)"
  shows "reservations (handle_all (serveCall t) (handled_before s (length (hs_ran s))) s0) i = Some r"
proof -
  have "handled_before s (length (hs_ran s)) = handled_before s k @ map (\<lambda>(n, _). hs_reqs s ! n) (drop k (hs_ran s))"
    unfolding handled_before_def map_append[symmetric] by simp
  then show ?thesis using serve_all_keeps[OF assms(1)] by (simp add: handle_all_append)
qed

section \<open>Properties\<close>

text \<open>(C35) The books of the service balance wherever \<open>run\<close> stops and however the calls overlap: seeding never fails; no level is
  negative, and of every seeded item what is available and what the reservations hold add up to the seeded amount. Every
  confirmation that was sent stands, every reservation was confirmed by a handler, and no call is answered twice. If \<open>run\<close>
  returns nil, every call was answered and the health service reports that the server does not serve.\<close>

theorem inventory_service_balances:
  assumes "run io getenv = Exited err (Some (s, st))"
  shows "(\<forall>x\<in>set seedItems. \<exists>item. items (hs_state s) (SKU x) = Some item \<and> 0 \<le> Available item
            \<and> Available item + Reserved item = Available x \<and> Reserved item = held (hs_state s) (SKU x))
    \<and> (\<forall>n pr. (n, ReplyReserve (Inr pr)) \<in> set (hs_sent s) \<longrightarrow>
            (\<exists>r. reservations (hs_state s) (pr_Id pr) = Some r \<and> toProtoReservation r = pr))
    \<and> (\<forall>i r. reservations (hs_state s) i = Some r \<longrightarrow> (\<exists>n. (n, ReplyReserve (Inr (toProtoReservation r))) \<in> set (hs_ran s)))
    \<and> distinct (map fst (hs_sent s))
    \<and> (err = None \<longrightarrow> fst ` set (hs_sent s) = {0..<length (hs_reqs s)} \<and> st = NOT_SERVING)"
proof -
  obtain t s0 where n: "NewStore seedItems = Inr s0" and l: "linear (serveCall t) (\<lambda>_. None) s0 s"
    and q: "err = None \<Longrightarrow> quiet_server s \<and> st = NOT_SERVING" by (rule inventory_run_linear[OF assms]) blast
  let ?h = "serveCall t"
  let ?st = "\<lambda>k. handle_all ?h (handled_before s k) s0"
  note d = linearD[OF l]
  note spec = NewStore_spec[OF n seed_in64]
  have bal: "balanced (items s0) (?st k)" for k
    by (rule handle_all_keeps[of "balanced (items s0)"]) (use serveCall_balanced[OF spec(1)] spec(2) in auto)
  have stock: "\<exists>item. items (hs_state s) (SKU x) = Some item \<and> 0 \<le> Available item
      \<and> Available item + Reserved item = Available x \<and> Reserved item = held (hs_state s) (SKU x)" if x: "x \<in> set seedItems" for x
  proof -
    have "Reserved x = 0" using x by (auto simp: seedItems_def)
    moreover obtain item where "items (hs_state s) (SKU x) = Some item" "0 \<le> Available item"
      "Available item + Reserved item = Available x + Reserved x" "Reserved item = Reserved x + held (hs_state s) (SKU x)"
      using bal[of "length (hs_ran s)"] spec(3)[OF x] unfolding balanced_def d(5) by blast
    ultimately show ?thesis by simp
  qed
  have conf: "\<exists>r. reservations (hs_state s) (pr_Id pr) = Some r \<and> toProtoReservation r = pr"
    if sent: "(m, ReplyReserve (Inr pr)) \<in> set (hs_sent s)" for m pr
  proof -
    obtain i where i: "i < length (hs_ran s)" "hs_ran s ! i = (m, ReplyReserve (Inr pr))"
      using d(7)[OF sent] by (auto simp: in_set_conv_nth)
    note at = linear_at[OF l i]
    obtain r where "reservations (?st (Suc i)) (pr_Id pr) = Some r" "toProtoReservation r = pr"
      using serveCall_confirms[OF bal[of i], of t "hs_reqs s ! m" pr] at by auto
    then show ?thesis using handled_kept[of t s "Suc i"] i(1) unfolding d(5) by auto
  qed
  have only: "\<exists>m. (m, ReplyReserve (Inr (toProtoReservation r))) \<in> set (hs_ran s)"
    if "reservations (?st k) i = Some r" "k \<le> length (hs_ran s)" for k i r
    using that
  proof (induction k)
    case 0
    then show ?case using seed_ok n by (simp add: handled_before_def)
  next
    case (Suc k)
    obtain m p where mp: "hs_ran s ! k = (m, p)" by fastforce
    note at = linear_at[OF l Suc_le_lessD[OF Suc.prems(2)] mp]
    show ?case
    proof (cases "reservations (?st k) i")
      case None
      then have "p = ReplyReserve (Inr (toProtoReservation r))"
        using serveCall_only_confirmed[of t "hs_reqs s ! m" "?st k" i r] at Suc.prems(1) by simp
      then show ?thesis using mp Suc.prems(2) nth_mem[of k "hs_ran s"] by auto
    next
      case (Some r')
      then show ?thesis using serveCall_keeps[OF Some, of t "hs_reqs s ! m"] at Suc by simp
    qed
  qed
  have "fst ` set (hs_sent s) = {0..<length (hs_reqs s)} \<and> st = NOT_SERVING" if "err = None"
    using q[OF that] d(4) by (auto simp: quiet_all)
  then show ?thesis using stock conf only[of "length (hs_ran s)"] d(2) unfolding d(5) by blast
qed

text \<open>Two clients want the last shirts; the second is handled first, and one call is answered during the shutdown.\<close>

definition demo_config :: iv_config where
  "demo_config = \<lparr>ic_Addr = '':50051'', ic_DefaultTimeout = 5, ic_ShutdownTimeout = 10, ic_LogLevel = 0\<rparr>"

definition demo_run :: run_io where
  "demo_run = \<lparr>ir_env = \<lparr>GetFieldParams = Inr [], ParseEnv = (\<lambda>_. Inr demo_config)\<rparr>, ir_listen = None,
     ir_serving = [Accept (CallReserve 0 None (\<lambda>_. None) ''r1'' [(''TSHIRT-GOPHER-M'', 2)] 1),
       Accept (CallReserve 0 (Some 9) (\<lambda>_. None) ''r2'' [(''TSHIRT-GOPHER-M'', 2)] 2), Handle 1, Reply 1],
     ir_serve = None, ir_draining = [Handle 0, Reply 0], ir_expired = None, ir_served = None\<rparr>"

lemma inventory_demo_served:
  "\<exists>s. run demo_run (\<lambda>_. []) = Exited None (Some (s, NOT_SERVING))
    \<and> hs_sent s = [(1, ReplyReserve (Inr \<lparr>pr_Id = ''r2'', pr_Lines = [(''TSHIRT-GOPHER-M'', 2)], pr_CreateTime = 2\<rparr>)),
        (0, ReplyReserve (Inl (Status Code_FailedPrecondition)))]"
proof -
  have "case run demo_run (\<lambda>_. []) of Exited None (Some (s, NOT_SERVING)) \<Rightarrow>
      hs_sent s = [(1, ReplyReserve (Inr \<lparr>pr_Id = ''r2'', pr_Lines = [(''TSHIRT-GOPHER-M'', 2)], pr_CreateTime = 2\<rparr>)),
        (0, ReplyReserve (Inl (Status Code_FailedPrecondition)))] | _ \<Rightarrow> False"
    by code_simp
  then show ?thesis by (auto split: iv_exit.splits option.splits prod.splits serving_status.splits)
qed

theorem inventory_service_balances_witness:
  "\<exists>s r. run demo_run (\<lambda>_. []) = Exited None (Some (s, NOT_SERVING)) \<and> length (hs_sent s) = 2
    \<and> reservations (hs_state s) ''r2'' = Some r \<and> toProtoReservation r = \<lparr>pr_Id = ''r2'', pr_Lines = [(''TSHIRT-GOPHER-M'', 2)], pr_CreateTime = 2\<rparr>"
  using inventory_demo_served
proof (elim exE conjE)
  fix s
  assume r: "run demo_run (\<lambda>_. []) = Exited None (Some (s, NOT_SERVING))"
    and h: "hs_sent s = [(1, ReplyReserve (Inr \<lparr>pr_Id = ''r2'', pr_Lines = [(''TSHIRT-GOPHER-M'', 2)], pr_CreateTime = 2\<rparr>)),
      (0, ReplyReserve (Inl (Status Code_FailedPrecondition)))]"
  have "\<exists>x. reservations (hs_state s) (pr_Id \<lparr>pr_Id = ''r2'', pr_Lines = [(''TSHIRT-GOPHER-M'', 2)], pr_CreateTime = 2\<rparr>) = Some x
      \<and> toProtoReservation x = \<lparr>pr_Id = ''r2'', pr_Lines = [(''TSHIRT-GOPHER-M'', 2)], pr_CreateTime = 2\<rparr>"
    by (rule inventory_service_balances[OF r, THEN conjunct2, THEN conjunct1, rule_format, of 1]) (simp add: h)
  then obtain x where "reservations (hs_state s) ''r2'' = Some x"
    "toProtoReservation x = \<lparr>pr_Id = ''r2'', pr_Lines = [(''TSHIRT-GOPHER-M'', 2)], pr_CreateTime = 2\<rparr>" by auto
  then show ?thesis using r h by (intro exI[of _ s] exI[of _ x]) simp
qed

end
