(* ===== verification/Cron_Service.thy ===== *)
theory Cron_Service
  imports Cron_Worker Service_Run
begin

text \<open>
  App 09: the scheduler's \<open>Serve\<close> (\<^verbatim>\<open>internal/worker/scheduler.go\<close>), the migrations (\<^verbatim>\<open>internal/migrations/migrations.go\<close>) and the
  command (\<^verbatim>\<open>cmd/cron-worker\<close>).

  The library \<^verbatim>\<open>robfig/cron\<close> decides when a job starts: the starts are events. What it promises restricts them: it
  starts no entry that is still running, and none after it was stopped. A run goes through the steps of \<open>run_job\<close>, with
  other runs in between.
\<close>

section \<open>Configuration\<close>

record cw_config = config +
  cw_DatabaseURL :: string
  cw_MetricsAddr :: string
  cw_LogLevel :: int
  cw_PurgeSessionsSchedule :: string
  cw_RollupEventsSchedule :: string
  cw_ExpireOrdersSchedule :: string

definition parseConfig :: "cw_config env_lib \<Rightarrow> (string \<Rightarrow> string) \<Rightarrow> Cron_Worker.config_error Service_Run.config_error + cw_config" where
  "parseConfig lib getenv = load lib (\<lambda>cfg. checkConfig (config.truncate cfg)) getenv"

section \<open>Migrations\<close>

text \<open>The connection on which a run holds its lock is a resource of its own.\<close>

datatype cw_resource = PgPool | SqlDB | Listener | LockConn nat

definition Up :: "goose_io \<Rightarrow> migrate_error list \<times> cw_resource Service_Run.action list" where
  "Up g =
     (case gs_Locker g of
        Some e \<Rightarrow> ([CreateLocker e], [])
      | None \<Rightarrow>
          let (err, tr) =
            (case gs_Provider g of
               Some e \<Rightarrow> (Some (CreateProvider e), [])
             | None \<Rightarrow>
                 (case gs_Up g of
                    Inl e \<Rightarrow> (Some (ApplyMigrations e), [Used SqlDB, Used PgPool])
                  | Inr results \<Rightarrow>
                      (case gs_Version g of
                         Inl e \<Rightarrow> (Some (ReadVersion e), [Used SqlDB, Used PgPool, Used SqlDB, Used PgPool])
                       | Inr version \<Rightarrow> (None, [Used SqlDB, Used PgPool, Used SqlDB, Used PgPool]))))
          in (Join [err, map_option CloseDB (gs_CloseDB g)], Opened SqlDB # tr @ [Closed SqlDB]))"

section \<open>Scheduler\<close>

record Entry =
  en_Name :: string
  en_Spec :: string

definition entries :: "cw_config \<Rightarrow> Entry list" where
  "entries cfg =
     [\<lparr>en_Name = ''purge-expired-sessions'', en_Spec = cw_PurgeSessionsSchedule cfg\<rparr>,
      \<lparr>en_Name = ''rollup-daily-events'', en_Spec = cw_RollupEventsSchedule cfg\<rparr>,
      \<lparr>en_Name = ''expire-pending-orders'', en_Spec = cw_ExpireOrdersSchedule cfg\<rparr>]"

datatype scheduler_error = ScheduleJob string gerr | GraceExceeded

text \<open>Adding the entries, up to the first schedule that does not parse.\<close>

fun addFuncs :: "(string \<Rightarrow> gerr option) \<Rightarrow> Entry list \<Rightarrow> scheduler_error option" where
  "addFuncs parse [] = None"
| "addFuncs parse (e # es) =
     (case parse (en_Spec e) of Some err \<Rightarrow> Some (ScheduleJob (en_Name e) err) | None \<Rightarrow> addFuncs parse es)"

text \<open>A run has begun, at a time, or holds the lock of its job. \<open>sc_begun\<close> are the entries whose runs were begun.\<close>

datatype run_state = Off | Begun gotime | Holds gotime

record sched =
  sc_state :: "nat \<Rightarrow> run_state"
  sc_begun :: "nat list"
  sc_metrics :: "metric list"
  sc_trace :: "cw_resource Service_Run.action list"

definition sched_init :: sched where
  "sched_init = \<lparr>sc_state = (\<lambda>_. Off), sc_begun = [], sc_metrics = [], sc_trace = []\<rparr>"

text \<open>The library starts an entry; the run tries to take its lock; the job ends and the lock is released.\<close>

datatype 'e sched_event =
    Tick nat gotime
  | Lock nat bool "bool answer" gotime
  | JobEnds nat "'e job_outcome" "bool answer" gotime

text \<open>A lock call's connection: not opened, opened and given back or closed, or kept.\<close>

definition lockTrace :: "nat \<Rightarrow> conn_fate \<Rightarrow> cw_resource Service_Run.action list" where
  "lockTrace i fate =
     (if fate = NoConn then [] else if fate = CheckedOut then [Opened (LockConn i)] else [Opened (LockConn i), Closed (LockConn i)])"

fun sched_step :: "string list \<Rightarrow> 'e sched_event \<Rightarrow> sched \<Rightarrow> sched option" where
  "sched_step names (Tick i now) s =
     (if length names \<le> i \<or> sc_state s i \<noteq> Off then None
      else Some (s\<lparr>sc_state := (sc_state s)(i := Begun now), sc_begun := sc_begun s @ [i]\<rparr>))"
| "sched_step names (Lock i conn query now) s =
     (case sc_state s i of
        Begun start \<Rightarrow>
          (case TryLock conn query of
             (Inl e, fate) \<Rightarrow>
               Some (s\<lparr>sc_state := (sc_state s)(i := Off), sc_metrics := sc_metrics s @ [finish (names ! i) start now [LockError e :: 'e run_error]],
                       sc_trace := sc_trace s @ Used PgPool # lockTrace i fate\<rparr>)
           | (Inr acquired, fate) \<Rightarrow>
               if \<not> acquired then
                 Some (s\<lparr>sc_state := (sc_state s)(i := Off), sc_metrics := sc_metrics s @ [Skipped (names ! i)],
                         sc_trace := sc_trace s @ Used PgPool # lockTrace i fate\<rparr>)
               else Some (s\<lparr>sc_state := (sc_state s)(i := Holds start), sc_trace := sc_trace s @ Used PgPool # lockTrace i fate\<rparr>))
      | _ \<Rightarrow> None)"
| "sched_step names (JobEnds i out query now) s =
     (case sc_state s i of
        Holds start \<Rightarrow>
          (let err = runJob out;
               (uerr, fate) = unlock query;
               errs = Join [err, map_option ReleaseError uerr]
           in Some (s\<lparr>sc_state := (sc_state s)(i := Off), sc_metrics := sc_metrics s @ [finish (names ! i) start now errs],
                      sc_trace := sc_trace s @ [Used PgPool, Used (LockConn i)] @ (if fate = CheckedOut then [] else [Closed (LockConn i)])\<rparr>))
      | _ \<Rightarrow> None)"

fun sched_run :: "string list \<Rightarrow> 'e sched_event list \<Rightarrow> sched \<Rightarrow> sched option" where
  "sched_run names [] s = Some s"
| "sched_run names (e # es) s = (case sched_step names e s of None \<Rightarrow> None | Some s' \<Rightarrow> sched_run names es s')"

definition busy :: "string list \<Rightarrow> sched \<Rightarrow> nat list" where
  "busy names s = filter (\<lambda>i. sc_state s i \<noteq> Off) [0..<length names]"

fun is_Tick :: "'e sched_event \<Rightarrow> bool" where
  "is_Tick (Tick _ _) = True"
| "is_Tick _ = False"

text \<open>\<open>si_finished\<close> is how long after the stop the running jobs end by themselves. Beyond the grace period they are cancelled,
  and awaited still. The result tells whether they were cancelled.\<close>

record 'e sched_io =
  si_parse :: "string \<Rightarrow> gerr option"
  si_during :: "'e sched_event list"
  si_after :: "'e sched_event list"
  si_finished :: duration

datatype serve_result = Served "scheduler_error option" sched bool | Waiting sched | NoExecution

definition Serve :: "Entry list \<Rightarrow> duration \<Rightarrow> 'e sched_io \<Rightarrow> serve_result" where
  "Serve es grace io =
     (case addFuncs (si_parse io) es of
        Some e \<Rightarrow> Served (Some e) sched_init False
      | None \<Rightarrow>
          if list_ex is_Tick (si_after io) then NoExecution
          else
            (case sched_run (map en_Name es) (si_during io @ si_after io) sched_init of
               None \<Rightarrow> NoExecution
             | Some s \<Rightarrow>
                 if busy (map en_Name es) s \<noteq> [] then Waiting s
                 else (case serve_stop grace (si_finished io) of
                         (None, cancelled) \<Rightarrow> Served None s cancelled
                       | (Some ErrShutdownTimeout, cancelled) \<Rightarrow> Served (Some GraceExceeded) s cancelled)))"

section \<open>Run\<close>

text \<open>\<^verbatim>\<open>Wait\<close> of the error group returns one of the errors of its functions, nil only if all returned nil.\<close>

definition waited :: "'e option list \<Rightarrow> 'e option \<Rightarrow> bool" where
  "waited results w \<longleftrightarrow> (if list_all (\<lambda>r. r = None) results then w = None else w \<noteq> None \<and> w \<in> set results)"

record 'e run_io =
  cw_env :: "cw_config env_lib"
  cw_pool :: "gerr option"
  cw_migrate :: goose_io
  cw_register :: "nat \<Rightarrow> gerr option"
  cw_listen :: "gerr option"
  cw_pings :: nat
  cw_http :: "gerr option"
  cw_sched :: "'e sched_io"
  cw_shutdown :: "gerr option"
  cw_wait :: "(gerr + scheduler_error + gerr) option"

datatype cw_error =
    LoadConfig "Cron_Worker.config_error Service_Run.config_error" | CreatePool gerr | MigrateDB "migrate_error list"
  | RegisterRunner gerr | Listen gerr | ServeHTTP gerr | ServeJobs scheduler_error | ShutdownHTTP gerr

datatype cw_exit = Exited "cw_error option" "(sched \<times> bool) option" | StillRunning sched | NotAnExecution

definition groupError :: "gerr + scheduler_error + gerr \<Rightarrow> cw_error" where
  "groupError e = (case e of Inl x \<Rightarrow> ServeHTTP x | Inr (Inl x) \<Rightarrow> ServeJobs x | Inr (Inr x) \<Rightarrow> ShutdownHTTP x)"

text \<open>The three functions of the group; the pings of the health endpoint use the pool.\<close>

definition runGroup :: "'e run_io \<Rightarrow> cw_config \<Rightarrow> cw_exit \<times> cw_resource Service_Run.action list" where
  "runGroup io cfg =
     (case Serve (entries cfg) (ShutdownTimeout cfg) (cw_sched io) of
        NoExecution \<Rightarrow> (NotAnExecution, [])
      | Waiting s \<Rightarrow> (StillRunning s, [])
      | Served err s cancelled \<Rightarrow>
          if \<not> waited [map_option Inl (cw_http io), map_option (Inr \<circ> Inl) err, map_option (Inr \<circ> Inr) (cw_shutdown io)] (cw_wait io)
          then (NotAnExecution, [])
          else (Exited (map_option groupError (cw_wait io)) (Some (s, cancelled)),
                [Opened Listener] @ replicate (cw_pings io) (Used PgPool) @ sc_trace s @ [Closed Listener]))"

definition runWithPool :: "'e run_io \<Rightarrow> cw_config \<Rightarrow> cw_exit \<times> cw_resource Service_Run.action list" where
  "runWithPool io cfg =
     (case Up (cw_migrate io) of
        (e # es, tr) \<Rightarrow> after tr (Exited (Some (MigrateDB (e # es))) None, [])
      | ([], tr) \<Rightarrow>
          after tr
            (case registerAll (cw_register io) 0 2 of
               Some e \<Rightarrow> (Exited (Some (RegisterRunner e)) None, [])
             | None \<Rightarrow>
                 (case cw_listen io of
                    Some e \<Rightarrow> (Exited (Some (Listen e)) None, [])
                  | None \<Rightarrow> runGroup io cfg)))"

definition run :: "'e run_io \<Rightarrow> (string \<Rightarrow> string) \<Rightarrow> cw_exit \<times> cw_resource Service_Run.action list" where
  "run io getenv =
     (case parseConfig (cw_env io) getenv of
        Inl e \<Rightarrow> (Exited (Some (LoadConfig e)) None, [])
      | Inr cfg \<Rightarrow>
          (case cw_pool io of
             Some e \<Rightarrow> (Exited (Some (CreatePool e)) None, [])
           | None \<Rightarrow> deferred [Opened PgPool] PgPool (runWithPool io cfg)))"

section \<open>Runs of one instance\<close>

fun metric_job :: "metric \<Rightarrow> string" where
  "metric_job (Observed n _ _) = n"
| "metric_job (Skipped n) = n"

lemma metric_job_finish [simp]: "metric_job (finish n start now errs) = n"
  by (simp add: finish_def Let_def)

definition opened :: "sched \<Rightarrow> cw_resource set" where
  "opened s = {PgPool, Listener} \<union> {LockConn i | i. \<exists>t. sc_state s i = Holds t}"

text \<open>What a run has opened is open, and each run that was begun has its metric, unless it is still going on.\<close>

definition sched_ok :: "string list \<Rightarrow> sched \<Rightarrow> bool" where
  "sched_ok names s \<longleftrightarrow>
     steps (sc_trace s) {PgPool, Listener} = Some (opened s)
     \<and> (\<forall>i. sc_state s i \<noteq> Off \<longrightarrow> i < length names)
     \<and> (\<forall>i<length names. length (filter (\<lambda>m. metric_job m = names ! i) (sc_metrics s)) + of_bool (sc_state s i \<noteq> Off) = count_list (sc_begun s) i)"

lemma sched_init_ok: "sched_ok names sched_init"
  by (auto simp: sched_ok_def sched_init_def opened_def)

lemma TryLock_fate:
  "TryLock c q = (Inl e, fate) \<Longrightarrow> fate = NoConn \<or> fate = Discarded"
  "TryLock c q = (Inr False, fate) \<Longrightarrow> fate = Released"
  "TryLock c q = (Inr True, fate) \<Longrightarrow> fate = CheckedOut"
  by (auto simp: TryLock_def split: if_splits answer.splits)

lemma unlock_fate: "unlock q = (uerr, fate) \<Longrightarrow> fate \<noteq> CheckedOut"
  by (auto simp: unlock_def split: if_splits answer.splits)

text \<open>A step that ends a run: the trace it adds, and its metric.\<close>

lemma end_run_ok:
  assumes ok: "sched_ok names s" and d: "distinct names" and st: "sc_state s i \<noteq> Off"
    and m: "metric_job m = names ! i" and tr: "steps tr (opened s) = Some (opened s - {LockConn i})"
  shows "sched_ok names (s\<lparr>sc_state := (sc_state s)(i := Off), sc_metrics := sc_metrics s @ [m], sc_trace := sc_trace s @ tr\<rparr>)" (is "sched_ok names ?s")
proof -
  have n: "i < length names" using ok st by (simp add: sched_ok_def)
  have o: "opened ?s = opened s - {LockConn i}" by (auto simp: opened_def)
  have "steps (sc_trace ?s) {PgPool, Listener} = Some (opened ?s)" using ok tr o by (simp add: sched_ok_def steps_append)
  moreover have "length (filter (\<lambda>m. metric_job m = names ! j) (sc_metrics ?s)) + of_bool (sc_state ?s j \<noteq> Off) = count_list (sc_begun ?s) j"
    if "j < length names" for j
    using ok that n m st d by (cases "j = i") (auto simp: sched_ok_def nth_eq_iff_index_eq)
  ultimately show ?thesis using ok by (auto simp: sched_ok_def)
qed

lemma sched_step_ok:
  assumes ok: "sched_ok names s" and d: "distinct names" and st: "sched_step names e s = Some s'"
  shows "sched_ok names s'"
proof (cases e)
  case (Tick i now)
  then have s': "s' = s\<lparr>sc_state := (sc_state s)(i := Begun now), sc_begun := sc_begun s @ [i]\<rparr>" and i: "i < length names" "sc_state s i = Off"
    using st by (auto split: if_splits)
  have "(\<exists>t. sc_state s' j = Holds t) \<longleftrightarrow> (\<exists>t. sc_state s j = Holds t)" for j using i(2) by (simp add: s')
  then have "opened s' = opened s" by (simp only: opened_def)
  then show ?thesis using ok i by (auto simp: sched_ok_def s')
next
  case (Lock i conn query now)
  then obtain start where b: "sc_state s i = Begun start" using st by (auto split: run_state.splits)
  obtain res fate where t: "TryLock conn query = (res, fate)" by fastforce
  have n: "LockConn i \<notin> opened s" "PgPool \<in> opened s" using b by (auto simp: opened_def)
  show ?thesis
  proof (cases "res = Inr True")
    case True
    have f: "fate = CheckedOut" using TryLock_fate(3) t True by simp
    have s': "s' = s\<lparr>sc_state := (sc_state s)(i := Holds start), sc_trace := sc_trace s @ [Used PgPool, Opened (LockConn i)]\<rparr>"
      using st b t f True by (simp add: Lock lockTrace_def)
    have "opened s' = insert (LockConn i) (opened s)" by (auto simp: s' opened_def)
    moreover have "(sc_state s' j \<noteq> Off) = (sc_state s j \<noteq> Off)" for j using b by (simp add: s')
    ultimately show ?thesis using ok n by (simp add: sched_ok_def s' steps_append)
  next
    case False
    have f: "fate = NoConn \<or> fate = Discarded \<or> fate = Released"
      using TryLock_fate(1,2) t False by (cases res) auto
    obtain m where s': "s' = s\<lparr>sc_state := (sc_state s)(i := Off), sc_metrics := sc_metrics s @ [m], sc_trace := sc_trace s @ Used PgPool # lockTrace i fate\<rparr>"
      and m: "metric_job m = names ! i"
      using st b t False by (cases res) (auto simp: Lock split: if_splits)
    have "steps (Used PgPool # lockTrace i fate) (opened s) = Some (opened s - {LockConn i})" using f n by (auto simp: lockTrace_def)
    then show ?thesis unfolding s' by (rule end_run_ok[OF ok d _ m, rotated]) (simp add: b)
  qed
next
  case (JobEnds i out query now)
  then obtain start where b: "sc_state s i = Holds start" using st by (auto split: run_state.splits)
  obtain uerr fate where u: "unlock query = (uerr, fate)" by fastforce
  have n: "LockConn i \<in> opened s" "PgPool \<in> opened s" using b by (auto simp: opened_def)
  have s': "s' = s\<lparr>sc_state := (sc_state s)(i := Off), sc_metrics := sc_metrics s @ [finish (names ! i) start now (Join [runJob out, map_option ReleaseError uerr])],
      sc_trace := sc_trace s @ [Used PgPool, Used (LockConn i), Closed (LockConn i)]\<rparr>"
    using st b u unlock_fate[OF u] by (simp add: JobEnds)
  have "steps [Used PgPool, Used (LockConn i), Closed (LockConn i)] (opened s) = Some (opened s - {LockConn i})" using n by auto
  then show ?thesis unfolding s' by (rule end_run_ok[OF ok d _ metric_job_finish, rotated]) (simp add: b)
qed

lemma sched_run_ok: "sched_ok names s \<Longrightarrow> distinct names \<Longrightarrow> sched_run names es s = Some s' \<Longrightarrow> sched_ok names s'"
  by (induction es arbitrary: s) (auto dest: sched_step_ok split: option.splits)

text \<open>A run without others in between is the \<open>run_job\<close> of the runner.\<close>

lemma sched_run_is_run_job:
  assumes "i < length names" and "sc_state s i = Off"
    and "es = Tick i (e_start env) # Lock i (e_conn env) (e_lock env) (e_end env) #
        (if e_conn env \<and> e_lock env = Answers True then [JobEnds i (e_job env) (e_unlock env) (e_end env)] else [])"
  shows "\<exists>s'. sched_run names es s = Some s' \<and> sc_state s' i = Off \<and> sc_metrics s' = sc_metrics s @ fst (snd (run_job (names ! i) env))"
  using assms(1,2) unfolding assms(3)
  by (auto simp: run_job_def TryLock_def unlock_def Let_def split: answer.splits bool.splits option.splits)

section \<open>Shutdown\<close>

text \<open>The runs that remain after the stop, and how many of their steps.\<close>

definition remaining :: "string list \<Rightarrow> sched \<Rightarrow> nat" where
  "remaining names s = (\<Sum>i<length names. case sc_state s i of Off \<Rightarrow> 0 | Begun _ \<Rightarrow> 2 | Holds _ \<Rightarrow> 1)"

lemma busy_Nil: "busy names s = [] \<longleftrightarrow> (\<forall>i<length names. sc_state s i = Off)"
  by (auto simp: busy_def filter_empty_conv)

lemma step_possible:
  assumes "i < length names" and "sc_state s i \<noteq> Off"
  shows "\<exists>e s'. \<not> is_Tick e \<and> sched_step names (e :: 'e sched_event) s = Some s'"
proof (cases "sc_state s i")
  case (Begun t)
  then show ?thesis by (intro exI[of _ "Lock i False Fails 0"]) (simp add: TryLock_def)
next
  case (Holds t)
  then show ?thesis by (intro exI[of _ "JobEnds i (Returns None) Fails 0"]) (simp add: unlock_def)
qed (use assms in simp)

lemma step_remaining:
  assumes ok: "sched_ok names s" and "\<not> is_Tick e" and "sched_step names e s = Some s'"
  shows "remaining names s' < remaining names s"
proof -
  let ?f = "\<lambda>st. case st of Off \<Rightarrow> 0 | Begun _ \<Rightarrow> 2 | Holds _ \<Rightarrow> (1 :: nat)"
  obtain i where i: "\<And>j. j \<noteq> i \<Longrightarrow> sc_state s' j = sc_state s j" "?f (sc_state s' i) < ?f (sc_state s i)" "sc_state s i \<noteq> Off"
  proof (cases e)
    case (Lock i c q now)
    then show thesis using assms(3) that[of i] by (auto split: run_state.splits prod.splits sum.splits if_splits)
  next
    case (JobEnds i out q now)
    then show thesis using assms(3) that[of i] by (auto split: run_state.splits prod.splits)
  qed (use assms(2) in simp)
  have n: "i < length names" using ok i(3) by (simp add: sched_ok_def)
  show ?thesis unfolding remaining_def
    by (rule sum_strict_mono_ex1) (use i n in \<open>auto, metis order.refl less_imp_le\<close>)
qed

lemma ends_all:
  "sched_ok names s \<Longrightarrow> distinct names \<Longrightarrow>
    \<exists>es s'. list_all (\<lambda>e. \<not> is_Tick e) es \<and> length es \<le> remaining names s
      \<and> sched_run names (es :: 'e sched_event list) s = Some s' \<and> busy names s' = []"
proof (induction "remaining names s" arbitrary: s rule: less_induct)
  case less
  show ?case
  proof (cases "busy names s = []")
    case True
    then show ?thesis by (intro exI[of _ "[]"] exI[of _ s]) simp
  next
    case False
    then obtain i where "i < length names" "sc_state s i \<noteq> Off" by (auto simp: busy_Nil)
    then obtain e :: "'e sched_event" and s1 where e: "\<not> is_Tick e" "sched_step names e s = Some s1" using step_possible by blast
    note r = step_remaining[OF less.prems(1) e]
    obtain es s' where "list_all (\<lambda>e. \<not> is_Tick e) es" "length es \<le> remaining names s1"
      "sched_run names (es :: 'e sched_event list) s1 = Some s'" "busy names s' = []"
      using less.hyps[OF r sched_step_ok[OF less.prems(1,2) e(2)] less.prems(2)] by blast
    then show ?thesis using e r by (intro exI[of _ "e # es"] exI[of _ s']) simp
  qed
qed

lemma remaining_bound: "remaining names s \<le> 2 * length names"
proof -
  have "remaining names s \<le> (\<Sum>i<length names. 2)" unfolding remaining_def by (rule sum_mono) (simp split: run_state.split)
  then show ?thesis by simp
qed

section \<open>The command\<close>

lemma Up_keeps: "PgPool \<in> st \<Longrightarrow> SqlDB \<notin> st \<Longrightarrow> keeps st (snd (Up g))"
  by (auto simp: Up_def keeps_def Let_def split: option.splits sum.splits)

lemma names_of_entries: "map en_Name (entries cfg) = job_names"
  by (simp add: entries_def job_names_def)

lemma distinct_names: "distinct job_names"
  by (simp add: job_names_def)

lemma Serve_results:
  shows "Serve (entries cfg) grace io = Served err s cancelled \<Longrightarrow> sched_ok job_names s \<and> busy job_names s = [] \<and> (err = None \<longrightarrow> \<not> cancelled)"
    and "Serve (entries cfg) grace io = Waiting s \<Longrightarrow> sched_ok job_names s"
  using sched_run_ok[OF sched_init_ok distinct_names]
  by (auto simp: Serve_def serve_stop_def names_of_entries sched_init_ok busy_Nil split: option.splits if_splits)
     (simp add: sched_init_def)

lemma idle_trace:
  assumes "sched_ok job_names s" and "busy job_names s = []"
  shows "steps (sc_trace s) {PgPool, Listener} = Some {PgPool, Listener}" and "sc_state s i = Off"
    and "i < length job_names \<Longrightarrow> length (filter (\<lambda>m. metric_job m = job_names ! i) (sc_metrics s)) = count_list (sc_begun s) i"
proof -
  have off: "sc_state s i = Off" for i using assms by (auto simp: sched_ok_def busy_Nil)
  then have "opened s = {PgPool, Listener}" by (simp add: opened_def)
  then show "steps (sc_trace s) {PgPool, Listener} = Some {PgPool, Listener}" using assms(1) by (simp add: sched_ok_def)
  show "sc_state s i = Off" by (rule off)
  show "i < length job_names \<Longrightarrow> length (filter (\<lambda>m. metric_job m = job_names ! i) (sc_metrics s)) = count_list (sc_begun s) i"
    using assms(1) off[of i] by (auto simp: sched_ok_def)
qed

lemma runGroup_keeps: "keeps {PgPool} (snd (runGroup io cfg))"
proof (cases "Serve (entries cfg) (ShutdownTimeout cfg) (cw_sched io)")
  case (Served err s cancelled)
  have t: "steps (sc_trace s) {PgPool, Listener} = Some {PgPool, Listener}"
    using idle_trace(1) Serve_results(1)[OF Served] by blast
  have "steps (replicate n (Used PgPool)) {Listener, PgPool} = Some {Listener, PgPool}" for n by (induction n) auto
  then show ?thesis using t by (auto simp: runGroup_def Served keeps_def steps_append insert_commute)
qed (simp_all add: runGroup_def keeps_def)

lemma cron_run_keeps: "keeps {} (snd (run io getenv))"
proof -
  obtain es tr where m: "Up (cw_migrate io) = (es, tr)" by fastforce
  have tr: "keeps {PgPool} tr" using Up_keeps[of "{PgPool}" "cw_migrate io"] m by simp
  have "keeps {PgPool} (snd (runWithPool io cfg))" for cfg
    using tr runGroup_keeps by (auto simp: runWithPool_def m intro!: resource_intros split: option.splits list.splits)
  then show ?thesis by (auto simp: run_def intro!: resource_intros split: sum.splits option.splits)
qed

lemma run_group:
  assumes "fst (run io getenv) = Exited err (Some (s, cancelled)) \<or> fst (run io getenv) = StillRunning s"
  obtains cfg where "fst (run io getenv) = fst (runGroup io cfg)"
  using assms by (auto simp: run_def runWithPool_def split: sum.splits option.splits prod.splits list.splits)

lemma waited_None: "waited (r # rs) None \<Longrightarrow> list_all (\<lambda>r. r = None) (r # rs)"
  by (simp add: waited_def split: if_splits)

text \<open>(C36) A clean shutdown of the scheduler. However runs, failures of the lock calls, panics and the stop interleave: when \<open>run\<close> has
  returned, its trace replays (the pool, the migration handle, the listener and the connection of every lock have been closed,
  each was used only while open, and no job was ever run twice at once), and each run that was begun has exactly one metric. It
  does return: while runs are going on after the stop, at most six more of their steps end them all. If it returns nil,
  no job was cancelled.\<close>

theorem cron_service_shutdown:
  "steps (snd (run io getenv)) {} = Some {}
   \<and> (case fst (run io getenv) of
        Exited err (Some (s, cancelled)) \<Rightarrow>
          (\<forall>i. sc_state s i = Off) \<and> (err = None \<longrightarrow> \<not> cancelled)
          \<and> (\<forall>i<length job_names. length (filter (\<lambda>m. metric_job m = job_names ! i) (sc_metrics s)) = count_list (sc_begun s) i)
      | StillRunning s \<Rightarrow>
          (\<exists>es s'. list_all (\<lambda>e. \<not> is_Tick e) es \<and> length es \<le> 6 \<and> sched_run job_names (es :: 'e sched_event list) s = Some s' \<and> busy job_names s' = [])
      | _ \<Rightarrow> True)"
proof (rule conjI)
  show "steps (snd (run io getenv)) {} = Some {}" using cron_run_keeps[of io getenv] by (simp only: keeps_def)
  show "case fst (run io getenv) of
        Exited err (Some (s, cancelled)) \<Rightarrow>
          (\<forall>i. sc_state s i = Off) \<and> (err = None \<longrightarrow> \<not> cancelled)
          \<and> (\<forall>i<length job_names. length (filter (\<lambda>m. metric_job m = job_names ! i) (sc_metrics s)) = count_list (sc_begun s) i)
      | StillRunning s \<Rightarrow>
          (\<exists>es s'. list_all (\<lambda>e. \<not> is_Tick e) es \<and> length es \<le> 6 \<and> sched_run job_names (es :: 'e sched_event list) s = Some s' \<and> busy job_names s' = [])
      | _ \<Rightarrow> True"
  proof (cases "fst (run io getenv)")
    case (Exited err fin)
    show ?thesis
    proof (cases fin)
      case (Some f)
      obtain s cancelled where f: "f = (s, cancelled)" by fastforce
      obtain cfg where g: "fst (runGroup io cfg) = Exited err (Some (s, cancelled))"
        using run_group[of io getenv err s cancelled] Exited Some f by metis
      then obtain serr where v: "Serve (entries cfg) (ShutdownTimeout cfg) (cw_sched io) = Served serr s cancelled"
        and w: "waited [map_option Inl (cw_http io), map_option (Inr \<circ> Inl) serr, map_option (Inr \<circ> Inr) (cw_shutdown io)] (cw_wait io)"
          "err = map_option groupError (cw_wait io)"
        by (auto simp: runGroup_def split: serve_result.splits if_splits)
      note r = Serve_results(1)[OF v]
      have "\<not> cancelled" if "err = None" using w that r by (auto dest: waited_None)
      then show ?thesis using idle_trace r by (auto simp: Exited Some f)
    qed (simp add: Exited)
  next
    case (StillRunning s)
    then obtain cfg where "fst (runGroup io cfg) = StillRunning s" using run_group[of io getenv None s False] by metis
    then have "Serve (entries cfg) (ShutdownTimeout cfg) (cw_sched io) = Waiting s"
      by (auto simp: runGroup_def split: serve_result.splits if_splits)
    then obtain es s' where e: "list_all (\<lambda>e. \<not> is_Tick e) es" "length es \<le> remaining job_names s"
      "sched_run job_names (es :: 'e sched_event list) s = Some s'" "busy job_names s' = []"
      using ends_all[OF Serve_results(2) distinct_names] by blast
    have "remaining job_names s \<le> 6" using remaining_bound[of job_names s] by (simp add: job_names_def)
    then show ?thesis using e unfolding StillRunning cw_exit.case by (intro exI[of _ es] exI[of _ s']) simp
  qed simp
qed

text \<open>A purge overlaps with a roll-up that finds its lock taken; the purge ends during the shutdown.\<close>

definition demo_config :: cw_config where
  "demo_config = \<lparr>SessionPurgeBatchSize = 1000, PendingOrderTTL = 5, ShutdownTimeout = 30, cw_DatabaseURL = ''postgres://localhost'',
     cw_MetricsAddr = '':9090'', cw_LogLevel = 0, cw_PurgeSessionsSchedule = ''@every 5m'', cw_RollupEventsSchedule = ''@daily'',
     cw_ExpireOrdersSchedule = ''@every 1m''\<rparr>"

definition demo_run :: "string run_io" where
  "demo_run = \<lparr>cw_env = \<lparr>GetFieldParams = Inr [], ParseEnv = (\<lambda>_. Inr demo_config)\<rparr>, cw_pool = None,
     cw_migrate = \<lparr>gs_Sub = None, gs_Locker = None, gs_Provider = None, gs_Up = Inr [1], gs_Version = Inr 1, gs_CloseDB = None\<rparr>,
     cw_register = (\<lambda>_. None), cw_listen = None, cw_pings = 1, cw_http = None,
     cw_sched = \<lparr>si_parse = (\<lambda>_. None), si_during = [Tick 0 10, Tick 1 10, Lock 0 True (Answers True) 11, Lock 1 True (Answers False) 12],
       si_after = [JobEnds 0 (Panics ''boom'') (Answers True) 20], si_finished = 8\<rparr>,
     cw_shutdown = None, cw_wait = None\<rparr>"

lemma cron_demo:
  "\<exists>s. fst (run demo_run (\<lambda>_. [])) = Exited None (Some (s, False)) \<and> sc_begun s = [0, 1]"
proof -
  have "case fst (run demo_run (\<lambda>_. [])) of Exited None (Some (s, False)) \<Rightarrow> sc_begun s = [0, 1] | _ \<Rightarrow> False" by code_simp
  then show ?thesis by (auto split: cw_exit.splits option.splits prod.splits bool.splits)
qed

theorem cron_service_shutdown_witness:
  "\<exists>s. fst (run demo_run (\<lambda>_. [])) = Exited None (Some (s, False)) \<and> (\<forall>i. sc_state s i = Off)
    \<and> length (filter (\<lambda>m. metric_job m = ''purge-expired-sessions'') (sc_metrics s)) = 1"
  using cron_demo
proof (elim exE conjE)
  fix s
  assume r: "fst (run demo_run (\<lambda>_. [])) = Exited None (Some (s, False))" and b: "sc_begun s = [0, 1]"
  note t = cron_service_shutdown[of demo_run "\<lambda>_. []", THEN conjunct2, unfolded r cw_exit.case option.case prod.case]
  have job0: "0 < length job_names" by (simp add: job_names_def)
  have "length (filter (\<lambda>m. metric_job m = job_names ! 0) (sc_metrics s)) = count_list (sc_begun s) 0"
    using t job0 by blast
  then have "length (filter (\<lambda>m. metric_job m = ''purge-expired-sessions'') (sc_metrics s)) = 1" by (simp add: b job_names_def)
  then show ?thesis using r t by blast
qed

end
