(* ===== verification/Ratelimit_Service.thy ===== *)
theory Ratelimit_Service
  imports Ratelimit_Http Sliding_Window Service_Run
begin

text \<open>
  App 03: the demo server (\<^verbatim>\<open>internal/server/server.go\<close>), the configuration (\<^verbatim>\<open>internal/config/config.go\<close>) and the command
  (\<^verbatim>\<open>cmd/ratelimiter/main.go\<close>).

  The limiter of the configured algorithm is behind its mutex, so requests and sweeps of the eviction loop are events in
  the order in which they take it, each with its clock reading. The rest of a request has no state.
\<close>

section \<open>Configuration\<close>

record 'a rl_config =
  rc_Addr :: string
  rc_Algorithm :: string
  rc_Limit :: int
  rc_Period :: duration
  rc_Burst :: int
  rc_CleanupInterval :: duration
  rc_TrustedProxies :: "('a \<Rightarrow> bool) list"
  rc_ShutdownTimeout :: duration
  rc_LogLevel :: int

definition Load :: "'a rl_config env_lib \<Rightarrow> (string \<Rightarrow> string) \<Rightarrow> unit config_error + 'a rl_config" where
  "Load lib getenv = load lib (\<lambda>_. None) getenv"

section \<open>The limiter of the configuration\<close>

datatype limiter = Bucket TokenBucket "bucket store" | Window SlidingWindow "window store"

datatype limiter_error = Invalid rl_error | UnknownAlgorithm string

definition newLimiter :: "'a rl_config \<Rightarrow> limiter_error + limiter" where
  "newLimiter cfg =
     (let rate = \<lparr>rate_Limit = rc_Limit cfg, rate_Period = rc_Period cfg\<rparr>;
          cleanup = WithCleanupInterval (rc_CleanupInterval cfg)
      in if rc_Algorithm cfg = ''token_bucket'' then map_sum Invalid (case_prod Bucket) (NewTokenBucket rate (rc_Burst cfg) [cleanup])
         else if rc_Algorithm cfg = ''sliding_window'' then map_sum Invalid (case_prod Window) (NewSlidingWindow rate [cleanup])
         else Inl (UnknownAlgorithm (rc_Algorithm cfg)))"

fun lim_Allow :: "int \<Rightarrow> gotime \<Rightarrow> limiter \<Rightarrow> string \<Rightarrow> (rl_error + Decision) \<times> limiter" where
  "lim_Allow conv now (Bucket tb s) key = map_prod id (Bucket tb) (tb_Allow tb s key now)"
| "lim_Allow conv now (Window sw s) key = map_prod id (Window sw) (sw_Allow sw conv s key now)"

fun lim_evict :: "gotime \<Rightarrow> limiter \<Rightarrow> limiter" where
  "lim_evict now (Bucket tb s) = Bucket tb (if st_closed s then s else evictIdle s now)"
| "lim_evict now (Window sw s) = Window sw (if st_closed s then s else evictIdle s now)"

fun lim_Close :: "limiter \<Rightarrow> limiter" where
  "lim_Close (Bucket tb s) = Bucket tb (store_close s)"
| "lim_Close (Window sw s) = Window sw (store_close s)"

section \<open>The API\<close>

record api_request =
  ar_get :: bool
  ar_path :: string
  ar_remote :: string
  ar_forwarded :: "string list"
  ar_done :: bool

datatype api_body = StatusOk | Proverbs "Proverb list" | OneProverb Proverb | ErrorText string | Plain

datatype svc_reply =
    Unlimited int api_body
  | Redirect string
  | Stopped reply
  | Passed "(string \<times> string) list" int api_body

text \<open>The routes behind the limit; \<open>GET\<close> patterns also match \<open>HEAD\<close>. A wildcard stands for one non-empty segment.\<close>

definition limitedMux :: "api_request \<Rightarrow> int \<times> api_body" where
  "limitedMux r =
     (let p = ar_path r; pre = ''/api/proverbs''; n = length pre
      in if p = pre then (if ar_get r then (200, Proverbs proverbs) else (405, Plain))
         else if take (Suc n) p = pre @ ''/'' \<and> drop (Suc n) p \<noteq> [] \<and> CHR ''/'' \<notin> set (drop (Suc n) p) then
           (if \<not> ar_get r then (405, Plain)
            else case getProverb (drop (Suc n) p) of
                   (status, Inl msg) \<Rightarrow> (status, ErrorText msg)
                 | (status, Inr pv) \<Rightarrow> (status, OneProverb pv))
         else (404, Plain))"

definition underApi :: "api_request \<Rightarrow> bool" where
  "underApi r \<longleftrightarrow> take 5 (ar_path r) = ''/api/''"

definition keyFunc :: "'a netip \<Rightarrow> 'a rl_config \<Rightarrow> api_request \<Rightarrow> rl_error + string" where
  "keyFunc ip cfg r =
     (if rc_TrustedProxies cfg \<noteq> [] then ForwardedFor ip (rc_TrustedProxies cfg) (ar_remote r) (ar_forwarded r)
      else RemoteIP ip (ar_remote r))"

text \<open>The mux, for a path in its canonical form; \<^verbatim>\<open>/api\<close> is redirected to \<^verbatim>\<open>/api/\<close>.\<close>

definition svc_handle :: "'a netip \<Rightarrow> 'a rl_config \<Rightarrow> int \<Rightarrow> api_request \<Rightarrow> gotime \<Rightarrow> limiter \<Rightarrow> svc_reply \<times> limiter" where
  "svc_handle ip cfg conv r now lm =
     (if ar_path r = ''/healthz'' then (if ar_get r then Unlimited 200 StatusOk else Unlimited 405 Plain, lm)
      else if underApi r then
        (case ServeHTTP (keyFunc ip cfg r) (ar_done r) (lim_Allow conv now) lm of
           (Next hdr, lm') \<Rightarrow> (case limitedMux r of (status, body) \<Rightarrow> (Passed hdr status body, lm'))
         | (reply, lm') \<Rightarrow> (Stopped reply, lm'))
      else if ar_path r = ''/api'' then (Redirect ''/api/'', lm)
      else (Unlimited 404 Plain, lm))"

datatype svc_event = Arrive api_request gotime | Sweep gotime

fun svc_run :: "'a netip \<Rightarrow> 'a rl_config \<Rightarrow> int \<Rightarrow> svc_event list \<Rightarrow> limiter \<Rightarrow> (api_request \<times> gotime \<times> svc_reply) list \<times> limiter" where
  "svc_run ip cfg conv [] lm = ([], lm)"
| "svc_run ip cfg conv (Arrive r t # es) lm =
     (case svc_handle ip cfg conv r t lm of (p, lm1) \<Rightarrow> (case svc_run ip cfg conv es lm1 of (ps, lm2) \<Rightarrow> ((r, t, p) # ps, lm2)))"
| "svc_run ip cfg conv (Sweep t # es) lm = svc_run ip cfg conv es (lim_evict t lm)"

section \<open>Run\<close>

text \<open>\<open>sr_late\<close> are requests that the shutdown did not wait for: they reach a closed limiter.\<close>

record 'a run_io =
  sr_args :: "string list"
  sr_env :: "'a rl_config env_lib"
  sr_netip :: "'a netip"
  sr_conv :: int
  sr_listen :: "gerr option"
  sr_events :: "svc_event list"
  sr_serve :: "gerr option"
  sr_draining :: "svc_event list"
  sr_shutdown :: "gerr option"
  sr_late :: "svc_event list"

datatype rl_exit_error =
    Usage "string list" | LoadConfig "unit config_error" | CreateLimiter limiter_error | Listen gerr | ServeHTTPErr gerr | ShutdownHTTP gerr

type_synonym served = "(api_request \<times> gotime \<times> svc_reply) list"

record rl_end =
  re_served :: served
  re_late :: served
  re_limiter :: limiter

definition serve :: "'a run_io \<Rightarrow> 'a rl_config \<Rightarrow> limiter \<Rightarrow> rl_exit_error option \<times> rl_end" where
  "serve io cfg lm =
     (let go = svc_run (sr_netip io) cfg (sr_conv io);
          (ps1, lm1) = go (sr_events io) lm;
          (err, ps, lm2) =
            (case sr_serve io of
               Some e \<Rightarrow> (Some (ServeHTTPErr e), ps1, lm1)
             | None \<Rightarrow>
                 (case go (sr_draining io) lm1 of
                    (ps2, lm2) \<Rightarrow> (map_option ShutdownHTTP (sr_shutdown io), ps1 @ ps2, lm2)));
          (late, lm3) = go (sr_late io) (lim_Close lm2)
      in (err, \<lparr>re_served = ps, re_late = late, re_limiter = lm3\<rparr>))"

definition run :: "'a run_io \<Rightarrow> (string \<Rightarrow> string) \<Rightarrow> rl_exit_error option \<times> rl_end option" where
  "run io getenv =
     (if 1 < length (sr_args io) then (Some (Usage (tl (sr_args io))), None)
      else case Load (sr_env io) getenv of
        Inl e \<Rightarrow> (Some (LoadConfig e), None)
      | Inr cfg \<Rightarrow>
     (case newLimiter cfg of
        Inl e \<Rightarrow> (Some (CreateLimiter e), None)
      | Inr lm \<Rightarrow>
     (case sr_listen io of
        Some e \<Rightarrow> (Some (Listen e), None)
      | None \<Rightarrow> (case serve io cfg lm of (err, fin) \<Rightarrow> (err, Some fin)))))"

section \<open>The requests of one client\<close>

text \<open>What the limiter sees of the events, and what one key gets.\<close>

fun rl_events :: "'a netip \<Rightarrow> 'a rl_config \<Rightarrow> svc_event list \<Rightarrow> rl_event list" where
  "rl_events ip cfg [] = []"
| "rl_events ip cfg (Arrive r t # es) =
     (if ar_path r \<noteq> ''/healthz'' \<and> underApi r then (case keyFunc ip cfg r of Inl _ \<Rightarrow> [] | Inr k \<Rightarrow> [Allow k t]) else []) @ rl_events ip cfg es"
| "rl_events ip cfg (Sweep t # es) = EvictTick t # rl_events ip cfg es"

fun is_Passed :: "svc_reply \<Rightarrow> bool" where
  "is_Passed (Passed _ _ _) = True"
| "is_Passed _ = False"

definition of_client :: "'a netip \<Rightarrow> 'a rl_config \<Rightarrow> string \<Rightarrow> served \<Rightarrow> (gotime \<times> bool) list" where
  "of_client ip cfg k ps =
     map (\<lambda>(r, t, p). (t, is_Passed p)) (filter (\<lambda>(r, _, _). ar_path r \<noteq> ''/healthz'' \<and> underApi r \<and> keyFunc ip cfg r = Inr k) ps)"

fun outcomes :: "string \<Rightarrow> rl_event list \<Rightarrow> (rl_error + Decision) list \<Rightarrow> (gotime \<times> bool) list" where
  "outcomes k (Allow j t # es) (d # ds) =
     (if j = k then [(t, case d of Inl _ \<Rightarrow> False | Inr x \<Rightarrow> Allowed x)] else []) @ outcomes k es ds"
| "outcomes k (EvictTick t # es) ds = outcomes k es ds"
| "outcomes k (Close # es) ds = outcomes k es ds"
| "outcomes k _ _ = []"

fun rl_state :: "('s store \<Rightarrow> string \<Rightarrow> gotime \<Rightarrow> (rl_error + Decision) \<times> 's store) \<Rightarrow> rl_event list \<Rightarrow> 's store \<Rightarrow> 's store" where
  "rl_state f [] s = s"
| "rl_state f (Allow k t # es) s = rl_state f es (snd (f s k t))"
| "rl_state f (EvictTick t # es) s = rl_state f es (if st_closed s then s else evictIdle s t)"
| "rl_state f (Close # es) s = rl_state f es (store_close s)"

lemma ServeHTTP_passes:
  "fst (ServeHTTP (Inr k) ctx_done allow s) = Next hdr \<Longrightarrow> \<exists>d. fst (allow s k) = Inr d \<and> Allowed d"
  "fst (allow s k) = Inr d \<Longrightarrow> Allowed d \<Longrightarrow> \<exists>hdr. fst (ServeHTTP (Inr k) ctx_done allow s) = Next hdr"
  "snd (ServeHTTP (Inr k) ctx_done allow s) = snd (allow s k)"
  "ServeHTTP (Inl e) ctx_done allow s = (r, s') \<Longrightarrow> s' = s \<and> (\<forall>hdr. r \<noteq> Next hdr)"
  by (auto simp: ServeHTTP_def Let_def writeError_def split: prod.splits sum.splits if_splits)

text \<open>One request, as the limiter sees it.\<close>

lemma svc_handle_cases:
  obtains (free) "snd (svc_handle ip cfg conv r t lm) = lm" "\<not> is_Passed (fst (svc_handle ip cfg conv r t lm))"
      "\<And>k. ar_path r \<noteq> ''/healthz'' \<Longrightarrow> underApi r \<Longrightarrow> keyFunc ip cfg r \<noteq> Inr k"
  | (limited) k where "ar_path r \<noteq> ''/healthz''" "underApi r" "keyFunc ip cfg r = Inr k"
      "snd (svc_handle ip cfg conv r t lm) = snd (lim_Allow conv t lm k)"
      "is_Passed (fst (svc_handle ip cfg conv r t lm)) \<longleftrightarrow> (case fst (lim_Allow conv t lm k) of Inl _ \<Rightarrow> False | Inr d \<Rightarrow> Allowed d)"
proof (cases "ar_path r \<noteq> ''/healthz'' \<and> underApi r")
  case u: True
  show thesis
  proof (cases "keyFunc ip cfg r")
    case (Inl e)
    obtain rep lm' where s: "ServeHTTP (Inl e) (ar_done r) (lim_Allow conv t) lm = (rep, lm')" by fastforce
    note f = ServeHTTP_passes(4)[OF s]
    show thesis by (rule free) (use u Inl s f in \<open>auto simp: svc_handle_def split: reply.splits\<close>)
  next
    case (Inr k)
    obtain rep lm' where s: "ServeHTTP (Inr k) (ar_done r) (lim_Allow conv t) lm = (rep, lm')" by fastforce
    have l: "lm' = snd (lim_Allow conv t lm k)" using ServeHTTP_passes(3)[where k = k and ctx_done = "ar_done r" and allow = "lim_Allow conv t" and s = lm] s by simp
    have h: "(\<exists>hdr. rep = Next hdr) \<longleftrightarrow> (\<exists>d. fst (lim_Allow conv t lm k) = Inr d \<and> Allowed d)"
      using ServeHTTP_passes(1,2)[where k = k and ctx_done = "ar_done r" and allow = "lim_Allow conv t" and s = lm] s by (metis fst_conv)
    have "is_Passed (fst (svc_handle ip cfg conv r t lm)) \<longleftrightarrow> (\<exists>hdr. rep = Next hdr)"
      using u Inr s by (simp add: svc_handle_def split: reply.splits prod.splits)
    also have "\<dots> \<longleftrightarrow> (case fst (lim_Allow conv t lm k) of Inl _ \<Rightarrow> False | Inr d \<Rightarrow> Allowed d)"
      unfolding h by (simp split: sum.split)
    finally have p: "is_Passed (fst (svc_handle ip cfg conv r t lm)) \<longleftrightarrow> (case fst (lim_Allow conv t lm k) of Inl _ \<Rightarrow> False | Inr d \<Rightarrow> Allowed d)" .
    have "snd (svc_handle ip cfg conv r t lm) = lm'"
      using u Inr s by (simp add: svc_handle_def split: reply.splits prod.splits)
    then show thesis using limited[of k] u Inr p l by simp
  qed
next
  case False
  show thesis by (rule free) (use False in \<open>auto simp: svc_handle_def\<close>)
qed

text \<open>A limiter over the state function \<open>fn\<close>, as a store.\<close>

lemma svc_run_outcomes:
  assumes a: "\<And>s t k. lim_Allow conv t (wrap s) k = map_prod id wrap (store_do new fn s k t)"
    and e: "\<And>s t. lim_evict t (wrap s) = wrap (if st_closed s then s else evictIdle s t)"
  shows "of_client ip cfg k (fst (svc_run ip cfg conv es (wrap s))) = outcomes k (rl_events ip cfg es) (rl_run new fn s (rl_events ip cfg es))"
    and "snd (svc_run ip cfg conv es (wrap s)) = wrap (rl_state (store_do new fn) (rl_events ip cfg es) s)"
proof (induction es arbitrary: s)
  case (Cons ev es)
  case 1
  show ?case
  proof (cases ev)
    case (Arrive r t)
    show ?thesis
    proof (cases rule: svc_handle_cases[of ip cfg conv r t "wrap s"])
      case free
      then have "rl_events ip cfg (ev # es) = rl_events ip cfg es" by (auto simp: Arrive split: sum.splits)
      then show ?thesis using Cons(1)[of s] free by (auto simp: Arrive of_client_def split_beta)
    next
      case (limited j)
      have h: "snd (svc_handle ip cfg conv r t (wrap s)) = wrap (snd (store_do new fn s j t))" using limited(4) by (simp add: a)
      then show ?thesis using Cons(1)[of "snd (store_do new fn s j t)"] limited(1-3,5)
        by (auto simp: Arrive of_client_def split_beta a)
    qed
  next
    case (Sweep t)
    then show ?thesis using Cons(1) by (simp add: e)
  qed
  case 2
  show ?case
  proof (cases ev)
    case (Arrive r t)
    show ?thesis
    proof (cases rule: svc_handle_cases[of ip cfg conv r t "wrap s"])
      case free
      then have "rl_events ip cfg (ev # es) = rl_events ip cfg es" by (auto simp: Arrive split: sum.splits)
      then show ?thesis using Cons(2)[of s] free by (simp add: Arrive split_beta)
    next
      case (limited j)
      have h: "snd (svc_handle ip cfg conv r t (wrap s)) = wrap (snd (store_do new fn s j t))" using limited(4) by (simp add: a)
      then show ?thesis using Cons(2)[of "snd (store_do new fn s j t)"] limited(1-3) by (simp add: Arrive split_beta)
    qed
  next
    case (Sweep t)
    then show ?thesis using Cons(2) by (simp add: e)
  qed
qed (simp_all add: of_client_def)

lemma outcomes_without_ticks: "outcomes k es ds = outcomes k (without_ticks es) ds"
  by (induction k es ds rule: outcomes.induct) (simp_all add: without_ticks_def)

section \<open>One key of a store\<close>

fun key_run :: "(gotime \<Rightarrow> 's) \<Rightarrow> ('s \<Rightarrow> gotime \<Rightarrow> Decision \<times> 's) \<Rightarrow> 's option \<Rightarrow> gotime list \<Rightarrow> (gotime \<times> bool) list" where
  "key_run new fn st [] = []"
| "key_run new fn st (t # ts) =
     (case fn (case st of None \<Rightarrow> new t | Some x \<Rightarrow> x) t of (d, st') \<Rightarrow> (t, Allowed d) # key_run new fn (Some st') ts)"

fun times :: "string \<Rightarrow> rl_event list \<Rightarrow> gotime list" where
  "times k (Allow j t # es) = (if j = k then [t] else []) @ times k es"
| "times k (_ # es) = times k es"
| "times k [] = []"

lemma outcomes_key_run:
  assumes "\<not> st_closed s" and "list_all (\<lambda>e. case e of Allow _ _ \<Rightarrow> True | _ \<Rightarrow> False) es"
  shows "outcomes k es (rl_run new fn s es) = key_run new fn (map_option state (st_entries s k)) (times k es)"
  using assms
proof (induction es arbitrary: s)
  case (Cons e es)
  then obtain j t where e: "e = Allow j t" by (cases e) auto
  define st where "st = (case st_entries s j of Some x \<Rightarrow> state x | None \<Rightarrow> new t)"
  let ?s = "s\<lparr>st_entries := (st_entries s)(j \<mapsto> \<lparr>state = snd (fn st t), lastSeen = t\<rparr>)\<rparr>"
  have d: "store_do new fn s j t = (Inr (fst (fn st t)), ?s)"
    using Cons.prems(1) by (simp add: store_do_def st_def split_beta Let_def)
  have ih: "outcomes k es (rl_run new fn ?s es) = key_run new fn (map_option state (st_entries ?s k)) (times k es)"
    using Cons.prems by (intro Cons.IH) simp_all
  show ?case
  proof (cases "j = k")
    case True
    have "(case map_option state (st_entries s k) of None \<Rightarrow> new t | Some x \<Rightarrow> x) = st" by (simp add: st_def True split: option.split)
    then show ?thesis using ih d by (simp add: e True split_beta)
  next
    case False
    then show ?thesis using ih d by (simp add: e)
  qed
qed simp

lemma without_ticks_allows: "Close \<notin> set es \<Longrightarrow> list_all (\<lambda>e. case e of Allow _ _ \<Rightarrow> True | _ \<Rightarrow> False) (without_ticks es)"
  by (auto simp: without_ticks_def list_all_iff split: rl_event.splits)

lemma times_without_ticks: "times k (without_ticks es) = times k es"
  by (induction k es rule: times.induct) (simp_all add: without_ticks_def)

lemma rl_events_no_Close: "Close \<notin> set (rl_events ip cfg es)"
proof (induction ip cfg es rule: rl_events.induct)
  case (1 ip cfg)
  show ?case by simp
next
  case (2 ip cfg r t es)
  have "Close \<notin> set (if P then (case x of Inl _ \<Rightarrow> [] | Inr k \<Rightarrow> [Allow k t]) else [])" for P and x :: "rl_error + string"
    by (cases P; cases x; simp)
  then show ?case using 2 unfolding rl_events.simps set_append by blast
next
  case (3 ip cfg t es)
  then show ?case by simp
qed

lemma times_sorted: "monotone_from t0 es \<Longrightarrow> sorted (t0 # times k es)"
proof (induction es arbitrary: t0)
  case (Cons e es)
  have later: "sorted (t0 # xs)" if "t0 \<le> t" "sorted (t # xs)" for t and xs :: "gotime list" using that by fastforce
  show ?case
  proof (cases "ev_time e")
    case None
    then show ?thesis using Cons by (cases e) auto
  next
    case (Some t)
    then have "t0 \<le> t" "sorted (t # times k es)" using Cons by auto
    moreover have "times k (e # es) = times k es \<or> times k (e # es) = t # times k es" using Some by (cases e) auto
    ultimately show ?thesis using later[of t "times k es"] by auto
  qed
qed simp

text \<open>In a store that evicts idle keys, a key gets what it gets from its own state alone.\<close>

context limiter_state
begin

lemma client_outcomes:
  assumes "valid" and "monotone_from t0 es" and "Close \<notin> set es"
  shows "outcomes k es (rl_run new step \<lparr>st_ttl = idle, st_entries = Map.empty, st_closed = False\<rparr> es) = key_run new step None (times k es)"
proof -
  let ?s = "\<lparr>st_ttl = idle, st_entries = Map.empty, st_closed = False\<rparr>"
  have "outcomes k es (rl_run new step ?s es) = outcomes k (without_ticks es) (rl_run new step ?s (without_ticks es))"
    using ticks_invisible[OF assms(1) fresh_store_evicted_from assms(2)] outcomes_without_ticks[of k es] by simp
  also have "\<dots> = key_run new step None (times k es)"
    using outcomes_key_run[of ?s "without_ticks es" k new step] without_ticks_allows[OF assms(3)] by (simp add: times_without_ticks)
  finally show ?thesis .
qed

end

section \<open>Rates\<close>

definition passed_in :: "gotime \<Rightarrow> gotime \<Rightarrow> (gotime \<times> bool) list \<Rightarrow> nat" where
  "passed_in a b rs = length (filter (\<lambda>(t, ok). ok \<and> a \<le> t \<and> t \<le> b) rs)"

lemma passed_in_simps [simp]:
  "passed_in a b [] = 0"
  "passed_in a b ((t, ok) # rs) = of_bool (ok \<and> a \<le> t \<and> t \<le> b) + passed_in a b rs"
  by (simp_all add: passed_in_def)

lemma key_run_Some: "key_run new fn (Some b) (t # ts) = (t, Allowed (fst (fn b t))) # key_run new fn (Some (snd (fn b t))) ts"
  by (simp add: split_beta)

lemma key_run_None: "key_run new fn None (t # ts) = key_run new fn (Some (new t)) (t # ts)"
  by simp

lemma key_run_late: "sorted (t # ts) \<Longrightarrow> b < t \<Longrightarrow> passed_in a b (key_run new fn st ts) = 0"
proof (induction ts arbitrary: st t)
  case (Cons u ts)
  then have b: "b < u" "sorted (u # ts)" by auto
  then show ?case by (simp add: split_beta Cons.IH[OF b(2,1)])
qed simp

text \<open>From a state left at time \<open>t\<close>: what passes by time \<open>b\<close> is paid by the tokens and the time.\<close>

lemma tb_passed_by:
  assumes "0 < burst tb" "0 < interval tb" and "tb_inv tb t st" and "sorted (t # ts)" and "t \<le> b"
  shows "int (passed_in a b (key_run (newBucket tb) (tb_take tb) (Some st) ts)) * interval tb \<le> tokens st * interval tb - refilledAt st + b"
  using assms(3-5)
proof (induction ts arbitrary: t st)
  case Nil
  then have "0 \<le> tokens st * interval tb" "refilledAt st \<le> t" using assms(2) by (simp_all add: tb_inv_def)
  then show ?case using Nil(3) by (simp del: mult_nonneg_nonneg)
next
  case (Cons u ts)
  have tu: "t \<le> u" and srt: "sorted (u # ts)" using Cons.prems(2) by auto
  note props = tb_take_props[OF assms(1,2) Cons.prems(1) tu]
  have st0: "0 \<le> tokens st * interval tb" "refilledAt st \<le> t" using Cons.prems(1) assms(2) by (simp_all add: tb_inv_def)
  show ?case
  proof (cases "u \<le> b")
    case True
    have "int (passed_in a b (key_run (newBucket tb) (tb_take tb) (Some (snd (tb_take tb st u))) ts)) * interval tb
        \<le> tokens (snd (tb_take tb st u)) * interval tb - refilledAt (snd (tb_take tb st u)) + b"
      by (rule Cons.IH[OF props(1) srt True])
    then show ?thesis using props(2) assms(2) unfolding key_run_Some by (auto simp: algebra_simps split: if_splits)
  next
    case False
    then show ?thesis using key_run_late[OF srt, of b a "newBucket tb" "tb_take tb"] st0 Cons.prems(3) unfolding key_run_Some by simp
  qed
qed

lemma tb_take_credit:
  assumes "tb_valid tb" and "tb_inv tb t st" and "t \<le> u"
  shows "(tokens (snd (tb_take tb st u)) + of_bool (Allowed (fst (tb_take tb st u)))) * interval tb - refilledAt (snd (tb_take tb st u))
    \<le> burst tb * interval tb - u"
proof -
  have v: "0 < burst tb" "0 < interval tb" using assms(1) by (simp_all add: tb_valid_def)
  note inv = refill_props(1)[OF v assms(2,3)]
  have "tokens (refill tb st u) * interval tb - refilledAt (refill tb st u) \<le> burst tb * interval tb - u"
  proof (cases "tokens (refill tb st u) < burst tb")
    case True
    have "(tokens (refill tb st u) + 1) * interval tb \<le> burst tb * interval tb" using True v by (intro mult_right_mono) simp_all
    then show ?thesis using refill_leftover[OF assms True] by (simp add: algebra_simps)
  next
    case False
    then have "tokens (refill tb st u) = burst tb" using inv by (simp add: tb_inv_def)
    moreover have "refilledAt (refill tb st u) = u"
    proof (rule ccontr)
      let ?e = "go_quot (time_Sub u (refilledAt st)) (interval tb)"
      assume "refilledAt (refill tb st u) \<noteq> u"
      then have e: "\<not> burst tb - tokens st \<le> ?e" by (auto simp: refill_def Let_def)
      have "0 \<le> ?e" using earned_bounds(1)[OF v(2), of st u] assms(2,3) by (simp add: tb_inv_def)
      then show False using False e by (auto simp: refill_def Let_def split: if_splits)
    qed
    ultimately show ?thesis by simp
  qed
  then show ?thesis by (auto simp: tb_take_eq Let_def)
qed

lemma tb_passed_in:
  assumes v: "tb_valid tb" and "sorted (t # ts)" and "st \<noteq> None \<Longrightarrow> tb_inv tb t (the st)" and "a \<le> b"
  shows "int (passed_in a b (key_run (newBucket tb) (tb_take tb) st ts)) * interval tb \<le> burst tb * interval tb + (b - a)"
  using assms(2,3)
proof (induction ts arbitrary: t st)
  case Nil
  have "0 \<le> burst tb * interval tb" using v by (simp add: tb_valid_def)
  then show ?case using assms(4) by simp
next
  case (Cons u ts)
  have pos: "0 < burst tb" "0 < interval tb" using v by (simp_all add: tb_valid_def)
  have tu: "t \<le> u" and srt: "sorted (u # ts)" using Cons.prems(1) by auto
  obtain x where run: "key_run (newBucket tb) (tb_take tb) st (u # ts) = key_run (newBucket tb) (tb_take tb) (Some x) (u # ts)"
    and x: "\<exists>t'\<le>u. tb_inv tb t' x"
  proof (cases st)
    case None
    then show thesis using that[of "newBucket tb u"] pos by (auto simp: tb_inv_def newBucket_def)
  next
    case (Some y)
    then show thesis using that[of y] Cons.prems(2) tu by auto
  qed
  obtain t' where t': "tb_inv tb t' x" "t' \<le> u" using x by blast
  have inv: "tb_inv tb u (snd (tb_take tb x u))" by (rule tb_take_props(1)[OF pos t'])
  show ?case
  proof (cases "a \<le> u")
    case False
    then show ?thesis using Cons.IH[OF srt, of "Some (snd (tb_take tb x u))"] inv unfolding run key_run_Some by simp
  next
    case True
    show ?thesis
    proof (cases "u \<le> b")
      case u: True
      have "int (passed_in a b (key_run (newBucket tb) (tb_take tb) (Some (snd (tb_take tb x u))) ts)) * interval tb
          \<le> tokens (snd (tb_take tb x u)) * interval tb - refilledAt (snd (tb_take tb x u)) + b"
        by (rule tb_passed_by[OF pos inv srt u])
      then show ?thesis using tb_take_credit[OF v t'] True u unfolding run key_run_Some by (auto simp: algebra_simps split: if_splits)
    next
      case False
      have "0 \<le> burst tb * interval tb" using pos by simp
      then show ?thesis using False key_run_late[OF srt, of b a "newBucket tb" "tb_take tb"] assms(4) unfolding run key_run_Some by simp
    qed
  qed
qed

lemma sw_key_run: "key_run (\<lambda>_. zero_window) (sw_hit sw conv) (Some w) ts = sw_run sw conv w ts"
  by (induction ts arbitrary: w) (simp_all add: sw_run_Cons split_beta)

lemma sw_key_run_None: "key_run (\<lambda>_. zero_window) (sw_hit sw conv) None ts = sw_run sw conv zero_window ts"
proof (cases ts)
  case (Cons t us)
  then show ?thesis using sw_key_run[of sw conv zero_window ts] key_run_None[of "\<lambda>_. zero_window" "sw_hit sw conv" t us] by simp
qed simp

section \<open>The service\<close>

lemma svc_run_append:
  "svc_run ip cfg conv (xs @ ys) lm =
    (fst (svc_run ip cfg conv xs lm) @ fst (svc_run ip cfg conv ys (snd (svc_run ip cfg conv xs lm))),
     snd (svc_run ip cfg conv ys (snd (svc_run ip cfg conv xs lm))))"
proof (induction xs arbitrary: lm)
  case (Cons e xs)
  then show ?case by (cases e) (simp_all add: split_beta)
qed simp

lemma rl_events_append: "rl_events ip cfg (xs @ ys) = rl_events ip cfg xs @ rl_events ip cfg ys"
  by (induction ip cfg xs rule: rl_events.induct) simp_all

lemma monotone_prefix: "monotone_from t0 (xs @ ys) \<Longrightarrow> monotone_from t0 xs"
  by (induction xs arbitrary: t0) (auto split: option.splits)

text \<open>A closed limiter lets nothing pass, and the health check is never limited.\<close>

definition lim_closed :: "limiter \<Rightarrow> bool" where
  "lim_closed lm = (case lm of Bucket _ s \<Rightarrow> st_closed s | Window _ s \<Rightarrow> st_closed s)"

lemma closed_Allow: "lim_closed lm \<Longrightarrow> lim_Allow conv t lm k = (Inl ErrClosed, lm)"
  by (cases lm) (simp_all add: lim_closed_def tb_Allow_def sw_Allow_def store_do_def)

lemma closed_evict: "lim_closed lm \<Longrightarrow> lim_evict t lm = lm"
  by (cases lm) (simp_all add: lim_closed_def)

lemma closed_Close: "lim_closed (lim_Close lm)"
  by (cases lm) (simp_all add: lim_closed_def store_close_def)

lemma closed_run: "lim_closed lm \<Longrightarrow> (\<forall>(r, t, p)\<in>set (fst (svc_run ip cfg conv es lm)). \<not> is_Passed p) \<and> snd (svc_run ip cfg conv es lm) = lm"
proof (induction es)
  case (Cons e es)
  show ?case
  proof (cases e)
    case (Arrive r t)
    have "\<not> is_Passed (fst (svc_handle ip cfg conv r t lm)) \<and> snd (svc_handle ip cfg conv r t lm) = lm"
      by (cases rule: svc_handle_cases[of ip cfg conv r t lm]) (simp_all add: closed_Allow[OF Cons.prems])
    then show ?thesis using Cons by (simp add: Arrive split_beta)
  next
    case (Sweep t)
    then show ?thesis using Cons by (simp add: closed_evict)
  qed
qed simp

lemma health_reply: "ar_path r = ''/healthz'' \<Longrightarrow> ar_get r \<Longrightarrow> fst (svc_handle ip cfg conv r t lm) = Unlimited 200 StatusOk"
  by (simp add: svc_handle_def)

lemma health_unlimited:
  "(r, t, p) \<in> set (fst (svc_run ip cfg conv es lm)) \<Longrightarrow> ar_path r = ''/healthz'' \<Longrightarrow> ar_get r \<Longrightarrow> p = Unlimited 200 StatusOk"
proof (induction es arbitrary: lm)
  case (Cons e es)
  show ?case
  proof (cases e)
    case (Arrive r' t')
    show ?thesis using Cons.prems Cons.IH[of "snd (svc_handle ip cfg conv r' t' lm)"] health_reply[of r ip cfg conv t lm]
      by (auto simp: Arrive split_beta)
  next
    case (Sweep t')
    then show ?thesis using Cons by simp
  qed
qed simp

lemma serve_served:
  assumes "serve io cfg lm = (err, fin)"
  obtains es rest where "sr_events io @ sr_draining io = es @ rest"
    and "re_served fin = fst (svc_run (sr_netip io) cfg (sr_conv io) es lm)"
    and "\<forall>(r, t, p)\<in>set (re_late fin). \<not> is_Passed p" and "lim_closed (re_limiter fin)"
proof -
  let ?go = "svc_run (sr_netip io) cfg (sr_conv io)"
  define es where "es = (if sr_serve io = None then sr_events io @ sr_draining io else sr_events io)"
  have es: "es @ (if sr_serve io = None then [] else sr_draining io) = sr_events io @ sr_draining io" by (simp add: es_def)
  have "\<exists>lm2. re_served fin = fst (?go es lm) \<and> re_late fin = fst (?go (sr_late io) (lim_Close lm2)) \<and> re_limiter fin = snd (?go (sr_late io) (lim_Close lm2))"
    using assms by (cases "sr_serve io") (simp_all add: serve_def Let_def es_def svc_run_append split_beta, auto)
  then obtain lm2 where f: "re_served fin = fst (?go es lm)" "re_late fin = fst (?go (sr_late io) (lim_Close lm2))"
    "re_limiter fin = snd (?go (sr_late io) (lim_Close lm2))" by blast
  note c = closed_run[OF closed_Close[of lm2], of "sr_netip io" cfg "sr_conv io" "sr_late io"]
  show thesis by (rule that[OF es[symmetric] f(1)]) (use c f(2,3) closed_Close[of lm2] in simp_all)
qed

lemma newLimiter_cases:
  assumes "newLimiter cfg = Inr lm" and "rc_Limit cfg < 2 ^ 53" and "2 * rc_Period cfg \<le> max64"
    and "rc_Burst cfg * go_quot (rc_Period cfg) (rc_Limit cfg) \<le> max64"
  obtains tb where "rc_Algorithm cfg = ''token_bucket''" "tb = \<lparr>burst = rc_Burst cfg, interval = go_quot (rc_Period cfg) (rc_Limit cfg)\<rparr>"
      "tb_valid tb" "lm = Bucket tb \<lparr>st_ttl = burst tb * interval tb, st_entries = Map.empty, st_closed = False\<rparr>"
  | sw where "rc_Algorithm cfg = ''sliding_window''" "sw = \<lparr>sw_limit = rc_Limit cfg, sw_period = rc_Period cfg\<rparr>"
      "sw_valid sw" "lm = Window sw \<lparr>st_ttl = 2 * sw_period sw, st_entries = Map.empty, st_closed = False\<rparr>"
proof (cases "rc_Algorithm cfg = ''token_bucket''")
  case True
  let ?iv = "go_quot (rc_Period cfg) (rc_Limit cfg)"
  have n: "0 < rc_Burst cfg" "0 < ?iv" and l: "lm = Bucket \<lparr>burst = rc_Burst cfg, interval = ?iv\<rparr>
      \<lparr>st_ttl = wrap64 (rc_Burst cfg * ?iv), st_entries = Map.empty, st_closed = False\<rparr>"
    using assms(1) True
    by (auto simp: newLimiter_def NewTokenBucket_def newStore_def Let_def WithCleanupInterval_def split: option.splits if_splits)
  have "0 < rc_Burst cfg * ?iv" using n by simp
  then have "wrap64 (rc_Burst cfg * ?iv) = rc_Burst cfg * ?iv" using assms(4) by (intro wrap64_id) (simp add: in64_def min64_def)
  then show thesis using that(1)[OF True refl] n assms(4) l by (simp add: tb_valid_def)
next
  case False
  have a: "rc_Algorithm cfg = ''sliding_window''" and n: "0 < rc_Limit cfg" "0 < rc_Period cfg"
    and l: "lm = Window \<lparr>sw_limit = rc_Limit cfg, sw_period = rc_Period cfg\<rparr>
      \<lparr>st_ttl = wrap64 (2 * rc_Period cfg), st_entries = Map.empty, st_closed = False\<rparr>"
    using assms(1) False
    by (auto simp: newLimiter_def NewSlidingWindow_def Ratelimit_Store.validate_def newStore_def Let_def WithCleanupInterval_def split: option.splits if_splits)
  have "wrap64 (2 * rc_Period cfg) = 2 * rc_Period cfg" using n assms(3) by (intro wrap64_id) (simp add: in64_def min64_def)
  then show thesis using that(2)[OF a refl] n assms(2,3) l by (simp add: sw_valid_def)
qed

text \<open>What one client gets, for either algorithm.\<close>

lemma bucket_client:
  assumes "tb_valid tb" and "monotone_from t0 (rl_events ip cfg es)" and "a \<le> b"
    and s: "s = \<lparr>st_ttl = burst tb * interval tb, st_entries = Map.empty, st_closed = False\<rparr>"
  shows "int (passed_in a b (of_client ip cfg k (fst (svc_run ip cfg conv es (Bucket tb s))))) * interval tb \<le> burst tb * interval tb + (b - a)"
proof -
  have "of_client ip cfg k (fst (svc_run ip cfg conv es (Bucket tb s))) = outcomes k (rl_events ip cfg es) (rl_run (newBucket tb) (tb_take tb) s (rl_events ip cfg es))"
    by (rule svc_run_outcomes(1)) (simp_all add: tb_Allow_def)
  also have "\<dots> = key_run (newBucket tb) (tb_take tb) None (times k (rl_events ip cfg es))"
    unfolding s by (rule tb.client_outcomes[OF assms(1,2) rl_events_no_Close])
  finally show ?thesis using tb_passed_in[OF assms(1) times_sorted[OF assms(2), where k = k], of None a b] assms(3) by simp
qed

lemma window_client:
  assumes v: "sw_valid sw" and "monotone_from t0 (rl_events ip cfg es)"
    and s: "s = \<lparr>st_ttl = 2 * sw_period sw, st_entries = Map.empty, st_closed = False\<rparr>"
  shows "admitted_in sw W (of_client ip cfg k (fst (svc_run ip cfg conv es (Window sw s)))) \<le> sw_limit sw"
proof -
  let ?ts = "times k (rl_events ip cfg es)"
  have "of_client ip cfg k (fst (svc_run ip cfg conv es (Window sw s))) = outcomes k (rl_events ip cfg es) (rl_run (\<lambda>_. zero_window) (sw_hit sw conv) s (rl_events ip cfg es))"
    by (rule svc_run_outcomes(1)) (simp_all add: sw_Allow_def)
  also have "\<dots> = key_run (\<lambda>_. zero_window) (sw_hit sw conv) None ?ts"
    unfolding s by (rule sw.client_outcomes[OF v assms(2) rl_events_no_Close])
  also have "\<dots> = sw_run sw conv zero_window ?ts" by (rule sw_key_run_None)
  finally have e: "of_client ip cfg k (fst (svc_run ip cfg conv es (Window sw s))) = sw_run sw conv zero_window ?ts" .
  have c: "counts_ok sw zero_window" using v by (simp add: counts_ok_def zero_window_def sw_valid_def)
  show ?thesis using admitted_in_bound[OF v c times_sorted[OF assms(2), where k = k], of W conv] unfolding e by (simp add: zero_window_def split: if_splits)
qed

section \<open>Properties\<close>

text \<open>(C37) The running service enforces the configured rate per client, however its requests arrive, while idle clients are evicted and
  across the shutdown, if the clock does not go back and the products of the configuration fit 64 bits. With the token bucket, in any
  interval \<open>[a, b]\<close> at most the burst and one request per \<open>Period / Limit\<close> pass for a client; with the
  sliding window, at most \<open>Limit\<close> in any aligned period. No other algorithm is served, the health check is never limited,
  and nothing passes once the limiter is closed.\<close>

theorem service_enforces_its_rate:
  assumes "run io getenv = (err, Some fin)" and "Load (sr_env io) getenv = Inr cfg"
    and "monotone_from t0 (rl_events (sr_netip io) cfg (sr_events io @ sr_draining io))"
    and "rc_Limit cfg < 2 ^ 53" and "2 * rc_Period cfg \<le> max64" and "rc_Burst cfg * go_quot (rc_Period cfg) (rc_Limit cfg) \<le> max64"
  shows "(rc_Algorithm cfg = ''token_bucket'' \<and>
            (\<forall>k a b. a \<le> b \<longrightarrow> int (passed_in a b (of_client (sr_netip io) cfg k (re_served fin))) * go_quot (rc_Period cfg) (rc_Limit cfg)
               \<le> rc_Burst cfg * go_quot (rc_Period cfg) (rc_Limit cfg) + (b - a))
          \<or> rc_Algorithm cfg = ''sliding_window'' \<and>
            (\<forall>k W. admitted_in \<lparr>sw_limit = rc_Limit cfg, sw_period = rc_Period cfg\<rparr> W (of_client (sr_netip io) cfg k (re_served fin)) \<le> rc_Limit cfg))
    \<and> (\<forall>(r, t, p)\<in>set (re_served fin). ar_path r = ''/healthz'' \<and> ar_get r \<longrightarrow> p = Unlimited 200 StatusOk)
    \<and> (\<forall>(r, t, p)\<in>set (re_late fin). \<not> is_Passed p)"
proof -
  obtain lm where n: "newLimiter cfg = Inr lm" and sv: "serve io cfg lm = (err, fin)"
    using assms(1,2) by (auto simp: run_def split: if_splits sum.splits option.splits prod.splits)
  obtain es rest where es: "sr_events io @ sr_draining io = es @ rest" "re_served fin = fst (svc_run (sr_netip io) cfg (sr_conv io) es lm)"
    and late: "\<forall>(r, t, p)\<in>set (re_late fin). \<not> is_Passed p"
    by (rule serve_served[OF sv]) blast
  have mono: "monotone_from t0 (rl_events (sr_netip io) cfg es)"
    using assms(3) monotone_prefix unfolding es(1) rl_events_append by blast
  have h: "\<forall>(r, t, p)\<in>set (re_served fin). ar_path r = ''/healthz'' \<and> ar_get r \<longrightarrow> p = Unlimited 200 StatusOk"
    unfolding es(2) using health_unlimited by fast
  show ?thesis
  proof (cases rule: newLimiter_cases[OF n assms(4-6)])
    case (1 tb)
    then show ?thesis using bucket_client[OF 1(3) mono _ refl] h late unfolding es(2) by auto
  next
    case (2 sw)
    then show ?thesis using window_client[OF 2(3) mono refl] h late unfolding es(2) by auto
  qed
qed

definition demo_netip :: "string netip" where
  "demo_netip = \<lparr>ParseAddr = Some, ParseAddrPort = Some, Unmap = (\<lambda>x. x), addr_String = (\<lambda>x. x)\<rparr>"

definition demo_config :: "string rl_config" where
  "demo_config = \<lparr>rc_Addr = '':8080'', rc_Algorithm = ''token_bucket'', rc_Limit = 1, rc_Period = 10, rc_Burst = 2, rc_CleanupInterval = 1,
     rc_TrustedProxies = [\<lambda>a. a = ''lb''], rc_ShutdownTimeout = 1, rc_LogLevel = 0\<rparr>"

text \<open>Requests of one client through a proxy: two pass, one is denied, an eviction tick, one more passes during the
  shutdown; one comes too late.\<close>

definition demo_get :: api_request where
  "demo_get = \<lparr>ar_get = True, ar_path = ''/api/proverbs/5'', ar_remote = ''lb'', ar_forwarded = [''me''], ar_done = False\<rparr>"

definition demo_run :: "string run_io" where
  "demo_run = \<lparr>sr_args = [''ratelimiter''], sr_env = \<lparr>GetFieldParams = Inr [], ParseEnv = (\<lambda>_. Inr demo_config)\<rparr>, sr_netip = demo_netip,
     sr_conv = 0, sr_listen = None,
     sr_events = [Arrive demo_get 1, Arrive demo_get 2, Arrive demo_get 3, Arrive (demo_get\<lparr>ar_path := ''/healthz''\<rparr>) 4, Sweep 5],
     sr_serve = None, sr_draining = [Arrive demo_get 12], sr_shutdown = Some ''timeout'', sr_late = [Arrive demo_get 40]\<rparr>"

lemma demo_limiter:
  "newLimiter demo_config = Inr (Bucket \<lparr>burst = 2, interval = 10\<rparr> \<lparr>st_ttl = 20, st_entries = Map.empty, st_closed = False\<rparr>)"
  by (simp add: newLimiter_def demo_config_def NewTokenBucket_def newStore_def Ratelimit_Store.validate_def WithCleanupInterval_def go_quot_def wrap64_id in64_def min64_def max64_def)

lemma demo_served:
  "\<exists>fin. run demo_run (\<lambda>_. []) = (Some (ShutdownHTTP ''timeout''), Some fin)
    \<and> of_client demo_netip demo_config ''me'' (re_served fin) = [(1, True), (2, True), (3, False), (12, True)]"
proof -
  let ?es = "sr_events demo_run @ sr_draining demo_run"
  let ?tb = "\<lparr>burst = 2, interval = 10\<rparr>"
  let ?s = "\<lparr>st_ttl = burst ?tb * interval ?tb, st_entries = Map.empty, st_closed = False\<rparr>"
  have v: "tb_valid ?tb" by (simp add: tb_valid_def max64_def)
  have es: "rl_events demo_netip demo_config ?es = [Allow ''me'' 1, Allow ''me'' 2, Allow ''me'' 3, EvictTick 5, Allow ''me'' 12]" by code_simp
  have "of_client demo_netip demo_config ''me'' (fst (svc_run demo_netip demo_config 0 ?es (Bucket ?tb ?s)))
      = outcomes ''me'' (rl_events demo_netip demo_config ?es) (rl_run (newBucket ?tb) (tb_take ?tb) ?s (rl_events demo_netip demo_config ?es))"
    by (rule svc_run_outcomes(1)) (simp_all add: tb_Allow_def)
  also have "\<dots> = key_run (newBucket ?tb) (tb_take ?tb) None (times ''me'' (rl_events demo_netip demo_config ?es))"
    by (rule tb.client_outcomes[OF v _ rl_events_no_Close, of 0]) (simp add: es)
  also have "\<dots> = [(1, True), (2, True), (3, False), (12, True)]" unfolding es by code_simp
  finally have c: "of_client demo_netip demo_config ''me'' (fst (svc_run demo_netip demo_config 0 ?es
      (Bucket ?tb \<lparr>st_ttl = 20, st_entries = Map.empty, st_closed = False\<rparr>))) = [(1, True), (2, True), (3, False), (12, True)]" by simp
  have f: "sr_serve demo_run = None" "sr_listen demo_run = None" "\<not> Suc 0 < length (sr_args demo_run)" "sr_netip demo_run = demo_netip"
    "sr_conv demo_run = 0" "sr_shutdown demo_run = Some ''timeout''" "Load (sr_env demo_run) (\<lambda>_. []) = Inr demo_config"
    by (simp_all add: demo_run_def Load_def load_def)
  show ?thesis using c by (simp add: run_def serve_def f demo_limiter svc_run_append split_beta Let_def)
qed

theorem service_enforces_its_rate_witness:
  "\<exists>fin. run demo_run (\<lambda>_. []) = (Some (ShutdownHTTP ''timeout''), Some fin)
    \<and> of_client demo_netip demo_config ''me'' (re_served fin) = [(1, True), (2, True), (3, False), (12, True)]
    \<and> int (passed_in 2 12 (of_client demo_netip demo_config ''me'' (re_served fin))) * 10 \<le> 2 * 10 + 10"
proof -
  obtain fin where r: "run demo_run (\<lambda>_. []) = (Some (ShutdownHTTP ''timeout''), Some fin)"
    and p: "of_client demo_netip demo_config ''me'' (re_served fin) = [(1, True), (2, True), (3, False), (12, True)]"
    using demo_served by blast
  have c: "Load (sr_env demo_run) (\<lambda>_. []) = Inr demo_config" by (simp add: Load_def load_def demo_run_def)
  have m: "monotone_from 0 (rl_events (sr_netip demo_run) demo_config (sr_events demo_run @ sr_draining demo_run))" by code_simp
  have q: "go_quot (rc_Period demo_config) (rc_Limit demo_config) = 10" by (simp add: demo_config_def go_quot_def)
  have "(2 :: int) \<le> 12" by simp
  moreover have "rc_Limit demo_config < 2 ^ 53" "2 * rc_Period demo_config \<le> max64" "rc_Burst demo_config * go_quot (rc_Period demo_config) (rc_Limit demo_config) \<le> max64"
    unfolding q by (simp_all add: demo_config_def max64_def)
  note t = service_enforces_its_rate[OF r c m this, THEN conjunct1]
  have "rc_Algorithm demo_config \<noteq> ''sliding_window''" by (simp add: demo_config_def)
  then have "int (passed_in 2 12 (of_client (sr_netip demo_run) demo_config ''me'' (re_served fin))) * 10 \<le> rc_Burst demo_config * 10 + (12 - 2)"
    using t \<open>(2 :: int) \<le> 12\<close> unfolding q by blast
  then have "int (passed_in 2 12 (of_client demo_netip demo_config ''me'' (re_served fin))) * 10 \<le> 2 * 10 + 10"
    by (simp add: demo_run_def demo_config_def)
  then show ?thesis using r p by blast
qed

end
