(* ===== verification/Calendar.thy ===== *)
theory Calendar
  imports Go_Prelude "HOL-Library.Monad_Syntax"
begin

text \<open>
  What app 10 uses of the package \<^verbatim>\<open>time\<close>: the Gregorian calendar, the layouts \<^verbatim>\<open>time.DateOnly\<close> and
  \<^verbatim>\<open>Mon, 02 Jan 2006\<close>, and parsing of the first one. Days are counted from 1 January of year 1, the zero time.
  Formatting and parsing are inverse to each other on the years of four digits.
\<close>

section \<open>Years\<close>

definition leap :: "int \<Rightarrow> bool" where
  "leap y \<longleftrightarrow> y mod 4 = 0 \<and> (y mod 100 \<noteq> 0 \<or> y mod 400 = 0)"

definition yearStart :: "int \<Rightarrow> int" where
  "yearStart y = (let p = y - 1 in 365 * p + p div 4 - p div 100 + p div 400)"

text \<open>400 years have 146097 days; the quotient is off by at most one year.\<close>

definition yearOf :: "int \<Rightarrow> int" where
  "yearOf z =
     (let y = 400 * z div 146097 + 1
      in if z < yearStart y then y - 1 else if yearStart (y + 1) \<le> z then y + 1 else y)"

lemma div_pred: "0 < k \<Longrightarrow> y div k = (y - 1) div k + of_bool (y mod k = 0)" for y k :: int
proof -
  assume k: "0 < k"
  obtain q r where y: "y = k * q + r" "0 \<le> r" "r < k" and d: "y div k = q" "y mod k = r"
    using that[of "y div k" "y mod k"] k by simp
  show ?thesis
  proof (cases "r = 0")
    case True
    then have "y - 1 = k * (q - 1) + (k - 1)" using y(1) by (simp add: right_diff_distrib)
    then have "(y - 1) div k = q - 1" using k by (intro int_div_pos_eq[of _ _ _ "k - 1"]) simp_all
    then show ?thesis using True d by simp
  next
    case False
    then have "(y - 1) div k = q" using y by (intro int_div_pos_eq[of _ _ _ "r - 1"]) simp_all
    then show ?thesis using False d by simp
  qed
qed

lemma yearStart_next: "yearStart (y + 1) = yearStart y + (if leap y then 366 else 365)"
proof -
  have d: "y mod 400 = 0 \<Longrightarrow> y mod 100 = 0" "y mod 100 = 0 \<Longrightarrow> y mod 4 = 0"
    using mod_mod_cancel[of 100 400 y] mod_mod_cancel[of 4 100 y] by simp_all
  have days: "z + 365 + of_bool a - of_bool b + of_bool c = z + (if a \<and> (b \<longrightarrow> c) then 366 else 365)" if "c \<Longrightarrow> b" "b \<Longrightarrow> a" for a b c and z :: int
    using that by (cases a; cases b; cases c; simp)
  have sum: "365 * y + a - b + c = 365 * (y - 1) + a' - b' + c' + 365 + x - u + v"
    if "a = a' + x" "b = b' + u" "c = c' + v" for a a' b b' c c' x u v :: int using that by simp
  have "yearStart (y + 1) = 365 * y + y div 4 - y div 100 + y div 400" by (simp add: yearStart_def)
  also have "\<dots> = 365 * (y - 1) + (y - 1) div 4 - (y - 1) div 100 + (y - 1) div 400 + 365 + of_bool (y mod 4 = 0) - of_bool (y mod 100 = 0) + of_bool (y mod 400 = 0)"
    by (rule sum; rule div_pred) simp_all
  also have "\<dots> = yearStart y + 365 + of_bool (y mod 4 = 0) - of_bool (y mod 100 = 0) + of_bool (y mod 400 = 0)"
    unfolding yearStart_def Let_def ..
  also have "\<dots> = yearStart y + (if y mod 4 = 0 \<and> (y mod 100 = 0 \<longrightarrow> y mod 400 = 0) then 366 else 365)"
    by (rule days) (rule d, assumption)+
  also have "\<dots> = yearStart y + (if leap y then 366 else 365)" unfolding leap_def imp_conv_disj ..
  finally show ?thesis .
qed

lemma yearStart_mono: "y < y' \<Longrightarrow> yearStart (y + 1) \<le> yearStart y'"
proof (induction "nat (y' - y)" arbitrary: y')
  case (Suc n)
  show ?case
  proof (cases "y' = y + 1")
    case False
    then have "yearStart (y + 1) \<le> yearStart (y' - 1)" using Suc by (intro Suc.hyps(1)) simp_all
    then show ?thesis using yearStart_next[of "y' - 1"] by (auto split: if_splits)
  qed simp
qed simp

lemma yearStart_estimate: "146097 * (y - 1) - 699 \<le> 400 * yearStart y" "400 * yearStart y \<le> 146097 * (y - 1) + 396"
proof -
  have b: "k * (p div k) \<le> p \<and> p \<le> k * (p div k) + (k - 1)" if "0 < k" for k p :: int
    using that pos_mod_bound[of k p] pos_mod_sign[of k p] mult_div_mod_eq[of k p] by linarith
  define p a c e where "p = y - 1" and "a = p div 4" and "c = p div 100" and "e = p div 400"
  have "4 * a \<le> p" "p \<le> 4 * a + 3" "100 * c \<le> p" "p \<le> 100 * c + 99" "400 * e \<le> p" "p \<le> 400 * e + 399"
    using b[of 4 p] b[of 100 p] b[of 400 p] by (simp_all add: a_def c_def e_def)
  moreover have "yearStart y = 365 * p + a - c + e" by (simp add: yearStart_def Let_def p_def a_def c_def e_def)
  ultimately show "146097 * (y - 1) - 699 \<le> 400 * yearStart y" "400 * yearStart y \<le> 146097 * (y - 1) + 396"
    unfolding p_def by simp_all
qed

lemma yearOf_bounds: "yearStart (yearOf z) \<le> z" "z < yearStart (yearOf z + 1)"
proof -
  define y where "y = 400 * z div 146097 + 1"
  have q: "146097 * (y - 1) \<le> 400 * z" "400 * z < 146097 * y" by (simp_all add: y_def)
  have lo: "yearStart (y - 1) \<le> z" using yearStart_estimate(2)[of "y - 1"] q by simp
  have hi: "z < yearStart (y + 2)" using yearStart_estimate(1)[of "y + 2"] q by simp
  show "yearStart (yearOf z) \<le> z" "z < yearStart (yearOf z + 1)"
    using lo hi unfolding yearOf_def Let_def y_def[symmetric] by (auto simp: algebra_simps)
qed

lemma yearOf_eq:
  assumes "yearStart y \<le> z" and "z < yearStart (y + 1)"
  shows "yearOf z = y"
  using assms yearOf_bounds[of z] yearStart_mono[of y "yearOf z"] yearStart_mono[of "yearOf z" y] by (cases "yearOf z" y rule: linorder_cases) simp_all

section \<open>Dates\<close>

definition monthDays :: "int \<Rightarrow> int list" where
  "monthDays y = [31, if leap y then 29 else 28, 31, 30, 31, 30, 31, 31, 30, 31, 30, 31]"

fun splitMonth :: "int list \<Rightarrow> int \<Rightarrow> nat \<Rightarrow> nat \<times> int" where
  "splitMonth [] n m = (m, n + 1)"
| "splitMonth (l # ls) n m = (if n < l then (m, n + 1) else splitMonth ls (n - l) (Suc m))"

text \<open>\<open>Date\<close>: year, month from 1 and day of the month.\<close>

definition date_of :: "int \<Rightarrow> int \<times> nat \<times> int" where
  "date_of z = (let y = yearOf z in (y, splitMonth (monthDays y) (z - yearStart y) 1))"

definition days_of :: "int \<Rightarrow> nat \<Rightarrow> int \<Rightarrow> int" where
  "days_of y m d = yearStart y + sum_list (take (m - 1) (monthDays y)) + d - 1"

definition valid_date :: "int \<Rightarrow> nat \<Rightarrow> int \<Rightarrow> bool" where
  "valid_date y m d \<longleftrightarrow> 1 \<le> m \<and> m \<le> 12 \<and> 1 \<le> d \<and> d \<le> monthDays y ! (m - 1)"

lemma splitMonth_inverse:
  "k < length ls \<Longrightarrow> 1 \<le> d \<Longrightarrow> d \<le> ls ! k \<Longrightarrow> list_all (\<lambda>l. 0 \<le> l) ls \<Longrightarrow> splitMonth ls (sum_list (take k ls) + d - 1) m = (m + k, d)"
proof (induction ls arbitrary: k m)
  case (Cons l ls)
  show ?case
  proof (cases k)
    case (Suc j)
    have "0 \<le> sum_list (take j ls)" using Cons.prems(4) by (intro sum_list_nonneg) (auto simp: list_all_iff dest: in_set_takeD)
    moreover have "splitMonth ls (sum_list (take j ls) + d - 1) (Suc m) = (Suc m + j, d)" using Cons.prems Suc by (intro Cons.IH) simp_all
    ultimately show ?thesis using Cons.prems(2) by (simp add: Suc algebra_simps)
  qed (use Cons.prems in simp)
qed simp

lemma splitMonth_split:
  "0 \<le> n \<Longrightarrow> n < sum_list (ls :: int list) \<Longrightarrow> \<exists>k d. k < length ls \<and> 1 \<le> d \<and> d \<le> ls ! k \<and> n = sum_list (take k ls) + d - 1"
proof (induction ls arbitrary: n)
  case (Cons l ls)
  show ?case
  proof (cases "n < l")
    case True
    then show ?thesis using Cons.prems by (intro exI[of _ "0 :: nat"] exI[of _ "n + 1"]) simp
  next
    case False
    then obtain k d where "k < length ls" "1 \<le> d" "d \<le> ls ! k" "n - l = sum_list (take k ls) + d - 1"
      using Cons.IH[of "n - l"] Cons.prems by force
    then show ?thesis by (intro exI[of _ "Suc k"] exI[of _ d]) simp
  qed
qed simp

lemma monthDays_props [simp]: "length (monthDays y) = 12" "list_all (\<lambda>l. 0 \<le> l) (monthDays y)" "sum_list (monthDays y) = (if leap y then 366 else 365)"
  by (simp_all add: monthDays_def)

lemma monthDays_nonneg: "x \<in> set (monthDays y) \<Longrightarrow> 0 \<le> x"
  by (auto simp: monthDays_def)

lemma date_of_days_of:
  assumes "valid_date y m d" shows "date_of (days_of y m d) = (y, m, d)"
proof -
  let ?n = "sum_list (take (m - 1) (monthDays y)) + d - 1"
  have v: "1 \<le> m" "m - 1 < length (monthDays y)" "1 \<le> d" "d \<le> monthDays y ! (m - 1)" using assms by (auto simp: valid_date_def)
  have s: "splitMonth (monthDays y) ?n 1 = (m, d)" using splitMonth_inverse[OF v(2-4), of 1] v(1) by simp
  have "0 \<le> sum_list (take (m - 1) (monthDays y))" by (intro sum_list_nonneg) (auto dest: in_set_takeD monthDays_nonneg)
  moreover have "sum_list (take (m - 1) (monthDays y)) + monthDays y ! (m - 1) \<le> sum_list (monthDays y)"
  proof -
    have "monthDays y = take (m - 1) (monthDays y) @ monthDays y ! (m - 1) # drop m (monthDays y)"
      using id_take_nth_drop[OF v(2)] v(1) by simp
    then have "sum_list (monthDays y) = sum_list (take (m - 1) (monthDays y)) + monthDays y ! (m - 1) + sum_list (drop m (monthDays y))"
      by (metis (no_types, opaque_lifting) sum_list.Cons sum_list.append add.assoc)
    moreover have "0 \<le> sum_list (drop m (monthDays y))" by (intro sum_list_nonneg) (auto dest: in_set_dropD monthDays_nonneg)
    ultimately show ?thesis by simp
  qed
  ultimately have "yearOf (days_of y m d) = y"
    using v by (intro yearOf_eq) (simp_all add: days_of_def yearStart_next split: if_splits)
  then show ?thesis using s by (simp add: date_of_def days_of_def algebra_simps)
qed

lemma days_of_date_of:
  obtains y m d where "date_of z = (y, m, d)" and "valid_date y m d" and "days_of y m d = z"
proof -
  let ?y = "yearOf z"
  have "0 \<le> z - yearStart ?y" "z - yearStart ?y < sum_list (monthDays ?y)"
    using yearOf_bounds[of z] by (simp_all add: yearStart_next split: if_splits)
  then obtain k d where k: "k < length (monthDays ?y)" "1 \<le> d" "d \<le> monthDays ?y ! k" "z - yearStart ?y = sum_list (take k (monthDays ?y)) + d - 1"
    using splitMonth_split by blast
  have "date_of z = (?y, Suc k, d)" using splitMonth_inverse[OF k(1-3) monthDays_props(2), of 1] by (simp add: date_of_def k(4))
  moreover have "valid_date ?y (Suc k) d" using k by (simp add: valid_date_def)
  moreover have "days_of ?y (Suc k) d = z" using k(4) by (simp add: days_of_def)
  ultimately show thesis by (rule that)
qed

section \<open>Layouts\<close>

text \<open>Decimal digits, padded with zeros on the left to a width.\<close>

definition pad :: "nat \<Rightarrow> int \<Rightarrow> string" where
  "pad w x =
     (let ds = digits (nat \<bar>x\<bar>)
      in (if x < 0 then ''-'' else []) @ replicate (w - length ds) CHR ''0'' @ ds)"

text \<open>\<open>Format(time.DateOnly)\<close>.\<close>

definition formatDateOnly :: "int \<Rightarrow> string" where
  "formatDateOnly z = (case date_of z of (y, m, d) \<Rightarrow> pad 4 y @ ''-'' @ pad 2 (int m) @ ''-'' @ pad 2 d)"

definition weekdays :: "string list" where
  "weekdays = [''Mon'', ''Tue'', ''Wed'', ''Thu'', ''Fri'', ''Sat'', ''Sun'']"

definition months :: "string list" where
  "months = [''Jan'', ''Feb'', ''Mar'', ''Apr'', ''May'', ''Jun'', ''Jul'', ''Aug'', ''Sep'', ''Oct'', ''Nov'', ''Dec'']"

text \<open>\<open>Format("Mon, 02 Jan 2006")\<close>; the zero time is a Monday.\<close>

definition formatLong :: "int \<Rightarrow> string" where
  "formatLong z =
     (case date_of z of (y, m, d) \<Rightarrow>
        weekdays ! nat (z mod 7) @ '', '' @ pad 2 d @ '' '' @ months ! (m - 1) @ '' '' @ pad 4 y)"

section \<open>Parsing\<close>

definition skip :: "char \<Rightarrow> string \<Rightarrow> string option" where
  "skip c s = (case s of x # r \<Rightarrow> if x = c then Some r else None | [] \<Rightarrow> None)"

definition getDigits :: "nat \<Rightarrow> string \<Rightarrow> (nat \<times> string) option" where
  "getDigits n s =
     (if length s < n \<or> \<not> list_all is_digit (take n s) then None else Some (digits_value (take n s), drop n s))"

text \<open>\<open>Parse(time.DateOnly, s)\<close>: fixed widths, then the ranges of month and day.\<close>

definition parseDateOnly :: "string \<Rightarrow> int option" where
  "parseDateOnly s =
     do {
       (y, s) \<leftarrow> getDigits 4 s;
       s \<leftarrow> skip CHR ''-'' s;
       (m, s) \<leftarrow> getDigits 2 s;
       _ \<leftarrow> (if m = 0 \<or> 12 < m then None else Some ());
       s \<leftarrow> skip CHR ''-'' s;
       (d, s) \<leftarrow> getDigits 2 s;
       (if s \<noteq> [] then None
        else if d < 1 \<or> monthDays (int y) ! (m - 1) < int d then None
        else Some (days_of (int y) m (int d)))
     }"

section \<open>Formatting and parsing are inverse\<close>

lemma digits_value_zeros: "digits_value (replicate n CHR ''0'' @ ds) = digits_value ds"
  by (induction n) (simp_all add: digits_value_def)

lemma digits_value_snoc: "digits_value (ds @ [c]) = 10 * digits_value ds + (of_char c - 48)"
  by (simp add: digits_value_def)

lemma length_digits: "n < 10 ^ k \<Longrightarrow> 0 < k \<Longrightarrow> length (digits n) \<le> k"
proof (induction k arbitrary: n)
  case (Suc k)
  show ?case
  proof (cases "n < 10")
    case False
    then have "0 < k" using Suc.prems by (cases k) simp_all
    moreover have "n div 10 < 10 ^ k" using Suc.prems by (simp add: less_mult_imp_div_less mult.commute)
    ultimately have "length (digits (n div 10)) \<le> k" by (intro Suc.IH)
    then show ?thesis using False by (simp add: digits.simps[of n])
  qed (simp add: digits.simps[of n])
qed simp

lemma char_of_digit: "is_digit c \<Longrightarrow> char_of (of_char c - 48 + 48 :: nat) = c"
  by (simp add: is_digit_def)

lemma digits_of_value: "ds \<noteq> [] \<Longrightarrow> list_all is_digit ds \<Longrightarrow> replicate (length ds - length (digits (digits_value ds))) CHR ''0'' @ digits (digits_value ds) = ds"
proof (induction ds rule: rev_induct)
  case (snoc c ds)
  define k v where "k = (of_char c - 48 :: nat)" and "v = digits_value ds"
  have c: "is_digit c" using snoc.prems(2) by simp
  then have k: "k < 10" "char_of (k + 48) = c" using char_of_digit[of c] unfolding is_digit_def k_def by linarith+
  have e: "digits_value (ds @ [c]) = 10 * v + k" by (simp add: digits_value_snoc k_def v_def)
  show ?case
  proof (cases "ds = []")
    case True
    then show ?thesis using k by (simp add: digits_value_def k_def[symmetric] digits.simps[of k])
  next
    case False
    then have ih: "replicate (length ds - length (digits v)) CHR ''0'' @ digits v = ds" using snoc by (simp add: v_def)
    show ?thesis
    proof (cases "v = 0")
      case True
      have z: "digits 0 = ''0''" by (subst digits.simps) code_simp
      have "ds = replicate (length ds - 1) CHR ''0'' @ ''0''" using ih z True by simp
      also have "\<dots> = replicate (length ds) CHR ''0''" using False by (metis One_nat_def Suc_pred length_greater_0_conv replicate_Suc replicate_append_same)
      finally have "ds = replicate (length ds) CHR ''0''" .
      then show ?thesis using k True by (simp add: e digits.simps[of k])
    next
      case n: False
      have "digits (10 * v + k) = digits v @ [c]" using n k by (simp add: digits.simps[of "10 * v + k"])
      then show ?thesis using ih by (simp add: e)
    qed
  qed
qed simp

lemma pad_of_value: "ds \<noteq> [] \<Longrightarrow> list_all is_digit ds \<Longrightarrow> pad (length ds) (int (digits_value ds)) = ds"
  using digits_of_value[of ds] by (simp add: pad_def Let_def)

lemma getDigits_pad: "0 < k \<Longrightarrow> n < 10 ^ k \<Longrightarrow> getDigits k (pad k (int n) @ s) = Some (n, s)"
proof -
  assume k: "0 < k" "n < 10 ^ k"
  have l: "length (pad k (int n)) = k" using length_digits[OF k(2,1)] by (simp add: pad_def Let_def)
  moreover have "list_all is_digit (pad k (int n))" using digits_props(1)[of n] by (auto simp: pad_def Let_def list_all_iff is_digit_def)
  moreover have "digits_value (pad k (int n)) = n" by (simp add: pad_def Let_def digits_value_zeros digits_props(2))
  ultimately show ?thesis by (simp add: getDigits_def)
qed

lemma getDigits_Some: "getDigits k s = Some (n, r) \<Longrightarrow> 0 < k \<Longrightarrow> s = pad k (int n) @ r"
proof -
  assume g: "getDigits k s = Some (n, r)" and k: "0 < k"
  have l: "length (take k s) = k" "take k s \<noteq> []" "list_all is_digit (take k s)" "n = digits_value (take k s)" "r = drop k s"
    using g k by (auto simp: getDigits_def split: if_splits)
  then show ?thesis using pad_of_value[of "take k s"] by simp
qed

lemma skip_simps [simp]: "skip c (c # s) = Some s"
  by (simp add: skip_def)

lemma skip_Some: "skip c s = Some r \<Longrightarrow> s = c # r"
  by (auto simp: skip_def split: list.splits if_splits)

definition four_digit_year :: "int \<Rightarrow> bool" where
  "four_digit_year z \<longleftrightarrow> 0 \<le> yearOf z \<and> yearOf z < 10000"

lemma monthDays_less: "m - 1 < 12 \<Longrightarrow> monthDays y ! (m - 1) < 100"
proof -
  assume "m - 1 < 12"
  then have "monthDays y ! (m - 1) \<in> set (monthDays y)" by (intro nth_mem) simp
  then show ?thesis by (auto simp: monthDays_def split: if_splits)
qed

lemma parse_format_date: "four_digit_year z \<Longrightarrow> parseDateOnly (formatDateOnly z) = Some z"
proof -
  assume f: "four_digit_year z"
  obtain y m d where z: "date_of z = (y, m, d)" "valid_date y m d" "days_of y m d = z" by (rule days_of_date_of)
  have y: "0 \<le> y" "nat y < 10 ^ 4" using f z(1) by (auto simp: four_digit_year_def date_of_def Let_def)
  have d: "0 \<le> d" "nat d < 10 ^ 2" "m < 10 ^ 2" "1 \<le> m" "m \<le> 12" "1 \<le> d" "d \<le> monthDays y ! (m - 1)"
    using z(2) monthDays_less[of m y] unfolding valid_date_def by (simp_all, linarith)
  have g: "getDigits 4 (pad 4 y @ s) = Some (nat y, s)" "getDigits 2 (pad 2 (int m) @ s) = Some (m, s)" "getDigits 2 (pad 2 d @ s) = Some (nat d, s)" for s
    using getDigits_pad[of 4 "nat y" s] getDigits_pad[of 2 m s] getDigits_pad[of 2 "nat d" s] y d by simp_all
  have "formatDateOnly z = pad 4 y @ CHR ''-'' # pad 2 (int m) @ CHR ''-'' # pad 2 d @ []" by (simp add: formatDateOnly_def z(1))
  moreover have "parseDateOnly (pad 4 y @ CHR ''-'' # pad 2 (int m) @ CHR ''-'' # pad 2 d @ []) = Some z"
    unfolding parseDateOnly_def g bind.bind_lunit prod.case skip_simps using y(1) d z(3) by simp
  ultimately show ?thesis by simp
qed

lemma format_parse_date:
  assumes "parseDateOnly s = Some z"
  shows "four_digit_year z" and "formatDateOnly z = s"
proof -
  obtain y m d s1 s2 s3 s4 where p: "getDigits 4 s = Some (y, s1)" "skip CHR ''-'' s1 = Some s2" "getDigits 2 s2 = Some (m, s3)"
    "m \<noteq> 0" "m \<le> 12" "skip CHR ''-'' s3 = Some s4" "getDigits 2 s4 = Some (d, [])"
    "1 \<le> d" "int d \<le> monthDays (int y) ! (m - 1)" and z: "z = days_of (int y) m (int d)"
    using assms by (auto simp: parseDateOnly_def bind_eq_Some_conv split: if_splits)
  have v: "valid_date (int y) m (int d)" using p by (simp add: valid_date_def)
  note dd = date_of_days_of[OF v]
  show "formatDateOnly z = s"
    using getDigits_Some[OF p(1)] skip_Some[OF p(2)] getDigits_Some[OF p(3)] skip_Some[OF p(6)] getDigits_Some[OF p(7)]
    by (simp add: formatDateOnly_def z dd)
  have "y < 10 ^ 4"
  proof -
    have "digits_value ds < 10 ^ length ds" if "list_all is_digit ds" for ds
      using that by (induction ds rule: rev_induct) (auto simp: digits_value_snoc is_digit_def digits_value_def[of "[]"])
    then show ?thesis using p(1) by (force simp: getDigits_def split: if_splits)
  qed
  then show "four_digit_year z" using dd by (simp add: four_digit_year_def z date_of_def Let_def)
qed

end
