(* ===== verification/Json.thy ===== *)
theory Json
  imports Text_Scan "HOL-Library.Monad_Syntax"
begin

text \<open>
  What apps 01 and 10 use of \<^verbatim>\<open>encoding/json\<close>: strings with their escapes, values, indented printing, and the decoder's
  scanner and parser. Printing and then parsing gives the value back, for texts in valid UTF-8; every text the
  decoder yields is valid UTF-8.
\<close>

section \<open>UTF-8\<close>

definition EncodeRune :: "nat \<Rightarrow> string" where
  "EncodeRune r =
     (if r < 128 then [char_of r]
      else if r < 2048 then [char_of (192 + r div 64), char_of (128 + r mod 64)]
      else if 1114111 < r \<or> (55296 \<le> r \<and> r \<le> 57343) then [char_of (239 :: nat), char_of (191 :: nat), char_of (189 :: nat)]
      else if r < 65536 then [char_of (224 + r div 4096), char_of (128 + r div 64 mod 64), char_of (128 + r mod 64)]
      else [char_of (240 + r div 262144), char_of (128 + r div 4096 mod 64), char_of (128 + r div 64 mod 64), char_of (128 + r mod 64)])"

text \<open>\<open>utf8.ValidString\<close>.\<close>

function ValidString :: "string \<Rightarrow> bool" where
  "ValidString s =
     (if s = [] then True
      else if DecodeRune s = (RuneError, 1) then False
      else ValidString (drop (snd (DecodeRune s)) s))"
  by pat_completeness auto
termination
  by (relation "measure length") (simp_all add: DecodeRune_size diff_less)

declare ValidString.simps [simp del]

text \<open>The encoding of one rune.\<close>

definition one_rune :: "string \<Rightarrow> nat \<Rightarrow> bool" where
  "one_rune p r \<longleftrightarrow> p \<noteq> [] \<and> DecodeRune p = (r, length p) \<and> \<not> (r = RuneError \<and> length p = 1)"

lemma one_rune_append: "one_rune p r \<Longrightarrow> DecodeRune (p @ s) = (r, length p)"
proof -
  assume p: "one_rune p r"
  then have ne: "p \<noteq> []" by (simp add: one_rune_def)
  obtain n lo hi where f: "utf8First (byte (hd p)) = (n, lo, hi)" "n = 1 \<or> n = 2 \<or> n = 3 \<or> n = 4" using utf8_header[OF ne] .
  have "n \<le> length p" using p f(2) unfolding one_rune_def DecodeRune_hd[OF ne f(1)] by (auto split: if_splits)
  then have "FullRune p" using FullRune_hd[OF ne f(1)] by simp
  then show ?thesis using DecodeRune_append[of p s] p by (simp add: one_rune_def)
qed

lemma ValidString_Nil [simp]: "ValidString []"
  by (simp add: ValidString.simps[of "[]"])

lemma ValidString_rune: "one_rune p r \<Longrightarrow> ValidString (p @ s) = ValidString s"
proof -
  assume p: "one_rune p r"
  then have ne: "p \<noteq> []" by (simp add: one_rune_def)
  have e: "\<not> (r = RuneError \<and> length p = 1)" using p by (simp add: one_rune_def)
  show ?thesis using ne e by (subst ValidString.simps) (auto simp: one_rune_append[OF p])
qed

lemma DecodeRune_take:
  assumes "s \<noteq> []" and "DecodeRune s = (r, n)"
  shows "DecodeRune (take n s) = (r, n)"
proof -
  note ne = assms(1)
  obtain k lo hi where f: "utf8First (byte (hd s)) = (k, lo, hi)" "k = 1 \<or> k = 2 \<or> k = 3 \<or> k = 4" using utf8_header[OF ne] .
  have n: "0 < n" "n \<le> length s" using DecodeRune_size[OF ne] assms(2) by simp_all
  then have ne': "take n s \<noteq> []" and h: "hd (take n s) = hd s" using ne by (cases s; cases n; simp)+
  note dec = DecodeRune_hd[OF ne f(1)] DecodeRune_hd[OF ne' f(1)[folded h], unfolded h]
  have nth: "i < n \<Longrightarrow> take n s ! i = s ! i" for i using n by simp
  from f(2) show ?thesis
    using assms(2) n nth[of 1] nth[of 2] nth[of 3] unfolding dec by (elim disjE) (auto split: if_splits)
qed

lemma ValidString_cases:
  assumes "ValidString s" and "s \<noteq> []"
  obtains p r t where "s = p @ t" and "one_rune p r" and "ValidString t"
proof -
  obtain r n where d: "DecodeRune s = (r, n)" by force
  have n: "n \<le> length s" "0 < n" using DecodeRune_size[OF assms(2)] d by simp_all
  have v: "\<not> (r = RuneError \<and> n = 1)" "ValidString (drop n s)" using assms d by (simp_all add: ValidString.simps[of s] split: if_splits)
  have "one_rune (take n s) r" using DecodeRune_take[OF assms(2) d] assms(2) n v by (simp add: one_rune_def)
  then show thesis using that[of "take n s" "drop n s"] v by simp
qed

lemma ValidString_induct [consumes 1, case_names Nil Rune]:
  assumes "ValidString s" and "P []" and "\<And>p r t. one_rune p r \<Longrightarrow> ValidString t \<Longrightarrow> P t \<Longrightarrow> P (p @ t)"
  shows "P s"
  using assms(1)
proof (induction "length s" arbitrary: s rule: less_induct)
  case less
  show ?case
  proof (cases "s = []")
    case False
    obtain p r t where s: "s = p @ t" "one_rune p r" "ValidString t" using ValidString_cases[OF less.prems False] .
    then have "length t < length s" by (simp add: one_rune_def)
    then show ?thesis using less.hyps s assms(3) by blast
  qed (use assms(2) in simp)
qed

text \<open>Encoding is inverse to decoding.\<close>

lemma byte_char_of [simp]: "n < 256 \<Longrightarrow> byte (char_of n) = n"
  by simp

lemma one_rune_ascii: "byte c < 128 \<Longrightarrow> one_rune [c] (byte c)"
  by (simp add: one_rune_def DecodeRune_def utf8First_def)

lemma one_rune_first: "one_rune (c # p) r \<Longrightarrow> byte c < 128 \<longleftrightarrow> p = [] \<and> r = byte c"
proof -
  assume o: "one_rune (c # p) r"
  obtain n lo hi where f: "utf8First (byte c) = (n, lo, hi)" by (metis prod_cases3)
  show ?thesis
  proof (cases "byte c < 128")
    case True
    then show ?thesis using o by (simp add: one_rune_def DecodeRune_def utf8First_def)
  next
    case False
    then show ?thesis using o by (auto simp: one_rune_def DecodeRune_def utf8First_def split: if_splits)
  qed
qed

lemma prefix_bits:
  "x < 32 \<Longrightarrow> (192 + x) mod 32 = x" "x < 16 \<Longrightarrow> (224 + x) mod 16 = x" "x < 8 \<Longrightarrow> (240 + x) mod 8 = x" "x < 64 \<Longrightarrow> (128 + x) mod 64 = x" for x :: nat
  using mod_mult_self3[of 6 32 x] mod_mult_self3[of 14 16 x] mod_mult_self3[of 30 8 x] mod_mult_self3[of 2 64 x] by simp_all

lemma digit64: "z < 64 \<Longrightarrow> (q * 64 + z) div 64 = q" "z < 64 \<Longrightarrow> (q * 64 + z) mod 64 = z" for q z :: nat
  by simp_all

lemma radix64_3:
  fixes x y z r :: nat
  assumes "y < 64" "z < 64" and r: "r = x * 4096 + y * 64 + z"
  shows "r div 4096 = x" "r div 64 mod 64 = y" "r mod 64 = z"
proof -
  have e: "r = (x * 64 + y) * 64 + z" by (simp add: r)
  have "r div 64 = x * 64 + y" unfolding e by (rule digit64(1)[OF assms(2)])
  then show "r div 4096 = x" "r div 64 mod 64 = y" using digit64[OF assms(1), of x] div_mult2_eq[of r 64 64] by simp_all
  show "r mod 64 = z" unfolding e by (rule digit64(2)[OF assms(2)])
qed

lemma radix64_4:
  fixes x y z u r :: nat
  assumes "y < 64" "z < 64" "u < 64" and r: "r = x * 262144 + y * 4096 + z * 64 + u"
  shows "r div 262144 = x" "r div 4096 mod 64 = y" "r div 64 mod 64 = z" "r mod 64 = u"
proof -
  have "r = (x * 64 + y) * 4096 + z * 64 + u" by (simp add: r)
  note d = radix64_3[OF assms(2,3) this]
  show "r div 64 mod 64 = z" "r mod 64 = u" "r div 4096 mod 64 = y" "r div 262144 = x"
    using d digit64[OF assms(1), of x] div_mult2_eq[of r 4096 64] by simp_all
qed

lemma in_radix64:
  "r = r div 4096 * 4096 + r div 64 mod 64 * 64 + r mod 64"
  "r = r div 262144 * 262144 + r div 4096 mod 64 * 4096 + r div 64 mod 64 * 64 + r mod 64" for r :: nat
proof -
  define a b c where "a = r div 64" and "b = r div 64 div 64" and "c = r div 64 div 64 div 64"
  have e: "r div 4096 = b" "r div 262144 = c" using div_mult2_eq[of r 64 64] div_mult2_eq[of r 4096 64] by (simp_all add: b_def c_def)
  have "r = a * 64 + r mod 64" "a = b * 64 + a mod 64" "b = c * 64 + b mod 64" by (simp_all add: a_def b_def c_def)
  then show "r = r div 4096 * 4096 + r div 64 mod 64 * 64 + r mod 64"
    "r = r div 262144 * 262144 + r div 4096 mod 64 * 4096 + r div 64 mod 64 * 64 + r mod 64"
    unfolding e a_def[symmetric] by linarith+
qed

lemma char_of_byte: "byte c = n \<Longrightarrow> char_of n = c"
  by auto

lemma EncodeRune_one:
  assumes "one_rune p r" shows "EncodeRune r = p"
proof -
  have ne: "p \<noteq> []" and d: "DecodeRune p = (r, length p)" and e: "\<not> (r = RuneError \<and> length p = 1)" using assms by (simp_all add: one_rune_def)
  obtain n lo hi where f: "utf8First (byte (hd p)) = (n, lo, hi)" "n = 1 \<or> n = 2 \<or> n = 3 \<or> n = 4" using utf8_header[OF ne] .
  note dec = d[unfolded DecodeRune_hd[OF ne f(1)]]
  from f(2) show ?thesis
  proof (elim disjE)
    assume "n = 1"
    then have "length p = 1" "r = byte (hd p)" "byte (hd p) < 128" using dec e by (auto split: if_splits)
    then show ?thesis by (cases p) (simp_all add: EncodeRune_def)
  next
    assume n: "n = 2"
    then have l: "length p = 2" "r = byte (hd p) mod 32 * 64 + byte (p ! 1) mod 64" "\<not> outside (p ! 1) lo hi" using dec e by (auto split: if_splits)
    obtain a b where p: "p = [a, b]" using l(1) by (auto simp: length_Suc_conv eval_nat_numeral)
    define x y where "x = byte a - 192" and "y = byte b - 128"
    have b: "byte a = 192 + x" "byte b = 128 + y" "2 \<le> x" "x < 32" "y < 64"
      using f(1) n l(3) by (auto simp: p utf8First_def x_def y_def split: if_splits)
    then have r: "r = x * 64 + y" using l(2) by (simp add: p prefix_bits)
    have "128 \<le> r" "r < 2048" "r div 64 = x" "r mod 64 = y" using b r by simp_all
    then show ?thesis using b(1,2)[THEN char_of_byte] by (simp add: EncodeRune_def p)
  next
    assume n: "n = 3"
    then have l: "length p = 3" "r = byte (hd p) mod 16 * 4096 + byte (p ! 1) mod 64 * 64 + byte (p ! 2) mod 64"
      "\<not> outside (p ! 1) lo hi" "\<not> outside (p ! 2) 128 191" using dec e by (auto split: if_splits)
    obtain a b c where p: "p = [a, b, c]" using l(1) by (auto simp: length_Suc_conv eval_nat_numeral)
    define x y z where "x = byte a - 224" and "y = byte b - 128" and "z = byte c - 128"
    have b: "byte a = 224 + x" "byte b = 128 + y" "byte c = 128 + z" "x < 16" "y < 64" "z < 64" "x = 0 \<Longrightarrow> 32 \<le> y" "x = 13 \<Longrightarrow> y < 32"
      using f(1) n l(3,4) by (auto simp: p utf8First_def x_def y_def z_def split: if_splits)
    then have r: "r = x * 4096 + y * 64 + z" using l(2) by (simp add: p prefix_bits)
    have g: "2048 \<le> r" "r < 65536" using b(4-7) r by (cases "x = 0"; linarith)+
    moreover have "\<not> (55296 \<le> r \<and> r \<le> 57343)" using b(4-8) r by (cases "x < 13"; cases "x = 13"; linarith)
    note g = g this
    show ?thesis using g b(1-3)[THEN char_of_byte] by (auto simp: EncodeRune_def p radix64_3[OF b(5,6) r])
  next
    assume n: "n = 4"
    then have l: "length p = 4" "r = byte (hd p) mod 8 * 262144 + byte (p ! 1) mod 64 * 4096 + byte (p ! 2) mod 64 * 64 + byte (p ! 3) mod 64"
      "\<not> outside (p ! 1) lo hi" "\<not> outside (p ! 2) 128 191" "\<not> outside (p ! 3) 128 191" using dec e by (auto split: if_splits)
    obtain a b c g where p: "p = [a, b, c, g]" using l(1) by (auto simp: length_Suc_conv eval_nat_numeral)
    define x y z u where "x = byte a - 240" and "y = byte b - 128" and "z = byte c - 128" and "u = byte g - 128"
    have b: "byte a = 240 + x" "byte b = 128 + y" "byte c = 128 + z" "byte g = 128 + u" "x < 5" "y < 64" "z < 64" "u < 64" "x = 0 \<Longrightarrow> 16 \<le> y" "x = 4 \<Longrightarrow> y < 16"
      using f(1) n l(3-5) by (auto simp: p utf8First_def x_def y_def z_def u_def split: if_splits)
    then have r: "r = x * 262144 + y * 4096 + z * 64 + u" using l(2) by (simp add: p prefix_bits)
    have h: "65536 \<le> r" "r \<le> 1114111"
      using b(5-10) r by (cases "x = 0"; cases "x = 4"; linarith)+
    show ?thesis using h b(1-4)[THEN char_of_byte] by (simp add: EncodeRune_def p radix64_4[OF b(6-8) r])
  qed
qed

lemma one_rune_EncodeRune: "one_rune (EncodeRune r) (if 1114111 < r \<or> (55296 \<le> r \<and> r \<le> 57343) then RuneError else r)"
proof -
  consider "r < 128" | "128 \<le> r" "r < 2048" | "2048 \<le> r" "r < 65536" "\<not> (55296 \<le> r \<and> r \<le> 57343)" | "65536 \<le> r" "r \<le> 1114111"
    | "1114111 < r \<or> (55296 \<le> r \<and> r \<le> 57343)" by linarith
  then show ?thesis
  proof cases
    case 1
    then show ?thesis using one_rune_ascii[of "char_of r"] by (simp add: EncodeRune_def)
  next
    case 2
    define x y where "x = r div 64" and "y = r mod 64"
    have d: "2 \<le> x" "x < 32" "y < 64" "r = x * 64 + y" using 2 by (simp_all add: x_def y_def)
    have e: "EncodeRune r = [char_of (192 + x), char_of (128 + y)]" using 2 by (simp add: EncodeRune_def x_def y_def)
    show ?thesis unfolding e using d 2 by (simp add: one_rune_def DecodeRune_def utf8First_def prefix_bits)
  next
    case 3
    define x y z where "x = r div 4096" and "y = r div 64 mod 64" and "z = r mod 64"
    have d: "x < 16" "y < 64" "z < 64" "r = x * 4096 + y * 64 + z" using 3 in_radix64(1)[of r] by (simp_all add: x_def y_def z_def)
    have b: "x = 0 \<Longrightarrow> 32 \<le> y" "x = 13 \<Longrightarrow> y < 32" using d 3 by auto
    have e: "EncodeRune r = [char_of (224 + x), char_of (128 + y), char_of (128 + z)]" using 3 by (auto simp: EncodeRune_def x_def y_def z_def)
    show ?thesis unfolding e using d b 3 by (auto simp: one_rune_def DecodeRune_def utf8First_def prefix_bits)
  next
    case 4
    define x y z u where "x = r div 262144" and "y = r div 4096 mod 64" and "z = r div 64 mod 64" and "u = r mod 64"
    have d: "x < 5" "y < 64" "z < 64" "u < 64" "r = x * 262144 + y * 4096 + z * 64 + u" using 4 in_radix64(2)[of r] by (simp_all add: x_def y_def z_def u_def)
    have b: "x = 0 \<Longrightarrow> 16 \<le> y" "x = 4 \<Longrightarrow> y < 16" using d 4 by auto
    have e: "EncodeRune r = [char_of (240 + x), char_of (128 + y), char_of (128 + z), char_of (128 + u)]" using 4 by (simp add: EncodeRune_def x_def y_def z_def u_def)
    show ?thesis unfolding e using d b 4 by (simp add: one_rune_def DecodeRune_def utf8First_def prefix_bits)
  next
    case 5
    then show ?thesis by (auto simp: EncodeRune_def one_rune_def DecodeRune_def utf8First_def)
  qed
qed

section \<open>Strings\<close>

definition hexdigit :: "nat \<Rightarrow> char" where
  "hexdigit n = (if n < 10 then char_of (48 + n) else char_of (87 + n))"

definition hexval :: "char \<Rightarrow> nat option" where
  "hexval c =
     (let b = byte c
      in if 48 \<le> b \<and> b \<le> 57 then Some (b - 48)
         else if 97 \<le> b \<and> b \<le> 102 then Some (b - 87)
         else if 65 \<le> b \<and> b \<le> 70 then Some (b - 55)
         else None)"

text \<open>One byte below 128 as \<^verbatim>\<open>json.Marshal\<close> writes it, HTML characters escaped.\<close>

definition escapeByte :: "char \<Rightarrow> string" where
  "escapeByte c =
     (let b = byte c
      in if b = 34 \<or> b = 92 then [CHR 0x5C, c]
         else if b = 8 then [CHR 0x5C, CHR ''b'']
         else if b = 12 then [CHR 0x5C, CHR ''f'']
         else if b = 10 then [CHR 0x5C, CHR ''n'']
         else if b = 13 then [CHR 0x5C, CHR ''r'']
         else if b = 9 then [CHR 0x5C, CHR ''t'']
         else if b < 32 \<or> b = 60 \<or> b = 62 \<or> b = 38 then [CHR 0x5C, CHR ''u'', CHR ''0'', CHR ''0'', hexdigit (b div 16), hexdigit (b mod 16)]
         else [c])"

text \<open>A rune beyond ASCII: invalid bytes and the two line separators are escaped.\<close>

definition escapeRune :: "nat \<Rightarrow> string \<Rightarrow> string" where
  "escapeRune r p =
     (if r = RuneError \<and> length p = 1 then [CHR 0x5C, CHR ''u'', CHR ''f'', CHR ''f'', CHR ''f'', CHR ''d'']
      else if r = 8232 \<or> r = 8233 then [CHR 0x5C, CHR ''u'', CHR ''2'', CHR ''0'', CHR ''2'', hexdigit (r mod 16)]
      else p)"

function quoteBody :: "string \<Rightarrow> string" where
  "quoteBody s =
     (if s = [] then []
      else if byte (hd s) < 128 then escapeByte (hd s) @ quoteBody (tl s)
      else escapeRune (fst (DecodeRune s)) (take (snd (DecodeRune s)) s) @ quoteBody (drop (snd (DecodeRune s)) s))"
  by pat_completeness auto
termination
  by (relation "measure length") (simp_all add: DecodeRune_size diff_less)

declare quoteBody.simps [simp del]

definition quote :: "string \<Rightarrow> string" where
  "quote s = CHR 0x22 # quoteBody s @ [CHR 0x22]"

text \<open>Reading a string, after its opening quote.\<close>

definition unescape :: "char \<Rightarrow> char option" where
  "unescape c =
     (let b = byte c
      in if b = 34 \<or> b = 92 \<or> b = 47 then Some c
         else if b = 98 then Some (char_of (8 :: nat))
         else if b = 102 then Some (char_of (12 :: nat))
         else if b = 110 then Some (char_of (10 :: nat))
         else if b = 114 then Some (char_of (13 :: nat))
         else if b = 116 then Some (char_of (9 :: nat))
         else None)"

definition getu4 :: "string \<Rightarrow> nat option" where
  "getu4 s =
     (case s of
        a # b # c # d # _ \<Rightarrow>
          (case (hexval a, hexval b, hexval c, hexval d) of
             (Some w, Some x, Some y, Some z) \<Rightarrow> Some (w * 4096 + x * 256 + y * 16 + z)
           | _ \<Rightarrow> None)
      | _ \<Rightarrow> None)"

text \<open>The second half of a surrogate pair.\<close>

definition surrogates :: "nat \<Rightarrow> string \<Rightarrow> nat option" where
  "surrogates u s =
     (case s of
        a # b # t \<Rightarrow>
          if byte a = 92 \<and> byte b = 117 then
            (case getu4 t of
               Some v \<Rightarrow> if u < 56320 \<and> 56320 \<le> v \<and> v < 57344 then Some ((u - 55296) * 1024 + (v - 56320) + 65536) else None
             | None \<Rightarrow> None)
          else None
      | _ \<Rightarrow> None)"

definition prepend :: "string \<Rightarrow> (string \<times> string) option \<Rightarrow> (string \<times> string) option" where
  "prepend p = map_option (map_prod ((@) p) id)"

function strBody :: "string \<Rightarrow> (string \<times> string) option" where
  "strBody s =
     (case s of
        [] \<Rightarrow> None
      | c # t \<Rightarrow>
          if byte c = 34 then Some ([], t)
          else if byte c < 32 then None
          else if byte c = 92 then
            (case t of
               [] \<Rightarrow> None
             | e # r \<Rightarrow>
                 (case unescape e of
                    Some x \<Rightarrow> prepend [x] (strBody r)
                  | None \<Rightarrow>
                      if byte e \<noteq> 117 then None
                      else
                        (case getu4 r of
                           None \<Rightarrow> None
                         | Some u \<Rightarrow>
                             if 55296 \<le> u \<and> u < 57344 then
                               (case surrogates u (drop 4 r) of
                                  Some v \<Rightarrow> prepend (EncodeRune v) (strBody (drop 10 r))
                                | None \<Rightarrow> prepend (EncodeRune RuneError) (strBody (drop 4 r)))
                             else prepend (EncodeRune u) (strBody (drop 4 r)))))
          else if byte c < 128 then prepend [c] (strBody t)
          else prepend (EncodeRune (fst (DecodeRune (c # t)))) (strBody (drop (snd (DecodeRune (c # t))) (c # t))))"
  by pat_completeness auto
termination
  by (relation "measure length") (simp_all add: DecodeRune_size diff_less)

declare strBody.simps [simp del]

lemma prepend_Some: "prepend p x = Some (y, r) \<longleftrightarrow> (\<exists>z. x = Some (z, r) \<and> y = p @ z)"
  by (cases x) (auto simp: prepend_def)

lemma prepend_simps [simp]: "prepend p (Some (z, r)) = Some (p @ z, r)"
  by (simp add: prepend_def)

text \<open>What one step of the reader yields and consumes.\<close>

lemma strBody_step:
  assumes "strBody s = Some (x, r)"
  obtains (Done) "x = []" and "length r < length s"
  | (Rune) p c z t where "one_rune p c" and "x = p @ z" and "strBody t = Some (z, r)" and "length t < length s"
proof (cases s)
  case Nil
  then show thesis using assms by (simp add: strBody.simps[of "[]"])
next
  case (Cons c t)
  have enc: thesis if "prepend (EncodeRune u) (strBody t') = Some (x, r)" "length t' < length s" for u t'
    using that Rune[OF one_rune_EncodeRune] by (auto simp: prepend_Some)
  have asc: thesis if "prepend [b] (strBody t') = Some (x, r)" "length t' < length s" "byte b < 128" for b t'
    using that Rune[OF one_rune_ascii[OF that(3)]] by (auto simp: prepend_Some)
  note eq = assms[unfolded Cons strBody.simps[of "c # t"] list.case]
  consider "byte c = 34" | "byte c \<noteq> 34" "\<not> byte c < 32" "byte c = 92" | "byte c \<noteq> 34" "\<not> byte c < 32" "byte c \<noteq> 92" "byte c < 128"
    | "\<not> byte c < 128" using eq by (auto split: if_splits)
  then show thesis
  proof cases
    case 1
    then show thesis using eq Done by (simp add: Cons)
  next
    case 2
    then obtain e r' where t: "t = e # r'" using eq by (cases t) simp_all
    show thesis
    proof (cases "unescape e")
      case (Some b)
      have "byte b < 128" using Some by (auto simp: unescape_def Let_def split: if_splits)
      then show thesis using asc eq 2 Some by (simp add: t Cons)
    next
      case None
      then obtain u where u: "byte e = 117" "getu4 r' = Some u" using eq 2 by (auto simp: t split: if_splits option.splits)
      have l: "length (drop 10 r') < length s" "length (drop 4 r') < length s" by (simp_all add: Cons t)
      show thesis
      proof (cases "55296 \<le> u \<and> u < 57344")
        case True
        then show thesis using eq 2 None u enc[OF _ l(1)] enc[OF _ l(2)] by (cases "surrogates u (drop 4 r')") (simp_all add: t)
      next
        case False
        then have "prepend (EncodeRune u) (strBody (drop 4 r')) = Some (x, r)" using eq 2 None u by (simp only: t list.case option.case if_False if_True simp_thms)
        then show thesis using enc[OF _ l(2)] by blast
      qed
    qed
  next
    case 3
    then show thesis using eq asc[of c t] by (simp add: Cons)
  next
    case 4
    have "prepend (EncodeRune (fst (DecodeRune (c # t)))) (strBody (drop (snd (DecodeRune (c # t))) (c # t))) = Some (x, r)"
      using eq 4 by (simp add: drop_Cons split: if_splits)
    moreover have "length (drop (snd (DecodeRune (c # t))) (c # t)) < length s" using DecodeRune_size[of "c # t"] by (simp add: Cons)
    ultimately show thesis using enc by blast
  qed
qed

lemma strBody_shorter: "strBody s = Some (x, r) \<Longrightarrow> length r < length s"
proof (induction "length s" arbitrary: s x rule: less_induct)
  case less
  show ?case
  proof (cases rule: strBody_step[OF less.prems])
    case 1
    then show ?thesis by simp
  next
    case (2 p c z t)
    then show ?thesis using less.hyps[of t z] by simp
  qed
qed

lemma strBody_valid: "strBody s = Some (x, r) \<Longrightarrow> ValidString x"
proof (induction "length s" arbitrary: s x rule: less_induct)
  case less
  show ?case
  proof (cases rule: strBody_step[OF less.prems])
    case 1
    then show ?thesis by simp
  next
    case (2 p c z t)
    then show ?thesis using less.hyps[of t z] ValidString_rune[of p c z] by simp
  qed
qed

text \<open>Reading what was quoted.\<close>

lemma hexval_hexdigit: "n < 16 \<Longrightarrow> hexval (hexdigit n) = Some n"
  by (simp add: hexval_def hexdigit_def Let_def)

lemma hexval_digits: "hexval CHR ''0'' = Some 0" "hexval CHR ''2'' = Some 2"
  by (simp_all add: hexval_def)

lemma strBody_plain: "byte c < 128 \<Longrightarrow> 32 \<le> byte c \<Longrightarrow> byte c \<noteq> 34 \<Longrightarrow> byte c \<noteq> 92 \<Longrightarrow> strBody (c # t) = prepend [c] (strBody t)"
  by (simp add: strBody.simps[of "c # t"])

lemma strBody_unescape: "unescape e = Some x \<Longrightarrow> strBody (CHR 0x5C # e # t) = prepend [x] (strBody t)"
  by (simp add: strBody.simps[of "CHR 0x5C # e # t"])

lemma strBody_u: "getu4 r = Some u \<Longrightarrow> \<not> (55296 \<le> u \<and> u < 57344) \<Longrightarrow> strBody (CHR 0x5C # CHR ''u'' # r) = prepend (EncodeRune u) (strBody (drop 4 r))"
  by (auto simp: strBody.simps[of "CHR 0x5C # CHR ''u'' # r"] unescape_def)

lemma strBody_escapeByte:
  assumes "byte c < 128" shows "strBody (escapeByte c @ t) = prepend [c] (strBody t)"
proof -
  have n: "c = char_of n" if "byte c = n" for n using that by auto
  consider "byte c = 34" | "byte c = 92" | "byte c = 8" | "byte c = 12" | "byte c = 10" | "byte c = 13" | "byte c = 9"
    | (hex) "byte c < 32 \<or> byte c = 60 \<or> byte c = 62 \<or> byte c = 38" "byte c \<notin> {34, 92, 8, 12, 10, 13, 9}"
    | (plain) "32 \<le> byte c" "byte c \<notin> {60, 62, 38, 34, 92}" by force
  then show ?thesis
  proof cases
    case hex
    let ?r = "CHR ''0'' # CHR ''0'' # hexdigit (byte c div 16) # hexdigit (byte c mod 16) # t"
    have "escapeByte c @ t = CHR 0x5C # CHR ''u'' # ?r" using hex by (simp add: escapeByte_def Let_def)
    moreover have "getu4 ?r = Some (byte c)" using assms by (simp add: getu4_def hexval_digits hexval_hexdigit)
    moreover have "EncodeRune (byte c) = [c]" using assms by (simp add: EncodeRune_def)
    ultimately show ?thesis using strBody_u[of ?r "byte c"] assms by simp
  next
    case plain
    then have "escapeByte c = [c]" by (simp add: escapeByte_def Let_def)
    then show ?thesis using strBody_plain[of c t] assms plain by simp
  qed (drule n, simp add: escapeByte_def strBody_unescape unescape_def)+
qed

lemma strBody_escapeRune:
  assumes "one_rune p r" and "\<not> byte (hd p) < 128"
  shows "strBody (escapeRune r p @ t) = prepend p (strBody t)"
proof -
  have ne: "p \<noteq> []" and e: "\<not> (r = RuneError \<and> length p = 1)" using assms(1) by (simp_all add: one_rune_def)
  show ?thesis
  proof (cases "r = 8232 \<or> r = 8233")
    case True
    let ?r = "CHR ''2'' # CHR ''0'' # CHR ''2'' # hexdigit (r mod 16) # t"
    have "getu4 ?r = Some r" using True by (auto simp: getu4_def hexval_digits hexval_hexdigit)
    then show ?thesis using True e strBody_u[of ?r r] EncodeRune_one[OF assms(1)] by (auto simp: escapeRune_def)
  next
    case False
    then have "escapeRune r p = p" using e by (auto simp: escapeRune_def)
    moreover have "strBody (p @ t) = prepend p (strBody t)"
    proof (cases p)
      case (Cons c q)
      then show ?thesis using assms(2) one_rune_append[OF assms(1), of t] EncodeRune_one[OF assms(1)]
        by (simp add: strBody.simps[of "c # q @ t"])
    qed (use ne in simp)
    ultimately show ?thesis by simp
  qed
qed

lemma quoteBody_rune:
  assumes "one_rune p r"
  shows "quoteBody (p @ t) = (if byte (hd p) < 128 then escapeByte (hd p) else escapeRune r p) @ quoteBody t"
proof -
  obtain c q where p: "p = c # q" using assms by (cases p) (auto simp: one_rune_def)
  show ?thesis
  proof (cases "byte c < 128")
    case True
    then have "q = []" using one_rune_first assms p by blast
    then show ?thesis using True by (simp add: p quoteBody.simps[of "c # t"])
  next
    case False
    then show ?thesis using one_rune_append[OF assms, of t] by (subst quoteBody.simps) (simp add: p)
  qed
qed

lemma quoteBody_Nil [simp]: "quoteBody [] = []"
  by (simp add: quoteBody.simps[of "[]"])

lemma strBody_quote: "ValidString s \<Longrightarrow> strBody (quoteBody s @ CHR 0x22 # t) = Some (s, t)"
proof (induction s rule: ValidString_induct)
  case Nil
  then show ?case by (simp add: strBody.simps[of "CHR 0x22 # t"])
next
  case (Rune p r s)
  have "p = [hd p]" if "byte (hd p) < 128" using that one_rune_first[of "hd p" "tl p" r] Rune(1) by (cases p) (auto simp: one_rune_def)
  then show ?case using Rune by (cases "byte (hd p) < 128") (simp_all add: quoteBody_rune strBody_escapeByte strBody_escapeRune)
qed

section \<open>Values\<close>

datatype json = JNull | JBool bool | JNum string | JStr string | JArr "json list" | JObj "(string \<times> json) list"

datatype token = LBrace | RBrace | LBracket | RBracket | Colon | Comma | TStr string | TNum string | TTrue | TFalse | TNull

abbreviation is_space :: "char \<Rightarrow> bool" where
  "is_space c \<equiv> byte c = 32 \<or> byte c = 9 \<or> byte c = 13 \<or> byte c = 10"

text \<open>The rest after a number literal.\<close>

definition digitRun :: "string \<Rightarrow> string option" where
  "digitRun s = (case s of c # _ \<Rightarrow> if is_digit c then Some (dropWhile is_digit s) else None | [] \<Rightarrow> None)"

definition skipNumber :: "string \<Rightarrow> string option" where
  "skipNumber s =
     (let s1 = (case s of c # t \<Rightarrow> if c = CHR ''-'' then t else s | [] \<Rightarrow> s);
          int_part = (case s1 of c # t \<Rightarrow> if c = CHR ''0'' then Some t else digitRun s1 | [] \<Rightarrow> None);
          frac = (\<lambda>s. case s of c # t \<Rightarrow> if c = CHR ''.'' then digitRun t else Some s | [] \<Rightarrow> Some s);
          exponent = (\<lambda>s. case s of
             c # t \<Rightarrow> if c = CHR ''e'' \<or> c = CHR ''E'' then
                        digitRun (case t of d # u \<Rightarrow> if d = CHR ''+'' \<or> d = CHR ''-'' then u else t | [] \<Rightarrow> t)
                      else Some s
           | [] \<Rightarrow> Some s)
      in Option.bind (Option.bind int_part frac) exponent)"

lemma digitRun_shorter: "digitRun s = Some r \<Longrightarrow> length r < length s"
  by (cases s) (auto simp: digitRun_def less_Suc_eq_le length_dropWhile_le split: if_splits)

lemma skipNumber_shorter: "skipNumber s = Some r \<Longrightarrow> length r < length s"
  by (fastforce simp: skipNumber_def Let_def bind_eq_Some_conv split: list.splits if_splits dest: digitRun_shorter)

function lexJson :: "string \<Rightarrow> token list option" where
  "lexJson s =
     (case s of
        [] \<Rightarrow> Some []
      | c # t \<Rightarrow>
          if is_space c then lexJson t
          else if byte c = 34 then (case strBody t of Some (x, r) \<Rightarrow> map_option ((#) (TStr x)) (lexJson r) | None \<Rightarrow> None)
          else if c = CHR ''{'' then map_option ((#) LBrace) (lexJson t)
          else if c = CHR ''}'' then map_option ((#) RBrace) (lexJson t)
          else if c = CHR ''['' then map_option ((#) LBracket) (lexJson t)
          else if c = CHR '']'' then map_option ((#) RBracket) (lexJson t)
          else if c = CHR '':'' then map_option ((#) Colon) (lexJson t)
          else if c = CHR '','' then map_option ((#) Comma) (lexJson t)
          else if take 4 s = ''true'' then map_option ((#) TTrue) (lexJson (drop 4 s))
          else if take 5 s = ''false'' then map_option ((#) TFalse) (lexJson (drop 5 s))
          else if take 4 s = ''null'' then map_option ((#) TNull) (lexJson (drop 4 s))
          else
            (case skipNumber s of
               Some r \<Rightarrow> map_option ((#) (TNum (take (length s - length r) s))) (lexJson r)
             | None \<Rightarrow> None))"
  by pat_completeness auto
termination
  by (relation "measure length") (auto dest: strBody_shorter skipNumber_shorter)

declare lexJson.simps [simp del]

text \<open>One value of a sequence of tokens, with fuel.\<close>

fun parseValue :: "nat \<Rightarrow> token list \<Rightarrow> (json \<times> token list) option"
  and parseElems :: "nat \<Rightarrow> token list \<Rightarrow> (json list \<times> token list) option"
  and parseMembers :: "nat \<Rightarrow> token list \<Rightarrow> ((string \<times> json) list \<times> token list) option" where
  "parseValue 0 ts = None"
| "parseValue (Suc n) ts =
     (case ts of
        TStr x # r \<Rightarrow> Some (JStr x, r)
      | TNum x # r \<Rightarrow> Some (JNum x, r)
      | TTrue # r \<Rightarrow> Some (JBool True, r)
      | TFalse # r \<Rightarrow> Some (JBool False, r)
      | TNull # r \<Rightarrow> Some (JNull, r)
      | LBracket # r \<Rightarrow>
          (if r \<noteq> [] \<and> hd r = RBracket then Some (JArr [], tl r)
           else case parseElems n r of Some (vs, r') \<Rightarrow> Some (JArr vs, r') | None \<Rightarrow> None)
      | LBrace # r \<Rightarrow>
          (if r \<noteq> [] \<and> hd r = RBrace then Some (JObj [], tl r)
           else case parseMembers n r of Some (kvs, r') \<Rightarrow> Some (JObj kvs, r') | None \<Rightarrow> None)
      | _ \<Rightarrow> None)"
| "parseElems 0 ts = None"
| "parseElems (Suc n) ts =
     (case parseValue n ts of
        Some (v, Comma # r) \<Rightarrow> (case parseElems n r of Some (vs, r') \<Rightarrow> Some (v # vs, r') | None \<Rightarrow> None)
      | Some (v, RBracket # r) \<Rightarrow> Some ([v], r)
      | _ \<Rightarrow> None)"
| "parseMembers 0 ts = None"
| "parseMembers (Suc n) ts =
     (case ts of
        TStr k # Colon # r \<Rightarrow>
          (case parseValue n r of
             Some (v, Comma # r') \<Rightarrow> (case parseMembers n r' of Some (kvs, r'') \<Rightarrow> Some ((k, v) # kvs, r'') | None \<Rightarrow> None)
           | Some (v, RBrace # r') \<Rightarrow> Some ([(k, v)], r')
           | _ \<Rightarrow> None)
      | _ \<Rightarrow> None)"

lemma parse_shorter:
  "parseValue n ts = Some (v, r) \<Longrightarrow> length r < length ts"
  "parseElems n ts = Some (vs, r) \<Longrightarrow> length r < length ts"
  "parseMembers n ts = Some (kvs, r) \<Longrightarrow> length r < length ts"
proof (induction n arbitrary: ts v vs kvs r)
  case (Suc n)
  { case 1
    then show ?case using Suc.IH(2,3) by (cases ts) (fastforce split: token.splits option.splits if_splits prod.splits)+ }
  { case 2
    then show ?case using Suc.IH(1,2) by (fastforce split: token.splits option.splits list.splits prod.splits) }
  { case 3
    then show ?case using Suc.IH(1,3) by (fastforce split: token.splits option.splits list.splits prod.splits) }
qed simp_all

text \<open>Twice the number of tokens is enough fuel: more changes nothing.\<close>

lemma parse_fuel:
  "2 * length ts < n \<Longrightarrow> 2 * length ts < m \<Longrightarrow> parseValue n ts = parseValue m ts"
  "2 * length ts + 1 < n \<Longrightarrow> 2 * length ts + 1 < m \<Longrightarrow> parseElems n ts = parseElems m ts"
  "2 * length ts < n \<Longrightarrow> 2 * length ts < m \<Longrightarrow> parseMembers n ts = parseMembers m ts"
proof (induction n arbitrary: ts m)
  case (Suc n)
  { case 1
    then obtain k where m: "m = Suc k" by (cases m) simp_all
    show ?case
    proof (cases ts)
      case (Cons t r)
      have ih: "parseElems n r = parseElems k r" "parseMembers n r = parseMembers k r" using 1 by (intro Suc.IH; simp add: m Cons)+
      show ?thesis unfolding m Cons parseValue.simps list.case ih by (rule refl)
    qed (simp add: m) }
  { case 2
    then obtain k where m: "m = Suc k" by (cases m) simp_all
    have v: "parseValue n ts = parseValue k ts" using 2 by (intro Suc.IH) (simp_all add: m)
    have "parseElems n r = parseElems k r" if "parseValue k ts = Some (x, Comma # r)" for x r
      using parse_shorter(1)[OF that] 2 by (intro Suc.IH) (simp_all add: m)
    then show ?case by (auto simp: m v split: option.split list.split token.split) }
  { case 3
    then obtain k where m: "m = Suc k" by (cases m) simp_all
    show ?case
    proof (cases "\<exists>key r. ts = TStr key # Colon # r")
      case True
      then obtain key r where ts: "ts = TStr key # Colon # r" by blast
      have v: "parseValue n r = parseValue k r" using 3 by (intro Suc.IH) (simp_all add: m ts)
      have "parseMembers n r' = parseMembers k r'" if "parseValue k r = Some (x, Comma # r')" for x r'
        using parse_shorter(1)[OF that] 3 by (intro Suc.IH) (simp_all add: m ts)
      then show ?thesis by (auto simp: m ts v split: option.split list.split token.split)
    next
      case False
      then have "parseMembers (Suc i) ts = None" for i by (auto split: list.split token.split)
      then show ?thesis by (simp only: m)
    qed }
qed simp_all

definition parseJson :: "string \<Rightarrow> (json \<times> token list) option" where
  "parseJson s = Option.bind (lexJson s) (\<lambda>ts. parseValue (Suc (2 * length ts)) ts)"

section \<open>Printing\<close>

text \<open>\<^verbatim>\<open>MarshalIndent\<close> with an indentation of two spaces.\<close>

definition newline :: "nat \<Rightarrow> string" where
  "newline d = CHR 0x0A # replicate (2 * d) CHR 0x20"

fun printJson :: "nat \<Rightarrow> json \<Rightarrow> string"
  and printElems :: "nat \<Rightarrow> json list \<Rightarrow> string"
  and printMembers :: "nat \<Rightarrow> (string \<times> json) list \<Rightarrow> string" where
  "printJson d JNull = ''null''"
| "printJson d (JBool b) = (if b then ''true'' else ''false'')"
| "printJson d (JNum x) = x"
| "printJson d (JStr x) = quote x"
| "printJson d (JArr vs) = (if vs = [] then ''[]'' else ''['' @ printElems (Suc d) vs @ newline d @ '']'')"
| "printJson d (JObj kvs) = (if kvs = [] then ''{}'' else ''{'' @ printMembers (Suc d) kvs @ newline d @ ''}'')"
| "printElems d [] = []"
| "printElems d (v # vs) = newline d @ printJson d v @ (if vs = [] then [] else '','' @ printElems d vs)"
| "printMembers d [] = []"
| "printMembers d ((k, v) # kvs) = newline d @ quote k @ '': '' @ printJson d v @ (if kvs = [] then [] else '','' @ printMembers d kvs)"

text \<open>The decimal numbers that are not negative, and what follows a value inside a printed one.\<close>

definition number_lit :: "string \<Rightarrow> bool" where
  "number_lit x \<longleftrightarrow> x \<noteq> [] \<and> list_all is_digit x \<and> (hd x = CHR ''0'' \<longrightarrow> tl x = [])"

definition delim :: "string \<Rightarrow> bool" where
  "delim t \<longleftrightarrow> t = [] \<or> hd t = CHR '','' \<or> hd t = CHR 0x0A"

text \<open>The tokens of a value, and the values made of valid texts.\<close>

fun toks :: "json \<Rightarrow> token list"
  and toksElems :: "json list \<Rightarrow> token list"
  and toksMembers :: "(string \<times> json) list \<Rightarrow> token list" where
  "toks JNull = [TNull]"
| "toks (JBool b) = [if b then TTrue else TFalse]"
| "toks (JNum x) = [TNum x]"
| "toks (JStr x) = [TStr x]"
| "toks (JArr vs) = LBracket # toksElems vs @ [RBracket]"
| "toks (JObj kvs) = LBrace # toksMembers kvs @ [RBrace]"
| "toksElems [] = []"
| "toksElems (v # vs) = toks v @ (if vs = [] then [] else Comma # toksElems vs)"
| "toksMembers [] = []"
| "toksMembers ((k, v) # kvs) = TStr k # Colon # toks v @ (if kvs = [] then [] else Comma # toksMembers kvs)"

fun texts_valid :: "json \<Rightarrow> bool"
  and elems_valid :: "json list \<Rightarrow> bool"
  and members_valid :: "(string \<times> json) list \<Rightarrow> bool" where
  "texts_valid JNull = True"
| "texts_valid (JBool b) = True"
| "texts_valid (JNum x) = number_lit x"
| "texts_valid (JStr x) = ValidString x"
| "texts_valid (JArr vs) = elems_valid vs"
| "texts_valid (JObj kvs) = members_valid kvs"
| "elems_valid [] = True"
| "elems_valid (v # vs) \<longleftrightarrow> texts_valid v \<and> elems_valid vs"
| "members_valid [] = True"
| "members_valid ((k, v) # kvs) \<longleftrightarrow> ValidString k \<and> texts_valid v \<and> members_valid kvs"

section \<open>Parsing what was printed\<close>

lemma lexJson_Nil [simp]: "lexJson [] = Some []"
  by (simp add: lexJson.simps[of "[]"])

lemma lexJson_space: "is_space c \<Longrightarrow> lexJson (c # t) = lexJson t"
  by (simp add: lexJson.simps[of "c # t"])

lemma lexJson_newline: "lexJson (newline d @ t) = lexJson t"
proof -
  have "lexJson (replicate n CHR 0x20 @ t) = lexJson t" for n by (induction n) (simp_all add: lexJson_space)
  then show ?thesis by (simp add: newline_def lexJson_space)
qed

lemma lexJson_quote: "ValidString x \<Longrightarrow> lexJson (quote x @ t) = map_option ((#) (TStr x)) (lexJson t)"
  using strBody_quote[of x t] by (simp add: quote_def lexJson.simps[of "CHR 0x22 # _"])

lemma lexJson_marks:
  "lexJson (CHR ''['' # t) = map_option ((#) LBracket) (lexJson t)" "lexJson (CHR '']'' # t) = map_option ((#) RBracket) (lexJson t)"
  "lexJson (CHR ''{'' # t) = map_option ((#) LBrace) (lexJson t)" "lexJson (CHR ''}'' # t) = map_option ((#) RBrace) (lexJson t)"
  "lexJson (CHR '','' # t) = map_option ((#) Comma) (lexJson t)" "lexJson (CHR '':'' # t) = map_option ((#) Colon) (lexJson t)"
  "lexJson (''null'' @ t) = map_option ((#) TNull) (lexJson t)" "lexJson (''true'' @ t) = map_option ((#) TTrue) (lexJson t)"
  "lexJson (''false'' @ t) = map_option ((#) TFalse) (lexJson t)"
  by (simp_all add: lexJson.simps[of "_ # _"])

lemma map_append_Nil [simp]: "map_option ((@) []) x = x"
  by (cases x) simp_all

lemma skipNumber_lit:
  assumes "number_lit x" and "delim t" shows "skipNumber (x @ t) = Some t"
proof -
  obtain c y where x: "x = c # y" using assms(1) by (cases x) (auto simp: number_lit_def)
  have c: "is_digit c" "c \<noteq> CHR ''-''" "list_all is_digit y" using assms(1) by (auto simp: x number_lit_def is_digit_def)
  have "(if c = CHR ''0'' then Some (y @ t) else digitRun (x @ t)) = Some t"
  proof (cases "c = CHR ''0''")
    case True
    then show ?thesis using assms(1) by (simp add: x number_lit_def)
  next
    case False
    have "dropWhile is_digit (y @ t) = dropWhile is_digit t" using c(3) by (simp add: list_all_iff)
    also have "\<dots> = t" using assms(2) by (cases t) (auto simp: delim_def is_digit_def)
    finally show ?thesis using False c(1) by (simp add: x digitRun_def)
  qed
  then show ?thesis using assms(2) c(2) by (cases t) (auto simp: skipNumber_def Let_def x delim_def)
qed

lemma lexJson_number:
  assumes "number_lit x" and "delim t" shows "lexJson (x @ t) = map_option ((#) (TNum x)) (lexJson t)"
proof -
  obtain c y where x: "x = c # y" using assms(1) by (cases x) (auto simp: number_lit_def)
  have b: "48 \<le> byte c" "byte c \<le> 57" using assms(1) by (auto simp: x number_lit_def is_digit_def)
  have n: "c \<noteq> d" if "byte d < 48 \<or> 57 < byte d" for d using that b by auto
  show ?thesis using skipNumber_lit[OF assms] b n
    by (simp add: x lexJson.simps[of "c # y @ t"])
qed

lemma delim_simps [simp]: "delim (newline d @ t)" "delim (CHR '','' # t)" "delim []" "delim (char_of (10::nat) # t)"
  using char_of_byte[of "CHR 0x0A" 10] by (simp_all add: delim_def newline_def)

lemma lexJson_print:
  "texts_valid v \<Longrightarrow> delim t \<Longrightarrow> lexJson (printJson d v @ t) = map_option ((@) (toks v)) (lexJson t)"
  "elems_valid vs \<Longrightarrow> delim t \<Longrightarrow> lexJson (printElems d vs @ t) = map_option ((@) (toksElems vs)) (lexJson t)"
  "members_valid kvs \<Longrightarrow> delim t \<Longrightarrow> lexJson (printMembers d kvs @ t) = map_option ((@) (toksMembers kvs)) (lexJson t)"
proof (induction d v and d vs and d kvs arbitrary: t and t and t rule: printJson_printElems_printMembers.induct)
  case (1 d)
  then show ?case using lexJson_marks(7)[of t] by simp
next
  case (2 d b)
  then show ?case using lexJson_marks(8,9)[of t] by simp
next
  case (3 d x)
  then show ?case by (simp add: lexJson_number)
next
  case (4 d x)
  then show ?case by (simp add: lexJson_quote)
next
  case (5 d vs)
  then show ?case by (cases "vs = []") (simp_all add: lexJson_marks lexJson_newline option.map_comp comp_def)
next
  case (6 d kvs)
  then show ?case by (cases "kvs = []") (simp_all add: lexJson_marks lexJson_newline option.map_comp comp_def)
next
  case (8 d v vs)
  then show ?case by (cases "vs = []") (simp_all add: lexJson_marks lexJson_newline option.map_comp comp_def)
next
  case (10 d k v kvs)
  then show ?case by (cases "kvs = []") (simp_all add: lexJson_marks lexJson_newline lexJson_quote lexJson_space option.map_comp comp_def)
qed simp_all

lemma toks_head: "toks v \<noteq> []" "hd (toks v) \<notin> {RBracket, RBrace, Comma, Colon}"
  by (cases v; simp)+

lemma parse_toks:
  "2 * length (toks v) \<le> n \<Longrightarrow> parseValue n (toks v @ r) = Some (v, r)"
  "vs \<noteq> [] \<Longrightarrow> 2 * length (toksElems vs) + 1 \<le> n \<Longrightarrow> parseElems n (toksElems vs @ RBracket # r) = Some (vs, r)"
  "kvs \<noteq> [] \<Longrightarrow> 2 * length (toksMembers kvs) \<le> n \<Longrightarrow> parseMembers n (toksMembers kvs @ RBrace # r) = Some (kvs, r)"
proof (induction v and vs and kvs arbitrary: n r and n r and n r rule: toks_toksElems_toksMembers.induct)
  case (5 vs)
  then obtain k where n: "n = Suc k" by (cases n) simp_all
  show ?case
  proof (cases vs)
    case (Cons w ws)
    have "toksElems vs @ RBracket # r \<noteq> []" "hd (toksElems vs @ RBracket # r) \<noteq> RBracket"
      using toks_head[of w] by (simp_all add: Cons)
    then show ?thesis using 5 by (simp add: n Cons)
  qed (simp add: n)
next
  case (6 kvs)
  then obtain k where n: "n = Suc k" by (cases n) simp_all
  show ?case
  proof (cases kvs)
    case (Cons w ws)
    then show ?thesis using 6 by (cases w) (simp add: n)
  qed (simp add: n)
next
  case (8 v vs)
  then obtain k where n: "n = Suc k" by (cases n) simp_all
  have "0 < length (toks v)" using toks_head(1)[of v] by simp
  then show ?case using 8 by (cases "vs = []") (simp_all add: n)
next
  case (10 key v kvs)
  then obtain k where n: "n = Suc k" by (cases n) simp_all
  then show ?case using 10 by (cases "kvs = []") simp_all
qed (case_tac n; simp)+

lemma parse_print_json:
  assumes "texts_valid v" and "delim t" and "lexJson t = Some ts"
  shows "parseJson (printJson d v @ t) = Some (v, ts)"
proof -
  have l: "lexJson (printJson d v @ t) = Some (toks v @ ts)" using lexJson_print(1)[OF assms(1,2), of d] assms(3) by simp
  have p: "parseValue (Suc (2 * length (toks v @ ts))) (toks v @ ts) = Some (v, ts)" by (rule parse_toks(1)) simp
  show ?thesis unfolding parseJson_def l bind.bind_lunit by (rule p)
qed

section \<open>What the parser accepts\<close>

lemma parse_toks_eq:
  "parseValue n ts = Some (v, r) \<Longrightarrow> ts = toks v @ r"
  "parseElems n ts = Some (vs, r) \<Longrightarrow> vs \<noteq> [] \<and> ts = toksElems vs @ RBracket # r"
  "parseMembers n ts = Some (kvs, r) \<Longrightarrow> kvs \<noteq> [] \<and> ts = toksMembers kvs @ RBrace # r"
proof (induction n arbitrary: ts v vs kvs r)
  case (Suc n)
  { case 1
    show ?case
    proof (cases ts)
      case (Cons t u)
      show ?thesis using 1 Suc.IH(2,3)
        by (cases t; cases u) (auto simp: Cons split: option.splits if_splits prod.splits)
    qed (use 1 in simp) }
  { case 2
    obtain w t u where v: "parseValue n ts = Some (w, t # u)"
      using 2 by (auto split: option.splits list.splits)
    have "t = Comma \<and> (\<exists>ws. parseElems n u = Some (ws, r) \<and> vs = w # ws) \<or> t = RBracket \<and> vs = [w] \<and> r = u"
      using 2 v by (auto split: option.splits token.splits)
    then show ?case using Suc.IH(1)[OF v] Suc.IH(2) by auto }
  { case 3
    obtain k u where ts: "ts = TStr k # Colon # u" using 3 by (auto split: list.splits token.splits)
    obtain w t u' where v: "parseValue n u = Some (w, t # u')"
      using 3 by (auto simp: ts split: option.splits list.splits)
    have "t = Comma \<and> (\<exists>ws. parseMembers n u' = Some (ws, r) \<and> kvs = (k, w) # ws) \<or> t = RBrace \<and> kvs = [(k, w)] \<and> r = u'"
      using 3 v by (auto simp: ts split: option.splits token.splits)
    then show ?case using Suc.IH(1)[OF v] Suc.IH(3) by (auto simp: ts) }
qed simp_all

definition token_valid :: "token \<Rightarrow> bool" where
  "token_valid t = (case t of TStr x \<Rightarrow> ValidString x | _ \<Rightarrow> True)"

lemma token_valid_simps [simp]:
  "token_valid (TStr x) = ValidString x" "token_valid (TNum y)" "token_valid LBrace" "token_valid RBrace" "token_valid LBracket" "token_valid RBracket"
  "token_valid Colon" "token_valid Comma" "token_valid TTrue" "token_valid TFalse" "token_valid TNull"
  by (simp_all add: token_valid_def)

lemma if_cases: "(if P then x else y) = z \<Longrightarrow> (P \<Longrightarrow> x = z \<Longrightarrow> Q) \<Longrightarrow> (\<not> P \<Longrightarrow> y = z \<Longrightarrow> Q) \<Longrightarrow> Q"
  by (cases P) simp_all

lemma lexJson_valid: "lexJson s = Some ts \<Longrightarrow> list_all token_valid ts"
proof (induction "length s" arbitrary: s ts rule: less_induct)
  case less
  show ?case
  proof (cases s)
    case (Cons c t)
    have add: "list_all token_valid ts" if "map_option ((#) k) (lexJson r) = Some ts" "length r < length s" "token_valid k" for k r
      using that less.hyps by auto
    have num: "list_all token_valid ts" if "(case skipNumber s of Some r \<Rightarrow> map_option ((#) (TNum (take (length s - length r) s))) (lexJson r) | None \<Rightarrow> None) = Some ts"
      using that add skipNumber_shorter by (cases "skipNumber s") auto
    have str: "list_all token_valid ts" if "(case strBody t of Some (x, r) \<Rightarrow> map_option ((#) (TStr x)) (lexJson r) | None \<Rightarrow> None) = Some ts"
    proof (cases "strBody t")
      case (Some p)
      obtain x r where p: "p = (x, r)" by force
      show ?thesis by (rule add[of "TStr x" r]) (use that Some strBody_shorter[of t x r] strBody_valid[of t x r] in \<open>simp_all add: p Cons\<close>)
    qed (use that in simp)
    have d: "length t < length s" "length (drop 4 s) < length s" "length (drop 5 s) < length s" by (simp_all add: Cons)
    note e = less.prems[unfolded Cons lexJson.simps[of "c # t"] list.case, folded Cons]
    show ?thesis using e
      by (elim if_cases) (erule str num | erule add, simp only: d, simp | rule less.hyps[OF d(1)], assumption)+
  qed (use less.prems in simp)
qed

end
