(* ===== verification/Task_File.thy ===== *)
theory Task_File
  imports Task_Browser Calendar Json
begin

text \<open>
  App 10: the JSON of a task file, as \<^verbatim>\<open>Save\<close> writes it and \<^verbatim>\<open>Load\<close> reads it (\<^verbatim>\<open>internal/task/task.go\<close>,
  \<^verbatim>\<open>file.go\<close>), over the theories of JSON and of the calendar.

  The decoder merges members of an object that are given twice; what it makes of such a file is the parameter
  \<open>repeated\<close>. A nil slice would be printed as \<^verbatim>\<open>null\<close>, but a list that is saved has a task.
\<close>

section \<open>Dates\<close>

definition dayNs :: int where
  "dayNs = 86400000000000"

definition Date_MarshalJSON :: "gotime \<Rightarrow> json" where
  "Date_MarshalJSON t = JStr (formatDateOnly (t div dayNs))"

definition Date_UnmarshalJSON :: "json \<Rightarrow> gotime \<Rightarrow> gotime option" where
  "Date_UnmarshalJSON v d =
     (case v of
        JNull \<Rightarrow> Some d
      | JStr s \<Rightarrow> map_option (\<lambda>z. z * dayNs) (parseDateOnly s)
      | _ \<Rightarrow> None)"

section \<open>Encoding\<close>

definition taskJson :: "Task \<Rightarrow> json" where
  "taskJson t = JObj
     ([(''id'', JStr (ID t)), (''title'', JStr (Title t)), (''status'', JStr (t_Status t)), (''priority'', JStr (Priority t))]
      @ (if Tags t = [] then [] else [(''tags'', JArr (map JStr (Tags t)))])
      @ (if t_Due t = 0 then [] else [(''due'', Date_MarshalJSON (t_Due t))])
      @ (if Description t = [] then [] else [(''description'', JStr (Description t))]))"

definition documentJson :: "Task list \<Rightarrow> json" where
  "documentJson ts = JObj [(''tasks'', JArr (map taskJson ts))]"

definition encodeTasks :: "Task list \<Rightarrow> string" where
  "encodeTasks ts = printJson 0 (documentJson ts)"

section \<open>Decoding\<close>

text \<open>A key names a field exactly or, failing that, up to letter case. Two runes beyond ASCII fold to ASCII letters; the
  others match no field.\<close>

definition foldRune :: "nat \<Rightarrow> nat" where
  "foldRune r = (if r = 8490 then 75 else if r = 383 then 83 else r)"

function foldName :: "string \<Rightarrow> string" where
  "foldName s =
     (if s = [] then []
      else if byte (hd s) < 128 then
        (if 97 \<le> byte (hd s) \<and> byte (hd s) \<le> 122 then char_of (byte (hd s) - 32) else hd s) # foldName (tl s)
      else EncodeRune (foldRune (fst (DecodeRune s))) @ foldName (drop (snd (DecodeRune s)) s))"
  by pat_completeness auto
termination
  by (relation "measure length") (simp_all add: DecodeRune_size diff_less)

declare foldName.simps [simp del]

definition fieldOf :: "string list \<Rightarrow> string \<Rightarrow> string option" where
  "fieldOf names key = (if key \<in> set names then Some key else find (\<lambda>n. foldName n = foldName key) names)"

definition taskFields :: "string list" where
  "taskFields = [''id'', ''title'', ''status'', ''priority'', ''tags'', ''due'', ''description'']"

definition decodeString :: "json \<Rightarrow> string \<Rightarrow> string option" where
  "decodeString v old = (case v of JStr s \<Rightarrow> Some s | JNull \<Rightarrow> Some old | _ \<Rightarrow> None)"

definition decodeTags :: "json \<Rightarrow> string list option" where
  "decodeTags v = (case v of JNull \<Rightarrow> Some [] | JArr vs \<Rightarrow> those (map (\<lambda>v. decodeString v []) vs) | _ \<Rightarrow> None)"

definition decodeField :: "string \<Rightarrow> json \<Rightarrow> Task \<Rightarrow> Task option" where
  "decodeField f v t =
     (if f = ''id'' then map_option (\<lambda>s. t\<lparr>ID := s\<rparr>) (decodeString v (ID t))
      else if f = ''title'' then map_option (\<lambda>s. t\<lparr>Title := s\<rparr>) (decodeString v (Title t))
      else if f = ''status'' then map_option (\<lambda>s. t\<lparr>t_Status := s\<rparr>) (decodeString v (t_Status t))
      else if f = ''priority'' then map_option (\<lambda>s. t\<lparr>Priority := s\<rparr>) (decodeString v (Priority t))
      else if f = ''tags'' then map_option (\<lambda>ss. t\<lparr>Tags := ss\<rparr>) (decodeTags v)
      else if f = ''due'' then map_option (\<lambda>d. t\<lparr>t_Due := d\<rparr>) (Date_UnmarshalJSON v (t_Due t))
      else if f = ''description'' then map_option (\<lambda>s. t\<lparr>Description := s\<rparr>) (decodeString v (Description t))
      else None)"

text \<open>An unknown field is an error (\<open>DisallowUnknownFields\<close>).\<close>

fun decodeFields :: "(string \<times> json) list \<Rightarrow> Task \<Rightarrow> Task option" where
  "decodeFields [] t = Some t"
| "decodeFields ((k, v) # kvs) t =
     (case fieldOf taskFields k of
        None \<Rightarrow> None
      | Some f \<Rightarrow> (case decodeField f v t of None \<Rightarrow> None | Some t' \<Rightarrow> decodeFields kvs t'))"

definition zeroTask :: Task where
  "zeroTask = \<lparr>ID = [], Title = [], t_Status = [], Priority = [], Tags = [], t_Due = 0, Description = []\<rparr>"

definition decodeTask :: "json \<Rightarrow> Task option" where
  "decodeTask v = (case v of JNull \<Rightarrow> Some zeroTask | JObj kvs \<Rightarrow> decodeFields kvs zeroTask | _ \<Rightarrow> None)"

definition decodeTaskList :: "json \<Rightarrow> Task list option" where
  "decodeTaskList v = (case v of JNull \<Rightarrow> Some [] | JArr vs \<Rightarrow> those (map decodeTask vs) | _ \<Rightarrow> None)"

fun decodeMembers :: "(string \<times> json) list \<Rightarrow> Task list \<Rightarrow> Task list option" where
  "decodeMembers [] ts = Some ts"
| "decodeMembers ((k, v) # kvs) ts =
     (case fieldOf [''tasks''] k of
        None \<Rightarrow> None
      | Some _ \<Rightarrow> (case decodeTaskList v of None \<Rightarrow> None | Some ts' \<Rightarrow> decodeMembers kvs ts'))"

definition decodeDocument :: "json \<Rightarrow> Task list option" where
  "decodeDocument v = (case v of JNull \<Rightarrow> Some [] | JObj kvs \<Rightarrow> decodeMembers kvs [] | _ \<Rightarrow> None)"

definition twice :: "string list \<Rightarrow> (string \<times> json) list \<Rightarrow> bool" where
  "twice names kvs \<longleftrightarrow> \<not> distinct (List.map_filter (fieldOf names \<circ> fst) kvs)"

definition repeats :: "json \<Rightarrow> bool" where
  "repeats v =
     (case v of
        JObj kvs \<Rightarrow>
          twice [''tasks''] kvs
          \<or> list_ex (\<lambda>(_, w). case w of
               JArr us \<Rightarrow> list_ex (\<lambda>u. case u of JObj fs \<Rightarrow> twice taskFields fs | _ \<Rightarrow> False) us
             | _ \<Rightarrow> False) kvs
      | _ \<Rightarrow> False)"

text \<open>The decoder of \<open>Load\<close>: one value, then the end of the file.\<close>

definition decodeFile :: "(json \<Rightarrow> Task list option) \<Rightarrow> string \<Rightarrow> decoded" where
  "decodeFile repeated s =
     (case parseJson s of
        None \<Rightarrow> DecodeFails
      | Some (v, rest) \<Rightarrow>
          (case (if repeats v then repeated v else decodeDocument v) of
             None \<Rightarrow> DecodeFails
           | Some ts \<Rightarrow> if rest = [] then Document ts else TrailingData ts))"

section \<open>What is written can be read\<close>

definition writable :: "Task \<Rightarrow> bool" where
  "writable t \<longleftrightarrow>
     list_all ValidString ([ID t, Title t, t_Status t, Priority t, Description t] @ Tags t)
     \<and> t_Due t mod dayNs = 0 \<and> four_digit_year (t_Due t div dayNs)"

lemma ValidString_ascii: "list_all (\<lambda>c. byte c < 128) s \<Longrightarrow> ValidString s"
proof (induction s)
  case (Cons c s)
  then show ?case using ValidString_rune[OF one_rune_ascii[of c], of s] by simp
qed simp

lemma date_valid: "ValidString (formatDateOnly z)"
proof -
  have "list_all (\<lambda>c. byte c < 128) (pad w x)" for w x
    using digits_props(1)[of "nat \<bar>x\<bar>"] by (auto simp: pad_def Let_def list_all_iff is_digit_def)
  then show ?thesis by (intro ValidString_ascii) (auto simp: formatDateOnly_def split: prod.split)
qed

lemma elems_valid_map: "elems_valid (map f xs) \<longleftrightarrow> list_all (texts_valid \<circ> f) xs"
  by (induction xs) simp_all

lemma members_valid_append: "members_valid (xs @ ys) \<longleftrightarrow> members_valid xs \<and> members_valid ys"
  by (induction xs) auto

lemma field_names_valid: "list_all ValidString (''tasks'' # taskFields)"
  by (simp add: taskFields_def ValidString_ascii)

lemma taskJson_valid: "writable t \<Longrightarrow> texts_valid (taskJson t)"
  using field_names_valid
  by (auto simp: taskJson_def writable_def members_valid_append elems_valid_map Date_MarshalJSON_def date_valid comp_def taskFields_def)

lemma fieldOf_task: "f \<in> set taskFields \<Longrightarrow> fieldOf taskFields f = Some f"
  by (simp add: fieldOf_def)

lemma fieldOf_names:
  "fieldOf taskFields ''id'' = Some ''id''" "fieldOf taskFields ''title'' = Some ''title''" "fieldOf taskFields ''status'' = Some ''status''"
  "fieldOf taskFields ''priority'' = Some ''priority''" "fieldOf taskFields ''tags'' = Some ''tags''" "fieldOf taskFields ''due'' = Some ''due''"
  "fieldOf taskFields ''description'' = Some ''description''"
  by (rule fieldOf_task, simp add: taskFields_def)+

lemma those_map: "list_all (\<lambda>x. f x = Some (g x)) xs \<Longrightarrow> those (map f xs) = Some (map g xs)"
  by (induction xs) simp_all

lemma tags_decode: "decodeTags (JArr (map JStr ss)) = Some ss"
  using those_map[of "\<lambda>s. decodeString (JStr s) []" "\<lambda>s. s" ss] by (simp add: decodeTags_def decodeString_def comp_def list_all_iff)

lemma date_decode: "t mod dayNs = 0 \<Longrightarrow> four_digit_year (t div dayNs) \<Longrightarrow> Date_UnmarshalJSON (Date_MarshalJSON t) d = Some t"
  using parse_format_date[of "t div dayNs"] by (auto simp: Date_MarshalJSON_def Date_UnmarshalJSON_def)

lemma task_decode: "writable t \<Longrightarrow> decodeTask (taskJson t) = Some t"
proof -
  assume w: "writable t"
  have d: "Date_UnmarshalJSON (Date_MarshalJSON (t_Due t)) x = Some (t_Due t)" for x using w by (intro date_decode) (simp_all add: writable_def)
  show ?thesis
    by (cases "Tags t = []"; cases "t_Due t = 0"; cases "Description t = []")
      (simp_all add: decodeTask_def taskJson_def fieldOf_names decodeField_def decodeString_def tags_decode d zeroTask_def)
qed

lemma task_not_twice: "\<exists>fs. taskJson t = JObj fs \<and> \<not> twice taskFields fs"
  by (cases "Tags t = []"; cases "t_Due t = 0"; cases "Description t = []")
    (simp_all add: taskJson_def twice_def fieldOf_names map_filter_simps)

lemma document_decode:
  assumes "list_all writable ts"
  shows "decodeDocument (documentJson ts) = Some ts" and "\<not> repeats (documentJson ts)" and "texts_valid (documentJson ts)"
proof -
  have t: "fieldOf [''tasks''] ''tasks'' = Some ''tasks''" by (simp add: fieldOf_def)
  have "those (map decodeTask (map taskJson ts)) = Some ts"
    using those_map[of "decodeTask \<circ> taskJson" "\<lambda>t. t" ts] assms by (simp add: list_all_iff task_decode)
  then show "decodeDocument (documentJson ts) = Some ts" by (simp add: decodeDocument_def documentJson_def t decodeTaskList_def)
  have "\<not> (case taskJson t of JObj fs \<Rightarrow> twice taskFields fs | _ \<Rightarrow> False)" for t using task_not_twice[of t] by auto
  then show "\<not> repeats (documentJson ts)"
    by (simp add: repeats_def documentJson_def twice_def map_filter_simps t list_ex_iff)
  show "texts_valid (documentJson ts)"
    using assms field_names_valid by (auto simp: documentJson_def elems_valid_map list_all_iff taskJson_valid)
qed

lemma decode_encode_tasks: "list_all writable ts \<Longrightarrow> decodeFile repeated (encodeTasks ts @ [char_of (10::nat)]) = Document ts"
proof -
  assume w: "list_all writable ts"
  have "delim [char_of (10::nat)]" "lexJson [char_of (10::nat)] = Some []" by (simp_all add: lexJson_space)
  note p = parse_print_json[OF document_decode(3)[OF w] this, of 0]
  show ?thesis unfolding decodeFile_def encodeTasks_def p using document_decode[OF w] by simp
qed

section \<open>What is read can be written\<close>

abbreviation strings_valid :: "json \<Rightarrow> bool" where
  "strings_valid v \<equiv> list_all token_valid (toks v)"

lemma elems_strings: "list_all token_valid (toksElems vs) \<Longrightarrow> list_all strings_valid vs"
  by (induction vs) (simp_all split: if_splits)

lemma members_strings: "list_all token_valid (toksMembers kvs) \<Longrightarrow> list_all (\<lambda>(k, v). strings_valid v) kvs"
  by (induction kvs) (auto split: if_splits)

lemma those_Some: "those xs = Some ys \<Longrightarrow> xs = map Some ys"
  by (induction xs arbitrary: ys) (auto split: option.splits)

lemma decodeString_valid: "decodeString v old = Some s \<Longrightarrow> strings_valid v \<Longrightarrow> ValidString old \<Longrightarrow> ValidString s"
  by (auto simp: decodeString_def split: json.splits)

lemma decodeTags_valid:
  assumes "decodeTags v = Some ss" and "strings_valid v"
  shows "list_all ValidString ss"
proof (cases v)
  case (JArr vs)
  then have m: "map (\<lambda>v. decodeString v []) vs = map Some ss" using assms(1) by (simp add: decodeTags_def those_Some)
  have "ValidString s" if s: "s \<in> set ss" for s
  proof -
    have "Some s \<in> set (map (\<lambda>v. decodeString v []) vs)" unfolding m using s by simp
    then obtain w where w: "w \<in> set vs" "decodeString w [] = Some s" by auto
    have "strings_valid w" using elems_strings[of vs] assms(2) w(1) by (simp add: JArr list_all_iff)
    then show ?thesis using decodeString_valid[OF w(2)] by simp
  qed
  then show ?thesis by (simp add: list_all_iff)
qed (use assms(1) in \<open>simp_all add: decodeTags_def\<close>)

lemma date_read:
  assumes "Date_UnmarshalJSON v d = Some t" and "d mod dayNs = 0" and "four_digit_year (d div dayNs)"
  shows "t mod dayNs = 0" and "four_digit_year (t div dayNs)"
proof -
  have n: "dayNs \<noteq> 0" by (simp add: dayNs_def)
  show "t mod dayNs = 0" "four_digit_year (t div dayNs)"
    using assms n format_parse_date(1) by (auto simp: Date_UnmarshalJSON_def split: json.splits)
qed

lemma decodeField_writable:
  assumes "decodeField f v t = Some t'" and "strings_valid v" and "writable t"
  shows "writable t'"
proof -
  note s = decodeString_valid[OF _ assms(2)]
  show ?thesis
    using assms(1,3) s decodeTags_valid[OF _ assms(2)] date_read[of v "t_Due t"] unfolding decodeField_def writable_def
    by (elim if_cases) (auto simp: list_all_iff)
qed

lemma decodeFields_writable: "decodeFields kvs t = Some t' \<Longrightarrow> list_all (\<lambda>(k, v). strings_valid v) kvs \<Longrightarrow> writable t \<Longrightarrow> writable t'"
  by (induction kvs t rule: decodeFields.induct) (auto split: option.splits dest: decodeField_writable)

lemma zeroTask_writable: "writable zeroTask"
proof -
  have "four_digit_year 0" by code_simp
  then show ?thesis by (simp add: writable_def zeroTask_def)
qed

lemma decodeTask_writable: "decodeTask v = Some t \<Longrightarrow> strings_valid v \<Longrightarrow> writable t"
  using decodeFields_writable zeroTask_writable members_strings by (auto simp: decodeTask_def split: json.splits)

lemma decodeTaskList_writable:
  assumes "decodeTaskList v = Some ts" and "strings_valid v"
  shows "list_all writable ts"
proof (cases v)
  case (JArr vs)
  then have m: "map decodeTask vs = map Some ts" using assms(1) by (simp add: decodeTaskList_def those_Some)
  have "writable t" if t: "t \<in> set ts" for t
  proof -
    have "Some t \<in> set (map decodeTask vs)" unfolding m using t by simp
    then obtain w where w: "w \<in> set vs" "decodeTask w = Some t" by auto
    have "strings_valid w" using elems_strings[of vs] assms(2) w(1) by (simp add: JArr list_all_iff)
    then show ?thesis using decodeTask_writable[OF w(2)] by simp
  qed
  then show ?thesis by (simp add: list_all_iff)
qed (use assms(1) in \<open>simp_all add: decodeTaskList_def\<close>)

lemma decodeMembers_writable: "decodeMembers kvs ts = Some us \<Longrightarrow> list_all (\<lambda>(k, v). strings_valid v) kvs \<Longrightarrow> list_all writable ts \<Longrightarrow> list_all writable us"
  by (induction kvs ts rule: decodeMembers.induct) (auto split: option.splits dest: decodeTaskList_writable)

lemma decodeDocument_writable: "decodeDocument v = Some ts \<Longrightarrow> strings_valid v \<Longrightarrow> list_all writable ts"
  using decodeMembers_writable[of _ "[]"] members_strings by (auto simp: decodeDocument_def split: json.splits)

lemma decodeFile_writable:
  assumes "decodeFile repeated s = Document ts" and "\<And>v us. repeated v = Some us \<Longrightarrow> list_all writable us"
  shows "list_all writable ts"
proof -
  obtain v rest where p: "parseJson s = Some (v, rest)" and d: "(if repeats v then repeated v else decodeDocument v) = Some ts"
    using assms(1) by (auto simp: decodeFile_def split: option.splits if_splits)
  obtain us where l: "lexJson s = Some us" "parseValue (Suc (2 * length us)) us = Some (v, rest)"
    using p by (auto simp: parseJson_def bind_eq_Some_conv)
  have "strings_valid v" using lexJson_valid[OF l(1)] parse_toks_eq(1)[OF l(2)] by simp
  then show ?thesis using d assms(2) decodeDocument_writable by (auto split: if_splits)
qed

end
