(* ===== verification/Task_App.thy ===== *)
theory Task_App
  imports Task_File
begin

text \<open>
  App 10: what the browser draws (\<^verbatim>\<open>internal/ui/view.go\<close>, \<^verbatim>\<open>styles.go\<close>) and the command (\<^verbatim>\<open>cmd/tui-app/main.go\<close>).

  Texts are bytes in UTF-8. How Lip Gloss renders a style, joins blocks and cuts a line, and what the text field, the
  viewport and the help of Bubbles look like, is the record \<open>tui_lib\<close>; what is rendered, and in which style, is
  modelled. A session of Bubble Tea is the list of its messages.
\<close>

section \<open>Styles\<close>

record style =
  st_bold :: bool
  st_fg :: "string option"
  st_bg :: "string option"
  st_strike :: bool
  st_pad :: "nat \<times> nat"
  st_marginBottom :: nat
  st_border :: "string option"
  st_width :: "int option"
  st_height :: "int option"

definition NewStyle :: style where
  "NewStyle = \<lparr>st_bold = False, st_fg = None, st_bg = None, st_strike = False, st_pad = (0, 0), st_marginBottom = 0,
     st_border = None, st_width = None, st_height = None\<rparr>"

text \<open>\<open>st_border\<close> is the color of a rounded border.\<close>

record styles =
  sy_header :: style
  sy_muted :: style
  sy_pane :: style
  sy_activePane :: style
  sy_row :: style
  sy_cursorRow :: style
  sy_doneRow :: style
  sy_title :: style
  sy_label :: style
  sy_tag :: style
  sy_overdue :: style
  sy_priority :: "string \<Rightarrow> style option"

definition newStyles :: styles where
  "newStyles =
     (let accent = ''62''; subtle = ''241'';
          pane = NewStyle\<lparr>st_border := Some subtle, st_pad := (0, 1)\<rparr>
      in \<lparr>sy_header = NewStyle\<lparr>st_bold := True, st_fg := Some ''230'', st_bg := Some accent, st_pad := (0, 1)\<rparr>,
          sy_muted = NewStyle\<lparr>st_fg := Some subtle\<rparr>,
          sy_pane = pane,
          sy_activePane = pane\<lparr>st_border := Some accent\<rparr>,
          sy_row = NewStyle,
          sy_cursorRow = NewStyle\<lparr>st_bold := True, st_fg := Some ''230'', st_bg := Some accent\<rparr>,
          sy_doneRow = NewStyle\<lparr>st_fg := Some subtle, st_strike := True\<rparr>,
          sy_title = NewStyle\<lparr>st_bold := True, st_marginBottom := 1\<rparr>,
          sy_label = NewStyle\<lparr>st_fg := Some subtle, st_width := Some 10\<rparr>,
          sy_tag = NewStyle\<lparr>st_fg := Some ''37''\<rparr>,
          sy_overdue = NewStyle\<lparr>st_bold := True, st_fg := Some ''203''\<rparr>,
          sy_priority = [''high'' \<mapsto> NewStyle\<lparr>st_fg := Some ''203''\<rparr>, ''medium'' \<mapsto> NewStyle\<lparr>st_fg := Some ''214''\<rparr>,
                         ''low'' \<mapsto> NewStyle\<lparr>st_fg := Some ''109''\<rparr>]\<rparr>)"

record tui_lib =
  Render :: "style \<Rightarrow> string \<Rightarrow> string"
  Truncate :: "string \<Rightarrow> int \<Rightarrow> string"
  JoinHorizontal :: "string list \<Rightarrow> string"
  JoinVertical :: "string list \<Rightarrow> string"
  FrameSize :: "style \<Rightarrow> int \<times> int"
  ShortHelpView :: "int \<Rightarrow> string list list \<Rightarrow> string"
  FieldView :: "Model \<Rightarrow> string"
  ViewportView :: "Model \<Rightarrow> string \<Rightarrow> string"
  Quote :: "string \<Rightarrow> string"

section \<open>Drawing\<close>

definition statusIcon :: "string \<Rightarrow> string" where
  "statusIcon s =
     (if s = ''done'' then [CHR 0xE2, CHR 0x97, CHR 0x8F]
      else if s = ''in_progress'' then [CHR 0xE2, CHR 0x97, CHR 0x90]
      else [CHR 0xE2, CHR 0x97, CHR 0x8B])"

definition dot :: string where
  "dot = [CHR 0x20, CHR 0xC2, CHR 0xB7, CHR 0x20]"

definition joinLines :: "string list \<Rightarrow> string" where
  "joinLines ls = (case ls of [] \<Rightarrow> [] | l # ls \<Rightarrow> l @ concat (map (\<lambda>l. CHR 0x0A # l) ls))"

text \<open>\<open>utf8.RuneCountInString\<close>, which \<^verbatim>\<open>%-9s\<close> pads by.\<close>

function runeCount :: "string \<Rightarrow> nat" where
  "runeCount s = (if s = [] then 0 else Suc (runeCount (drop (snd (DecodeRune s)) s)))"
  by pat_completeness auto
termination
  by (relation "measure length") (simp_all add: DecodeRune_size diff_less)

declare runeCount.simps [simp del]

definition padRight :: "nat \<Rightarrow> string \<Rightarrow> string" where
  "padRight w s = s @ replicate (w - runeCount s) CHR 0x20"

definition headerView :: "tui_lib \<Rightarrow> (string \<Rightarrow> string) \<Rightarrow> Model \<Rightarrow> string" where
  "headerView lib trim m =
     (let dones = length (filter (\<lambda>t. t_Status t = ''done'') (tasks m));
          summary = itoa (int (length (visible m))) @ '' of '' @ itoa (int (length (tasks m))) @ '' shown'' @ dot @ itoa (int dones) @ '' done'';
          q = trim (filter_value m);
          summary = (if q \<noteq> [] \<and> m_focus m \<noteq> focusFilter then summary @ dot @ ''filter '' @ Quote lib q else summary);
          summary = (if modified m then summary @ dot @ ''unsaved'' else summary);
          line = Render lib (sy_header newStyles) ''Tasks'' @ '' '' @ Render lib (sy_muted newStyles) summary
      in Truncate lib line (width m))"

definition footerView :: "tui_lib \<Rightarrow> Model \<Rightarrow> string" where
  "footerView lib m =
     (let hints = ShortHelpView lib (width m) (key_help (m_focus m))
      in if m_focus m = focusFilter then Truncate lib (FieldView lib m @ ''  '' @ hints) (width m) else hints)"

definition rowStyle :: "Model \<Rightarrow> nat \<Rightarrow> style" where
  "rowStyle m pos =
     (if int pos = cursor m then sy_cursorRow newStyles
      else if t_Status (tasks m ! (visible m ! pos)) = ''done'' then sy_doneRow newStyles
      else sy_row newStyles)"

definition rowText :: "Task \<Rightarrow> string" where
  "rowText t = statusIcon (t_Status t) @ '' '' @ padRight 9 (ID t) @ '' '' @ Title t"

definition listRows :: "tui_lib \<Rightarrow> Model \<Rightarrow> int \<Rightarrow> int \<Rightarrow> string list" where
  "listRows lib m w h =
     (case listWindow h m of (lo, hi) \<Rightarrow>
        map (\<lambda>pos. Render lib ((rowStyle m pos)\<lparr>st_width := Some w\<rparr>) (Truncate lib (rowText (tasks m ! (visible m ! pos))) w))
          [nat lo..<nat hi])"

definition listView :: "tui_lib \<Rightarrow> Model \<Rightarrow> int \<Rightarrow> int \<Rightarrow> string" where
  "listView lib m w h =
     (if visible m = [] then Render lib (sy_muted newStyles) ''No matching tasks.'' else joinLines (listRows lib m w h))"

text \<open>\<open>now\<close> is the reading of a local clock; a task is overdue from midnight of the following day.\<close>

definition startOfDay :: "gotime \<Rightarrow> gotime" where
  "startOfDay now = now div dayNs * dayNs"

definition renderDetails :: "tui_lib \<Rightarrow> gotime \<Rightarrow> Task \<Rightarrow> int \<Rightarrow> string" where
  "renderDetails lib now t w =
     (let s = newStyles;
          priority = (case sy_priority s (Priority t) of Some p \<Rightarrow> p | None \<Rightarrow> sy_row s);
          due = (if t_Due t = 0 then Render lib (sy_muted s) ''none''
                 else let day = formatLong (t_Due t div dayNs)
                      in if Overdue t (startOfDay now) then Render lib (sy_overdue s) (day @ '' (overdue)'') else day);
          tags = map (\<lambda>tag. Render lib (sy_tag s) (''#'' @ tag)) (Tags t);
          fields = [(''ID'', ID t),
                    (''Status'', statusIcon (t_Status t) @ '' '' @ map (\<lambda>c. if c = CHR ''_'' then CHR 0x20 else c) (t_Status t)),
                    (''Priority'', Render lib priority (Priority t)),
                    (''Due'', due),
                    (''Tags'', (case tags of [] \<Rightarrow> [] | g # gs \<Rightarrow> g @ concat (map (\<lambda>g. '' '' @ g) gs)))];
          lines = Render lib (sy_title s) (Title t) # map (\<lambda>(name, value). Render lib (sy_label s) name @ value) fields
                  @ (if Description t \<noteq> [] then [[], Description t] else [])
      in Render lib (NewStyle\<lparr>st_width := Some w\<rparr>) (joinLines lines))"

text \<open>The content \<open>syncDetails\<close> gives to the viewport; a change of its width renders it again.\<close>

definition detailsContent :: "tui_lib \<Rightarrow> gotime \<Rightarrow> Model \<Rightarrow> string" where
  "detailsContent lib now m =
     (case details m of
        None \<Rightarrow> Render lib (sy_muted newStyles) ''No task selected.''
      | Some t \<Rightarrow> renderDetails lib now t (det_width m))"

record tea_view =
  v_Content :: string
  v_AltScreen :: bool
  v_WindowTitle :: string

definition View :: "tui_lib \<Rightarrow> (string \<Rightarrow> string) \<Rightarrow> gotime \<Rightarrow> Model \<Rightarrow> tea_view" where
  "View lib trim now m =
     (let v = \<lparr>v_Content = [], v_AltScreen = True, v_WindowTitle = ''tasks''\<rparr>
      in if width m = 0 \<or> height m = 0 then v
         else
           (let (listWidth, detailsWidth) = paneWidths m;
                (listPane, detailsPane) =
                  (if m_focus m = focusDetails then (sy_pane newStyles, sy_activePane newStyles) else (sy_activePane newStyles, sy_pane newStyles));
                (frameX, frameY) = FrameSize lib listPane;
                body = JoinHorizontal lib
                  [Render lib (listPane\<lparr>st_width := Some listWidth, st_height := Some (bodyHeight m)\<rparr>)
                     (listView lib m (listWidth - frameX) (max (bodyHeight m - frameY) 0)),
                   Render lib (detailsPane\<lparr>st_width := Some detailsWidth, st_height := Some (bodyHeight m)\<rparr>)
                     (ViewportView lib m (detailsContent lib now m))]
            in v\<lparr>v_Content := JoinVertical lib [headerView lib trim m, body, footerView lib m]\<rparr>))"

section \<open>Flags\<close>

text \<open>Package \<^verbatim>\<open>flag\<close> with one flag that takes a value.\<close>

datatype flag_error = ErrHelp | BadSyntax string | NotDefined string | NeedsArgument string

text \<open>A name is cut at its first equals sign, except at the start.\<close>

definition splitFlag :: "string \<Rightarrow> string \<times> string option" where
  "splitFlag name =
     (let key = hd name # takeWhile (\<lambda>c. c \<noteq> CHR ''='') (tl name);
          rest = drop (length key) name
      in (key, if rest = [] then None else Some (tl rest)))"

fun parseFlags :: "string \<Rightarrow> string list \<Rightarrow> flag_error + string" where
  "parseFlags path [] = Inr path"
| "parseFlags path (s # args) =
     (if length s < 2 \<or> hd s \<noteq> CHR ''-'' then Inr path
      else if s = ''--'' then Inr path
      else
        (let name = (if s ! 1 = CHR ''-'' then drop 2 s else drop 1 s)
         in if name = [] \<or> hd name = CHR ''-'' \<or> hd name = CHR ''='' then Inl (BadSyntax s)
            else
              (case splitFlag name of (key, val) \<Rightarrow>
                 if key \<noteq> ''file'' then Inl (if key = ''help'' \<or> key = ''h'' then ErrHelp else NotDefined key)
                 else
                   (case val of
                      Some v \<Rightarrow> parseFlags v args
                    | None \<Rightarrow> (case args of [] \<Rightarrow> Inl (NeedsArgument key) | v # args' \<Rightarrow> parseFlags v args')))))"

section \<open>Run\<close>

text \<open>The outside of a run: flags and environment, the files with their links, what Unicode says of case and space, the messages
  of the session and how the program of Bubble Tea ended, and which call of the saving fails.\<close>

record run_io =
  ti_args :: "string list"
  ti_files :: files
  ti_resolve :: "string \<Rightarrow> bool + string"
  ti_ctx :: "ctx_error option"
  ti_unreadable :: bool
  ti_repeated :: "json \<Rightarrow> Task list option"
  ti_lower :: "string \<Rightarrow> string"
  ti_trim :: "string \<Rightarrow> string"
  ti_frame :: "int \<times> int"
  ti_msgs :: "msg list"
  ti_program :: "string option"
  ti_save :: save_env

definition defaultTasksFile :: string where
  "defaultTasksFile = ''apps/10-tui-app/tasks.json''"

definition readFile :: "run_io \<Rightarrow> string \<Rightarrow> string option" where
  "readFile io path =
     (if ti_unreadable io then None
      else case ti_resolve io path of Inl _ \<Rightarrow> None | Inr target \<Rightarrow> map_option fst (ti_files io target))"

definition loadTasks :: "run_io \<Rightarrow> string option \<Rightarrow> load_error + Task list" where
  "loadTasks io data = Load (ti_trim io) (decodeFile (ti_repeated io)) (ti_ctx io) data"

text \<open>The model that the program of Bubble Tea ends with, and whether its messages end it.\<close>

definition finalModel :: "run_io \<Rightarrow> Task list \<Rightarrow> Model" where
  "finalModel io ts = browse (ti_lower io) (ti_trim io) (ti_frame io) (ti_msgs io) (New (ti_lower io) (ti_trim io) ts)"

fun quits :: "(string \<Rightarrow> string) \<Rightarrow> (string \<Rightarrow> string) \<Rightarrow> int \<times> int \<Rightarrow> msg list \<Rightarrow> Model \<Rightarrow> bool" where
  "quits lower trim frame [] m = False"
| "quits lower trim frame (x # xs) m = (case Update lower trim frame x m of (m', quit) \<Rightarrow> quit \<or> quits lower trim frame xs m')"

datatype ta_error = ParseFlags flag_error | LoadTasks load_error | RunProgram string | SaveTasks save_error

text \<open>The error, and the states that the file system goes through. A program that returns without an error has been
  told to quit.\<close>

datatype ta_exit = Exited "ta_error option" "files list" | NotAnExecution

definition run :: "run_io \<Rightarrow> (string \<Rightarrow> string) \<Rightarrow> ta_exit" where
  "run io getenv =
     (let fs = ti_files io;
          default = (if getenv ''TASKS_FILE'' \<noteq> [] then getenv ''TASKS_FILE'' else defaultTasksFile)
      in case parseFlags default (tl (ti_args io)) of
           Inl e \<Rightarrow> Exited (if e = ErrHelp then None else Some (ParseFlags e)) [fs]
         | Inr path \<Rightarrow>
             (case loadTasks io (readFile io path) of
                Inl e \<Rightarrow> Exited (Some (LoadTasks e)) [fs]
              | Inr ts \<Rightarrow>
                  (case ti_program io of
                     Some e \<Rightarrow> Exited (Some (RunProgram e)) [fs]
                   | None \<Rightarrow>
                       if \<not> quits (ti_lower io) (ti_trim io) (ti_frame io) (ti_msgs io) (New (ti_lower io) (ti_trim io) ts) then NotAnExecution
                       else
                         (case toSave (finalModel io ts) of
                            None \<Rightarrow> Exited None [fs]
                          | Some saved \<Rightarrow>
                              (case Save (ti_resolve io) (ti_save io) fs path (Some (encodeTasks saved)) of
                                 (err, states) \<Rightarrow> Exited (map_option SaveTasks err) states)))))"

section \<open>A session\<close>

text \<open>Editing keeps tasks writable: only the status changes, to one of two words.\<close>

lemma same_task_writable:
  assumes "same_task t u" and "t_Status t = t_Status u \<or> t_Status t = ''done'' \<or> t_Status t = ''todo''" and "writable u"
  shows "writable t"
proof -
  have d: "Description t = Description u" using assms(1) by (cases t; cases u) (simp add: same_task_def)
  show ?thesis using assms(2,3) same_task_fields[OF assms(1)] d by (auto simp: writable_def ValidString_ascii)
qed

lemma browser_ok_writable:
  assumes "browser_ok lower trim ts m" and "list_all writable ts"
  shows "list_all writable (tasks m)"
proof -
  note d = browser_okD(1,3)[OF assms(1)]
  have "writable (tasks m ! i)" if i: "i < length (tasks m)" for i
  proof (rule same_task_writable)
    show "same_task (tasks m ! i) (ts ! i)" using list_all2_nthD[OF d(1) i] .
    show "t_Status (tasks m ! i) = t_Status (ts ! i) \<or> t_Status (tasks m ! i) = ''done'' \<or> t_Status (tasks m ! i) = ''todo''"
      using list_all2_nthD[OF d(2) i] .
    show "writable (ts ! i)" using assms(2) i list_all2_lengthD[OF d(1)] by (simp add: list_all_length)
  qed
  then show ?thesis by (simp add: list_all_length)
qed

lemma Save_states:
  assumes "Save resolve env fs path (Some data) = (err, states)" and "fs (sv_tmp env) = None"
    and "\<forall>perm. replaceTarget resolve fs path \<noteq> Some (sv_tmp env, perm)"
  shows "states \<noteq> []" and "last states (sv_tmp env) = None"
    and "st \<in> set states \<Longrightarrow> f \<noteq> sv_tmp env \<Longrightarrow> st f \<noteq> fs f \<Longrightarrow>
      err = None \<and> (\<exists>perm. replaceTarget resolve fs path = Some (f, perm) \<and> st f = Some (data @ [char_of (10::nat)], perm))"
    and "err = None \<Longrightarrow> \<exists>f perm. replaceTarget resolve fs path = Some (f, perm) \<and> last states f = Some (data @ [char_of (10::nat)], perm)"
  using assms unfolding Save_def Let_def
  by (auto split: option.splits save_error.splits if_splits)

text \<open>What a run loads, and what it does with it.\<close>

definition session :: "run_io \<Rightarrow> (string \<Rightarrow> string) \<Rightarrow> (string \<times> Task list) option" where
  "session io getenv =
     (case parseFlags (if getenv ''TASKS_FILE'' \<noteq> [] then getenv ''TASKS_FILE'' else defaultTasksFile) (tl (ti_args io)) of
        Inl _ \<Rightarrow> None
      | Inr path \<Rightarrow> (case loadTasks io (readFile io path) of Inl _ \<Rightarrow> None | Inr ts \<Rightarrow> Some (path, ts)))"

lemma loadTasks_props:
  assumes "loadTasks io data = Inr ts" and "\<And>v us. ti_repeated io v = Some us \<Longrightarrow> list_all writable us"
  shows "list_all writable ts" and "validate (ti_trim io) ts = []" and "ti_ctx io = None"
  using assms decodeFile_writable[of "ti_repeated io" "the data" ts]
  by (auto simp: loadTasks_def Load_def split: option.splits decoded.splits if_splits)

lemma saved_loads_again:
  assumes "loadTasks io data = Inr ts" and "\<And>v us. ti_repeated io v = Some us \<Longrightarrow> list_all writable us"
  shows "loadTasks io (Some (encodeTasks (tasks (finalModel io ts)) @ [char_of (10::nat)])) = Inr (tasks (finalModel io ts))"
proof -
  note l = loadTasks_props[OF assms]
  have ok: "browser_ok (ti_lower io) (ti_trim io) ts (finalModel io ts)" unfolding finalModel_def by (rule browse_ok[OF New_ok])
  have "decodeFile (ti_repeated io) (encodeTasks (tasks (finalModel io ts)) @ [char_of (10::nat)]) = Document (tasks (finalModel io ts))"
    by (rule decode_encode_tasks[OF browser_ok_writable[OF ok l(1)]])
  then show ?thesis using browser_ok_valid[OF ok l(2)] l(3) by (simp add: loadTasks_def Load_def)
qed

lemma run_states:
  assumes "run io getenv = Exited err states"
  obtains (Kept) "states = [ti_files io]" and "err = None \<Longrightarrow> case session io getenv of None \<Rightarrow> True | Some (path, ts) \<Rightarrow> \<not> modified (finalModel io ts)"
  | (Saved) path ts err' where "session io getenv = Some (path, ts)" and "loadTasks io (readFile io path) = Inr ts" and "modified (finalModel io ts)"
      and "Save (ti_resolve io) (ti_save io) (ti_files io) path (Some (encodeTasks (tasks (finalModel io ts)))) = (err', states)" and "err = map_option SaveTasks err'"
proof -
  define path0 where "path0 = (if getenv ''TASKS_FILE'' \<noteq> [] then getenv ''TASKS_FILE'' else defaultTasksFile)"
  note r = assms[unfolded run_def Let_def path0_def[symmetric]]
  note s = session_def[of io getenv, unfolded path0_def[symmetric]]
  show thesis
  proof (cases "parseFlags path0 (tl (ti_args io))")
    case (Inl e)
    then show thesis using r Kept by (simp add: s)
  next
    case p: (Inr path)
    show thesis
    proof (cases "loadTasks io (readFile io path)")
      case (Inl e)
      then show thesis using r p Kept by (auto simp: s)
    next
      case l: (Inr ts)
      show thesis
      proof (cases "ti_program io = None \<and> modified (finalModel io ts)")
        case True
        then obtain err' where "Save (ti_resolve io) (ti_save io) (ti_files io) path (Some (encodeTasks (tasks (finalModel io ts)))) = (err', states)"
          "err = map_option SaveTasks err'"
          using r p l by (auto simp: toSave_def split: if_splits prod.splits)
        then show thesis using Saved[of path ts err'] p l True by (simp add: s)
      next
        case False
        then show thesis using r p l Kept by (auto simp: toSave_def s split: if_splits option.splits)
      qed
    qed
  qed
qed

lemma replaceTarget_read: "readFile io path = Some data \<Longrightarrow> \<exists>f perm. replaceTarget (ti_resolve io) (ti_files io) path = Some (f, perm) \<and> ti_resolve io path = Inr f \<and> ti_files io f = Some (data, perm)"
  by (auto simp: readFile_def replaceTarget_def split: if_splits sum.splits)

section \<open>Properties\<close>

text \<open>(C39) A session of the browser, from file to file, with the JSON and the dates of the code: whatever was done and whatever fails, in every
  state of the file system the files are those at the start, but for the temporary file, and but for the task file once it holds
  exactly the tasks that the browser ended with: it keeps its permissions and loads again as these tasks. That
  happens only after a change. If the run ends without an error, a change is in the file, and the temporary file is gone in any case.\<close>

theorem session_saves_what_it_shows:
  assumes "run io getenv = Exited err states" and "ti_files io (sv_tmp (ti_save io)) = None"
    and "\<forall>v us. ti_repeated io v = Some us \<longrightarrow> list_all writable us"
  shows "states \<noteq> [] \<and> last states (sv_tmp (ti_save io)) = None
    \<and> (\<forall>st\<in>set states. \<forall>f. f \<noteq> sv_tmp (ti_save io) \<and> st f \<noteq> ti_files io f \<longrightarrow>
        (\<exists>path ts old new perm. session io getenv = Some (path, ts) \<and> modified (finalModel io ts) \<and> ti_resolve io path = Inr f
           \<and> ti_files io f = Some (old, perm) \<and> st f = Some (new, perm)
           \<and> loadTasks io (Some old) = Inr ts \<and> loadTasks io (Some new) = Inr (tasks (finalModel io ts))))
    \<and> (err = None \<longrightarrow> (case session io getenv of
         None \<Rightarrow> True
       | Some (path, ts) \<Rightarrow> modified (finalModel io ts) \<longrightarrow>
           (\<exists>f new perm. ti_resolve io path = Inr f \<and> last states f = Some (new, perm) \<and> loadTasks io (Some new) = Inr (tasks (finalModel io ts)))))"
proof (cases rule: run_states[OF assms(1)])
  case 1
  then show ?thesis using assms(2) by (auto split: option.split)
next
  case (2 path ts err')
  obtain old where d: "readFile io path = Some old"
    using 2(2) by (cases "readFile io path") (auto simp: loadTasks_def Load_def split: option.splits)
  obtain f perm where f: "replaceTarget (ti_resolve io) (ti_files io) path = Some (f, perm)" "ti_resolve io path = Inr f" "ti_files io f = Some (old, perm)"
    using replaceTarget_read[OF d] by blast
  have tmp: "\<forall>p. replaceTarget (ti_resolve io) (ti_files io) path \<noteq> Some (sv_tmp (ti_save io), p)" using f assms(2) by auto
  note S = Save_states[OF 2(4) assms(2) tmp]
  have again: "loadTasks io (Some (encodeTasks (tasks (finalModel io ts)) @ [char_of (10::nat)])) = Inr (tasks (finalModel io ts))"
    by (rule saved_loads_again[OF 2(2)]) (rule assms(3)[rule_format])
  have old: "loadTasks io (Some old) = Inr ts" using 2(2) by (simp add: d)
  have a: "\<exists>path ts old new perm. session io getenv = Some (path, ts) \<and> modified (finalModel io ts) \<and> ti_resolve io path = Inr g
           \<and> ti_files io g = Some (old, perm) \<and> st g = Some (new, perm)
           \<and> loadTasks io (Some old) = Inr ts \<and> loadTasks io (Some new) = Inr (tasks (finalModel io ts))"
    if "st \<in> set states" "g \<noteq> sv_tmp (ti_save io)" "st g \<noteq> ti_files io g" for st g
    using S(3)[OF that] f 2(1,3) old again by - (rule exI[of _ path], rule exI[of _ ts], rule exI[of _ old], auto)
  have b: "\<exists>f new perm. ti_resolve io path = Inr f \<and> last states f = Some (new, perm) \<and> loadTasks io (Some new) = Inr (tasks (finalModel io ts))"
    if "err = None" using S(4) f(1,2) again that 2(5) by auto
  show ?thesis using S(1,2) a b 2(1) by auto
qed

text \<open>One task, due on a leap day, is marked as done.\<close>

definition demo_json :: string where
  "demo_json = [CHR 0x7B] @ quote ''tasks'' @ '': ['' @ [CHR 0x7B] @ quote ''ID'' @ '':'' @ quote ''1'' @ '','' @ quote ''title'' @ '':'' @ quote ''a''
     @ '','' @ quote ''status'' @ '':'' @ quote ''todo'' @ '','' @ quote ''priority'' @ '':'' @ quote ''low''
     @ '', '' @ quote ''due'' @ '':'' @ quote ''2024-02-29'' @ [CHR 0x7D] @ '']'' @ [CHR 0x7D]"

definition demo_run :: run_io where
  "demo_run = \<lparr>ti_args = [''tui-app'', ''--file=t''], ti_files = [''t.json'' \<mapsto> (demo_json, 420)], ti_resolve = (\<lambda>p. Inr (p @ ''.json'')),
     ti_ctx = None, ti_unreadable = False, ti_repeated = (\<lambda>_. None), ti_lower = (\<lambda>s. s), ti_trim = (\<lambda>s. s), ti_frame = (4, 2),
     ti_msgs = [WindowSize 80 24, Key ''x'' [], Key ''q'' []], ti_program = None,
     ti_save = \<lparr>sv_ctx = None, sv_fail = None, sv_partial = [], sv_tmp = ''.t''\<rparr>\<rparr>"

definition demo_tasks :: "Task list" where
  "demo_tasks = [\<lparr>ID = ''1'', Title = ''a'', t_Status = ''todo'', Priority = ''low'', Tags = [], t_Due = 63844761600000000000, Description = []\<rparr>]"

lemma demo_load: "loadTasks demo_run (Some demo_json) = Inr demo_tasks"
  by code_simp

definition demo_final :: Model where
  "demo_final = finalModel demo_run demo_tasks"

lemma demo_session: "session demo_run (\<lambda>_. []) = Some (''t'', demo_tasks)"
proof -
  have "parseFlags defaultTasksFile (tl (ti_args demo_run)) = Inr ''t''" by code_simp
  moreover have "readFile demo_run ''t'' = Some demo_json" by (simp add: readFile_def demo_run_def)
  ultimately show ?thesis by (simp add: session_def demo_load)
qed

lemma demo_final_props: "modified demo_final" "map t_Status (tasks demo_final) = [''done'']" "toSave demo_final = Some (tasks demo_final)"
  "quits (ti_lower demo_run) (ti_trim demo_run) (ti_frame demo_run) (ti_msgs demo_run) (New (ti_lower demo_run) (ti_trim demo_run)
     demo_tasks)"
proof -
  show m: "modified demo_final" by code_simp
  show "map t_Status (tasks demo_final) = [''done'']" by code_simp
  show "toSave demo_final = Some (tasks demo_final)" using m by (simp add: toSave_def)
  show "quits (ti_lower demo_run) (ti_trim demo_run) (ti_frame demo_run) (ti_msgs demo_run) (New (ti_lower demo_run) (ti_trim demo_run)
     demo_tasks)" by code_simp
qed

lemma demo_exit: "\<exists>states. run demo_run (\<lambda>_. []) = Exited None states"
proof -
  have p: "parseFlags defaultTasksFile (tl (ti_args demo_run)) = Inr ''t''" by code_simp
  have r: "readFile demo_run ''t'' = Some demo_json" by (simp add: readFile_def demo_run_def)
  have s: "\<exists>states. Save (ti_resolve demo_run) (ti_save demo_run) (ti_files demo_run) ''t'' (Some x) = (None, states)" for x
    by (simp add: Save_def replaceTarget_def demo_run_def Let_def)
  have q: "ti_program demo_run = None" by (simp add: demo_run_def)
  note f = demo_final_props(3)[unfolded demo_final_def] demo_final_props(4)
  show ?thesis using s[of "encodeTasks (tasks demo_final)"] unfolding run_def Let_def
    by (auto simp: p r demo_load q f demo_final_def)
qed

theorem session_saves_what_it_shows_witness:
  "\<exists>states new. run demo_run (\<lambda>_. []) = Exited None states \<and> last states ''t.json'' = Some (new, 420)
    \<and> loadTasks demo_run (Some new) = Inr (tasks demo_final) \<and> map t_Status (tasks demo_final) = [''done'']"
proof -
  obtain states where r: "run demo_run (\<lambda>_. []) = Exited None states" using demo_exit by blast
  have tmp: "ti_files demo_run (sv_tmp (ti_save demo_run)) = None" by (simp add: demo_run_def)
  have rep: "\<forall>v us. ti_repeated demo_run v = Some us \<longrightarrow> list_all writable us" by (simp add: demo_run_def)
  note t = session_saves_what_it_shows[OF r tmp rep]
  obtain f new perm where f: "ti_resolve demo_run ''t'' = Inr f" "last states f = Some (new, perm)" "loadTasks demo_run (Some new) = Inr (tasks demo_final)"
    using t demo_final_props(1) unfolding demo_session demo_final_def by auto
  have e: "f = ''t.json''" using f(1) by (simp add: demo_run_def)
  have "demo_json \<noteq> new"
    using f(3) demo_load demo_final_props(2) by (auto simp: demo_tasks_def)
  then have ne: "''t.json'' \<noteq> sv_tmp (ti_save demo_run) \<and> last states ''t.json'' \<noteq> ti_files demo_run ''t.json''"
    using f(2) by (auto simp: e demo_run_def)
  have "last states \<in> set states" using t by (intro last_in_set) blast
  note kept = t[THEN conjunct2, THEN conjunct2, THEN conjunct1, rule_format, OF this ne]
  have "ti_files demo_run ''t.json'' = Some (demo_json, 420)" by (simp add: demo_run_def)
  then have "perm = 420" using kept f(2) by (auto simp only: e option.inject prod.inject)
  then show ?thesis using r f(2,3) demo_final_props(2) by (auto simp: e)
qed

text \<open>(C40) What the user sees is what is selected: after any messages, the list pane draws a run of consecutive matching tasks, as many
  as fit, with one row each and the text of that row cut to the pane; the selected row is among them and the only one in
  the style of the cursor; and the details pane shows the same task, at the current width.\<close>

theorem drawn_list_shows_selection:
  "let m = browse lower trim frame msgs (New lower trim ts); w = fst (listWindow h m)
   in visible m \<noteq> [] \<and> 0 < h \<longrightarrow>
     0 \<le> w \<and> w \<le> cursor m \<and> cursor m < w + int (length (listRows lib m pw h))
     \<and> int (length (listRows lib m pw h)) = min h (int (length (visible m)))
     \<and> (\<forall>i<length (listRows lib m pw h). \<exists>st.
          listRows lib m pw h ! i = Render lib (st\<lparr>st_width := Some pw\<rparr>) (Truncate lib (rowText (tasks m ! (visible m ! (nat w + i)))) pw)
          \<and> (st = sy_cursorRow newStyles \<longleftrightarrow> w + int i = cursor m))
     \<and> detailsContent lib now m = renderDetails lib now (tasks m ! (visible m ! nat (cursor m))) (det_width m)"
proof -
  define m where "m = browse lower trim frame msgs (New lower trim ts)"
  have ok: "browser_ok lower trim ts m" unfolding m_def by (rule browse_ok[OF New_ok])
  define w where "w = fst (listWindow h m)"
  have main: "0 \<le> w \<and> w \<le> cursor m \<and> cursor m < w + int (length (listRows lib m pw h))
     \<and> int (length (listRows lib m pw h)) = min h (int (length (visible m)))
     \<and> (\<forall>i<length (listRows lib m pw h). \<exists>st.
          listRows lib m pw h ! i = Render lib (st\<lparr>st_width := Some pw\<rparr>) (Truncate lib (rowText (tasks m ! (visible m ! (nat w + i)))) pw)
          \<and> (st = sy_cursorRow newStyles \<longleftrightarrow> w + int i = cursor m))
     \<and> detailsContent lib now m = renderDetails lib now (tasks m ! (visible m ! nat (cursor m))) (det_width m)"
    if v: "visible m \<noteq> []" and h: "0 < h"
  proof -
    have c: "0 \<le> cursor m" "cursor m < int (length (visible m))" using ok v by (auto simp: browser_ok_def)
    have win: "w = max (cursor m - h + 1) 0" "snd (listWindow h m) = min (w + h) (int (length (visible m)))"
      by (simp_all add: w_def listWindow_def Let_def)
    have rows: "listRows lib m pw h = map (\<lambda>pos. Render lib ((rowStyle m pos)\<lparr>st_width := Some pw\<rparr>) (Truncate lib (rowText (tasks m ! (visible m ! pos))) pw))
        [nat w..<nat (min (w + h) (int (length (visible m))))]"
      by (simp add: listRows_def prod.case_eq_if w_def[symmetric] win(2))
    have len: "int (length (listRows lib m pw h)) = min h (int (length (visible m)))" unfolding rows using c h win(1) by auto
    have st: "rowStyle m pos = sy_cursorRow newStyles \<longleftrightarrow> int pos = cursor m" for pos
      by (simp add: rowStyle_def newStyles_def Let_def NewStyle_def)
    have row: "\<exists>st. listRows lib m pw h ! i = Render lib (st\<lparr>st_width := Some pw\<rparr>) (Truncate lib (rowText (tasks m ! (visible m ! (nat w + i)))) pw)
          \<and> (st = sy_cursorRow newStyles \<longleftrightarrow> w + int i = cursor m)" if i: "i < length (listRows lib m pw h)" for i
    proof (rule exI[of _ "rowStyle m (nat w + i)"])
      have k: "nat w + i < nat (min (w + h) (int (length (visible m))))" using i unfolding rows by simp
      have "0 \<le> w" using win(1) by simp
      then show "listRows lib m pw h ! i = Render lib ((rowStyle m (nat w + i))\<lparr>st_width := Some pw\<rparr>) (Truncate lib (rowText (tasks m ! (visible m ! (nat w + i)))) pw)
          \<and> (rowStyle m (nat w + i) = sy_cursorRow newStyles \<longleftrightarrow> w + int i = cursor m)"
        using k i st[of "nat w + i"] unfolding rows by simp
    qed
    have "detailsContent lib now m = renderDetails lib now (tasks m ! (visible m ! nat (cursor m))) (det_width m)"
      using ok v by (simp add: detailsContent_def browser_ok_def)
    then show ?thesis using win(1) c h len row by auto
  qed
  show ?thesis unfolding Let_def m_def[symmetric] w_def[symmetric] using main by blast
qed

definition demo_lib :: tui_lib where
  "demo_lib = \<lparr>Render = (\<lambda>st s. if st_bold st then ''*'' @ s else s), Truncate = (\<lambda>s w. take (nat w) s), JoinHorizontal = concat, JoinVertical = concat,
     FrameSize = (\<lambda>_. (4, 2)), ShortHelpView = (\<lambda>_ _. []), FieldView = filter_value, ViewportView = (\<lambda>_ s. s), Quote = quote\<rparr>"

theorem drawn_list_shows_selection_witness:
  "0 < length (listRows demo_lib demo_final 20 5) \<and> visible demo_final \<noteq> []"
proof -
  have v: "visible demo_final \<noteq> []" by code_simp
  have "demo_final = browse (ti_lower demo_run) (ti_trim demo_run) (ti_frame demo_run) (ti_msgs demo_run) (New (ti_lower demo_run) (ti_trim demo_run)
     demo_tasks)"
    by (simp add: demo_final_def finalModel_def)
  note e = this
  have "int (length (listRows demo_lib demo_final 20 5)) = min 5 (int (length (visible demo_final)))"
    using drawn_list_shows_selection[of "ti_lower demo_run" "ti_trim demo_run" "ti_frame demo_run" "ti_msgs demo_run" demo_tasks 5 demo_lib 20 0] v
    unfolding Let_def e[symmetric] by simp
  moreover have "0 < int (length (visible demo_final))" using v by simp
  ultimately have "0 < int (length (listRows demo_lib demo_final 20 5))" by linarith
  then show ?thesis using v by simp
qed

end
