(* ===== verification/Word_Commands.thy ===== *)
theory Word_Commands
  imports Word_Freq Json Float64
begin

text \<open>
  App 01: the command line (\<^verbatim>\<open>internal/cli\<close>, \<^verbatim>\<open>cmd/wordfreq/main.go\<close>): flags and their defaults, the level of the logs, the
  report as JSON and as a table, and what is written and logged by a run.

  How cobra reads the arguments is a parameter, given the defaults of the flags. The level is read as \<^verbatim>\<open>log/slog\<close> does,
  the table laid out as \<^verbatim>\<open>text/tabwriter\<close> does for lines of equally many cells, whose texts have no tabs or line breaks.
\<close>

section \<open>Log level\<close>

datatype level_error = UnknownName | BadOffset

text \<open>\<open>slog.Level.UnmarshalText\<close>: a name and perhaps an offset. \<open>upper\<close> is \<open>strings.ToUpper\<close>.\<close>

definition UnmarshalText :: "(string \<Rightarrow> string) \<Rightarrow> string \<Rightarrow> level_error + int" where
  "UnmarshalText upper s =
     (let name = takeWhile (\<lambda>c. c \<noteq> CHR ''+'' \<and> c \<noteq> CHR ''-'') s;
          rest = dropWhile (\<lambda>c. c \<noteq> CHR ''+'' \<and> c \<noteq> CHR ''-'') s
      in case (if rest = [] then Some 0 else atoi rest) of
           None \<Rightarrow> Inl BadOffset
         | Some offset \<Rightarrow>
             if upper name = ''DEBUG'' then Inr (wrap64 (- 4 + offset))
             else if upper name = ''INFO'' then Inr offset
             else if upper name = ''WARN'' then Inr (wrap64 (4 + offset))
             else if upper name = ''ERROR'' then Inr (wrap64 (8 + offset))
             else Inl UnknownName)"

datatype run_error =
    EmptyArguments
  | CobraError string
  | InvalidLogLevel level_error
  | CommandFailed cli_error

definition setUp :: "(string \<Rightarrow> string) \<Rightarrow> string \<Rightarrow> run_error + int" where
  "setUp upper logLevel =
     (case UnmarshalText upper logLevel of
        Inl e \<Rightarrow> Inl (InvalidLogLevel e)
      | Inr level \<Rightarrow> Inr level)"

datatype log_record =
    CountFinished nat int nat
  | DedupeFinished nat int nat

text \<open>\<open>InfoContext\<close> writes a record if the level allows it.\<close>

definition info :: "int \<Rightarrow> log_record \<Rightarrow> log_record list" where
  "info level r = (if level \<le> 0 then [r] else [])"

section \<open>The report\<close>

text \<open>Writing a text: \<open>Some (k, e)\<close> is the error \<open>e\<close> after \<open>k\<close> bytes.\<close>

definition emit :: "(string \<Rightarrow> (nat \<times> io_error) option) \<Rightarrow> string \<Rightarrow> cli_error option \<times> string" where
  "emit w s = (case w s of None \<Rightarrow> (None, s) | Some (k, e) \<Rightarrow> (Some (OutputFailed e), take k s))"

definition entryJson :: "Entry \<Rightarrow> json" where
  "entryJson e = JObj [(''word'', JStr (Word e)), (''count'', JNum (itoa (Count_of e)))]"

definition reportJson :: "report \<Rightarrow> json" where
  "reportJson rep =
     JObj [(''total'', JNum (itoa (rp_Total rep))), (''unique'', JNum (itoa (int (rp_Unique rep)))),
           (''words'', JArr (map entryJson (rp_Words rep)))]"

definition writeJSON :: "(string \<Rightarrow> (nat \<times> io_error) option) \<Rightarrow> report \<Rightarrow> cli_error option \<times> string" where
  "writeJSON w rep = emit w (printJson 0 (reportJson rep) @ [CHR 0x0A])"

text \<open>\<open>%.2f\<close>: the nearest hundredth, ties to even.\<close>

definition hundredths :: "int \<Rightarrow> string" where
  "hundredths k = itoa (k div 100) @ ''.'' @ digits (nat (k mod 100 div 10)) @ digits (nat (k mod 10))"

definition fixed2 :: "rat \<Rightarrow> string" where
  "fixed2 x = (if x < 0 then ''-'' else []) @ hundredths (rhe (\<bar>x\<bar> * 100))"

text \<open>The share in \<open>float64\<close>; a total of 0 gives an infinity or no number.\<close>

definition share :: "int \<Rightarrow> int \<Rightarrow> string" where
  "share n tot =
     (case f64_div (f64_mul 100 (f64_of_int n)) (f64_of_int tot) of
        Some x \<Rightarrow> fixed2 x
      | None \<Rightarrow> if n = 0 then ''NaN'' else if 0 < n then ''+Inf'' else ''-Inf'')"

fun tableRows :: "int \<Rightarrow> nat \<Rightarrow> Entry list \<Rightarrow> string list list" where
  "tableRows tot i [] = []"
| "tableRows tot i (e # es) = [itoa (int i + 1), Word e, itoa (Count_of e), share (Count_of e) tot @ ''%''] # tableRows tot (Suc i) es"

text \<open>The tab writer: a cell that ends in a tab is as wide as the widest of its column and two spaces more.\<close>

definition columnWidth :: "string list list \<Rightarrow> nat \<Rightarrow> nat" where
  "columnWidth rows j = foldr max (map (\<lambda>r. length (runes (r ! j)) + 2) rows) 0"

fun padCells :: "(nat \<Rightarrow> nat) \<Rightarrow> nat \<Rightarrow> string list \<Rightarrow> string" where
  "padCells width j [] = []"
| "padCells width j (c # cs) =
     (if cs = [] then c else c @ replicate (width j - length (runes c)) CHR '' '' @ padCells width (Suc j) cs)"

definition Flush :: "string list list \<Rightarrow> string" where
  "Flush rows = concat (map (\<lambda>r. padCells (columnWidth rows) 0 r @ [CHR 0x0A]) rows)"

definition writeTable :: "(string \<Rightarrow> (nat \<times> io_error) option) \<Rightarrow> report \<Rightarrow> cli_error option \<times> string" where
  "writeTable w rep =
     emit w (Flush ([''RANK'', ''WORD'', ''COUNT'', ''SHARE''] # tableRows (rp_Total rep) 0 (rp_Words rep)))"

section \<open>The commands\<close>

definition newCountCommand :: "int \<Rightarrow> countCommand" where
  "newCountCommand gomaxprocs = \<lparr>c_top = 10, minLen = 1, jobs = gomaxprocs, c_json = False\<rparr>"

definition newDedupeCommand :: bool where
  "newDedupeCommand = False"

definition NewRootCommand :: "(string \<Rightarrow> string) \<Rightarrow> string" where
  "NewRootCommand getenv = (let v = getenv ''WORDFREQ_LOG_LEVEL'' in if v \<noteq> [] then v else ''warn'')"

text \<open>What the arguments ask for: nothing valid, a help text, or a command with its log level, flags and operands.\<close>

datatype parsed =
    ParseFailed string
  | HelpText string
  | CountCommand string countCommand "string list"
  | DedupeCommand string bool "string list"

text \<open>The world of a run. \<open>io_parse\<close> gets the defaults of the flags; \<open>io_stdout\<close> is a write to standard output, \<open>io_line\<close> and
  \<open>io_flush\<close> the writes of \<open>dedupe\<close> to its buffer and flushing it.\<close>

record cli_io =
  io_parse :: "string \<Rightarrow> countCommand \<Rightarrow> bool \<Rightarrow> string list \<Rightarrow> parsed"
  io_getenv :: "string \<Rightarrow> string"
  io_gomaxprocs :: int
  io_upper :: "string \<Rightarrow> string"
  io_fold :: "string \<Rightarrow> string"
  io_unicode :: unicode
  io_stdin :: "read_event list"
  io_files :: "string \<Rightarrow> io_error + rd_closer"
  io_finish :: "string list \<Rightarrow> string list"
  io_stdout :: "string \<Rightarrow> (nat \<times> io_error) option"
  io_line :: "string list \<Rightarrow> string \<Rightarrow> io_error option"
  io_flush :: "(nat \<times> io_error) option"

definition countRun :: "cli_io \<Rightarrow> int \<Rightarrow> countCommand \<Rightarrow> string list \<Rightarrow> cli_error option \<times> string \<times> log_record list" where
  "countRun io level c args =
     (case count_run (io_unicode io) (io_fold io) (Open (io_stdin io) (io_files io)) (io_finish io) c args of
        Inl e \<Rightarrow> (Some e, [], [])
      | Inr rep \<Rightarrow>
          let logs = info level (CountFinished (case Names args of Inr names \<Rightarrow> length names | Inl _ \<Rightarrow> 0) (rp_Total rep) (rp_Unique rep));
              (err, out) = (if c_json c then writeJSON (io_stdout io) rep else writeTable (io_stdout io) rep)
          in (err, out, logs))"

definition dedupeRun :: "cli_io \<Rightarrow> int \<Rightarrow> bool \<Rightarrow> string list \<Rightarrow> cli_error option \<times> string \<times> log_record list" where
  "dedupeRun io level withCount args =
     (case dedupe_run (Open (io_stdin io) (io_files io)) (io_line io) (map_option snd (io_flush io)) withCount args of
        (err, ls, counts) \<Rightarrow>
          let text = concat (map (\<lambda>l. l @ [CHR 0x0A]) ls);
              out = (case io_flush io of None \<Rightarrow> text | Some (k, _) \<Rightarrow> take k text)
          in (err, out, (case counts of None \<Rightarrow> [] | Some (n, t, u) \<Rightarrow> info level (DedupeFinished n t u))))"

text \<open>The error, the output and the log records.\<close>

definition run :: "cli_io \<Rightarrow> string list \<Rightarrow> run_error option \<times> string \<times> log_record list" where
  "run io args =
     (if args = [] then (Some EmptyArguments, [], [])
      else
        case io_parse io (NewRootCommand (io_getenv io)) (newCountCommand (io_gomaxprocs io)) newDedupeCommand (tl args) of
          ParseFailed e \<Rightarrow> (Some (CobraError e), [], [])
        | HelpText t \<Rightarrow> (None, t, [])
        | CountCommand logLevel c operands \<Rightarrow>
            (case setUp (io_upper io) logLevel of
               Inl e \<Rightarrow> (Some e, [], [])
             | Inr level \<Rightarrow> (case countRun io level c operands of (err, out, logs) \<Rightarrow> (map_option CommandFailed err, out, logs)))
        | DedupeCommand logLevel withCount operands \<Rightarrow>
            (case setUp (io_upper io) logLevel of
               Inl e \<Rightarrow> (Some e, [], [])
             | Inr level \<Rightarrow> (case dedupeRun io level withCount operands of (err, out, logs) \<Rightarrow> (map_option CommandFailed err, out, logs))))"

definition main :: "cli_io \<Rightarrow> string list \<Rightarrow> int \<times> string \<times> run_error option" where
  "main io args = (case run io args of (err, out, _) \<Rightarrow> (if err \<noteq> None then 1 else 0, out, err))"

section \<open>Words in JSON\<close>

lemma ValidString_append: "ValidString a \<Longrightarrow> ValidString (a @ b) = ValidString b"
  by (induction a rule: ValidString_induct) (simp_all add: ValidString_rune)

lemma ValidString_one: "one_rune p r \<Longrightarrow> ValidString p"
  using ValidString_rune[of p r "[]"] by simp

lemma runes_one: "(r, p) \<in> set (runes d) \<Longrightarrow> r \<noteq> RuneError \<Longrightarrow> one_rune p r"
proof (induction d rule: runes.induct)
  case (1 d)
  show ?case
  proof (cases "d = []")
    case False
    obtain q n where d: "DecodeRune d = (q, n)" by force
    have n: "0 < n" "n \<le> length d" using DecodeRune_size[OF False] d by simp_all
    have "runes d = (q, take n d) # runes (drop n d)" using False d by (simp add: runes.simps[of d])
    then show ?thesis using 1 False d n DecodeRune_take[OF False d] by (auto simp: one_rune_def)
  qed (use 1 in simp)
qed

lemma wordsOf_valid:
  "\<not> isWordRune u RuneError \<Longrightarrow> \<forall>(r, p)\<in>set rs. r \<noteq> RuneError \<longrightarrow> one_rune p r \<Longrightarrow> ValidString w \<Longrightarrow> list_all ValidString (wordsOf u rs w)"
proof (induction u rs w rule: wordsOf.induct)
  case (2 u r p rs w)
  have "ValidString (w @ p)" if "isWordRune u r \<or> isJoiner r"
  proof -
    have "r \<noteq> RuneError" using that 2 by (auto simp: isJoiner_def)
    then show ?thesis using 2 ValidString_one by (auto simp: ValidString_append)
  qed
  then show ?case using 2 by simp
qed simp

lemma long_words_valid:
  assumes "\<not> isWordRune u RuneError" and "\<forall>w. ValidString w \<longrightarrow> ValidString (foldcase w)"
  shows "list_all ValidString (long_words u foldcase m t)"
proof -
  have "list_all ValidString (wordsOf u (runes t) [])" using assms(1) runes_one by (intro wordsOf_valid) auto
  then show ?thesis using assms(2) by (auto simp: long_words_def list_all_iff)
qed

lemma digits_lead: "hd (digits n) = CHR ''0'' \<longleftrightarrow> n = 0"
proof (induction n rule: digits.induct)
  case (1 n)
  have c: "(char_of (k + 48) :: char) = CHR ''0'' \<longleftrightarrow> k = 0" if "k < 10" for k :: nat
  proof
    assume "char_of (k + 48) = CHR ''0''"
    then have "of_char (char_of (k + 48) :: char) = (of_char (CHR ''0'') :: nat)" by simp
    then show "k = 0" using that by simp
  qed (use char_of_byte[of "CHR ''0''" 48] in simp)
  show ?case
  proof (cases "n < 10")
    case False
    then have "n div 10 \<noteq> 0" by simp
    then show ?thesis using 1 False digits_props(3)[of "n div 10"] by (simp add: digits.simps[of n])
  qed (use c in \<open>simp add: digits.simps[of n]\<close>)
qed

lemma number_lit_itoa: "0 \<le> i \<Longrightarrow> number_lit (itoa i)"
  using digits_props[of "nat i"] digits_lead[of "nat i"] by (auto simp: number_lit_def itoa_def digits.simps[of 0])

lemma elems_valid_iff: "elems_valid vs \<longleftrightarrow> list_all texts_valid vs"
  by (induction vs) simp_all

lemma report_valid:
  assumes "0 \<le> rp_Total rep" and "list_all (\<lambda>e. ValidString (Word e) \<and> 0 \<le> Count_of e) (rp_Words rep)"
  shows "texts_valid (reportJson rep)"
proof -
  have a: "byte c < 128 \<Longrightarrow> ValidString (c # s) = ValidString s" for c s
    using ValidString_rune[OF one_rune_ascii, of c s] by simp
  have names: "ValidString ''total''" "ValidString ''unique''" "ValidString ''words''" "ValidString ''word''" "ValidString ''count''"
    by (simp_all add: a)
  have "list_all (\<lambda>e. texts_valid (entryJson e)) (rp_Words rep)"
    using assms(2) by (auto simp: list_all_iff entryJson_def names number_lit_itoa)
  then have "elems_valid (map entryJson (rp_Words rep))" by (simp add: elems_valid_iff list.pred_map comp_def)
  then show ?thesis using assms(1) by (simp add: reportJson_def names number_lit_itoa)
qed

section \<open>What count reports\<close>

text \<open>The first \<open>n\<close> words of a text by falling count and then by the word, or all of them.\<close>

definition ranking :: "string list \<Rightarrow> int \<Rightarrow> string list \<Rightarrow> bool" where
  "ranking ws n best \<longleftrightarrow>
     (\<exists>rest. distinct (best @ rest) \<and> set (best @ rest) = set ws
        \<and> sorted_wrt (\<lambda>a b. count_list ws b < count_list ws a \<or> count_list ws b = count_list ws a \<and> a < b) (best @ rest)
        \<and> length best = (if n = 0 then card (set ws) else min (nat n) (card (set ws))))"

lemma count_run_ranking:
  assumes "\<not> isWordRune u RuneError" and "validate c = None" and "Names args = Inr names" and "mset (finish names) = mset names"
    and "\<forall>n\<in>set names. reads_as (opener n) (contents n) \<and> length (contents n) < maxWordSize"
    and ws: "ws = concat (map (\<lambda>n. long_words u foldcase (minLen c) (contents n)) names)"
  obtains best where "ranking ws (c_top c) best"
    and "count_run u foldcase opener finish c args =
      Inr \<lparr>rp_Total = int (length ws), rp_Unique = card (set ws), rp_Words = map (\<lambda>w. \<lparr>Word = w, Count_of = int (count_list ws w)\<rparr>) best\<rparr>"
proof -
  let ?e = "\<lambda>w. \<lparr>Word = w, Count_of = int (count_list ws w)\<rparr>"
  obtain rep rest where r: "count_run u foldcase opener finish c args = Inr rep" "rp_Total rep = int (length ws)" "rp_Unique rep = card (set ws)"
    "sorted_wrt before (rp_Words rep @ rest)" "mset (rp_Words rep @ rest) = mset (map ?e (remdups ws))"
    "length (rp_Words rep) = (if c_top c = 0 then card (set ws) else min (nat (c_top c)) (card (set ws)))"
    using count_report_exact[where finish = finish and opener = opener and contents = contents and foldcase = foldcase, OF assms(1-5)] unfolding Let_def ws by blast
  let ?all = "rp_Words rep @ rest" and ?best = "map Word (rp_Words rep)"
  have "\<forall>e\<in>set ?all. e = ?e (Word e)" using mset_eq_setD[OF r(5)] by auto
  then have all: "?all = map ?e (map Word ?all)" by (simp add: map_idI)
  have "mset (map Word ?all) = mset (map Word (map ?e (remdups ws)))" unfolding mset_map[of Word] r(5) ..
  then have m: "mset (map Word ?all) = mset (remdups ws)" by (simp add: comp_def)
  have "sorted_wrt before (map ?e (map Word ?all))" using r(4) by (simp only: all[symmetric])
  then have s: "sorted_wrt (\<lambda>a b. before (?e a) (?e b)) (map Word ?all)" by (rule sorted_wrt_map[THEN iffD1])
  have "ranking ws (c_top c) ?best" unfolding ranking_def
  proof (intro exI[of _ "map Word rest"] conjI)
    show "distinct (?best @ map Word rest)" using mset_eq_imp_distinct_iff[OF m] by simp
    show "set (?best @ map Word rest) = set ws" using mset_eq_setD[OF m] by simp
    show "sorted_wrt (\<lambda>a b. count_list ws b < count_list ws a \<or> count_list ws b = count_list ws a \<and> a < b) (?best @ map Word rest)"
      using s by (simp add: before_def)
    show "length ?best = (if c_top c = 0 then card (set ws) else min (nat (c_top c)) (card (set ws)))" using r(6) by simp
  qed
  moreover have "rp_Words rep = map ?e ?best" using all by simp
  then have "rep = \<lparr>rp_Total = int (length ws), rp_Unique = card (set ws), rp_Words = map ?e ?best\<rparr>" using r(2,3) by (intro report.equality) simp_all
  ultimately show thesis using that r(1) by simp
qed

lemma run_count:
  assumes "args \<noteq> []" and "setUp (io_upper io) logLevel = Inr level"
    and "io_parse io (NewRootCommand (io_getenv io)) (newCountCommand (io_gomaxprocs io)) newDedupeCommand (tl args) = CountCommand logLevel c operands"
    and "Names operands = Inr names"
    and "count_run (io_unicode io) (io_fold io) (Open (io_stdin io) (io_files io)) (io_finish io) c operands = Inr rep"
    and "\<forall>s. io_stdout io s = None"
  shows "run io args =
    (None, if c_json c then printJson 0 (reportJson rep) @ [CHR 0x0A]
           else Flush ([''RANK'', ''WORD'', ''COUNT'', ''SHARE''] # tableRows (rp_Total rep) 0 (rp_Words rep)),
     info level (CountFinished (length names) (rp_Total rep) (rp_Unique rep)))"
  using assms by (simp add: run_def countRun_def writeJSON_def writeTable_def emit_def)

lemma newline_read: "delim [CHR 0x0A]" "lexJson [CHR 0x0A] = Some []"
  by (simp_all add: delim_def lexJson_space)

section \<open>The report as JSON\<close>

text \<open>(C8) \<open>wordfreq count --json\<close> writes a report that, parsed again, has the number of words of all inputs, the number of
  different ones, and the most frequent words in order (by falling count, then by the word, as many as asked for)
  with their exact counts: words are runs of word runes and inner joiners, folded and long enough. That holds for every way
  the reads are cut and every order in which the inputs are finished. The log has the same numbers.\<close>

theorem count_json_reads_back:
  assumes "\<not> isWordRune (io_unicode io) RuneError" and "\<forall>w. ValidString w \<longrightarrow> ValidString (io_fold io w)"
    and "args \<noteq> []" and "setUp (io_upper io) logLevel = Inr level"
    and "io_parse io (NewRootCommand (io_getenv io)) (newCountCommand (io_gomaxprocs io)) newDedupeCommand (tl args) = CountCommand logLevel c operands"
    and "validate c = None" and "c_json c" and "Names operands = Inr names" and "mset (io_finish io names) = mset names"
    and "\<forall>n\<in>set names. reads_as (Open (io_stdin io) (io_files io) n) (contents n) \<and> length (contents n) < maxWordSize"
    and "\<forall>s. io_stdout io s = None"
  shows "\<exists>out best. let ws = concat (map (\<lambda>n. long_words (io_unicode io) (io_fold io) (minLen c) (contents n)) names) in
      run io args = (None, out, info level (CountFinished (length names) (int (length ws)) (card (set ws))))
    \<and> ranking ws (c_top c) best
    \<and> parseJson out =
        Some (JObj [(''total'', JNum (itoa (int (length ws)))), (''unique'', JNum (itoa (int (card (set ws))))),
                (''words'', JArr (map (\<lambda>w. JObj [(''word'', JStr w), (''count'', JNum (itoa (int (count_list ws w))))]) best))], [])"
proof -
  define ws where "ws = concat (map (\<lambda>n. long_words (io_unicode io) (io_fold io) (minLen c) (contents n)) names)"
  obtain best where b: "ranking ws (c_top c) best"
    "count_run (io_unicode io) (io_fold io) (Open (io_stdin io) (io_files io)) (io_finish io) c operands =
      Inr \<lparr>rp_Total = int (length ws), rp_Unique = card (set ws), rp_Words = map (\<lambda>w. \<lparr>Word = w, Count_of = int (count_list ws w)\<rparr>) best\<rparr>"
    using count_run_ranking[where finish = "io_finish io" and foldcase = "io_fold io", OF assms(1,6,8,9,10) ws_def] .
  let ?rep = "\<lparr>rp_Total = int (length ws), rp_Unique = card (set ws), rp_Words = map (\<lambda>w. \<lparr>Word = w, Count_of = int (count_list ws w)\<rparr>) best\<rparr>"
  have "list_all ValidString ws"
    using long_words_valid[OF assms(1,2)] by (auto simp: ws_def list_all_iff)
  moreover have "set best \<subseteq> set ws" using b(1) by (auto simp: ranking_def)
  ultimately have "texts_valid (reportJson ?rep)" by (intro report_valid) (auto simp: list_all_iff)
  note parsed = parse_print_json[OF this newline_read, of 0]
  have report: "reportJson ?rep = JObj [(''total'', JNum (itoa (int (length ws)))), (''unique'', JNum (itoa (int (card (set ws))))),
    (''words'', JArr (map (\<lambda>w. JObj [(''word'', JStr w), (''count'', JNum (itoa (int (count_list ws w))))]) best))]"
    by (simp add: reportJson_def entryJson_def comp_def)
  note ran = run_count[OF assms(3-5,8) b(2) assms(11), unfolded if_P[OF assms(7)] report.select_convs]
  show ?thesis unfolding Let_def ws_def[symmetric] using ran b(1) parsed[unfolded report] unfolding report by blast
qed

text \<open>Two files counted with the default flags, in JSON.\<close>

definition demo_io :: "bool \<Rightarrow> cli_io" where
  "demo_io js = \<lparr>io_parse = (\<lambda>l c d as. CountCommand l (c\<lparr>c_json := js\<rparr>) as), io_getenv = (\<lambda>v. []), io_gomaxprocs = 2,
     io_upper = (\<lambda>s. ''WARN''), io_fold = id, io_unicode = ascii, io_stdin = [], io_files = demo_files, io_finish = rev,
     io_stdout = (\<lambda>s. None), io_line = (\<lambda>w l. None), io_flush = None\<rparr>"

lemma demo_io_runs:
  "\<not> isWordRune (io_unicode (demo_io js)) RuneError" "\<forall>w. ValidString w \<longrightarrow> ValidString (io_fold (demo_io js) w)"
  "setUp (io_upper (demo_io js)) ''warn'' = Inr 4"
  "io_parse (demo_io js) (NewRootCommand (io_getenv (demo_io js))) (newCountCommand (io_gomaxprocs (demo_io js))) newDedupeCommand (tl [''wordfreq'', ''a'', ''b''])
     = CountCommand ''warn'' \<lparr>c_top = 10, minLen = 1, jobs = 2, c_json = js\<rparr> [''a'', ''b'']"
  "validate \<lparr>c_top = 10, minLen = 1, jobs = 2, c_json = js\<rparr> = None" "Names [''a'', ''b''] = Inr [''a'', ''b'']"
  "mset (io_finish (demo_io js) [''a'', ''b'']) = mset [''a'', ''b'']"
  "\<forall>n\<in>set [''a'', ''b'']. reads_as (Open (io_stdin (demo_io js)) (io_files (demo_io js)) n) (if n = ''a'' then ''it is'' else ''it'')
     \<and> length (if n = ''a'' then ''it is'' else ''it'') < maxWordSize"
  "\<forall>s. io_stdout (demo_io js) s = None"
  "concat (map (\<lambda>n. long_words (io_unicode (demo_io js)) (io_fold (demo_io js)) 1 (if n = ''a'' then ''it is'' else ''it'')) [''a'', ''b'']) = [''it'', ''is'', ''it'']"
  using demo_files_read[of "''a''"] demo_files_read[of "''b''"] demo_words
  by (simp_all add: demo_io_def isWordRune_def ascii_def setUp_def UnmarshalText_def wrap64_id in64_iff NewRootCommand_def newCountCommand_def validate_def
      Names_def Stdin_def Open_def maxWordSize_def)

theorem count_json_reads_back_witness:
  "\<exists>out best. run (demo_io True) [''wordfreq'', ''a'', ''b''] = (None, out, [])
    \<and> ranking [''it'', ''is'', ''it''] 10 best
    \<and> parseJson out =
        Some (JObj [(''total'', JNum (itoa 3)), (''unique'', JNum (itoa 2)),
                (''words'', JArr (map (\<lambda>w. JObj [(''word'', JStr w), (''count'', JNum (itoa (int (count_list [''it'', ''is'', ''it''] w))))]) best))], [])"
proof -
  let ?c = "\<lparr>c_top = 10, minLen = 1, jobs = 2, c_json = True\<rparr>"
  have "[''wordfreq'', ''a'', ''b''] \<noteq> []" "c_json ?c" by simp_all
  note th = count_json_reads_back[OF demo_io_runs(1,2) this(1) demo_io_runs(3-5) this(2) demo_io_runs(6-9)]
  have "card {''it'', ''is'', ''it''} = (2::nat)" by (simp add: card_insert_if)
  then show ?thesis using th unfolding Let_def countCommand.select_convs demo_io_runs(10) by (simp add: info_def)
qed

section \<open>The report as a table\<close>

text \<open>Lines of four cells in columns, the first three of given widths.\<close>

definition cell :: "nat \<Rightarrow> string \<Rightarrow> string" where
  "cell w a = a @ replicate (w - length (runes a)) CHR '' ''"

definition columns :: "nat \<Rightarrow> nat \<Rightarrow> nat \<Rightarrow> (string \<times> string \<times> string \<times> string) list \<Rightarrow> string" where
  "columns w1 w2 w3 rows = concat (map (\<lambda>(a, b, c, d). cell w1 a @ cell w2 b @ cell w3 c @ d @ [CHR 0x0A]) rows)"

definition fits :: "nat \<Rightarrow> nat \<Rightarrow> nat \<Rightarrow> (string \<times> string \<times> string \<times> string) list \<Rightarrow> bool" where
  "fits w1 w2 w3 rows \<longleftrightarrow>
     list_all (\<lambda>(a, b, c, d). length (runes a) + 2 \<le> w1 \<and> length (runes b) + 2 \<le> w2 \<and> length (runes c) + 2 \<le> w3) rows"

lemma columnWidth_le: "r \<in> set rows \<Longrightarrow> length (runes (r ! j)) + 2 \<le> columnWidth rows j"
  by (induction rows) (auto simp: columnWidth_def)

lemma Flush_columns:
  assumes "rows = map (\<lambda>(a, b, c, d). [a, b, c, d]) qs"
  shows "\<exists>w1 w2 w3. Flush rows = columns w1 w2 w3 qs \<and> fits w1 w2 w3 qs"
proof (intro exI conjI)
  let ?w = "columnWidth rows"
  show "Flush rows = columns (?w 0) (?w 1) (?w 2) qs"
    unfolding Flush_def columns_def assms map_map by (rule arg_cong[of _ _ concat]) (auto simp: cell_def eval_nat_numeral)
  have "length (runes ([a, b, c, d] ! j)) + 2 \<le> ?w j" if "(a, b, c, d) \<in> set qs" for a b c d j
    using that by (intro columnWidth_le) (force simp: assms)
  from this[of _ _ _ _ 0] this[of _ _ _ _ 1] this[of _ _ _ _ 2]
  show "fits (?w 0) (?w 1) (?w 2) qs" by (fastforce simp: fits_def list_all_iff)
qed

lemma tableRows_enumerate:
  "tableRows tot i es = map (\<lambda>(k, e). [itoa (int k + 1), Word e, itoa (Count_of e), share (Count_of e) tot @ ''%'']) (enumerate i es)"
  by (induction tot i es rule: tableRows.induct) simp_all

text \<open>The share is rounded twice, to \<open>float64\<close> and to hundredths.\<close>

lemma share_accurate:
  assumes "0 < n" and "n \<le> t" and "t \<le> 2 ^ 46"
  shows "\<exists>k. share n t = hundredths k \<and> \<bar>of_int k / 100 - 100 * of_int n / (of_int t :: rat)\<bar> \<le> 1 / 200 + 1 / 10 ^ 12"
proof -
  define x where "x = 100 * of_int n / (of_int t :: rat)"
  have t: "(0::rat) < of_int t" "(of_int n :: rat) \<le> of_int t" using assms by simp_all
  then have x: "0 < x" "x \<le> 100" using assms(1) by (simp_all add: x_def divide_le_eq)
  have "f64_mul 100 (f64_of_int n) = rnd64 (of_int (100 * n))" using assms f64_of_int_exact[of n] by (simp add: f64_mul_def)
  also have "\<dots> = of_int (100 * n)" by (rule rnd64_of_int) (use assms in simp)
  finally have s: "share n t = fixed2 (rnd64 x)"
    using assms f64_of_int_exact[of t] t(1) by (simp add: share_def f64_div_def x_def)
  have pos: "0 \<le> rnd64 x" using x by (intro rnd64_nonneg) simp
  define k where "k = rhe (rnd64 x * 100)"
  have k: "share n t = hundredths k" using pos s by (simp add: fixed2_def k_def)
  have r: "\<bar>of_int k - rnd64 x * 100\<bar> \<le> 1 / 2" unfolding k_def by (rule rhe_error)
  define d where "d = \<bar>rnd64 x - x\<bar>"
  have "d * 9007199254740992 \<le> 100" using rnd64_error[OF x(1)] x(2) by (simp add: d_def)
  then have "d \<le> 1 / 1000000000000" by linarith
  then have "rnd64 x - x \<le> 1 / 1000000000000" "x - rnd64 x \<le> 1 / 1000000000000" unfolding d_def abs_le_iff by simp_all
  moreover have "of_int k - rnd64 x * 100 \<le> 1 / 2" "rnd64 x * 100 - of_int k \<le> 1 / 2" using r by linarith+
  ultimately have "\<bar>of_int k / 100 - x\<bar> \<le> 1 / 200 + 1 / 1000000000000" by (intro abs_leI; linarith)
  then show ?thesis using k by (auto simp: x_def)
qed

text \<open>(C25) The table of \<open>wordfreq count\<close> has a heading and one line for each of the most frequent words, in order, with
  its rank, its exact count and its share of all words, off by at most half of a hundredth of a percent (and a little more, from the
  \<open>float64\<close> division). In every line a column starts at the same place, at least two spaces after the text before it.\<close>

theorem count_table_aligned_and_accurate:
  assumes "\<not> isWordRune (io_unicode io) RuneError"
    and "args \<noteq> []" and "setUp (io_upper io) logLevel = Inr level"
    and "io_parse io (NewRootCommand (io_getenv io)) (newCountCommand (io_gomaxprocs io)) newDedupeCommand (tl args) = CountCommand logLevel c operands"
    and "validate c = None" and "\<not> c_json c" and "Names operands = Inr names" and "mset (io_finish io names) = mset names"
    and "\<forall>n\<in>set names. reads_as (Open (io_stdin io) (io_files io) n) (contents n) \<and> length (contents n) < maxWordSize"
    and "\<forall>s. io_stdout io s = None"
    and "ws = concat (map (\<lambda>n. long_words (io_unicode io) (io_fold io) (minLen c) (contents n)) names)" and "length ws \<le> 2 ^ 46"
  shows "\<exists>best pct w1 w2 w3.
      (let rows = (''RANK'', ''WORD'', ''COUNT'', ''SHARE'') #
             map (\<lambda>(i, w). (itoa (int i + 1), w, itoa (int (count_list ws w)), hundredths (pct w) @ ''%'')) (enumerate 0 best)
       in run io args = (None, columns w1 w2 w3 rows, info level (CountFinished (length names) (int (length ws)) (card (set ws))))
        \<and> fits w1 w2 w3 rows)
    \<and> ranking ws (c_top c) best
    \<and> (\<forall>w\<in>set best. \<bar>of_int (pct w) / 100 - 100 * of_nat (count_list ws w) / (of_nat (length ws) :: rat)\<bar> \<le> 1 / 200 + 1 / 10 ^ 12)"
proof -
  let ?e = "\<lambda>w. \<lparr>Word = w, Count_of = int (count_list ws w)\<rparr>" and ?t = "int (length ws)"
  obtain best where b: "ranking ws (c_top c) best"
    "count_run (io_unicode io) (io_fold io) (Open (io_stdin io) (io_files io)) (io_finish io) c operands =
      Inr \<lparr>rp_Total = ?t, rp_Unique = card (set ws), rp_Words = map ?e best\<rparr>"
    using count_run_ranking[where finish = "io_finish io" and foldcase = "io_fold io", OF assms(1,5,7,8,9,11)] .
  have sub: "set best \<subseteq> set ws" using b(1) by (auto simp: ranking_def)
  have "\<forall>w\<in>set best. \<exists>k. share (int (count_list ws w)) ?t = hundredths k
      \<and> \<bar>of_int k / 100 - 100 * of_int (int (count_list ws w)) / (of_int ?t :: rat)\<bar> \<le> 1 / 200 + 1 / 10 ^ 12"
  proof
    fix w assume "w \<in> set best"
    then have "0 < count_list ws w" using sub by (metis count_list_0_iff gr0I subsetD)
    moreover have "count_list ws w \<le> length ws" by (rule count_le_length)
    moreover have "?t \<le> 2 ^ 46" using of_nat_mono[OF assms(12), where 'a = int] by simp
    ultimately show "\<exists>k. share (int (count_list ws w)) ?t = hundredths k
      \<and> \<bar>of_int k / 100 - 100 * of_int (int (count_list ws w)) / (of_int ?t :: rat)\<bar> \<le> 1 / 200 + 1 / 10 ^ 12"
      by (intro share_accurate) simp_all
  qed
  then obtain pct where pct: "\<forall>w\<in>set best. share (int (count_list ws w)) ?t = hundredths (pct w)
      \<and> \<bar>of_int (pct w) / 100 - 100 * of_int (int (count_list ws w)) / (of_int ?t :: rat)\<bar> \<le> 1 / 200 + 1 / 10 ^ 12"
    by (rule bchoice[THEN exE])
  define rows where "rows = (''RANK'', ''WORD'', ''COUNT'', ''SHARE'') #
    map (\<lambda>(i, w). (itoa (int i + 1), w, itoa (int (count_list ws w)), hundredths (pct w) @ ''%'')) (enumerate 0 best)"
  have "enumerate 0 (map ?e best) = map (\<lambda>(i, w). (i, ?e w)) (enumerate 0 best)"
    by (simp add: enumerate_map_upt enumerate_eq_zip zip_map2)
  moreover have "\<forall>(i, w)\<in>set (enumerate 0 best). w \<in> set best" by (auto simp: in_set_enumerate_eq)
  ultimately have "tableRows ?t 0 (map ?e best) = map (\<lambda>(a, b, c, d). [a, b, c, d]) (tl rows)"
    using pct by (auto simp: tableRows_enumerate rows_def)
  then have "[''RANK'', ''WORD'', ''COUNT'', ''SHARE''] # tableRows ?t 0 (map ?e best) = map (\<lambda>(a, b, c, d). [a, b, c, d]) rows"
    by (simp add: rows_def)
  from Flush_columns[OF this] obtain w1 w2 w3 where
    f: "Flush ([''RANK'', ''WORD'', ''COUNT'', ''SHARE''] # tableRows ?t 0 (map ?e best)) = columns w1 w2 w3 rows" "fits w1 w2 w3 rows" by blast
  note ran = run_count[OF assms(2-4,7) b(2) assms(10), unfolded if_not_P[OF assms(6)] report.select_convs f(1)]
  show ?thesis
    using ran f(2) b(1) pct unfolding Let_def rows_def of_int_of_nat_eq by blast
qed

theorem count_table_aligned_and_accurate_witness:
  "\<exists>best pct w1 w2 w3.
      (let rows = (''RANK'', ''WORD'', ''COUNT'', ''SHARE'') #
             map (\<lambda>(i, w). (itoa (int i + 1), w, itoa (int (count_list [''it'', ''is'', ''it''] w)), hundredths (pct w) @ ''%'')) (enumerate 0 best)
       in run (demo_io False) [''wordfreq'', ''a'', ''b''] = (None, columns w1 w2 w3 rows, []) \<and> fits w1 w2 w3 rows)
    \<and> ranking [''it'', ''is'', ''it''] 10 best
    \<and> (\<forall>w\<in>set best. \<bar>of_int (pct w) / 100 - 100 * of_nat (count_list [''it'', ''is'', ''it''] w) / (3 :: rat)\<bar> \<le> 1 / 200 + 1 / 10 ^ 12)"
proof -
  let ?c = "\<lparr>c_top = 10, minLen = 1, jobs = 2, c_json = False\<rparr>"
  have c: "[''wordfreq'', ''a'', ''b''] \<noteq> []" "\<not> c_json ?c" "length [''it'', ''is'', ''it''] \<le> 2 ^ 46" by simp_all
  have ws: "[''it'', ''is'', ''it''] = concat (map (\<lambda>n. long_words (io_unicode (demo_io False)) (io_fold (demo_io False)) (minLen ?c)
     (if n = ''a'' then ''it is'' else ''it'')) [''a'', ''b''])"
    using demo_io_runs(10) by simp
  note th = count_table_aligned_and_accurate[OF demo_io_runs(1) c(1) demo_io_runs(3-5) c(2) demo_io_runs(6-9) ws c(3)]
  have e: "info 4 r = []" "c_top ?c = 10" "(of_nat (length [''it'', ''is'', ''it'']) :: rat) = 3" for r by (simp_all add: info_def)
  show ?thesis using th unfolding e .
qed

end
