(* ===== verification/Order_Queries.thy ===== *)
theory Order_Queries
  imports Order_Service
begin

text \<open>
  App 06: the query functions (\<^verbatim>\<open>internal/db/sqlc\<close>) between the store and the driver: parameters and columns as values, the
  loop over a result set with its errors and its closing, the iterator that feeds \<^verbatim>\<open>COPY\<close>, and the store's transaction and
  listing over them.

  pgx is a parameter, a record \<open>dbtx\<close> of its operations on a connection, with the laws of the locale \<open>pgx_conn\<close>: a
  statement is answered on an idle connection with the rows the SQL text means (\<open>sql\<close>, over the tables of \<open>Order_Service\<close>) or
  fails, at once or between two rows; a result set keeps the connection busy until it is read to its end or closed. The
  locale is interpreted on connections over those tables.
\<close>

section \<open>Values and statements\<close>

datatype val = VInt int | VText string | VTime gotime

datatype stmt = createUser | getUser | lockUser | createOrder | listOrders | listOrdersAfter | updateOrderTotal

text \<open>The columns of a row, and reading them into a struct.\<close>

definition userRow :: "User \<Rightarrow> val list" where
  "userRow u = [VInt (u_ID u), VText (u_Email u), VText (u_Name u), VTime (u_CreatedAt u)]"

definition orderRow :: "Order \<Rightarrow> val list" where
  "orderRow r = [VInt (o_ID r), VInt (o_UserID r), VInt (TotalCents r), VTime (o_CreatedAt r)]"

fun scanUser :: "val list \<Rightarrow> pg_error + User" where
  "scanUser [VInt i, VText e, VText n, VTime t] = Inr \<lparr>u_ID = i, u_Email = e, u_Name = n, u_CreatedAt = t\<rparr>"
| "scanUser _ = Inl OtherPg"

fun scanOrder :: "val list \<Rightarrow> pg_error + Order" where
  "scanOrder [VInt i, VInt u, VInt c, VTime t] = Inr \<lparr>o_ID = i, o_UserID = u, TotalCents = c, o_CreatedAt = t, o_Items = []\<rparr>"
| "scanOrder _ = Inl OtherPg"

fun scanID :: "val list \<Rightarrow> pg_error + int" where
  "scanID [VInt i] = Inr i"
| "scanID _ = Inl OtherPg"

text \<open>What the statements mean: the rows they return and the tables after them. A new row gets the identifier \<open>newID\<close> and
  the time \<open>now\<close>. No row is an empty result.\<close>

definition one_row :: "('a \<Rightarrow> val list) \<Rightarrow> pg_error + 'a \<Rightarrow> pg_error + val list list" where
  "one_row cols res =
     (case res of
        Inl e \<Rightarrow> if e = ErrNoRows then Inr [] else Inl e
      | Inr x \<Rightarrow> Inr [cols x])"

definition sql_createUser :: "val list \<Rightarrow> int \<Rightarrow> gotime \<Rightarrow> db \<Rightarrow> (pg_error + val list list) \<times> db" where
  "sql_createUser args newID now d =
     (case args of
        [VText email, VText name] \<Rightarrow> (case q_CreateUser None newID now email name d of (res, d') \<Rightarrow> (one_row userRow res, d'))
      | _ \<Rightarrow> (Inl OtherPg, d))"

definition sql_getUser :: "val list \<Rightarrow> db \<Rightarrow> (pg_error + val list list) \<times> db" where
  "sql_getUser args d =
     (case args of
        [VInt i] \<Rightarrow> (one_row userRow (q_GetUser None i d), d)
      | _ \<Rightarrow> (Inl OtherPg, d))"

definition sql_lockUser :: "val list \<Rightarrow> db \<Rightarrow> (pg_error + val list list) \<times> db" where
  "sql_lockUser args d =
     (case args of
        [VInt i] \<Rightarrow> (one_row (\<lambda>u. [VInt (u_ID u)]) (q_GetUser None i d), d)
      | _ \<Rightarrow> (Inl OtherPg, d))"

definition sql_createOrder :: "val list \<Rightarrow> int \<Rightarrow> gotime \<Rightarrow> db \<Rightarrow> (pg_error + val list list) \<times> db" where
  "sql_createOrder args newID now d =
     (case args of
        [VInt userID] \<Rightarrow>
          (case q_CreateOrder None newID now userID d of
             Inl e \<Rightarrow> (one_row orderRow (Inl e), d)
           | Inr (r, d') \<Rightarrow> (one_row orderRow (Inr r), d'))
      | _ \<Rightarrow> (Inl OtherPg, d))"

definition sql_updateOrderTotal :: "val list \<Rightarrow> db \<Rightarrow> (pg_error + val list list) \<times> db" where
  "sql_updateOrderTotal args d =
     (case args of
        [VInt oid] \<Rightarrow>
          (case q_UpdateOrderTotal None oid d of
             Inl e \<Rightarrow> (one_row orderRow (Inl e), d)
           | Inr (r, d') \<Rightarrow> (one_row orderRow (Inr r), d'))
      | _ \<Rightarrow> (Inl OtherPg, d))"

definition sql_listOrders :: "val list \<Rightarrow> db \<Rightarrow> (pg_error + val list list) \<times> db" where
  "sql_listOrders args d =
     (case args of
        [VInt userID, VInt rowLimit] \<Rightarrow> (map_sum id (map orderRow) (q_ListOrders None userID rowLimit d), d)
      | _ \<Rightarrow> (Inl OtherPg, d))"

definition sql_listOrdersAfter :: "val list \<Rightarrow> db \<Rightarrow> (pg_error + val list list) \<times> db" where
  "sql_listOrdersAfter args d =
     (case args of
        [VInt userID, VTime t, VInt i, VInt rowLimit] \<Rightarrow>
          (map_sum id (map orderRow) (q_ListOrdersAfter None userID \<lparr>c_CreatedAt = t, c_ID = i\<rparr> rowLimit d), d)
      | _ \<Rightarrow> (Inl OtherPg, d))"

fun sql :: "stmt \<Rightarrow> val list \<Rightarrow> int \<Rightarrow> gotime \<Rightarrow> db \<Rightarrow> (pg_error + val list list) \<times> db" where
  "sql createUser args newID now d = sql_createUser args newID now d"
| "sql getUser args newID now d = sql_getUser args d"
| "sql lockUser args newID now d = sql_lockUser args d"
| "sql createOrder args newID now d = sql_createOrder args newID now d"
| "sql updateOrderTotal args newID now d = sql_updateOrderTotal args d"
| "sql listOrders args newID now d = sql_listOrders args d"
| "sql listOrdersAfter args newID now d = sql_listOrdersAfter args d"

section \<open>The iterator of copied rows\<close>

record InsertOrderItemsParams =
  OrderID :: int
  Sku :: string
  p_Quantity :: int
  UnitPrice :: int

record iteratorForInsertOrderItems =
  it_rows :: "InsertOrderItemsParams list"
  skippedFirstNextCall :: bool

definition iter_Next :: "iteratorForInsertOrderItems \<Rightarrow> bool \<times> iteratorForInsertOrderItems" where
  "iter_Next it =
     (if it_rows it = [] then (False, it)
      else if \<not> skippedFirstNextCall it then (True, it\<lparr>skippedFirstNextCall := True\<rparr>)
      else let it' = it\<lparr>it_rows := tl (it_rows it)\<rparr> in (0 < length (it_rows it'), it'))"

definition iter_Values :: "iteratorForInsertOrderItems \<Rightarrow> val list" where
  "iter_Values it =
     (let r = hd (it_rows it) in [VInt (OrderID r), VText (Sku r), VInt (p_Quantity r), VInt (UnitPrice r)])"

definition iter_Err :: "iteratorForInsertOrderItems \<Rightarrow> pg_error option" where
  "iter_Err it = None"

text \<open>A reader of the iterator calls \<open>Next\<close> and, as long as it is true, \<open>Values\<close>.\<close>

function drain :: "iteratorForInsertOrderItems \<Rightarrow> val list list" where
  "drain it = (case iter_Next it of (b, it') \<Rightarrow> if b then iter_Values it' # drain it' else [])"
  by pat_completeness auto
termination
  by (relation "measure (\<lambda>it. 2 * length (it_rows it) + (if skippedFirstNextCall it then 0 else 1))")
    (auto simp: iter_Next_def Let_def split: if_splits)

declare drain.simps [simp del]

definition copyItem :: "val list \<Rightarrow> (int \<times> Item) option" where
  "copyItem vs =
     (case vs of
        [VInt oid, VText sku, VInt q, VInt p] \<Rightarrow> Some (oid, \<lparr>SKU = sku, Quantity = q, UnitPriceCents = p\<rparr>)
      | _ \<Rightarrow> None)"

text \<open>\<^verbatim>\<open>COPY\<close> into \<^verbatim>\<open>order_items\<close> with these columns.\<close>

definition copy_rows :: "val list list \<Rightarrow> db \<Rightarrow> pg_error + db" where
  "copy_rows rows d =
     (if list_all (\<lambda>vs. copyItem vs \<noteq> None) rows then q_InsertOrderItems None (List.map_filter copyItem rows) d
      else Inl OtherPg)"

section \<open>The query functions\<close>

text \<open>What the code calls of pgx: \<open>QueryRow\<close> with the row's \<open>Scan\<close>, \<open>Query\<close>, the result set and \<open>CopyFrom\<close>.\<close>

record ('s, 'r) dbtx =
  tx_QueryRow :: "stmt \<Rightarrow> val list \<Rightarrow> 's \<Rightarrow> (pg_error + val list) \<times> 's"
  tx_Query :: "stmt \<Rightarrow> val list \<Rightarrow> 's \<Rightarrow> (pg_error + 'r) \<times> 's"
  rows_Next :: "'r \<Rightarrow> 's \<Rightarrow> bool \<times> 'r \<times> 's"
  rows_Values :: "'r \<Rightarrow> val list"
  rows_Err :: "'r \<Rightarrow> pg_error option"
  rows_Close :: "'r \<Rightarrow> 's \<Rightarrow> 's"
  tx_CopyFrom :: "string \<Rightarrow> string list \<Rightarrow> iteratorForInsertOrderItems \<Rightarrow> 's \<Rightarrow> (pg_error + nat) \<times> 's"

definition query_one :: "('s, 'r) dbtx \<Rightarrow> (val list \<Rightarrow> pg_error + 'a) \<Rightarrow> stmt \<Rightarrow> val list \<Rightarrow> 's \<Rightarrow> (pg_error + 'a) \<times> 's" where
  "query_one q scan st args s =
     (case tx_QueryRow q st args s of
        (Inl e, s') \<Rightarrow> (Inl e, s')
      | (Inr vs, s') \<Rightarrow> (scan vs, s'))"

definition Queries_CreateUser :: "('s, 'r) dbtx \<Rightarrow> string \<Rightarrow> string \<Rightarrow> 's \<Rightarrow> (pg_error + User) \<times> 's" where
  "Queries_CreateUser q email name s = query_one q scanUser createUser [VText email, VText name] s"

definition Queries_GetUser :: "('s, 'r) dbtx \<Rightarrow> int \<Rightarrow> 's \<Rightarrow> (pg_error + User) \<times> 's" where
  "Queries_GetUser q i s = query_one q scanUser getUser [VInt i] s"

definition Queries_LockUser :: "('s, 'r) dbtx \<Rightarrow> int \<Rightarrow> 's \<Rightarrow> (pg_error + int) \<times> 's" where
  "Queries_LockUser q i s = query_one q scanID lockUser [VInt i] s"

definition Queries_CreateOrder :: "('s, 'r) dbtx \<Rightarrow> int \<Rightarrow> 's \<Rightarrow> (pg_error + Order) \<times> 's" where
  "Queries_CreateOrder q userID s = query_one q scanOrder createOrder [VInt userID] s"

definition Queries_UpdateOrderTotal :: "('s, 'r) dbtx \<Rightarrow> int \<Rightarrow> 's \<Rightarrow> (pg_error + Order) \<times> 's" where
  "Queries_UpdateOrderTotal q i s = query_one q scanOrder updateOrderTotal [VInt i] s"

definition Queries_InsertOrderItems :: "('s, 'r) dbtx \<Rightarrow> InsertOrderItemsParams list \<Rightarrow> 's \<Rightarrow> (pg_error + nat) \<times> 's" where
  "Queries_InsertOrderItems q arg s =
     tx_CopyFrom q ''order_items'' [''order_id'', ''sku'', ''quantity'', ''unit_price_cents'']
       \<lparr>it_rows = arg, skippedFirstNextCall = False\<rparr> s"

text \<open>The loop over a result set. It ends if the result set does: not returning is \<open>None\<close>.\<close>

partial_function (option) collect ::
  "('s, 'r) dbtx \<Rightarrow> (val list \<Rightarrow> pg_error + 'a) \<Rightarrow> 'a list \<Rightarrow> 'r \<Rightarrow> 's \<Rightarrow> ((pg_error + 'a list) \<times> 'r \<times> 's) option" where
  "collect q scan items r s =
     (case rows_Next q r s of
        (b, r1, s1) \<Rightarrow>
          if \<not> b then Some (case rows_Err q r1 of Some e \<Rightarrow> Inl e | None \<Rightarrow> Inr items, r1, s1)
          else
            (case scan (rows_Values q r1) of
               Inl e \<Rightarrow> Some (Inl e, r1, s1)
             | Inr i \<Rightarrow> collect q scan (items @ [i]) r1 s1))"

definition query_many :: "('s, 'r) dbtx \<Rightarrow> (val list \<Rightarrow> pg_error + 'a) \<Rightarrow> stmt \<Rightarrow> val list \<Rightarrow> 's \<Rightarrow> ((pg_error + 'a list) \<times> 's) option" where
  "query_many q scan st args s =
     (case tx_Query q st args s of
        (Inl e, s1) \<Rightarrow> Some (Inl e, s1)
      | (Inr r, s1) \<Rightarrow> map_option (\<lambda>(res, r2, s2). (res, rows_Close q r2 s2)) (collect q scan [] r s1))"

definition Queries_ListOrders :: "('s, 'r) dbtx \<Rightarrow> int \<Rightarrow> int \<Rightarrow> 's \<Rightarrow> ((pg_error + Order list) \<times> 's) option" where
  "Queries_ListOrders q userID rowLimit s = query_many q scanOrder listOrders [VInt userID, VInt rowLimit] s"

definition Queries_ListOrdersAfter :: "('s, 'r) dbtx \<Rightarrow> int \<Rightarrow> gotime \<Rightarrow> int \<Rightarrow> int \<Rightarrow> 's \<Rightarrow> ((pg_error + Order list) \<times> 's) option" where
  "Queries_ListOrdersAfter q userID afterCreatedAt afterID rowLimit s =
     query_many q scanOrder listOrdersAfter [VInt userID, VTime afterCreatedAt, VInt afterID, VInt rowLimit] s"

section \<open>The store over the query functions\<close>

text \<open>The function that \<open>CreateOrder\<close> runs in a transaction, \<open>q\<close> being the queries on it.\<close>

definition placeOrder :: "('s, 'r) dbtx \<Rightarrow> int \<Rightarrow> Item list \<Rightarrow> 's \<Rightarrow> (tx_error + Order) \<times> 's" where
  "placeOrder q userID items s =
     (case Queries_LockUser q userID s of
        (Inl e, s1) \<Rightarrow> (Inl (if e = ErrNoRows then TxUserNotFound else TxPg e), s1)
      | (Inr _, s1) \<Rightarrow>
          (case Queries_CreateOrder q userID s1 of
             (Inl e, s2) \<Rightarrow> (Inl (TxPg e), s2)
           | (Inr row, s2) \<Rightarrow>
               let params = map (\<lambda>it. \<lparr>OrderID = o_ID row, Sku = SKU it, p_Quantity = Quantity it, UnitPrice = UnitPriceCents it\<rparr>) items
               in case Queries_InsertOrderItems q params s2 of
                    (Inl e, s3) \<Rightarrow> (Inl (TxPg e), s3)
                  | (Inr _, s3) \<Rightarrow>
                      (case Queries_UpdateOrderTotal q (o_ID row) s3 of
                         (Inl e, s4) \<Rightarrow> (Inl (TxPg e), s4)
                       | (Inr row2, s4) \<Rightarrow> (Inr ((orderFromRow row2)\<lparr>o_Items := items\<rparr>), s4))))"

definition fetchUser :: "('s, 'r) dbtx \<Rightarrow> int \<Rightarrow> 's \<Rightarrow> (store_error + User) \<times> 's" where
  "fetchUser q i s =
     (case Queries_GetUser q i s of
        (Inl e, s1) \<Rightarrow> (Inl (if e = ErrNoRows then ErrUserNotFound else Internal), s1)
      | (Inr row, s1) \<Rightarrow> (Inr row, s1))"

definition fetchOrders :: "('s, 'r) dbtx \<Rightarrow> int \<Rightarrow> Cursor option \<Rightarrow> int \<Rightarrow> 's \<Rightarrow> ((store_error + OrderPage) \<times> 's) option" where
  "fetchOrders q userID after limit0 s =
     (case fetchUser q userID s of
        (Inl e, s1) \<Rightarrow> Some (Inl e, s1)
      | (Inr _, s1) \<Rightarrow>
          let limit1 = (if limit0 \<le> 0 then DefaultPageSize else limit0);
              limit = min limit1 MaxPageSize;
              rowLimit = limit + 1
          in map_option (\<lambda>(res, s2).
               (case res of
                  Inl e \<Rightarrow> (Inl Internal, s2)
                | Inr rows \<Rightarrow>
                    let rows1 = (if limit < int (length rows) then take (nat limit) rows else rows);
                        nxt = (if limit < int (length rows) then Some \<lparr>c_CreatedAt = o_CreatedAt (last rows1), c_ID = o_ID (last rows1)\<rparr> else None)
                    in (Inr \<lparr>Orders = map orderFromRow rows1, Next = nxt\<rparr>, s2)))
             (case after of
                None \<Rightarrow> Queries_ListOrders q userID rowLimit s1
              | Some c \<Rightarrow> Queries_ListOrdersAfter q userID (c_CreatedAt c) (c_ID c) rowLimit s1))"

section \<open>Columns and copied rows\<close>

lemma scan_columns [simp]:
  "scanUser (userRow u) = Inr u" "scanOrder (orderRow r) = Inr (orderFromRow r)" "scanID [VInt i] = Inr i"
  by (simp_all add: userRow_def orderRow_def orderFromRow_def)

lemma orderFromRow_twice [simp]: "orderFromRow (orderFromRow r) = orderFromRow r"
  by (simp add: orderFromRow_def)

text \<open>The iterator yields every row once, in order, although its first \<open>Next\<close> leaves the list alone.\<close>

definition paramValues :: "InsertOrderItemsParams \<Rightarrow> val list" where
  "paramValues r = [VInt (OrderID r), VText (Sku r), VInt (p_Quantity r), VInt (UnitPrice r)]"

lemma drain_rest: "xs \<noteq> [] \<Longrightarrow> drain \<lparr>it_rows = xs, skippedFirstNextCall = True\<rparr> = map paramValues (tl xs)"
proof (induction xs)
  case (Cons x xs)
  then show ?case by (cases xs) (simp_all add: drain.simps[of "\<lparr>it_rows = x # _, skippedFirstNextCall = True\<rparr>"] iter_Next_def iter_Values_def paramValues_def Let_def)
qed simp

lemma drain_all: "drain \<lparr>it_rows = xs, skippedFirstNextCall = False\<rparr> = map paramValues xs"
  by (cases xs) (simp_all add: drain.simps[of "\<lparr>it_rows = _, skippedFirstNextCall = False\<rparr>"] iter_Next_def iter_Values_def paramValues_def drain_rest)

lemma copy_rows_params:
  "copy_rows (map (\<lambda>it. paramValues \<lparr>OrderID = oid, Sku = SKU it, p_Quantity = Quantity it, UnitPrice = UnitPriceCents it\<rparr>) items) d
    = q_InsertOrderItems None (map (\<lambda>it. (oid, it)) items) d"
proof -
  have "List.map_filter copyItem (map (\<lambda>it. paramValues \<lparr>OrderID = oid, Sku = SKU it, p_Quantity = Quantity it, UnitPrice = UnitPriceCents it\<rparr>) items)
    = map (\<lambda>it. (oid, it)) items"
    by (induction items) (simp_all add: copyItem_def paramValues_def map_filter_simps)
  then show ?thesis by (simp add: copy_rows_def list_all_iff copyItem_def paramValues_def)
qed

section \<open>What the driver promises\<close>

text \<open>What befalls a statement: a fault, or the identifier and the time for a new row.\<close>

record answer =
  a_fault :: "pg_error option"
  a_newID :: int
  a_now :: gotime

definition reply :: "answer \<Rightarrow> stmt \<Rightarrow> val list \<Rightarrow> db \<Rightarrow> (pg_error + val list list) \<times> db" where
  "reply a st args d = (case a_fault a of Some e \<Rightarrow> (Inl e, d) | None \<Rightarrow> sql st args (a_newID a) (a_now a) d)"

definition first_row :: "(pg_error + val list list) \<times> db \<Rightarrow> (pg_error + val list) \<times> db" where
  "first_row p =
     (case p of
        (Inl e, d) \<Rightarrow> (Inl e, d)
      | (Inr rows, d) \<Rightarrow> (case rows of [] \<Rightarrow> Inl ErrNoRows | v # _ \<Rightarrow> Inr v, d))"

definition copy_reply :: "answer \<Rightarrow> iteratorForInsertOrderItems \<Rightarrow> db \<Rightarrow> (pg_error + nat) \<times> db" where
  "copy_reply a it d =
     (case a_fault a of
        Some e \<Rightarrow> (Inl e, d)
      | None \<Rightarrow>
          (case iter_Err it of
             Some e \<Rightarrow> (Inl e, d)
           | None \<Rightarrow> (case copy_rows (drain it) d of Inl e \<Rightarrow> (Inl e, d) | Inr d' \<Rightarrow> (Inr (length (drain it)), d'))))"

text \<open>\<open>tables\<close> are the tables a connection sees, \<open>sent\<close> counts its statements, answered by \<open>world\<close>. A result set has rows that are
  \<open>pending\<close> and perhaps an error that comes after them: a failing statement may return some of its rows before.\<close>

locale pgx_conn =
  fixes q :: "('s, 'r) dbtx" and tables :: "'s \<Rightarrow> db" and idle :: "'s \<Rightarrow> bool" and sent :: "'s \<Rightarrow> nat" and world :: "nat \<Rightarrow> answer"
    and pending :: "'r \<Rightarrow> val list list" and broken :: "'r \<Rightarrow> pg_error option"
  assumes QueryRow: "idle s \<Longrightarrow> tx_QueryRow q st args s = (res, s') \<Longrightarrow>
      idle s' \<and> sent s' = Suc (sent s) \<and> (res, tables s') = first_row (reply (world (sent s)) st args (tables s))"
    and Query: "idle s \<Longrightarrow> tx_Query q st args s = (rs, s') \<Longrightarrow>
      sent s' = Suc (sent s) \<and> tables s' = snd (reply (world (sent s)) st args (tables s)) \<and>
      (case rs of
         Inl e \<Rightarrow> idle s' \<and> fst (reply (world (sent s)) st args (tables s)) = Inl e
       | Inr r \<Rightarrow>
           (case fst (reply (world (sent s)) st args (tables s)) of
              Inr rows \<Rightarrow> pending r = rows \<and> broken r = None
            | Inl e \<Rightarrow> broken r = Some e \<and>
                (pending r = [] \<or>
                 (\<exists>k rows. fst (sql st args (a_newID (world (sent s))) (a_now (world (sent s))) (tables s)) = Inr rows \<and> pending r = take k rows))))"
    and Next: "rows_Next q r s = (b, r', s') \<Longrightarrow>
      tables s' = tables s \<and> sent s' = sent s \<and>
      (case pending r of
         [] \<Rightarrow> \<not> b \<and> rows_Err q r' = broken r
       | v # vs \<Rightarrow> b \<and> rows_Values q r' = v \<and> pending r' = vs \<and> broken r' = broken r)"
    and Close: "idle (rows_Close q r s) \<and> tables (rows_Close q r s) = tables s \<and> sent (rows_Close q r s) = sent s"
    and CopyFrom: "idle s \<Longrightarrow> tx_CopyFrom q ''order_items'' [''order_id'', ''sku'', ''quantity'', ''unit_price_cents''] it s = (cnt, s') \<Longrightarrow>
      idle s' \<and> sent s' = Suc (sent s) \<and> (cnt, tables s') = copy_reply (world (sent s)) it (tables s)"
begin

lemma query_one_reply:
  assumes "idle s" and "query_one q scan st args s = (res, s')"
  shows "idle s' \<and> sent s' = Suc (sent s) \<and>
    (res, tables s') = (case first_row (reply (world (sent s)) st args (tables s)) of (Inl e, d) \<Rightarrow> (Inl e, d) | (Inr v, d) \<Rightarrow> (scan v, d))"
proof -
  obtain x s1 where x: "tx_QueryRow q st args s = (x, s1)" by force
  from QueryRow[OF assms(1) x] assms(2) x show ?thesis by (cases x) (auto simp: query_one_def split: prod.splits sum.splits)
qed

text \<open>The loop ends, with all the rows or with the error that came after them.\<close>

lemma collect_rows:
  assumes "pending r = map enc xs" and "\<forall>x\<in>set xs. scan (enc x) = Inr (dec x)"
  shows "\<exists>r' s'. collect q scan items r s = Some (case broken r of Some e \<Rightarrow> Inl e | None \<Rightarrow> Inr (items @ map dec xs), r', s')
    \<and> tables s' = tables s \<and> sent s' = sent s"
  using assms
proof (induction xs arbitrary: items r s)
  case Nil
  obtain b r1 s1 where n: "rows_Next q r s = (b, r1, s1)" by (metis prod_cases3)
  from Next[OF n] Nil n show ?case by (simp add: collect.simps[of q scan items r s] split: option.split)
next
  case (Cons x xs)
  obtain b r1 s1 where n: "rows_Next q r s = (b, r1, s1)" by (metis prod_cases3)
  from Next[OF n] Cons.prems have r1: "b" "rows_Values q r1 = enc x" "pending r1 = map enc xs" "broken r1 = broken r" "tables s1 = tables s" "sent s1 = sent s"
    by simp_all
  have "collect q scan items r s = collect q scan (items @ [dec x]) r1 s1"
    using n r1(1,2) Cons.prems(2) by (simp add: collect.simps[of q scan items r s])
  moreover have "items @ map dec (x # xs) = (items @ [dec x]) @ map dec xs" by simp
  moreover have "\<forall>x\<in>set xs. scan (enc x) = Inr (dec x)" using Cons.prems(2) by simp
  note Cons.IH[OF r1(3) this, of "items @ [dec x]" s1]
  ultimately show ?case unfolding r1(4-6) by (simp only:)
qed

lemma query_many_rows:
  assumes "idle s" and "fst (sql st args (a_newID (world (sent s))) (a_now (world (sent s))) (tables s)) = Inr (map enc xs)"
    and "\<And>d. snd (sql st args (a_newID (world (sent s))) (a_now (world (sent s))) d) = d"
    and "\<forall>x\<in>set xs. scan (enc x) = Inr (dec x)"
  shows "\<exists>s'. query_many q scan st args s = Some (case a_fault (world (sent s)) of Some e \<Rightarrow> Inl e | None \<Rightarrow> Inr (map dec xs), s')
    \<and> idle s' \<and> tables s' = tables s \<and> sent s' = Suc (sent s)"
proof -
  obtain x s1 where x: "tx_Query q st args s = (x, s1)" by force
  note law = Query[OF assms(1) x]
  have t: "tables s1 = tables s" using law assms(3) by (auto simp: reply_def split: option.splits)
  show ?thesis
  proof (cases x)
    case (Inl e)
    then show ?thesis using law x t assms(2) by (auto simp: query_many_def reply_def split: option.splits)
  next
    case (Inr r)
    have "\<exists>ys. set ys \<subseteq> set xs \<and> pending r = map enc ys \<and> (a_fault (world (sent s)) = None \<longrightarrow> ys = xs) \<and> broken r = a_fault (world (sent s))"
    proof (cases "a_fault (world (sent s))")
      case None
      then show ?thesis using law Inr assms(2) by (auto simp: reply_def)
    next
      case (Some e)
      then have b: "broken r = Some e" and "pending r = [] \<or> (\<exists>k. pending r = take k (map enc xs))" using law Inr assms(2) by (auto simp: reply_def)
      then obtain k where "pending r = map enc (take k xs)" by (force simp: take_map intro: that[of 0])
      then show ?thesis using b Some by (intro exI[of _ "take k xs"]) (simp add: set_take_subset)
    qed
    then obtain ys where ys: "set ys \<subseteq> set xs" "pending r = map enc ys" "a_fault (world (sent s)) = None \<longrightarrow> ys = xs" "broken r = a_fault (world (sent s))"
      by (elim exE conjE) (rule that, assumption+)
    obtain r2 s2 where c: "collect q scan [] r s1 = Some (case broken r of Some e \<Rightarrow> Inl e | None \<Rightarrow> Inr (map dec ys), r2, s2)"
      "tables s2 = tables s1" "sent s2 = sent s1"
      using collect_rows[OF ys(2), of scan dec "[]" s1] subsetD[OF ys(1)] assms(4) unfolding append_Nil by blast
    show ?thesis using c ys(3,4) Close[of r2 s2] law x t Inr by (auto simp: query_many_def split: option.splits)
  qed
qed

lemma lockUser_reply:
  assumes "idle s" and "Queries_LockUser q i s = (res, s')"
  shows "idle s' \<and> sent s' = Suc (sent s) \<and> tables s' = tables s \<and> res = map_sum id u_ID (q_GetUser (a_fault (world (sent s))) i (tables s))"
  using query_one_reply[OF assms(1) assms(2)[unfolded Queries_LockUser_def]]
  by (auto simp: reply_def sql_lockUser_def first_row_def one_row_def q_GetUser_def split: option.splits)

lemma getUser_reply:
  assumes "idle s" and "Queries_GetUser q i s = (res, s')"
  shows "idle s' \<and> sent s' = Suc (sent s) \<and> tables s' = tables s \<and> res = q_GetUser (a_fault (world (sent s))) i (tables s)"
  using query_one_reply[OF assms(1) assms(2)[unfolded Queries_GetUser_def]]
  by (auto simp: reply_def sql_getUser_def first_row_def one_row_def q_GetUser_def split: option.splits)

lemma createOrder_reply:
  assumes "idle s" and "Queries_CreateOrder q userID s = (res, s')" and a: "a = world (sent s)"
  shows "idle s' \<and> sent s' = Suc (sent s) \<and>
    (case q_CreateOrder (a_fault a) (a_newID a) (a_now a) userID (tables s) of
       Inl e \<Rightarrow> res = Inl e
     | Inr (r, d) \<Rightarrow> res = Inr r \<and> tables s' = d)"
  using query_one_reply[OF assms(1) assms(2)[unfolded Queries_CreateOrder_def]]
  by (auto simp: a reply_def sql_createOrder_def first_row_def one_row_def q_CreateOrder_def Let_def orderFromRow_def split: option.splits)

lemma updateOrderTotal_reply:
  assumes "idle s" and "Queries_UpdateOrderTotal q i s = (res, s')"
  shows "idle s' \<and> sent s' = Suc (sent s) \<and>
    (case q_UpdateOrderTotal (a_fault (world (sent s))) i (tables s) of
       Inl e \<Rightarrow> res = Inl e
     | Inr (r, d) \<Rightarrow> res = Inr (orderFromRow r) \<and> tables s' = d)"
proof -
  note r = query_one_reply[OF assms(1) assms(2)[unfolded Queries_UpdateOrderTotal_def]]
  show ?thesis
  proof (cases "a_fault (world (sent s))")
    case None
    then show ?thesis using r
      by (cases "q_UpdateOrderTotal None i (tables s)") (auto simp: reply_def sql_updateOrderTotal_def first_row_def one_row_def split: if_splits)
  next
    case (Some e)
    then show ?thesis using r by (auto simp: reply_def first_row_def q_UpdateOrderTotal_def Let_def)
  qed
qed

lemma insertOrderItems_reply:
  assumes "idle s"
    and "Queries_InsertOrderItems q (map (\<lambda>it. \<lparr>OrderID = oid, Sku = SKU it, p_Quantity = Quantity it, UnitPrice = UnitPriceCents it\<rparr>) items) s = (res, s')"
  shows "idle s' \<and> sent s' = Suc (sent s) \<and>
    (case q_InsertOrderItems (a_fault (world (sent s))) (map (\<lambda>it. (oid, it)) items) (tables s) of
       Inl e \<Rightarrow> res = Inl e
     | Inr d \<Rightarrow> res = Inr (length items) \<and> tables s' = d)"
proof -
  note r = CopyFrom[OF assms(1) assms(2)[unfolded Queries_InsertOrderItems_def]]
  show ?thesis
  proof (cases "a_fault (world (sent s))")
    case None
    then show ?thesis using r copy_rows_params[of oid items "tables s"]
      by (auto simp: copy_reply_def iter_Err_def drain_all comp_def split: sum.splits)
  next
    case (Some e)
    then show ?thesis using r by (auto simp: copy_reply_def q_InsertOrderItems_def)
  qed
qed

text \<open>The transaction does what its statements mean, each answered in turn.\<close>

lemma placeOrder_refines:
  assumes "idle s" and "placeOrder q userID items s = (res, s')"
  shows "idle s' \<and>
    (case createOrderTx (\<lambda>k. a_fault (world (sent s + k))) (a_newID (world (Suc (sent s)))) (a_now (world (Suc (sent s)))) userID items (tables s) of
       Inl e \<Rightarrow> res = Inl e
     | Inr (order, d) \<Rightarrow> res = Inr order \<and> tables s' = d)"
proof -
  let ?a = "world (Suc (sent s))"
  obtain x1 s1 where l: "Queries_LockUser q userID s = (x1, s1)" by force
  note l' = lockUser_reply[OF assms(1) l]
  show ?thesis
  proof (cases "q_GetUser (a_fault (world (sent s))) userID (tables s)")
    case (Inl e)
    then show ?thesis using assms(2) l l' by (auto simp: placeOrder_def createOrderTx_def)
  next
    case (Inr u)
    obtain x2 s2 where c: "Queries_CreateOrder q userID s1 = (x2, s2)" by force
    have i1: "idle s1" and r1: "sent s1 = Suc (sent s)" and t1: "tables s1 = tables s" and x1: "x1 = Inr (u_ID u)" using l' Inr by simp_all
    note c' = createOrder_reply[OF i1 c refl, unfolded r1 t1]
    show ?thesis
    proof (cases "q_CreateOrder (a_fault ?a) (a_newID ?a) (a_now ?a) userID (tables s)")
      case (Inl e)
      then show ?thesis using assms(2) l x1 c c' Inr by (auto simp: placeOrder_def createOrderTx_def)
    next
      case (Inr p)
      obtain row d1 where p: "p = (row, d1)" by force
      have x2: "x2 = Inr row" "tables s2 = d1" "idle s2" "sent s2 = Suc (Suc (sent s))" using c' Inr p by simp_all
      obtain x3 s3 where n: "Queries_InsertOrderItems q
        (map (\<lambda>it. \<lparr>OrderID = o_ID row, Sku = SKU it, p_Quantity = Quantity it, UnitPrice = UnitPriceCents it\<rparr>) items) s2 = (x3, s3)" by force
      note n' = insertOrderItems_reply[OF x2(3) n, unfolded x2]
      note tx = \<open>q_GetUser (a_fault (world (sent s))) userID (tables s) = Inr u\<close> Inr[unfolded p]
      show ?thesis
      proof (cases "q_InsertOrderItems (a_fault (world (Suc (Suc (sent s))))) (map (\<lambda>it. (o_ID row, it)) items) d1")
        case (Inl e)
        then show ?thesis using assms(2) l x1 c x2 n n' tx by (auto simp: placeOrder_def createOrderTx_def Let_def)
      next
        case (Inr d2)
        have x3: "x3 = Inr (length items)" "tables s3 = d2" "idle s3" "sent s3 = Suc (Suc (Suc (sent s)))" using n' Inr by simp_all
        obtain x4 s4 where u: "Queries_UpdateOrderTotal q (o_ID row) s3 = (x4, s4)" by force
        note u' = updateOrderTotal_reply[OF x3(3) u, unfolded x3]
        have run: "placeOrder q userID items s = (case x4 of Inl e \<Rightarrow> (Inl (TxPg e), s4) | Inr row2 \<Rightarrow> (Inr ((orderFromRow row2)\<lparr>o_Items := items\<rparr>), s4))"
          using l x1 c x2(1) n x3(1) u by (simp add: placeOrder_def Let_def)
        show ?thesis
          using assms(2) run u' tx Inr
          by (cases "q_UpdateOrderTotal (a_fault (world (Suc (Suc (Suc (sent s)))))) (o_ID row) d2")
            (auto simp: createOrderTx_def eval_nat_numeral)
      qed
    qed
  qed
qed

lemma listing_reply:
  assumes "idle s"
  shows "\<exists>s'. (case after of
        None \<Rightarrow> Queries_ListOrders q userID rowLimit s
      | Some c \<Rightarrow> Queries_ListOrdersAfter q userID (c_CreatedAt c) (c_ID c) rowLimit s) =
      Some (map_sum id (map orderFromRow) (case after of
          None \<Rightarrow> q_ListOrders (a_fault (world (sent s))) userID rowLimit (tables s)
        | Some c \<Rightarrow> q_ListOrdersAfter (a_fault (world (sent s))) userID c rowLimit (tables s)), s')
    \<and> idle s' \<and> tables s' = tables s \<and> sent s' = Suc (sent s)"
proof -
  have d: "\<forall>x\<in>set xs. scanOrder (orderRow x) = Inr (orderFromRow x)" for xs by simp
  note many = query_many_rows[OF assms, where scan = scanOrder and enc = orderRow and dec = orderFromRow, OF _ _ d]
  show ?thesis
  proof (cases after)
    case None
    show ?thesis
      using many[of listOrders "[VInt userID, VInt rowLimit]" "take (nat rowLimit) (newest_first (filter (\<lambda>r. o_UserID r = userID) (t_orders (tables s))))"]
      by (cases "a_fault (world (sent s))") (simp_all add: None Queries_ListOrders_def sql_listOrders_def q_ListOrders_def)
  next
    case (Some c)
    have c: "\<lparr>c_CreatedAt = c_CreatedAt c, c_ID = c_ID c\<rparr> = c" by simp
    show ?thesis
      using many[of listOrdersAfter "[VInt userID, VTime (c_CreatedAt c), VInt (c_ID c), VInt rowLimit]"
          "take (nat rowLimit) (newest_first (filter (\<lambda>r. o_UserID r = userID \<and> before_pos c r) (t_orders (tables s))))"]
      by (cases "a_fault (world (sent s))") (simp_all add: Some c Queries_ListOrdersAfter_def sql_listOrdersAfter_def q_ListOrdersAfter_def)
  qed
qed

lemma fetchOrders_refines:
  assumes "idle s"
  shows "\<exists>s'. fetchOrders q userID after limit0 s =
      Some (ListOrders (\<lambda>k. a_fault (world (sent s + k))) userID after limit0 (tables s), s')
    \<and> idle s' \<and> tables s' = tables s"
proof -
  obtain x s1 where g: "Queries_GetUser q userID s = (x, s1)" by force
  note g' = getUser_reply[OF assms g]
  then have i1: "idle s1" and r1: "sent s1 = Suc (sent s)" and t1: "tables s1 = tables s" by simp_all
  define limit where "limit = min (if limit0 \<le> 0 then DefaultPageSize else limit0) MaxPageSize"
  have pos: "0 < limit" by (auto simp: limit_def DefaultPageSize_def MaxPageSize_def)
  show ?thesis
  proof (cases "q_GetUser (a_fault (world (sent s))) userID (tables s)")
    case (Inl e)
    then show ?thesis using g g' by (auto simp: fetchOrders_def fetchUser_def ListOrders_def GetUser_def)
  next
    case (Inr u)
    have fetched: "fetchUser q userID s = (Inr u, s1)" "GetUser (a_fault (world (sent s))) userID (tables s) = Inr u"
      using g g' Inr by (simp_all add: fetchUser_def GetUser_def)
    let ?l = "case after of
          None \<Rightarrow> q_ListOrders (a_fault (world (Suc (sent s)))) userID (limit + 1) (tables s)
        | Some c \<Rightarrow> q_ListOrdersAfter (a_fault (world (Suc (sent s)))) userID c (limit + 1) (tables s)"
    obtain s2 where l: "(case after of
        None \<Rightarrow> Queries_ListOrders q userID (limit + 1) s1
      | Some c \<Rightarrow> Queries_ListOrdersAfter q userID (c_CreatedAt c) (c_ID c) (limit + 1) s1) = Some (map_sum id (map orderFromRow) ?l, s2)"
      "idle s2" "tables s2 = tables s"
      using listing_reply[where after = after and userID = userID and rowLimit = "limit + 1", OF i1, unfolded r1 t1] by blast
    define page where "page rows = (let rows1 = (if limit < int (length rows) then take (nat limit) rows else rows);
         nxt = (if limit < int (length rows) then Some \<lparr>c_CreatedAt = o_CreatedAt (last rows1), c_ID = o_ID (last rows1)\<rparr> else None)
       in \<lparr>Orders = map orderFromRow rows1, Next = nxt\<rparr>)" for rows
    have page: "page (map orderFromRow rows) = page rows" for rows
    proof (cases "limit < int (length rows)")
      case True
      then have "take (nat limit) rows \<noteq> []" using pos by (auto simp: take_eq_Nil)
      from last_map[OF this, of orderFromRow]
      have "last (take (nat limit) (map orderFromRow rows)) = orderFromRow (last (take (nat limit) rows))" by (simp only: take_map)
      then show ?thesis using True by (simp add: page_def Let_def take_map comp_def)
    qed (simp add: page_def comp_def)
    have "fetchOrders q userID after limit0 s = map_option (\<lambda>(res, s2). (case res of Inl e \<Rightarrow> (Inl Internal, s2) | Inr rows \<Rightarrow> (Inr (page rows), s2)))
        (case after of
           None \<Rightarrow> Queries_ListOrders q userID (limit + 1) s1
         | Some c \<Rightarrow> Queries_ListOrdersAfter q userID (c_CreatedAt c) (c_ID c) (limit + 1) s1)"
      by (simp only: fetchOrders_def fetched(1) prod.case sum.case Let_def limit_def page_def)
    moreover have e: "sent s + 0 = sent s" "sent s + 1 = Suc (sent s)" by simp_all
    have "ListOrders (\<lambda>k. a_fault (world (sent s + k))) userID after limit0 (tables s) =
        (case ?l of Inl e \<Rightarrow> Inl Internal | Inr rows \<Rightarrow> Inr (page rows))"
      by (simp only: ListOrders_def e fetched(2) sum.case Let_def limit_def page_def)
    ultimately have "fetchOrders q userID after limit0 s = Some (ListOrders (\<lambda>k. a_fault (world (sent s + k))) userID after limit0 (tables s), s2)"
      unfolding l(1) by (cases ?l) (simp_all add: page)
    then show ?thesis using l(2,3) by blast
  qed
qed

end

section \<open>Connections over the tables\<close>

text \<open>A connection that answers over the tables, one result set at a time. \<open>late k\<close> tells when the fault of statement \<open>k\<close>
  shows: at once or after some rows.\<close>

record pgconn =
  pc_db :: db
  pc_busy :: bool
  pc_ran :: nat

record resultset =
  rs_rows :: "val list list"
  rs_cur :: "val list"
  rs_err :: "pg_error option"

definition pg_Query :: "(nat \<Rightarrow> answer) \<Rightarrow> (nat \<Rightarrow> nat option) \<Rightarrow> stmt \<Rightarrow> val list \<Rightarrow> pgconn \<Rightarrow> (pg_error + resultset) \<times> pgconn" where
  "pg_Query world late st args s =
     (let a = world (pc_ran s);
          (res, d) = reply a st args (pc_db s);
          s1 = s\<lparr>pc_db := d, pc_ran := Suc (pc_ran s)\<rparr>
      in if pc_busy s then (Inl OtherPg, s)
         else case res of
                Inr rows \<Rightarrow> (Inr \<lparr>rs_rows = rows, rs_cur = [], rs_err = None\<rparr>, s1\<lparr>pc_busy := True\<rparr>)
              | Inl e \<Rightarrow>
                  (case late (pc_ran s) of
                     None \<Rightarrow> (Inl e, s1)
                   | Some k \<Rightarrow>
                       (Inr \<lparr>rs_rows = (case fst (sql st args (a_newID a) (a_now a) (pc_db s)) of Inr rows \<Rightarrow> take k rows | Inl _ \<Rightarrow> []),
                             rs_cur = [], rs_err = Some e\<rparr>, s1\<lparr>pc_busy := True\<rparr>)))"

definition pg_Next :: "resultset \<Rightarrow> pgconn \<Rightarrow> bool \<times> resultset \<times> pgconn" where
  "pg_Next r s =
     (case rs_rows r of
        [] \<Rightarrow> (False, r, s\<lparr>pc_busy := False\<rparr>)
      | v # vs \<Rightarrow> (True, r\<lparr>rs_rows := vs, rs_cur := v\<rparr>, s))"

definition pg_driver :: "(nat \<Rightarrow> answer) \<Rightarrow> (nat \<Rightarrow> nat option) \<Rightarrow> (pgconn, resultset) dbtx" where
  "pg_driver world late =
     \<lparr>tx_QueryRow = (\<lambda>st args s.
        if pc_busy s then (Inl OtherPg, s)
        else (case first_row (reply (world (pc_ran s)) st args (pc_db s)) of (res, d) \<Rightarrow> (res, s\<lparr>pc_db := d, pc_ran := Suc (pc_ran s)\<rparr>))),
      tx_Query = pg_Query world late,
      rows_Next = pg_Next,
      rows_Values = rs_cur,
      rows_Err = rs_err,
      rows_Close = (\<lambda>r s. s\<lparr>pc_busy := False\<rparr>),
      tx_CopyFrom = (\<lambda>tbl cols it s.
        if pc_busy s then (Inl OtherPg, s)
        else (case copy_reply (world (pc_ran s)) it (pc_db s) of (res, d) \<Rightarrow> (res, s\<lparr>pc_db := d, pc_ran := Suc (pc_ran s)\<rparr>)))\<rparr>"

interpretation pg: pgx_conn "pg_driver world late" pc_db "\<lambda>s. \<not> pc_busy s" pc_ran world rs_rows rs_err
proof
  fix s st args rs s'
  assume "\<not> pc_busy s" "tx_Query (pg_driver world late) st args s = (rs, s')"
  then show "pc_ran s' = Suc (pc_ran s) \<and> pc_db s' = snd (reply (world (pc_ran s)) st args (pc_db s)) \<and>
      (case rs of
         Inl e \<Rightarrow> \<not> pc_busy s' \<and> fst (reply (world (pc_ran s)) st args (pc_db s)) = Inl e
       | Inr r \<Rightarrow>
           (case fst (reply (world (pc_ran s)) st args (pc_db s)) of
              Inr rows \<Rightarrow> rs_rows r = rows \<and> rs_err r = None
            | Inl e \<Rightarrow> rs_err r = Some e \<and>
                (rs_rows r = [] \<or>
                 (\<exists>k rows. fst (sql st args (a_newID (world (pc_ran s))) (a_now (world (pc_ran s))) (pc_db s)) = Inr rows \<and> rs_rows r = take k rows))))"
    by (cases "reply (world (pc_ran s)) st args (pc_db s)")
      (auto simp: pg_driver_def pg_Query_def Let_def split: sum.splits option.splits)
qed (auto simp: pg_driver_def pg_Next_def split: prod.splits list.splits if_splits)

section \<open>Property\<close>

text \<open>(C38) The generated query functions add nothing and lose nothing: over any driver that keeps the laws of \<open>pgx_conn\<close>, the
  store's transaction and its listing give exactly the results that the statements mean, whatever statement
  fails, also in the middle of a result set, whose rows are then not returned. The copied items are those of the order,
  each once. Every result set is read to its end or closed: the connection is idle again on every path.\<close>

theorem store_over_queries_refines:
  assumes "pgx_conn q tables idle sent world pending broken" and "idle s"
  shows "(\<exists>res s'. placeOrder q userID items s = (res, s') \<and> idle s'
      \<and> (case createOrderTx (\<lambda>k. a_fault (world (sent s + k))) (a_newID (world (Suc (sent s)))) (a_now (world (Suc (sent s)))) userID items (tables s) of
           Inl e \<Rightarrow> res = Inl e
         | Inr (order, d) \<Rightarrow> res = Inr order \<and> tables s' = d))
    \<and> (\<exists>s'. fetchOrders q userID after limit0 s = Some (ListOrders (\<lambda>k. a_fault (world (sent s + k))) userID after limit0 (tables s), s')
      \<and> idle s' \<and> tables s' = tables s)"
  using pgx_conn.placeOrder_refines[OF assms] pgx_conn.fetchOrders_refines[OF assms] by (metis surj_pair)

definition demo_conn :: pgconn where
  "demo_conn = \<lparr>pc_db = \<lparr>t_users = [\<lparr>u_ID = 7, u_Email = ''a@b'', u_Name = ''a'', u_CreatedAt = 0\<rparr>], t_orders = [], t_items = []\<rparr>, pc_busy = False, pc_ran = 0\<rparr>"

definition demo_world :: "nat \<Rightarrow> answer" where
  "demo_world k = \<lparr>a_fault = None, a_newID = 4, a_now = 100\<rparr>"

theorem store_over_queries_refines_witness:
  "(\<exists>s'. placeOrder (pg_driver demo_world (\<lambda>k. None)) 7 [\<lparr>SKU = ''x'', Quantity = 2, UnitPriceCents = 5\<rparr>, \<lparr>SKU = ''y'', Quantity = 1, UnitPriceCents = 3\<rparr>] demo_conn
      = (Inr \<lparr>o_ID = 4, o_UserID = 7, TotalCents = 13, o_CreatedAt = 100,
           o_Items = [\<lparr>SKU = ''x'', Quantity = 2, UnitPriceCents = 5\<rparr>, \<lparr>SKU = ''y'', Quantity = 1, UnitPriceCents = 3\<rparr>]\<rparr>, s') \<and> \<not> pc_busy s')
    \<and> (\<exists>s'. fetchOrders (pg_driver demo_world (\<lambda>k. None)) 7 None 0 demo_conn = Some (Inr \<lparr>Orders = [], Next = None\<rparr>, s') \<and> \<not> pc_busy s')"
proof -
  have i: "\<not> pc_busy demo_conn" by (simp add: demo_conn_def)
  note th = store_over_queries_refines[OF pg.pgx_conn_axioms[of demo_world "\<lambda>k. None"] i, of 7
      "[\<lparr>SKU = ''x'', Quantity = 2, UnitPriceCents = 5\<rparr>, \<lparr>SKU = ''y'', Quantity = 1, UnitPriceCents = 3\<rparr>]" None 0]
  show ?thesis using th
    by (auto simp: demo_conn_def demo_world_def createOrderTx_def q_GetUser_def q_CreateOrder_def q_InsertOrderItems_def item_checks_def
        q_UpdateOrderTotal_def Let_def in64_iff orderFromRow_def ListOrders_def GetUser_def q_ListOrders_def newest_first_def DefaultPageSize_def MaxPageSize_def)
qed

end
