(* ===== verification/Spec2Isabelle.thy ===== *)
theory Spec2Isabelle
  imports Go_Prelude Lru Lru_Proxy Token_Bucket Sliding_Window Ratelimit_Http Dispatch Delivery
    Inventory Inventory_Rpc Pipeline Kafka_Consumer Clickhouse_Sink Task_Browser Text_Scan Word_Freq Notes Cron_Worker Order_Cursor Order_Service
    Service_Run Http_Server Clickhouse_Driver Sink_Service Eventsink_Service Pool_Service Proxy_Flights Cache_Service Consumer_Service
    Notes_Service Order_Server Inventory_Service Cron_Service Ratelimit_Service
    Calendar Json Task_File Task_App Word_Commands Order_Queries
begin

text \<open>
  Verification of the services of the go-reading repository.

  \<^bold>\<open>The programs.\<close> The repository holds twelve independent Go programs under \<^verbatim>\<open>src/apps\<close>, from a command line tool to
  services over Kafka, ClickHouse and PostgreSQL. They share no code, but several shapes come back: a component with its own
  state behind a mutex, an HTTP or RPC layer that only knows an interface of it, retries with growing delays, and loops
  that collect batches and acknowledge them. Each program has one or more theories here, importing \<open>Go_Prelude\<close>; the
  layer above a component is verified from the laws of its interface, stated as a locale and interpreted on the
  model of the component that the program plugs in.

  \<^bold>\<open>Shared theories.\<close>
  \<^item> \<open>Go_Prelude\<close>: 64-bit arithmetic with wrap-around and saturation, durations and times (integers of nanoseconds), decimal
    formatting and parsing with its round trip, the sizes for which \<open>make\<close> does not panic, the errors of a context, lemmas on lists.
  \<^item> \<open>Float64\<close>: rounding to \<open>float64\<close>, as far as the rate limiter and the shares of words compute with it.
  \<^item> \<open>At_Least_Once\<close>: logs of effects of a Kafka consumer, when they are safe, and the locale \<open>batch_flush\<close> of a flush
    that keeps them so; interpreted in \<open>Kafka_Consumer\<close> (app 07) and \<open>Pipeline\<close> (app 12).
  \<^item> \<open>Service_Run\<close>: what the \<^verbatim>\<open>main\<close> packages share: reading the environment, joined errors, a calculus of traces in which resources
    are opened, used and closed, and the answers of a schema migration.
  \<^item> \<open>Http_Server\<close>: requests that are accepted, handled and answered concurrently, and when the answers are those of some
    sequential order (\<open>linear\<close>), one that respects real time (\<open>real_time\<close>).
  \<^item> \<open>Clickhouse_Driver\<close>: one batch insert, and the blocks of a table as repetitions of flushed batches (apps 11 and 12).
  \<^item> \<open>Text_Scan\<close>: UTF-8, the scanner of \<^verbatim>\<open>bufio\<close> and the split functions for lines and words; the locale \<open>split_function\<close> says
    when the tokens do not depend on how the input arrives.
  \<^item> \<open>Calendar\<close>: dates and days, with the formats of package \<^verbatim>\<open>time\<close> that the code uses. \<open>Json\<close>: the texts \<^verbatim>\<open>encoding/json\<close> writes
    and reads, as a lexer, a parser and a printer, with the round trip (apps 01 and 10).

  \<^bold>\<open>Which theory models what.\<close>
  \<^item> 01 \<^verbatim>\<open>cli-wordfreq\<close>: \<open>Text_Scan\<close> (\<^verbatim>\<open>wordfreq/scan.go\<close>) and \<open>Word_Freq\<close> (\<^verbatim>\<open>input\<close>, \<^verbatim>\<open>wordfreq/count.go\<close>, \<^verbatim>\<open>dedupe\<close>), \<open>Word_Commands\<close>
    (\<^verbatim>\<open>cli\<close>, \<^verbatim>\<open>cmd/wordfreq\<close>: flags, report as JSON and as a table). The counts and the lines printed are those of a reference definition on the whole text, for every way the
    reads are cut and every order in which concurrent inputs finish.
  \<^item> 02 \<^verbatim>\<open>http-notes\<close>: \<open>Notes\<close>. The store, the handlers and the middleware chain; from the locale \<open>note_store\<close> follows that the API
    refines a map of notes, that a failed request changes nothing, and that a created note reads back. \<open>Notes_Service\<close>
    (\<^verbatim>\<open>cmd/http-notes\<close>): the running service is linearizable with the replies of the specification (\<open>spec_reply\<close>: status, headers,
    body), also across its shutdown.
  \<^item> 03 \<^verbatim>\<open>ratelimiter\<close>: \<open>Ratelimit_Store\<close>, \<open>Token_Bucket\<close>, \<open>Sliding_Window\<close>, \<open>Ratelimit_Http\<close>. Rate bounds over any interval,
    exactness of the retry hints, and, from the locale \<open>limiter_state\<close>, that evicting idle keys is invisible; the sliding
    window is shown to admit fewer than twice its limit in a trailing period, with the exact bound, and that it can admit more than
    the limit, which its comment denies.
    \<open>Ratelimit_Service\<close> (\<^verbatim>\<open>internal/server\<close>, \<^verbatim>\<open>internal/config\<close>, \<^verbatim>\<open>cmd/ratelimiter\<close>): the rates of the running service, per client.
  \<^item> 04 \<^verbatim>\<open>worker-pool\<close>: \<open>Dispatch\<close> (delays, queue, delivery) and \<open>Delivery\<close> (recorder, API, the pool as a step relation, locale
    \<open>delivery_backend\<close>). Accepted deliveries are accounted for in every interleaving and the pool drains. \<open>Pool_Service\<close>
    (\<^verbatim>\<open>cmd/worker-pool\<close>): when it panics (a channel that cannot be made), and that the shutdown ends and loses no delivery.
  \<^item> 05 \<^verbatim>\<open>lru-cache\<close>: \<open>Lru\<close> and \<open>Lru_Proxy\<close>. The cache refines a list in order of recency; the proxy is verified from the
    locale \<open>ttl_cache\<close>. \<open>Proxy_Flights\<close> has the requests that overlap, as steps over the cache and the flights (locale
    \<open>timed_cache\<close>), and \<open>Cache_Service\<close> the command: only live answers are served and every request is answered.
  \<^item> 06 \<^verbatim>\<open>pg-service\<close>: \<open>Order_Cursor\<close> (base64, cursor tokens) and \<open>Order_Service\<close> (tables, statements, transactions, store, API,
    locale \<open>order_store\<close>). Following the cursors lists every order once; placing an order is atomic. \<open>Order_Server\<close>
    (\<^verbatim>\<open>cmd/pg-service\<close>, \<^verbatim>\<open>db.go\<close>, routes and client addresses): the books of the running service add up, and on every exit of \<open>run\<close> the pool is
    closed. \<open>Order_Queries\<close>
    (\<^verbatim>\<open>db/sqlc\<close>, locale \<open>pgx_conn\<close>): the store over the query functions and a driver does what its statements mean.
  \<^item> 07 \<^verbatim>\<open>kafka-consumer\<close>: \<open>Kafka_Consumer\<close>; 12 \<^verbatim>\<open>eventsink\<close>: \<open>Pipeline\<close>. No polled record is lost when offsets are
    committed or a rebalance is allowed; batches are bounded, retries end. \<open>Consumer_Service\<close> and \<open>Eventsink_Service\<close> (the
    commands, the warehouse, the ledger and the health endpoint): a clean exit loses nothing; app 07 panics only for a batch that
    cannot be made.
  \<^item> 08 \<^verbatim>\<open>grpc-service\<close>: \<open>Inventory\<close> and \<open>Inventory_Rpc\<close> (locale \<open>inventory_backend\<close>). Stock is conserved (the
    reserved level modulo \<open>2 ^ 64\<close>, exactly where the seed fits), reservations are idempotent, and a client that repeats a call, replies
    lost or not, reserves once. \<open>Inventory_Service\<close> (\<^verbatim>\<open>server.go\<close>, \<^verbatim>\<open>cmd/inventory\<close>): the same for calls that overlap,
    from the seed to the graceful stop.
  \<^item> 09 \<^verbatim>\<open>cron-worker\<close>: \<open>Cron_Worker\<close>. Lock keys (FNV over 64-bit words), the runner, the three jobs on tables, and many instances
    as a step relation: mutual exclusion while no connection is lost, release of the lock on every path, termination
    and exactness of the purge. \<open>Cron_Service\<close> (\<^verbatim>\<open>scheduler.go\<close>, \<^verbatim>\<open>migrations.go\<close>, \<^verbatim>\<open>cmd/cron-worker\<close>): the shutdown awaits every
    run, and every run is recorded once.
  \<^item> 10 \<^verbatim>\<open>tui-app\<close>: \<open>Task_Browser\<close>. The update loop keeps list, cursor and details consistent; saving is atomic in every
    intermediate state of the file system, and what is saved loads again. \<open>Task_File\<close> has the bytes of the file (\<^verbatim>\<open>task.go\<close>,
    \<^verbatim>\<open>storage.go\<close>) and \<open>Task_App\<close> the screens (\<^verbatim>\<open>view.go\<close>, \<^verbatim>\<open>styles.go\<close>) and the command: a session saves what it shows.
  \<^item> 11 \<^verbatim>\<open>clickhouse-sink\<close>: \<open>Clickhouse_Sink\<close> (locale \<open>enqueuer\<close>). Ingest is all or nothing; accepted events are flushed in order in
    every interleaving of producers, ticks and shutdown. \<open>Sink_Service\<close> (\<^verbatim>\<open>storage.go\<close> through the locale \<open>inserter\<close>, and
    \<^verbatim>\<open>cmd/clickhouse-sink\<close>): what was accepted is in the table, and everything opened is closed.

  \<^bold>\<open>How code corresponds to definitions.\<close> A struct is a record with its fields, an enumeration a datatype, an error value a
  constructor of an error type, a fallible function a sum; a method takes the state and returns the new one. A mutex makes an
  operation one step. Names are those of the source, with a prefix where a name is taken. Integers are unbounded
  where the source cannot leave 64 bits on any input, and wrapped or saturated where it can. Goroutines are either
  steps of a relation or an argument that gives their order. The \<open>run\<close> function of a command is a function of the answers it
  gets (a record \<open>run_io\<close>) to its result and, where it holds resources, a trace of what it opened, used and closed; a
  sequence of answers or events that cannot occur gives \<open>NotAnExecution\<close>.

  \<^bold>\<open>Bounds and fuel.\<close> Loops are structural recursions or functions with a termination proof. Exceptions: \<open>purgeLoop\<close>
  (\<open>Cron_Worker\<close>) is a partial function, since the source does not end for a batch size of 0, and is shown to return for
  every size the configuration allows; \<open>follow\<close> (\<open>Order_Service\<close>) is a client with a bound on its requests, shown to
  finish with one request more than there are orders. The scanner theorems ask for inputs below the 16 MiB the
  source allows for one token. The JSON parser of \<open>Json\<close> takes fuel; twice the number of tokens is enough for any input
  (\<open>parse_fuel\<close>).

  \<^bold>\<open>Parameters.\<close> Third-party code and the outside are arguments: the answers of Kafka, ClickHouse and PostgreSQL, clocks and random
  draws, uuid, JSON decoding (outside app 10), the struct validator, Unicode tables and case mapping, and the largest sizes the
  runtime can allocate. Hypotheses on them are named in the
  theorems (a decoder that inverts the encoder, a fresh identifier, timestamps in microseconds).

  \<^bold>\<open>Not modelled.\<close> Help texts, logging other than that of app 01, metrics other than those of
  the cron runner, generated protobuf code, database drivers: they are
  calls into libraries. Running out of memory; the redirects by which \<^verbatim>\<open>ServeMux\<close> cleans a path; the error of \<^verbatim>\<open>bufio\<close> after 100 empty
  reads. A statement or a commit that fails is taken not to have happened: a connection lost while the server applies it is
  not modelled, except for the inserts of apps 11 and 12 and the calls of app 08, whose replies can be lost.
\<close>

end
